(* ===== verification/Prelude.thy ===== *)
theory Prelude
  imports Main "HOL-Library.Word"
begin

text \<open>
  The shared vocabulary of the development: the machine types of the source, the
  treatment of \<open>Result\<close> and of methods on \<open>&mut self\<close>, the slice functions of the
  standard library the source calls, and the arithmetic of decimal numerals.

  An octet (Rust \<open>u8\<close> inside a byte slice) is a \<^typ>\<open>char\<close>: Isabelle's characters
  are exactly the 256 octet values, \<open>of_char\<close> reads the number and \<open>char_of\<close> makes one.
  Counters the code keeps in a \<open>u32\<close> or \<open>u64\<close> are words of that width; a \<open>usize\<close>
  that measures something held in memory is a \<^typ>\<open>nat\<close>.
\<close>

section \<open>Machine types\<close>

type_synonym u8 = "8 word"
type_synonym u16 = "16 word"
type_synonym u32 = "32 word"
type_synonym u64 = "64 word"
type_synonym byte = char
type_synonym bytes = "char list"

text \<open>The octets that cannot be written inside a string literal.\<close>

abbreviation CR :: byte where "CR \<equiv> CHR 0x0D"
abbreviation LF :: byte where "LF \<equiv> CHR 0x0A"
abbreviation TAB :: byte where "TAB \<equiv> CHR 0x09"
abbreviation QUOT :: byte where "QUOT \<equiv> CHR 0x27"
abbreviation DQUOT :: byte where "DQUOT \<equiv> CHR 0x22"
abbreviation CRLF :: bytes where "CRLF \<equiv> [CR, LF]"

named_theorems octet_class \<open>the character classes of the source, unfolded together\<close>
named_theorems result_simps \<open>computation rules for Result-returning code\<close>

section \<open>Results and state\<close>

text \<open>
  A fallible function returns a sum, \<open>Inl\<close> the error. A fallible method on
  \<open>&mut self\<close> returns the state as well, because the source leaves its writes in place
  when it returns early. The two \<open>bind\<close>s are the question-mark operator of each kind.
\<close>

definition bind_res :: "'e + 'a \<Rightarrow> ('a \<Rightarrow> 'e + 'b) \<Rightarrow> 'e + 'b" where
  "bind_res r f = (case r of Inl e \<Rightarrow> Inl e | Inr x \<Rightarrow> f x)"

definition bind_st :: "'s \<times> ('e + 'a) \<Rightarrow> ('s \<Rightarrow> 'a \<Rightarrow> 's \<times> ('e + 'b)) \<Rightarrow> 's \<times> ('e + 'b)" where
  "bind_st r f = (case r of (s, Inl e) \<Rightarrow> (s, Inl e) | (s, Inr x) \<Rightarrow> f s x)"

definition ok_or :: "'a option \<Rightarrow> 'e \<Rightarrow> 'e + 'a" where
  "ok_or x e = (case x of None \<Rightarrow> Inl e | Some y \<Rightarrow> Inr y)"

lemma bind_res_simps [simp, result_simps]:
  "bind_res (Inl e) f = Inl e" "bind_res (Inr x) f = f x"
  by (simp_all add: bind_res_def)

lemma bind_st_simps [simp, result_simps]:
  "bind_st (s, Inl e) f = (s, Inl e)" "bind_st (s, Inr x) f = f s x"
  by (simp_all add: bind_st_def)

lemma ok_or_simps [simp, result_simps]:
  "ok_or None e = Inl e" "ok_or (Some y) e = Inr y"
  by (simp_all add: ok_or_def)

lemma bind_res_Inr_iff: "bind_res r f = Inr y \<longleftrightarrow> (\<exists>x. r = Inr x \<and> f x = Inr y)"
  by (cases r) simp_all

lemma ok_or_Inr_iff: "ok_or x e = Inr y \<longleftrightarrow> x = Some y"
  by (cases x) simp_all

lemma bind_res_cong [cong, fundef_cong]:
  assumes "r = r'" and "\<And>x. r' = Inr x \<Longrightarrow> f x = g x"
  shows "bind_res r f = bind_res r' g"
  using assms by (cases r') simp_all

lemma bind_st_cong [fundef_cong]:
  assumes "r = r'" and "\<And>s x. r' = (s, Inr x) \<Longrightarrow> f s x = g s x"
  shows "bind_st r f = bind_st r' g"
  using assms by (auto simp: bind_st_def split: prod.splits sum.splits)

text \<open>A property of the state that both halves keep is kept by the sequence.\<close>

lemma bind_st_keeps:
  assumes "P (fst r)" and "\<And>s x. r = (s, Inr x) \<Longrightarrow> P s \<Longrightarrow> P (fst (f s x))"
  shows "P (fst (bind_st r f))"
  using assms by (cases r; cases "snd r") (auto simp: bind_st_def)

lemma bind_st_Inr_iff:
  "bind_st r f = (s', Inr y) \<longleftrightarrow> (\<exists>s x. r = (s, Inr x) \<and> f s x = (s', Inr y))"
  by (auto simp: bind_st_def split: prod.splits sum.splits)

lemma bind_st_cases:
  obtains (err) s e where "r = (s, Inl e)" | (ok) s x where "r = (s, Inr x)"
  by (cases r, cases "snd r") auto

lemma bind_st_assoc: "bind_st (bind_st r f) g = bind_st r (\<lambda>s x. bind_st (f s x) g)"
  by (cases r rule: bind_st_cases) simp_all

text \<open>\<open>u32::try_from\<close> on a length, and the saturating operations on \<open>u32\<close>.\<close>

definition try_u32 :: "nat \<Rightarrow> u32 option" where
  "try_u32 n = (if n < 2 ^ 32 then Some (of_nat n) else None)"

definition u32_MAX :: u32 where "u32_MAX = 4294967295"

definition saturating_sub :: "u32 \<Rightarrow> u32 \<Rightarrow> u32" where
  "saturating_sub a b = (if b \<le> a then a - b else 0)"

definition saturating_add :: "u32 \<Rightarrow> u32 \<Rightarrow> u32" where
  "saturating_add a b = (if unat a + unat b < 2 ^ 32 then a + b else u32_MAX)"

definition clamp_u32 :: "u32 \<Rightarrow> u32 \<Rightarrow> u32 \<Rightarrow> u32" where
  "clamp_u32 x lo hi = (if x < lo then lo else if hi < x then hi else x)"

lemma unat_u32_lt [simp]: "unat (x :: u32) < 4294967296"
  using unsigned_less [of x] by simp

lemma unat_u32_le [simp]: "unat (x :: u32) \<le> 4294967295"
  using unat_u32_lt [of x] by linarith

lemma unat_of_nat_u32: "n < 2 ^ 32 \<Longrightarrow> unat (of_nat n :: u32) = n"
  by (simp add: unat_of_nat take_bit_nat_eq_self)

lemma try_u32_SomeD: "try_u32 n = Some w \<Longrightarrow> unat w = n"
  by (auto simp: try_u32_def unat_of_nat_u32 split: if_splits)

lemma try_u32_small [simp]: "n < 4294967296 \<Longrightarrow> try_u32 n = Some (of_nat n)"
  by (simp add: try_u32_def)

lemma unat_saturating_sub: "unat (saturating_sub a b) = unat a - unat b"
  by (simp add: saturating_sub_def unat_sub word_le_nat_alt)

lemma unat_u32_add_lt: "unat a + unat b < 2 ^ 32 \<Longrightarrow> unat (a + b :: u32) = unat a + unat b"
  by (simp add: unat_word_ariths)

lemma of_char_lt: "(of_char c :: nat) < 256"
  using of_char_mod_256 [of c, where 'a = nat] by (metis mod_less_divisor zero_less_numeral)

section \<open>Slices\<close>

text \<open>\<open>iter().position(\<lambda>b. b == needle)\<close>: the index of the first occurrence.\<close>

fun find_byte :: "bytes \<Rightarrow> byte \<Rightarrow> nat option" where
  "find_byte [] needle = None"
| "find_byte (x # xs) needle =
     (if x = needle then Some 0 else map_option Suc (find_byte xs needle))"

lemma find_byte_None_iff: "find_byte xs c = None \<longleftrightarrow> c \<notin> set xs"
  by (induction xs) auto

lemma find_byte_SomeD:
  "find_byte xs c = Some i \<Longrightarrow> i < length xs \<and> xs ! i = c \<and> c \<notin> set (take i xs)"
proof (induction xs arbitrary: i)
  case (Cons x xs)
  then show ?case by (cases i) (auto split: if_splits)
qed simp

lemma find_byte_append:
  "find_byte (xs @ ys) c =
     (if c \<in> set xs then find_byte xs c else map_option (\<lambda>i. i + length xs) (find_byte ys c))"
  by (induction xs) (auto simp: option.map_comp comp_def option.map_ident)

lemma find_byte_first: "c \<notin> set xs \<Longrightarrow> find_byte (xs @ c # ys) c = Some (length xs)"
  by (induction xs) auto

text \<open>\<open>(0..n).find(p)\<close>: the first index of a range with a property.\<close>

definition range_find :: "nat \<Rightarrow> (nat \<Rightarrow> bool) \<Rightarrow> nat option" where
  "range_find n p = find p [0..<n]"

lemma range_find_None_iff: "range_find n p = None \<longleftrightarrow> (\<forall>i < n. \<not> p i)"
  by (auto simp: range_find_def find_None_iff)

lemma range_find_Some_iff: "range_find n p = Some i \<longleftrightarrow> i < n \<and> p i \<and> (\<forall>j < i. \<not> p j)"
proof -
  have "find p [0..<n] = Some i \<longleftrightarrow> (\<exists>k < n. p k \<and> i = k \<and> (\<forall>j < k. \<not> p j))"
    by (auto simp: find_Some_iff)
  then show ?thesis by (auto simp: range_find_def)
qed

text \<open>\<open>strip_prefix\<close> on a slice.\<close>

fun strip_prefix :: "bytes \<Rightarrow> bytes \<Rightarrow> bytes option" where
  "strip_prefix [] s = Some s"
| "strip_prefix (p # ps) [] = None"
| "strip_prefix (p # ps) (c # s) = (if p = c then strip_prefix ps s else None)"

lemma strip_prefix_Some_iff: "strip_prefix p s = Some r \<longleftrightarrow> s = p @ r"
  by (induction p s rule: strip_prefix.induct) auto

lemma strip_prefix_append [simp]: "strip_prefix p (p @ r) = Some r"
  by (simp add: strip_prefix_Some_iff)

definition starts_with :: "bytes \<Rightarrow> bytes \<Rightarrow> bool" where
  "starts_with s p \<longleftrightarrow> take (length p) s = p"

lemma starts_with_iff: "starts_with s p \<longleftrightarrow> (\<exists>r. s = p @ r)"
proof
  assume "starts_with s p"
  then have "s = p @ drop (length p) s"
    by (metis append_take_drop_id starts_with_def)
  then show "\<exists>r. s = p @ r" by blast
qed (auto simp: starts_with_def)

lemma starts_with_length: "starts_with s p \<Longrightarrow> length p \<le> length s"
  by (auto simp: starts_with_iff)

text \<open>The ASCII classes and the case folding of \<open>u8\<close>.\<close>

definition is_ascii_digit :: "byte \<Rightarrow> bool" where
  "is_ascii_digit b \<longleftrightarrow> (48::nat) \<le> of_char b \<and> of_char b \<le> (57::nat)"

definition is_ascii_whitespace :: "byte \<Rightarrow> bool" where
  "is_ascii_whitespace b \<longleftrightarrow> b \<in> {CHR '' '', TAB, LF, CHR 0x0C, CR}"

definition to_ascii_lowercase :: "byte \<Rightarrow> byte" where
  "to_ascii_lowercase b =
     (if (65::nat) \<le> of_char b \<and> of_char b \<le> (90::nat) then char_of (of_char b + (32::nat)) else b)"

definition eq_ignore_ascii_case :: "bytes \<Rightarrow> bytes \<Rightarrow> bool" where
  "eq_ignore_ascii_case a b \<longleftrightarrow> map to_ascii_lowercase a = map to_ascii_lowercase b"

lemma eq_ignore_ascii_case_refl [simp]: "eq_ignore_ascii_case a a"
  by (simp add: eq_ignore_ascii_case_def)

section \<open>Decimal numerals\<close>

text \<open>
  The numeral of a number and the number of a numeral, as the reference both renderers
  and the parser of the source are compared with.
\<close>

definition digit_char :: "nat \<Rightarrow> byte" where
  "digit_char d = char_of (48 + d)"

definition digit_val :: "byte \<Rightarrow> nat" where
  "digit_val b = of_char b - 48"

fun dec :: "nat \<Rightarrow> bytes" where
  "dec n = (if n < 10 then [digit_char n] else dec (n div 10) @ [digit_char (n mod 10)])"

declare dec.simps [simp del]

definition dec_val :: "nat \<Rightarrow> bytes \<Rightarrow> nat" where
  "dec_val acc bs = foldl (\<lambda>v b. v * 10 + digit_val b) acc bs"

lemma of_char_digit_char [simp]: "d < 10 \<Longrightarrow> of_char (digit_char d) = 48 + d"
  by (simp add: digit_char_def)

lemma digit_val_digit_char [simp]: "d < 10 \<Longrightarrow> digit_val (digit_char d) = d"
  by (simp add: digit_val_def)

lemma is_ascii_digit_digit_char [simp]: "d < 10 \<Longrightarrow> is_ascii_digit (digit_char d)"
  by (simp add: is_ascii_digit_def)

lemma digit_char_simps:
  "digit_char 0 = CHR ''0''" "digit_char (Suc 0) = CHR ''1''" "digit_char 1 = CHR ''1''"
  "digit_char 2 = CHR ''2''" "digit_char 3 = CHR ''3''" "digit_char 4 = CHR ''4''"
  "digit_char 5 = CHR ''5''" "digit_char 6 = CHR ''6''" "digit_char 7 = CHR ''7''"
  "digit_char 8 = CHR ''8''" "digit_char 9 = CHR ''9''"
  by (simp_all add: digit_char_def char_of_def bit_Suc_0_iff)

lemmas dec_eval = dec.simps digit_char_simps

lemma dec_digits: "\<forall>b \<in> set (dec n). is_ascii_digit b"
proof (induction n rule: dec.induct)
  case (1 n)
  then show ?case by (cases "n < 10") (auto simp: dec.simps [of n])
qed

lemma dec_not_Nil [simp]: "dec n \<noteq> []"
  by (simp add: dec.simps)

lemma dec_val_append [simp]: "dec_val acc (xs @ ys) = dec_val (dec_val acc xs) ys"
  by (simp add: dec_val_def)

lemma dec_val_simps [simp]:
  "dec_val acc [] = acc" "dec_val acc (b # bs) = dec_val (acc * 10 + digit_val b) bs"
  by (simp_all add: dec_val_def)

lemma dec_val_dec [simp]: "dec_val 0 (dec n) = n"
proof (induction n rule: dec.induct)
  case (1 n)
  then show ?case by (cases "n < 10") (simp_all add: dec.simps [of n])
qed

lemma dec_val_mono: "acc \<le> dec_val acc bs"
proof (induction bs arbitrary: acc)
  case (Cons b bs)
  have "acc \<le> acc * 10 + digit_val b" by simp
  also have "\<dots> \<le> dec_val (acc * 10 + digit_val b) bs" by (rule Cons.IH)
  finally show ?case by simp
qed simp

lemma length_dec_le: "0 < k \<Longrightarrow> n < 10 ^ k \<Longrightarrow> length (dec n) \<le> k"
proof (induction k arbitrary: n)
  case (Suc k)
  show ?case
  proof (cases "n < 10")
    case True
    then show ?thesis by (simp add: dec.simps)
  next
    case False
    with Suc.prems have "0 < k" by (cases k) auto
    moreover from Suc.prems have "n div 10 < 10 ^ k"
      by (simp add: less_mult_imp_div_less mult.commute)
    ultimately have "length (dec (n div 10)) \<le> k" by (rule Suc.IH)
    with False show ?thesis by (simp add: dec.simps [of n])
  qed
qed simp

lemma length_dec_u32: "length (dec (unat (w :: u32))) \<le> 10"
  by (rule length_dec_le) (auto intro: less_trans [OF unat_u32_lt])

lemma digit_not_special:
  assumes "is_ascii_digit b"
  shows "b \<noteq> CHR '' ''" "b \<noteq> CR" "b \<noteq> LF"
  using assms by (auto simp: is_ascii_digit_def)

lemma dec_not_special:
  "CHR '' '' \<notin> set (dec n)" "CR \<notin> set (dec n)" "LF \<notin> set (dec n)"
  using dec_digits [of n] digit_not_special by blast+

end
