(* ===== verification/Errors.thy ===== *)
theory Errors
  imports Prelude
begin

text \<open>
  The errors of the sans-IO core, \<^verbatim>\<open>vortice-proto/src/error.rs\<close>: one constructor per
  variant with its fields in order. The static strings naming a header field or a reason
  are kept, since the tests of the source compare them.
\<close>

datatype error =
    UnknownFrameType
  | HeaderTooLong nat                \<comment> \<open>limit\<close>
  | BareNewlineInHeader
  | MalformedHeader string           \<comment> \<open>reason\<close>
  | InvalidDigit string              \<comment> \<open>field\<close>
  | MissingField string              \<comment> \<open>field\<close>
  | ValueOutOfRange string u32       \<comment> \<open>field, max\<close>
  | InvalidContinuation byte         \<comment> \<open>found\<close>
  | FrameTooLarge u32 u32            \<comment> \<open>size, limit\<close>
  | MissingTrailer
  | NotUtf8
  | XmlError string                  \<comment> \<open>reason\<close>
  | UnexpectedElement
  | NotBeepXml
  | NotAGreeting string              \<comment> \<open>reason\<close>
  | OutsideWindow u32 u32 u32        \<comment> \<open>seqno, len, limit\<close>
  | UnexpectedSeqNo u32 u32          \<comment> \<open>found, expected\<close>
  | MsgNoInUse u32
  | MsgNoExhausted
  | UnknownMsgNo u32
  | InterleavedFragment
  | ChannelStalled
  | ChannelNumber string             \<comment> \<open>reason\<close>
  | NoSuchChannel u32

type_synonym 'a result = "error + 'a"

end
