(* ===== verification/Frames.thy ===== *)
theory Frames
  imports Errors
begin

text \<open>
  \<^verbatim>\<open>vortice-proto/src/frame.rs\<close>: the frame types, the limits BEEP puts on header
  fields, the constructors that enforce them and the wire rendering. \<open>BytesMut\<close> is the
  list of octets written so far; a method that appends to it takes it as an argument and
  returns the longer one.
\<close>

section \<open>Limits and frame kinds\<close>

definition MAX_CHANNEL_NO :: u32 where "MAX_CHANNEL_NO = 2147483647"
definition MAX_MSG_NO :: u32 where "MAX_MSG_NO = 2147483647"
definition MAX_ANS_NO :: u32 where "MAX_ANS_NO = 2147483647"
definition MAX_FRAME_SIZE :: u32 where "MAX_FRAME_SIZE = 2147483647"
definition MAX_SEQ_NO :: u32 where "MAX_SEQ_NO = u32_MAX"
definition MAX_HEADER_LEN :: nat where "MAX_HEADER_LEN = 98"
definition TRAILER :: bytes where "TRAILER = ''END'' @ CRLF"
definition COMPLETE :: byte where "COMPLETE = CHR ''.''"
definition INTERMEDIATE :: byte where "INTERMEDIATE = CHR ''*''"

lemmas limit_defs =
  MAX_CHANNEL_NO_def MAX_MSG_NO_def MAX_ANS_NO_def MAX_FRAME_SIZE_def MAX_SEQ_NO_def u32_MAX_def

lemma length_TRAILER [simp]: "length TRAILER = 5"
  by (simp add: TRAILER_def)

datatype frame_kind = Msg | Rpy | Err | Ans | Nul

fun as_str :: "frame_kind \<Rightarrow> bytes" where
  "as_str Msg = ''MSG''"
| "as_str Rpy = ''RPY''"
| "as_str Err = ''ERR''"
| "as_str Ans = ''ANS''"
| "as_str Nul = ''NUL''"

definition from_token :: "bytes \<Rightarrow> frame_kind option" where
  "from_token token =
     (if token = ''MSG'' then Some Msg
      else if token = ''RPY'' then Some Rpy
      else if token = ''ERR'' then Some Err
      else if token = ''ANS'' then Some Ans
      else if token = ''NUL'' then Some Nul
      else None)"

definition has_ansno :: "frame_kind \<Rightarrow> bool" where
  "has_ansno k \<longleftrightarrow> k = Ans"

lemma from_token_as_str [simp]: "from_token (as_str k) = Some k"
  by (cases k) (simp_all add: from_token_def)

lemma from_token_Some_iff: "from_token t = Some k \<longleftrightarrow> t = as_str k"
  by (cases k) (auto simp: from_token_def)

lemma length_as_str [simp]: "length (as_str k) = 3"
  by (cases k) simp_all

lemma as_str_not_seq [simp]: "as_str k \<noteq> ''SEQ''"
  by (cases k) simp_all

section \<open>Frames and their constructors\<close>

record data_frame =
  df_kind :: frame_kind
  df_channel :: u32
  df_msgno :: u32
  df_more :: bool
  df_seqno :: u32
  df_ansno :: "u32 option"
  df_payload :: bytes

record seq_frame =
  sf_channel :: u32
  sf_ackno :: u32
  sf_window :: u32

datatype frame = DataF data_frame | SeqF seq_frame

definition check_range :: "string \<Rightarrow> u32 \<Rightarrow> u32 \<Rightarrow> unit result" where
  "check_range field value mx = (if value > mx then Inl (ValueOutOfRange field mx) else Inr ())"

definition build_frame ::
  "frame_kind \<Rightarrow> u32 \<Rightarrow> u32 \<Rightarrow> u32 \<Rightarrow> u32 option \<Rightarrow> bytes \<Rightarrow> data_frame result" where
  "build_frame kind channel msgno seqno ansno payload =
     bind_res (check_range ''channel'' channel MAX_CHANNEL_NO) (\<lambda>_.
     bind_res (check_range ''msgno'' msgno MAX_MSG_NO) (\<lambda>_.
     bind_res (case ansno of None \<Rightarrow> Inr () | Some a \<Rightarrow> check_range ''ansno'' a MAX_ANS_NO) (\<lambda>_.
     bind_res (ok_or (try_u32 (length payload)) (FrameTooLarge MAX_FRAME_SIZE MAX_FRAME_SIZE)) (\<lambda>size.
     if size > MAX_FRAME_SIZE then Inl (FrameTooLarge size MAX_FRAME_SIZE)
     else Inr \<lparr>df_kind = kind, df_channel = channel, df_msgno = msgno, df_more = False,
               df_seqno = seqno, df_ansno = ansno, df_payload = payload\<rparr>))))"

definition new_data ::
  "frame_kind \<Rightarrow> u32 \<Rightarrow> u32 \<Rightarrow> u32 \<Rightarrow> bytes \<Rightarrow> data_frame result" where
  "new_data kind channel msgno seqno payload =
     (if has_ansno kind then Inl (MissingField ''ansno'')
      else build_frame kind channel msgno seqno None payload)"

definition new_ans :: "u32 \<Rightarrow> u32 \<Rightarrow> u32 \<Rightarrow> u32 \<Rightarrow> bytes \<Rightarrow> data_frame result" where
  "new_ans channel msgno seqno ansno payload =
     build_frame Ans channel msgno seqno (Some ansno) payload"

definition with_more :: "data_frame \<Rightarrow> bool \<Rightarrow> data_frame" where
  "with_more f m = f\<lparr>df_more := m\<rparr>"

definition df_size :: "data_frame \<Rightarrow> u32" where
  "df_size f = of_nat (length (df_payload f))"

definition new_seq :: "u32 \<Rightarrow> u32 \<Rightarrow> u32 \<Rightarrow> seq_frame result" where
  "new_seq channel ackno window =
     bind_res (check_range ''channel'' channel MAX_CHANNEL_NO) (\<lambda>_.
     bind_res (check_range ''window'' window MAX_FRAME_SIZE) (\<lambda>_.
     Inr \<lparr>sf_channel = channel, sf_ackno = ackno, sf_window = window\<rparr>))"

fun frame_channel :: "frame \<Rightarrow> u32" where
  "frame_channel (DataF f) = df_channel f"
| "frame_channel (SeqF f) = sf_channel f"

fun as_data :: "frame \<Rightarrow> data_frame option" where
  "as_data (DataF f) = Some f"
| "as_data (SeqF f) = None"

fun as_seq :: "frame \<Rightarrow> seq_frame option" where
  "as_seq (SeqF f) = Some f"
| "as_seq (DataF f) = None"

text \<open>
  The well-formedness the constructors establish: ranges of the numbers, an answer number
  exactly on \<open>ANS\<close>, and a payload whose length fits the size field.
\<close>

definition wf_data :: "data_frame \<Rightarrow> bool" where
  "wf_data f \<longleftrightarrow>
     df_channel f \<le> MAX_CHANNEL_NO \<and> df_msgno f \<le> MAX_MSG_NO \<and>
     (\<forall>a. df_ansno f = Some a \<longrightarrow> a \<le> MAX_ANS_NO) \<and>
     (df_ansno f \<noteq> None \<longleftrightarrow> has_ansno (df_kind f)) \<and>
     length (df_payload f) \<le> unat MAX_FRAME_SIZE"

definition wf_seq :: "seq_frame \<Rightarrow> bool" where
  "wf_seq f \<longleftrightarrow> sf_channel f \<le> MAX_CHANNEL_NO \<and> sf_window f \<le> MAX_FRAME_SIZE"

fun wf_frame :: "frame \<Rightarrow> bool" where
  "wf_frame (DataF f) = wf_data f"
| "wf_frame (SeqF f) = wf_seq f"

lemma check_range_simps [simp]:
  "check_range field v mx = Inr () \<longleftrightarrow> v \<le> mx"
  "v \<le> mx \<Longrightarrow> check_range field v mx = Inr ()"
  "\<not> v \<le> mx \<Longrightarrow> check_range field v mx = Inl (ValueOutOfRange field mx)"
  by (auto simp: check_range_def)

lemma build_frame_ok:
  "build_frame kind channel msgno seqno ansno payload = Inr f \<longleftrightarrow>
     channel \<le> MAX_CHANNEL_NO \<and> msgno \<le> MAX_MSG_NO \<and>
     (\<forall>a. ansno = Some a \<longrightarrow> a \<le> MAX_ANS_NO) \<and> length payload \<le> unat MAX_FRAME_SIZE \<and>
     f = \<lparr>df_kind = kind, df_channel = channel, df_msgno = msgno, df_more = False,
          df_seqno = seqno, df_ansno = ansno, df_payload = payload\<rparr>"
proof -
  have size: "length payload < 4294967296 \<Longrightarrow>
      (of_nat (length payload) :: u32) \<le> MAX_FRAME_SIZE \<longleftrightarrow> length payload \<le> unat MAX_FRAME_SIZE"
    by (simp add: word_le_nat_alt unat_of_nat_u32)
  have big: "\<not> length payload < 4294967296 \<Longrightarrow> \<not> length payload \<le> unat MAX_FRAME_SIZE"
    by (simp add: MAX_FRAME_SIZE_def)
  show ?thesis
    using size big
    by (auto simp: build_frame_def bind_res_Inr_iff ok_or_Inr_iff try_u32_def not_less
        split: option.splits if_splits)
qed

lemma new_data_ok:
  "new_data kind channel msgno seqno payload = Inr f \<longleftrightarrow>
     \<not> has_ansno kind \<and> build_frame kind channel msgno seqno None payload = Inr f"
  by (simp add: new_data_def)

lemma new_seq_ok:
  "new_seq channel ackno window = Inr f \<longleftrightarrow>
     channel \<le> MAX_CHANNEL_NO \<and> window \<le> MAX_FRAME_SIZE \<and>
     f = \<lparr>sf_channel = channel, sf_ackno = ackno, sf_window = window\<rparr>"
  by (auto simp: new_seq_def bind_res_Inr_iff)

lemma with_more_simps [simp]:
  "df_kind (with_more f b) = df_kind f" "df_channel (with_more f b) = df_channel f"
  "df_msgno (with_more f b) = df_msgno f" "df_seqno (with_more f b) = df_seqno f"
  "df_ansno (with_more f b) = df_ansno f" "df_payload (with_more f b) = df_payload f"
  "df_more (with_more f b) = b" "wf_data (with_more f b) = wf_data f"
  "df_size (with_more f b) = df_size f"
  by (simp_all add: with_more_def wf_data_def df_size_def)

lemma new_data_wf: "new_data kind channel msgno seqno payload = Inr f \<Longrightarrow> wf_data f"
  by (auto simp: new_data_ok build_frame_ok wf_data_def)

lemma new_ans_wf: "new_ans channel msgno seqno ansno payload = Inr f \<Longrightarrow> wf_data f"
  by (auto simp: new_ans_def build_frame_ok wf_data_def has_ansno_def)

lemma wf_data_size: "wf_data f \<Longrightarrow> unat (df_size f) = length (df_payload f)"
  by (simp add: wf_data_def df_size_def unat_of_nat_u32 limit_defs)

section \<open>Rendering\<close>

lemma u32_div10_less: "v div 10 \<noteq> 0 \<Longrightarrow> unat (v :: u32) div 10 < unat v"
  by (cases "v = 0") (auto simp: unat_gt_0)

text \<open>Decimal digit count, the loop of \<open>digits\<close>.\<close>

function digits_loop :: "u32 \<Rightarrow> nat \<Rightarrow> nat" where
  "digits_loop v n = (if v \<ge> 10 then digits_loop (v div 10) (n + 1) else n)"
  by pat_completeness auto
termination
  by (relation "measure (\<lambda>(v, n). unat v)") (auto simp: unat_div word_le_nat_alt)

declare digits_loop.simps [simp del]

definition digits :: "u32 \<Rightarrow> nat" where
  "digits value = digits_loop value 1"

text \<open>
  \<open>put_u32\<close> fills a ten octet scratch buffer from the back and appends the slice that
  was written. \<open>put_u32_loop v written\<close> is the loop with the octets written so far.
\<close>

function put_u32_loop :: "u32 \<Rightarrow> bytes \<Rightarrow> bytes" where
  "put_u32_loop v written =
     (let written' = char_of (48 + unat (v mod 10)) # written; v' = v div 10
      in if v' = 0 then written' else put_u32_loop v' written')"
  by pat_completeness auto
termination
  by (relation "measure (\<lambda>(v, w). unat v)") (auto simp: unat_div u32_div10_less)

declare put_u32_loop.simps [simp del]

definition put_u32 :: "bytes \<Rightarrow> u32 \<Rightarrow> bytes" where
  "put_u32 dst value = dst @ put_u32_loop value []"

definition encoded_len_data :: "data_frame \<Rightarrow> nat" where
  "encoded_len_data f =
     (let len = 3 + 1 + digits (df_channel f) + 1 + digits (df_msgno f) + 1 + 1
                + 1 + digits (df_seqno f) + 1 + digits (df_size f);
          len' = (case df_ansno f of Some a \<Rightarrow> len + (1 + digits a) | None \<Rightarrow> len)
      in len' + 2 + length (df_payload f) + length TRAILER)"

definition encode_data :: "data_frame \<Rightarrow> bytes \<Rightarrow> bytes" where
  "encode_data f dst =
     (let dst = dst @ as_str (df_kind f) @ '' '';
          dst = put_u32 dst (df_channel f) @ '' '';
          dst = put_u32 dst (df_msgno f) @ '' '';
          dst = dst @ [if df_more f then INTERMEDIATE else COMPLETE] @ '' '';
          dst = put_u32 dst (df_seqno f) @ '' '';
          dst = put_u32 dst (df_size f);
          dst = (case df_ansno f of Some a \<Rightarrow> put_u32 (dst @ '' '') a | None \<Rightarrow> dst)
      in dst @ CRLF @ df_payload f @ TRAILER)"

definition encoded_len_seq :: "seq_frame \<Rightarrow> nat" where
  "encoded_len_seq f =
     3 + 1 + digits (sf_channel f) + 1 + digits (sf_ackno f) + 1 + digits (sf_window f) + 2"

definition encode_seq :: "seq_frame \<Rightarrow> bytes \<Rightarrow> bytes" where
  "encode_seq f dst =
     (let dst = put_u32 (dst @ ''SEQ '') (sf_channel f) @ '' '';
          dst = put_u32 dst (sf_ackno f) @ '' '';
          dst = put_u32 dst (sf_window f)
      in dst @ CRLF)"

fun encoded_len :: "frame \<Rightarrow> nat" where
  "encoded_len (DataF f) = encoded_len_data f"
| "encoded_len (SeqF f) = encoded_len_seq f"

fun encode :: "frame \<Rightarrow> bytes \<Rightarrow> bytes" where
  "encode (DataF f) dst = encode_data f dst"
| "encode (SeqF f) dst = encode_seq f dst"

text \<open>Both loops agree with the reference numeral.\<close>

lemma put_u32_loop_dec: "put_u32_loop v written = dec (unat v) @ written"
proof (induction v written rule: put_u32_loop.induct)
  case (1 v written)
  have digit: "char_of (48 + unat (v mod 10)) = digit_char (unat v mod 10)"
    by (simp add: digit_char_def unat_mod)
  have "v div 10 = 0 \<longleftrightarrow> unat v < 10"
    by (simp add: unat_div div_eq_0_iff flip: unat_eq_zero)
  with 1 digit show ?case
    by (cases "v div 10 = 0")
      (simp_all add: put_u32_loop.simps [of v] dec.simps [of "unat v"] unat_div Let_def)
qed

lemma put_u32_eq: "put_u32 dst v = dst @ dec (unat v)"
  by (simp add: put_u32_def put_u32_loop_dec)

lemma digits_loop_dec: "digits_loop v n + 1 = length (dec (unat v)) + n"
proof (induction v n rule: digits_loop.induct)
  case (1 v n)
  then show ?case
    by (cases "10 \<le> v")
      (simp_all add: digits_loop.simps [of v] dec.simps [of "unat v"] unat_div word_le_nat_alt)
qed

lemma digits_eq: "digits v = length (dec (unat v))"
  using digits_loop_dec [of v 1] by (simp add: digits_def)

text \<open>The header line of a data frame, and the frame around its payload.\<close>

definition header_line :: "data_frame \<Rightarrow> bytes" where
  "header_line f =
     as_str (df_kind f) @ '' '' @ dec (unat (df_channel f)) @ '' '' @ dec (unat (df_msgno f)) @ '' '' @
     [if df_more f then INTERMEDIATE else COMPLETE] @ '' '' @ dec (unat (df_seqno f)) @ '' '' @
     dec (unat (df_size f)) @
     (case df_ansno f of Some a \<Rightarrow> '' '' @ dec (unat a) | None \<Rightarrow> [])"

definition seq_line :: "seq_frame \<Rightarrow> bytes" where
  "seq_line f =
     ''SEQ '' @ dec (unat (sf_channel f)) @ '' '' @ dec (unat (sf_ackno f)) @ '' '' @
     dec (unat (sf_window f))"

lemma encode_data_eq:
  "encode_data f dst = dst @ header_line f @ CRLF @ df_payload f @ TRAILER"
  by (simp add: encode_data_def header_line_def put_u32_eq split: option.split)

lemma encode_seq_eq: "encode_seq f dst = dst @ seq_line f @ CRLF"
  by (simp add: encode_seq_def seq_line_def put_u32_eq)

lemma encode_append: "encode f dst = dst @ encode f []"
  by (cases f) (simp_all add: encode_data_eq encode_seq_eq)

lemma length_header_line: "length (header_line f) \<le> 60"
proof -
  have "length (case df_ansno f of Some a \<Rightarrow> '' '' @ dec (unat a) | None \<Rightarrow> []) \<le> 11"
    using length_dec_u32 by (auto split: option.split)
  then show ?thesis
    using length_dec_u32 [of "df_channel f"] length_dec_u32 [of "df_msgno f"]
      length_dec_u32 [of "df_seqno f"] length_dec_u32 [of "df_size f"]
    by (simp add: header_line_def)
qed

lemma length_seq_line: "length (seq_line f) \<le> 36"
  using length_dec_u32 [of "sf_channel f"] length_dec_u32 [of "sf_ackno f"]
    length_dec_u32 [of "sf_window f"]
  by (simp add: seq_line_def)

lemma header_line_no_LF: "LF \<notin> set (header_line f)"
  using dec_not_special
  by (cases "df_kind f") (auto simp: header_line_def INTERMEDIATE_def COMPLETE_def split: option.split)

lemma seq_line_no_LF: "LF \<notin> set (seq_line f)"
  using dec_not_special by (auto simp: seq_line_def)

lemma encoded_len_eq: "encoded_len f = length (encode f [])"
  by (cases f)
    (simp_all add: encoded_len_data_def encoded_len_seq_def encode_data_eq encode_seq_eq
      header_line_def seq_line_def digits_eq split: option.split)

end
