(* ===== verification/Incremental.thy ===== *)
theory Incremental
  imports Prelude
begin

text \<open>
  The contract between a transport and an incremental decoder. A decoder is called with
  its state and the octets buffered so far; it returns the new state, the octets it left,
  and an error, a value, or nothing yet. The laws say that octets arriving later never
  change what was already decided, and that a value costs at least one octet. Everything a
  client needs (the result of a whole input does not depend on how it was cut) follows
  from them.
\<close>

text \<open>Calling the decoder until it asks for more: the values it produced, in order.\<close>

inductive drains ::
  "('d \<Rightarrow> bytes \<Rightarrow> ('d \<times> bytes) \<times> ('e + 'f option)) \<Rightarrow> 'd \<Rightarrow> bytes \<Rightarrow> 'f list \<Rightarrow> 'd \<Rightarrow> bytes \<Rightarrow> bool"
  for dc where
  drains_stop: "dc d src = ((d', src'), Inr None) \<Longrightarrow> drains dc d src [] d' src'"
| drains_step: "dc d src = ((d1, src1), Inr (Some f)) \<Longrightarrow> drains dc d1 src1 fs d' src' \<Longrightarrow>
    drains dc d src (f # fs) d' src'"

inductive_simps drains_unfold: "drains dc d src fs d' src'"

text \<open>One equation per outcome of the next call.\<close>

lemma drains_None:
  "dc d src = ((d1, s1), Inr None) \<Longrightarrow> drains dc d src fs d' s' \<longleftrightarrow> fs = [] \<and> d' = d1 \<and> s' = s1"
  by (subst drains_unfold) auto

lemma drains_Some:
  "dc d src = ((d1, s1), Inr (Some f)) \<Longrightarrow>
     drains dc d src fs d' s' \<longleftrightarrow> (\<exists>gs. fs = f # gs \<and> drains dc d1 s1 gs d' s')"
  by (subst drains_unfold) auto

lemma drains_Inl: "dc d src = ((d1, s1), Inl e) \<Longrightarrow> \<not> drains dc d src fs d' s'"
  by (subst drains_unfold) auto

text \<open>Feeding a decoder chunk by chunk, draining it after each.\<close>

inductive feeds ::
  "('d \<Rightarrow> bytes \<Rightarrow> ('d \<times> bytes) \<times> ('e + 'f option)) \<Rightarrow> 'd \<Rightarrow> bytes \<Rightarrow> bytes list \<Rightarrow> 'f list \<Rightarrow> 'd \<Rightarrow> bytes \<Rightarrow> bool"
  for dc where
  feeds_Nil: "feeds dc d buf [] [] d buf"
| feeds_Cons: "drains dc d (buf @ chunk) fs d1 buf1 \<Longrightarrow> feeds dc d1 buf1 chunks gs d' buf' \<Longrightarrow>
    feeds dc d buf (chunk # chunks) (fs @ gs) d' buf'"

locale incremental_decoder =
  fixes dc :: "'d \<Rightarrow> bytes \<Rightarrow> ('d \<times> bytes) \<times> ('e + 'f option)"
  assumes after_value: "dc d src = ((d', src'), Inr (Some f)) \<Longrightarrow>
      dc d (src @ rest) = ((d', src' @ rest), Inr (Some f))"
    and after_error: "dc d src = ((d', src'), Inl e) \<Longrightarrow>
      dc d (src @ rest) = ((d', src' @ rest), Inl e)"
    and resume: "dc d src = ((d', src'), Inr None) \<Longrightarrow> dc d (src @ rest) = dc d' (src' @ rest)"
    and progress: "dc d src = ((d', src'), Inr (Some f)) \<Longrightarrow> length src' < length src"
begin

lemma drains_deterministic:
  "drains dc d src fs d1 src1 \<Longrightarrow> drains dc d src gs d2 src2 \<Longrightarrow> fs = gs \<and> d1 = d2 \<and> src1 = src2"
proof (induction arbitrary: gs rule: drains.induct)
  case (drains_stop d src d' src')
  then show ?case by (simp add: drains_None)
next
  case (drains_step d src e1 buf1 f fs d' src')
  from drains_step.prems obtain gs' where "gs = f # gs'" "drains dc e1 buf1 gs' d2 src2"
    by (auto simp: drains_Some [where dc = dc, OF drains_step.hyps(1)])
  with drains_step.IH show ?case by auto
qed

text \<open>Draining a prefix and then the rest is draining the whole.\<close>

lemma drains_append:
  "drains dc d src fs d1 src1 \<Longrightarrow> drains dc d1 (src1 @ rest) gs d2 src2 \<Longrightarrow>
     drains dc d (src @ rest) (fs @ gs) d2 src2"
proof (induction rule: drains.induct)
  case (drains_stop d src d' src')
  have "dc d (src @ rest) = dc d' (src' @ rest)" by (rule resume [OF drains_stop(1)])
  with drains_stop(2) show ?case
    by (simp add: drains_unfold [of dc d "src @ rest"] drains_unfold [of dc d' "src' @ rest"])
next
  case (drains_step d src e1 buf1 f fs d' src')
  from drains_step.IH [OF drains_step.prems]
  have "drains dc e1 (buf1 @ rest) (fs @ gs) d2 src2" .
  with after_value [OF drains_step.hyps(1)] show ?case
    by (auto intro: drains.drains_step)
qed

text \<open>Every input either drains or runs into an error: the loop always ends.\<close>

lemma drains_total:
  "(\<exists>fs d' src'. drains dc d src fs d' src') \<or>
   (\<exists>d1 src1 d' src' e. dc d1 src1 = ((d', src'), Inl e))"
proof (induction "length src" arbitrary: d src rule: less_induct)
  case less
  obtain d' src' r where r: "dc d src = ((d', src'), r)" by (metis surj_pair)
  show ?case
  proof (cases r)
    case (Inl e)
    with r show ?thesis by blast
  next
    case (Inr v)
    show ?thesis
    proof (cases v)
      case None
      with r Inr show ?thesis by (blast intro: drains_stop)
    next
      case (Some f)
      with r Inr have step: "dc d src = ((d', src'), Inr (Some f))" by simp
      from less [OF progress [OF step]] step show ?thesis by (blast intro: drains_step)
    qed
  qed
qed

text \<open>However an input is cut into chunks, the same values come out and the same state is left.\<close>

lemma feeds_drains:
  "feeds dc d buf chunks fs d' buf' \<Longrightarrow> dc d' buf' = ((d', buf'), Inr None) \<Longrightarrow>
     drains dc d (buf @ concat chunks) fs d' buf'"
proof (induction rule: feeds.induct)
  case (feeds_Nil d buf)
  then show ?case by (auto intro: drains_stop)
next
  case (feeds_Cons d buf chunk fs d1 buf1 chunks gs d' buf')
  from drains_append [OF feeds_Cons.hyps(1) feeds_Cons.IH [OF feeds_Cons.prems]]
  show ?case by simp
qed

text \<open>Asking again without new octets changes nothing.\<close>

lemma quiescent: "dc d src = ((d', src'), Inr None) \<Longrightarrow> dc d' src' = ((d', src'), Inr None)"
  using resume [of d src d' src' "[]"] by simp

lemma drains_quiescent: "drains dc d src fs d' src' \<Longrightarrow> dc d' src' = ((d', src'), Inr None)"
  by (induction rule: drains.induct) (auto dest: quiescent)

lemma drains_split:
  "drains dc d (a @ b) fs d' s' \<Longrightarrow>
     \<exists>fs1 fs2 d1 s1. fs = fs1 @ fs2 \<and> drains dc d a fs1 d1 s1 \<and> drains dc d1 (s1 @ b) fs2 d' s'"
proof (induction "length a" arbitrary: a d fs rule: less_induct)
  case less
  obtain d1 s1 r where r: "dc d a = ((d1, s1), r)" by (metis surj_pair)
  show ?case
  proof (cases r)
    case (Inl e)
    with r have "dc d (a @ b) = ((d1, s1 @ b), Inl e)" by (simp add: after_error)
    with less.prems show ?thesis by (simp add: drains_Inl)
  next
    case (Inr v)
    show ?thesis
    proof (cases v)
      case None
      with r Inr have stop: "dc d a = ((d1, s1), Inr None)" by simp
      have "drains dc d1 (s1 @ b) fs d' s'"
        using less.prems resume [OF stop, of b]
        by (simp add: drains_unfold [of dc d "a @ b"] drains_unfold [of dc d1 "s1 @ b"])
      with drains_stop [where dc = dc, OF stop] show ?thesis by fastforce
    next
      case (Some f)
      with r Inr have step: "dc d a = ((d1, s1), Inr (Some f))" by simp
      obtain gs where gs: "fs = f # gs" "drains dc d1 (s1 @ b) gs d' s'"
        using less.prems by (auto simp: drains_Some [where dc = dc, OF after_value [OF step]])
      from less.hyps [OF progress [OF step] gs(2)] obtain fs1 fs2 d2 s2 where
        "gs = fs1 @ fs2" "drains dc d1 s1 fs1 d2 s2" "drains dc d2 (s2 @ b) fs2 d' s'" by blast
      with drains_step [where dc = dc, OF step] gs(1) show ?thesis
        by (metis append_Cons)
    qed
  qed
qed

lemma drains_feeds:
  "drains dc d (buf @ concat chunks) fs d' buf' \<Longrightarrow> dc d buf = ((d, buf), Inr None) \<Longrightarrow>
     feeds dc d buf chunks fs d' buf'"
proof (induction chunks arbitrary: d buf fs)
  case Nil
  then show ?case by (auto simp: drains_None intro: feeds_Nil)
next
  case (Cons chunk chunks)
  from Cons.prems(1) have "drains dc d ((buf @ chunk) @ concat chunks) fs d' buf'" by simp
  from drains_split [OF this] obtain fs1 fs2 d1 s1 where split:
    "fs = fs1 @ fs2" "drains dc d (buf @ chunk) fs1 d1 s1" "drains dc d1 (s1 @ concat chunks) fs2 d' buf'"
    by blast
  from Cons.IH [OF split(3) drains_quiescent [OF split(2)]] split(1,2) show ?case
    by (auto intro: feeds_Cons)
qed

end

end
