(* ===== verification/Codec.thy ===== *)
theory Codec
  imports Frames Incremental
begin

text \<open>
  \<^verbatim>\<open>vortice-proto/src/codec.rs\<close>: the incremental decoder. The decoder is a record, the
  input buffer is the list of octets not yet consumed, and \<open>decode\<close> returns both with its
  result, also when the result is an error, since the source has consumed octets by then.
\<close>

section \<open>Header fields\<close>

record data_header =
  dh_kind :: frame_kind
  dh_channel :: u32
  dh_msgno :: u32
  dh_more :: bool
  dh_seqno :: u32
  dh_size :: u32
  dh_ansno :: "u32 option"

datatype parsed = ParsedData data_header | ParsedSeq seq_frame

text \<open>The iterator over space separated fields: \<open>None\<close> once the last has been taken.\<close>

type_synonym fields = "bytes option"

definition fields_new :: "bytes \<Rightarrow> fields" where
  "fields_new rest = Some rest"

definition fields_next :: "fields \<Rightarrow> string \<Rightarrow> (bytes \<times> fields) result" where
  "fields_next fs field =
     bind_res (ok_or fs (MissingField field)) (\<lambda>rest.
       let (val, fs') =
         (case find_byte rest (CHR '' '') of
            Some i \<Rightarrow> (take i rest, Some (drop (i + 1) rest))
          | None \<Rightarrow> (rest, None))
       in if val = [] then Inl (MissingField field) else Inr (val, fs'))"

definition fields_finish :: "fields \<Rightarrow> unit result" where
  "fields_finish fs =
     (if fs \<noteq> None then Inl (MalformedHeader ''trailing octets after the last header field'')
      else Inr ())"

text \<open>The accumulator is the \<open>u64\<close> of the source, not an unbounded number.\<close>

fun parse_u32_loop :: "u64 \<Rightarrow> bytes \<Rightarrow> string \<Rightarrow> u32 \<Rightarrow> u32 result" where
  "parse_u32_loop value [] name mx = Inr (ucast value)"
| "parse_u32_loop value (b # bs) name mx =
     (if \<not> is_ascii_digit b then Inl (InvalidDigit name)
      else let value' = value * 10 + of_nat (digit_val b)
           in if value' > ucast mx then Inl (ValueOutOfRange name mx)
              else parse_u32_loop value' bs name mx)"

definition parse_u32 :: "bytes \<Rightarrow> string \<Rightarrow> u32 \<Rightarrow> u32 result" where
  "parse_u32 field name mx = parse_u32_loop 0 field name mx"

definition parse_continuation :: "bytes \<Rightarrow> bool result" where
  "parse_continuation field =
     (case field of
        [c] \<Rightarrow> (if c = COMPLETE then Inr False
                else if c = INTERMEDIATE then Inr True
                else Inl (InvalidContinuation c))
      | _ \<Rightarrow> Inl (MalformedHeader ''continuation indicator must be a single character''))"

text \<open>One numeric field: take the next field, then read it.\<close>

definition next_u32 :: "fields \<Rightarrow> string \<Rightarrow> u32 \<Rightarrow> (u32 \<times> fields) result" where
  "next_u32 fs name mx =
     bind_res (fields_next fs name) (\<lambda>(v, fs').
     bind_res (parse_u32 v name mx) (\<lambda>n. Inr (n, fs')))"

definition parse_seq_fields :: "fields \<Rightarrow> parsed result" where
  "parse_seq_fields fs =
     bind_res (next_u32 fs ''channel'' MAX_CHANNEL_NO) (\<lambda>(channel, fs).
     bind_res (next_u32 fs ''ackno'' MAX_SEQ_NO) (\<lambda>(ackno, fs).
     bind_res (next_u32 fs ''window'' MAX_FRAME_SIZE) (\<lambda>(window, fs).
     bind_res (fields_finish fs) (\<lambda>_.
     bind_res (new_seq channel ackno window) (\<lambda>seq. Inr (ParsedSeq seq))))))"

definition parse_data_fields :: "frame_kind \<Rightarrow> fields \<Rightarrow> u32 \<Rightarrow> parsed result" where
  "parse_data_fields kind fs max_frame_size =
     bind_res (next_u32 fs ''channel'' MAX_CHANNEL_NO) (\<lambda>(channel, fs).
     bind_res (next_u32 fs ''msgno'' MAX_MSG_NO) (\<lambda>(msgno, fs).
     bind_res (fields_next fs ''more'') (\<lambda>(v, fs).
     bind_res (parse_continuation v) (\<lambda>m.
     bind_res (next_u32 fs ''seqno'' MAX_SEQ_NO) (\<lambda>(seqno, fs).
     bind_res (next_u32 fs ''size'' MAX_FRAME_SIZE) (\<lambda>(size, fs).
     bind_res (if has_ansno kind
               then bind_res (next_u32 fs ''ansno'' MAX_ANS_NO) (\<lambda>(a, fs). Inr (Some a, fs))
               else Inr (None, fs)) (\<lambda>(ansno, fs).
     bind_res (fields_finish fs) (\<lambda>_.
     if size > max_frame_size then Inl (FrameTooLarge size max_frame_size)
     else Inr (ParsedData \<lparr>dh_kind = kind, dh_channel = channel, dh_msgno = msgno, dh_more = m,
                            dh_seqno = seqno, dh_size = size, dh_ansno = ansno\<rparr>)))))))))"

definition parse_header :: "bytes \<Rightarrow> u32 \<Rightarrow> parsed result" where
  "parse_header line max_frame_size =
     (if length line < 3 then Inl (MalformedHeader ''frame type token truncated'')
      else let token = take 3 line; rest = drop 3 line in
        case rest of
          [] \<Rightarrow> Inl (MalformedHeader ''expected a single space after the frame type'')
        | c # cs \<Rightarrow>
            if c \<noteq> CHR '' '' then Inl (MalformedHeader ''expected a single space after the frame type'')
            else if token = ''SEQ'' then parse_seq_fields (fields_new cs)
            else bind_res (ok_or (from_token token) UnknownFrameType) (\<lambda>kind.
                   parse_data_fields kind (fields_new cs) max_frame_size))"

section \<open>The decoder\<close>

record decoder =
  max_frame_size :: u32
  dec_pending :: "data_header option"

definition decoder_new :: decoder where
  "decoder_new = \<lparr>max_frame_size = MAX_FRAME_SIZE, dec_pending = None\<rparr>"

definition decoder_with_max_frame_size :: "u32 \<Rightarrow> decoder" where
  "decoder_with_max_frame_size mx = \<lparr>max_frame_size = mx, dec_pending = None\<rparr>"

definition has_partial_frame :: "decoder \<Rightarrow> bool" where
  "has_partial_frame d \<longleftrightarrow> dec_pending d \<noteq> None"

definition decode_header :: "decoder \<Rightarrow> bytes \<Rightarrow> bytes \<times> (error + parsed option)" where
  "decode_header d src =
     (case find_byte (take (min (length src) MAX_HEADER_LEN) src) LF of
        None \<Rightarrow> (if length src \<ge> MAX_HEADER_LEN then (src, Inl (HeaderTooLong MAX_HEADER_LEN))
                 else (src, Inr None))
      | Some lf \<Rightarrow>
          if lf = 0 \<or> src ! (lf - 1) \<noteq> CR then (src, Inl BareNewlineInHeader)
          else (case parse_header (take (lf - 1) src) (max_frame_size d) of
                  Inl e \<Rightarrow> (src, Inl e)
                | Inr p \<Rightarrow> (drop (lf + 1) src, Inr (Some p))))"

text \<open>The second half of \<open>decode\<close>: the header is known, the payload may not be here yet.\<close>

definition decode_payload ::
  "decoder \<Rightarrow> data_header \<Rightarrow> bytes \<Rightarrow> (decoder \<times> bytes) \<times> (error + frame option)" where
  "decode_payload d header src =
     (let size = unat (dh_size header); needed = size + length TRAILER in
      if length src < needed then ((d, src), Inr None)
      else let payload = take size src; src' = drop size src in
        if take (length TRAILER) src' \<noteq> TRAILER then ((d, src'), Inl MissingTrailer)
        else let src'' = drop (length TRAILER) src'; d' = d\<lparr>dec_pending := None\<rparr>;
                 built = (case dh_ansno header of
                            Some a \<Rightarrow> new_ans (dh_channel header) (dh_msgno header) (dh_seqno header) a payload
                          | None \<Rightarrow> new_data (dh_kind header) (dh_channel header) (dh_msgno header)
                                      (dh_seqno header) payload)
             in case built of
                  Inl e \<Rightarrow> ((d', src''), Inl e)
                | Inr f \<Rightarrow> ((d', src''), Inr (Some (DataF (with_more f (dh_more header))))))"

definition decode :: "decoder \<Rightarrow> bytes \<Rightarrow> (decoder \<times> bytes) \<times> (error + frame option)" where
  "decode d src =
     (case dec_pending d of
        Some header \<Rightarrow> decode_payload d header src
      | None \<Rightarrow>
          (case decode_header d src of
             (src', Inl e) \<Rightarrow> ((d, src'), Inl e)
           | (src', Inr None) \<Rightarrow> ((d, src'), Inr None)
           | (src', Inr (Some (ParsedSeq seq))) \<Rightarrow> ((d, src'), Inr (Some (SeqF seq)))
           | (src', Inr (Some (ParsedData header))) \<Rightarrow>
               decode_payload (d\<lparr>dec_pending := Some header\<rparr>) header src'))"

definition frame_boundary :: "bytes \<Rightarrow> nat option" where
  "frame_boundary src =
     (case find_byte (take (min (length src) MAX_HEADER_LEN) src) LF of
        None \<Rightarrow> None
      | Some lf \<Rightarrow>
          if lf = 0 \<or> src ! (lf - 1) \<noteq> CR then None
          else (case parse_header (take (lf - 1) src) MAX_FRAME_SIZE of
                  Inl _ \<Rightarrow> None
                | Inr (ParsedSeq _) \<Rightarrow> Some (lf + 1)
                | Inr (ParsedData header) \<Rightarrow>
                    let total = lf + 1 + unat (dh_size header) + length TRAILER
                    in if length src \<ge> total then Some total else None))"

section \<open>Numbers\<close>

lemma digit_val_lt: "is_ascii_digit b \<Longrightarrow> digit_val b < 10"
  by (auto simp: is_ascii_digit_def digit_val_def)

text \<open>One round of the loop is exact: the \<open>u64\<close> accumulator cannot wrap.\<close>

lemma parse_u32_step:
  assumes "unat acc \<le> unat (mx :: u32)" and "is_ascii_digit b"
  shows "unat (acc * 10 + of_nat (digit_val b) :: u64) = unat acc * 10 + digit_val b"
proof -
  have "unat acc < 4294967296" using assms(1) unat_u32_lt [of mx] by linarith
  with digit_val_lt [OF assms(2)] show ?thesis
    by (simp add: unat_word_ariths unat_of_nat take_bit_eq_mod)
qed

lemma parse_u32_loop_ok:
  "unat acc \<le> unat mx \<Longrightarrow>
   parse_u32_loop acc bs name mx = Inr n \<longleftrightarrow>
     (\<forall>b \<in> set bs. is_ascii_digit b) \<and> dec_val (unat acc) bs = unat n \<and> n \<le> mx"
proof (induction bs arbitrary: acc)
  case Nil
  have "unat acc < 4294967296" using Nil unat_u32_lt [of mx] by linarith
  then have "unat (ucast acc :: u32) = unat acc"
    by (simp add: unsigned_ucast_eq take_bit_eq_mod)
  with Nil show ?case by (auto simp: word_le_nat_alt word_unat_eq_iff)
next
  case (Cons b bs)
  show ?case
  proof (cases "is_ascii_digit b")
    case False
    then show ?thesis by simp
  next
    case True
    let ?v = "acc * 10 + of_nat (digit_val b) :: u64"
    have v: "unat ?v = unat acc * 10 + digit_val b"
      by (rule parse_u32_step [OF Cons.prems True])
    have cmp: "?v > ucast mx \<longleftrightarrow> unat ?v > unat mx"
      by (simp add: word_less_nat_alt unsigned_ucast_eq take_bit_nat_eq_self less_trans [OF unat_u32_lt])
    show ?thesis
    proof (cases "?v > ucast mx")
      case True
      then have "unat mx < dec_val (unat acc * 10 + digit_val b) bs"
        using cmp v dec_val_mono [of "unat acc * 10 + digit_val b" bs] by simp
      with True show ?thesis by (auto simp: Let_def word_le_nat_alt)
    next
      case False
      with Cons.IH [of ?v] cmp \<open>is_ascii_digit b\<close> v show ?thesis by (simp add: Let_def)
    qed
  qed
qed

lemma parse_u32_ok:
  "parse_u32 bs name mx = Inr n \<longleftrightarrow>
     (\<forall>b \<in> set bs. is_ascii_digit b) \<and> dec_val 0 bs = unat n \<and> n \<le> mx"
  by (simp add: parse_u32_def parse_u32_loop_ok)

lemma parse_u32_dec [simp]: "n \<le> mx \<Longrightarrow> parse_u32 (dec (unat n)) name mx = Inr n"
  by (simp add: parse_u32_ok dec_digits)

section \<open>Fields\<close>

lemma fields_next_sep:
  "v \<noteq> [] \<Longrightarrow> CHR '' '' \<notin> set v \<Longrightarrow>
     fields_next (Some (v @ CHR '' '' # rest)) name = Inr (v, Some rest)"
  by (simp add: fields_next_def find_byte_first)

lemma fields_next_last:
  "v \<noteq> [] \<Longrightarrow> CHR '' '' \<notin> set v \<Longrightarrow> fields_next (Some v) name = Inr (v, None)"
  by (simp add: fields_next_def find_byte_None_iff [THEN iffD2])

lemma next_u32_sep:
  "n \<le> mx \<Longrightarrow> next_u32 (Some (dec (unat n) @ CHR '' '' # rest)) name mx = Inr (n, Some rest)"
  by (simp add: next_u32_def fields_next_sep dec_not_special)

lemma next_u32_last:
  "n \<le> mx \<Longrightarrow> next_u32 (Some (dec (unat n))) name mx = Inr (n, None)"
  by (simp add: next_u32_def fields_next_last dec_not_special)

lemma next_u32_bound: "next_u32 fs name mx = Inr (n, fs') \<Longrightarrow> n \<le> mx"
  by (auto simp: next_u32_def bind_res_Inr_iff parse_u32_ok)

lemmas next_u32_render = next_u32_sep next_u32_last

section \<open>Parsing a rendered header\<close>

definition header_of :: "data_frame \<Rightarrow> data_header" where
  "header_of f =
     \<lparr>dh_kind = df_kind f, dh_channel = df_channel f, dh_msgno = df_msgno f, dh_more = df_more f,
      dh_seqno = df_seqno f, dh_size = df_size f, dh_ansno = df_ansno f\<rparr>"

lemma u32_le_MAX_SEQ_NO [simp]: "(n :: u32) \<le> MAX_SEQ_NO"
  by (simp add: limit_defs word_le_nat_alt)

lemma fields_next_more:
  "fields_next (Some ((if m then INTERMEDIATE else COMPLETE) # CHR '' '' # rest)) name =
     Inr ([if m then INTERMEDIATE else COMPLETE], Some rest)"
  using fields_next_sep [of "[if m then INTERMEDIATE else COMPLETE]"]
  by (auto simp: INTERMEDIATE_def COMPLETE_def)

lemma parse_continuation_more [simp]:
  "parse_continuation [if m then INTERMEDIATE else COMPLETE] = Inr m"
  by (simp add: parse_continuation_def INTERMEDIATE_def COMPLETE_def)

lemma wf_data_size_le: "wf_data f \<Longrightarrow> df_size f \<le> MAX_FRAME_SIZE"
  using wf_data_size [of f] by (simp add: wf_data_def word_le_nat_alt)

lemma parse_header_line:
  assumes "wf_data f" and "df_size f \<le> mfs"
  shows "parse_header (header_line f) mfs = Inr (ParsedData (header_of f))"
proof -
  let ?k = "as_str (df_kind f)"
  obtain tail where tail: "header_line f = ?k @ CHR '' '' # tail"
    by (simp add: header_line_def)
  have t: "tail = dec (unat (df_channel f)) @ CHR '' '' # dec (unat (df_msgno f)) @ CHR '' '' #
      (if df_more f then INTERMEDIATE else COMPLETE) # CHR '' '' # dec (unat (df_seqno f)) @
      CHR '' '' # dec (unat (df_size f)) @
      (case df_ansno f of Some a \<Rightarrow> CHR '' '' # dec (unat a) | None \<Rightarrow> [])"
    using tail by (auto simp: header_line_def split: option.splits)
  have "parse_data_fields (df_kind f) (Some tail) mfs = Inr (ParsedData (header_of f))"
    using assms wf_data_size_le [OF assms(1)]
    by (cases "df_ansno f")
      (auto simp: t parse_data_fields_def next_u32_render fields_next_more wf_data_def
        fields_finish_def header_of_def)
  then show ?thesis
    by (simp add: tail parse_header_def fields_new_def)
qed

lemma parse_seq_line:
  assumes "wf_seq f"
  shows "parse_header (seq_line f) mfs = Inr (ParsedSeq f)"
  using assms
  by (simp add: seq_line_def parse_header_def fields_new_def parse_seq_fields_def next_u32_render
      fields_finish_def wf_seq_def new_seq_def)

section \<open>What a header may say\<close>

definition wf_header :: "data_header \<Rightarrow> bool" where
  "wf_header h \<longleftrightarrow>
     dh_channel h \<le> MAX_CHANNEL_NO \<and> dh_msgno h \<le> MAX_MSG_NO \<and> dh_size h \<le> MAX_FRAME_SIZE \<and>
     (\<forall>a. dh_ansno h = Some a \<longrightarrow> a \<le> MAX_ANS_NO) \<and>
     (dh_ansno h \<noteq> None \<longleftrightarrow> has_ansno (dh_kind h))"

definition wf_decoder :: "decoder \<Rightarrow> bool" where
  "wf_decoder d \<longleftrightarrow> (\<forall>h. dec_pending d = Some h \<longrightarrow> wf_header h \<and> dh_size h \<le> max_frame_size d)"

lemma wf_decoder_new [simp]: "wf_decoder decoder_new" "wf_decoder (decoder_with_max_frame_size mx)"
  by (simp_all add: wf_decoder_def decoder_new_def decoder_with_max_frame_size_def)

lemma parse_data_fields_wf:
  "parse_data_fields k fs mfs = Inr (ParsedData h) \<Longrightarrow> wf_header h \<and> dh_size h \<le> mfs"
  by (auto simp: parse_data_fields_def bind_res_Inr_iff wf_header_def split: if_splits
      dest!: next_u32_bound)

lemma parse_data_fields_not_seq: "parse_data_fields k fs mfs \<noteq> Inr (ParsedSeq s)"
  by (auto simp: parse_data_fields_def bind_res_Inr_iff split: if_splits)

lemma parse_seq_fields_wf: "parse_seq_fields fs = Inr (ParsedSeq s) \<Longrightarrow> wf_seq s"
  by (auto simp: parse_seq_fields_def bind_res_Inr_iff new_seq_ok wf_seq_def)

lemma parse_seq_fields_not_data: "parse_seq_fields fs \<noteq> Inr (ParsedData h)"
  by (auto simp: parse_seq_fields_def bind_res_Inr_iff)

lemma parse_header_cases:
  assumes "parse_header line mfs = Inr p"
  obtains (seq) cs where "parse_seq_fields (Some cs) = Inr p"
    | (data) k cs where "parse_data_fields k (Some cs) mfs = Inr p"
  using assms
  by (auto simp: parse_header_def fields_new_def bind_res_Inr_iff Let_def split: if_splits list.splits)

lemma parse_header_wf:
  "parse_header line mfs = Inr (ParsedData h) \<Longrightarrow> wf_header h \<and> dh_size h \<le> mfs"
  by (erule parse_header_cases) (auto dest: parse_data_fields_wf simp: parse_seq_fields_not_data)

lemma parse_header_seq_wf: "parse_header line mfs = Inr (ParsedSeq s) \<Longrightarrow> wf_seq s"
  by (erule parse_header_cases) (auto dest: parse_seq_fields_wf simp: parse_data_fields_not_seq)

section \<open>One call of the decoder\<close>

lemma take_window [simp]: "take (min (length src) n) src = take n src"
  by (simp add: min_def)

text \<open>The frame a well-formed header announces can always be built.\<close>

lemma wf_header_builds:
  assumes "wf_header h" and "length payload = unat (dh_size h)"
  shows "(case dh_ansno h of
            Some a \<Rightarrow> new_ans (dh_channel h) (dh_msgno h) (dh_seqno h) a payload
          | None \<Rightarrow> new_data (dh_kind h) (dh_channel h) (dh_msgno h) (dh_seqno h) payload) =
     Inr \<lparr>df_kind = dh_kind h, df_channel = dh_channel h, df_msgno = dh_msgno h, df_more = False,
          df_seqno = dh_seqno h, df_ansno = dh_ansno h, df_payload = payload\<rparr>"
  using assms
  by (auto simp: wf_header_def new_ans_def new_data_ok build_frame_ok word_le_nat_alt has_ansno_def
      split: option.split)

definition frame_of :: "data_header \<Rightarrow> bytes \<Rightarrow> data_frame" where
  "frame_of h payload =
     \<lparr>df_kind = dh_kind h, df_channel = dh_channel h, df_msgno = dh_msgno h, df_more = dh_more h,
      df_seqno = dh_seqno h, df_ansno = dh_ansno h, df_payload = payload\<rparr>"

lemma wf_frame_of: "wf_header h \<Longrightarrow> length payload = unat (dh_size h) \<Longrightarrow> wf_data (frame_of h payload)"
  by (simp add: wf_header_def frame_of_def wf_data_def word_le_nat_alt)

lemma decode_payload_eq:
  assumes "wf_header h"
  shows "decode_payload d h src =
     (let size = unat (dh_size h) in
      if length src < size + 5 then ((d, src), Inr None)
      else if take 5 (drop size src) \<noteq> TRAILER then ((d, drop size src), Inl MissingTrailer)
      else ((d\<lparr>dec_pending := None\<rparr>, drop (size + 5) src), Inr (Some (DataF (frame_of h (take size src))))))"
proof -
  let ?size = "unat (dh_size h)"
  have "\<not> length src < ?size + 5 \<Longrightarrow> length (take ?size src) = ?size" by simp
  from wf_header_builds [OF assms this] show ?thesis
    by (simp add: decode_payload_def Let_def with_more_def frame_of_def add.commute)
qed

lemma decode_header_lf:
  "find_byte (take MAX_HEADER_LEN src) LF = Some lf \<Longrightarrow>
   decode_header d src =
     (if lf = 0 \<or> src ! (lf - 1) \<noteq> CR then (src, Inl BareNewlineInHeader)
      else case parse_header (take (lf - 1) src) (max_frame_size d) of
             Inl e \<Rightarrow> (src, Inl e) | Inr p \<Rightarrow> (drop (lf + 1) src, Inr (Some p)))"
  unfolding decode_header_def take_window by simp

lemma decode_header_no_lf:
  "find_byte (take MAX_HEADER_LEN src) LF = None \<Longrightarrow>
   decode_header d src =
     (if length src \<ge> MAX_HEADER_LEN then (src, Inl (HeaderTooLong MAX_HEADER_LEN)) else (src, Inr None))"
  unfolding decode_header_def take_window by simp

lemma decode_header_None: "decode_header d src = (src', Inr None) \<Longrightarrow> src' = src"
  by (auto simp: decode_header_def split: option.splits if_splits sum.splits)

lemma decode_header_wf:
  "decode_header d src = (src', Inr (Some (ParsedData h))) \<Longrightarrow> wf_header h \<and> dh_size h \<le> max_frame_size d"
  by (auto simp: decode_header_def split: option.splits if_splits sum.splits dest: parse_header_wf)

lemma decode_header_seq_wf: "decode_header d src = (src', Inr (Some (ParsedSeq s))) \<Longrightarrow> wf_seq s"
  by (auto simp: decode_header_def split: option.splits if_splits sum.splits dest: parse_header_seq_wf)

lemma decode_header_shrinks:
  "decode_header d src = (src', Inr (Some p)) \<Longrightarrow> length src' < length src"
  by (auto simp: decode_header_def split: option.splits if_splits sum.splits dest!: find_byte_SomeD)

text \<open>Octets that arrive later do not change a header that was already decided.\<close>

lemma find_byte_window:
  "find_byte (take n src) c = Some i \<Longrightarrow> find_byte (take n (src @ rest)) c = Some i"
  by (auto simp: find_byte_append) (metis find_byte_None_iff option.distinct(1))

lemma decode_header_more:
  assumes "decode_header d src = (src', r)" and "r \<noteq> Inr None"
  shows "decode_header d (src @ rest) = (src' @ rest, r)"
proof (cases "find_byte (take MAX_HEADER_LEN src) LF")
  case None
  with assms have len: "length src \<ge> MAX_HEADER_LEN"
    by (auto simp: decode_header_no_lf split: if_splits)
  with None have "find_byte (take MAX_HEADER_LEN (src @ rest)) LF = None" by simp
  with len None assms(1) show ?thesis by (auto simp: decode_header_no_lf)
next
  case (Some lf)
  then have lf: "lf < length src" by (auto dest: find_byte_SomeD)
  show ?thesis
    using lf assms(1) unfolding decode_header_lf [OF Some] decode_header_lf [OF find_byte_window [OF Some]]
    by (auto simp: nth_append less_imp_diff_less split: sum.splits if_splits)
qed

text \<open>The laws of an incremental decoder, each for its half of \<open>decode\<close>.\<close>

lemma decode_payload_more:
  assumes "decode_payload d h src = ((d', src'), r)" and "r \<noteq> Inr None"
  shows "decode_payload d h (src @ rest) = ((d', src' @ rest), r)"
proof -
  have "\<not> length src < unat (dh_size h) + 5"
    using assms by (auto simp: decode_payload_def Let_def)
  with assms(1) show ?thesis
    by (auto simp: decode_payload_def Let_def split: option.splits sum.splits if_splits)
qed

lemma decode_payload_None:
  "decode_payload d h src = ((d', src'), Inr None) \<Longrightarrow> d' = d \<and> src' = src"
  by (auto simp: decode_payload_def Let_def split: option.splits sum.splits if_splits)

lemma decode_payload_shrinks:
  "decode_payload d h src = ((d', src'), Inr (Some f)) \<Longrightarrow> length src' < length src"
  by (auto simp: decode_payload_def Let_def split: option.splits sum.splits if_splits)

text \<open>Case analysis on what the header half of one call found.\<close>

lemma decode_cases:
  obtains (pending) h where "dec_pending d = Some h" "decode d src = decode_payload d h src"
  | (err) src' e where "dec_pending d = None" "decode_header d src = (src', Inl e)"
      "decode d src = ((d, src'), Inl e)"
  | (none) "dec_pending d = None" "decode_header d src = (src, Inr None)"
      "decode d src = ((d, src), Inr None)"
  | (seq) src' s where "dec_pending d = None" "decode_header d src = (src', Inr (Some (ParsedSeq s)))"
      "decode d src = ((d, src'), Inr (Some (SeqF s)))"
  | (data) src' h where "dec_pending d = None" "decode_header d src = (src', Inr (Some (ParsedData h)))"
      "decode d src = decode_payload (d\<lparr>dec_pending := Some h\<rparr>) h src'"
proof (cases "dec_pending d")
  case (Some h)
  then show ?thesis using pending by (simp add: decode_def)
next
  case None
  obtain src' r where r: "decode_header d src = (src', r)" by fastforce
  show ?thesis
  proof (cases r)
    case (Inl e)
    with None r err show ?thesis by (simp add: decode_def)
  next
    case (Inr p)
    show ?thesis
    proof (cases p)
      case p: None
      with r Inr have "src' = src" by (auto dest: decode_header_None)
      with None r Inr p none show ?thesis by (simp add: decode_def)
    next
      case (Some q)
      with None r Inr seq data show ?thesis by (cases q) (simp_all add: decode_def)
    qed
  qed
qed

lemma decode_header_pending [simp]:
  "decode_header (d\<lparr>dec_pending := x\<rparr>) src = decode_header d src"
  by (auto simp: decode_header_def split: option.split sum.split)

lemma decode_Some_pending: "dec_pending d = Some h \<Longrightarrow> decode d src = decode_payload d h src"
  by (simp add: decode_def)

lemma decode_more:
  assumes "decode d src = ((d', src'), r)" and "r \<noteq> Inr None"
  shows "decode d (src @ rest) = ((d', src' @ rest), r)"
proof (cases d src rule: decode_cases)
  case (pending h)
  with assms decode_payload_more show ?thesis by (simp add: decode_def)
next
  case (err src1 e)
  with assms decode_header_more [OF err(2)] show ?thesis by (auto simp: decode_def)
next
  case none
  with assms show ?thesis by simp
next
  case (seq src1 s)
  with assms decode_header_more [OF seq(2)] show ?thesis by (auto simp: decode_def)
next
  case (data src1 h)
  with assms decode_header_more [OF data(2)] decode_payload_more show ?thesis
    by (auto simp: decode_def)
qed

lemma decode_resume:
  assumes "decode d src = ((d', src'), Inr None)"
  shows "decode d (src @ rest) = decode d' (src' @ rest)"
proof (cases d src rule: decode_cases)
  case (pending h)
  with assms have "d' = d \<and> src' = src" by (auto dest: decode_payload_None)
  then show ?thesis by simp
next
  case (data src1 h)
  from data(3) assms have "decode_payload (d\<lparr>dec_pending := Some h\<rparr>) h src1 = ((d', src'), Inr None)"
    by simp
  then have "d' = d\<lparr>dec_pending := Some h\<rparr> \<and> src' = src1"
    by (rule decode_payload_None)
  with data(1) decode_header_more [OF data(2)] show ?thesis
    by (auto simp: decode_def)
qed (use assms in auto)

lemma decode_progress:
  assumes "decode d src = ((d', src'), Inr (Some f))"
  shows "length src' < length src"
proof (cases d src rule: decode_cases)
  case (pending h)
  with assms show ?thesis by (auto dest: decode_payload_shrinks)
next
  case (seq src1 s)
  with assms show ?thesis by (auto dest: decode_header_shrinks)
next
  case (data src1 h)
  with assms have "length src' < length src1" by (auto dest: decode_payload_shrinks)
  also from data(2) have "length src1 < length src" by (rule decode_header_shrinks)
  finally show ?thesis .
qed (use assms in auto)

interpretation beep_decoder: incremental_decoder decode
  by unfold_locales (auto intro: decode_more decode_resume decode_progress)

section \<open>Rendered frames\<close>

lemma decode_header_rendered:
  assumes "LF \<notin> set line" and "length line \<le> 60" and "parse_header line (max_frame_size d) = Inr p"
  shows "decode_header d (line @ CRLF @ rest) = (rest, Inr (Some p))"
proof -
  have "take MAX_HEADER_LEN (line @ CRLF @ rest) =
      (line @ [CR]) @ LF # take (MAX_HEADER_LEN - (length line + 2)) rest"
    using assms(2) by (simp add: MAX_HEADER_LEN_def numeral_eq_Suc take_Cons' Suc_diff_le)
  then have "find_byte (take MAX_HEADER_LEN (line @ CRLF @ rest)) LF = Some (length line + 1)"
    using find_byte_first [of LF "line @ [CR]"] assms(1) by simp
  from decode_header_lf [OF this] show ?thesis
    using assms(3) by (simp add: nth_append)
qed

lemma decode_seq_rendered:
  assumes "wf_seq f" and "dec_pending d = None"
  shows "decode d (encode_seq f [] @ rest) = ((d, rest), Inr (Some (SeqF f)))"
proof -
  have "length (seq_line f) \<le> 60" using length_seq_line [of f] by linarith
  from decode_header_rendered [OF seq_line_no_LF this parse_seq_line [OF assms(1)]] assms(2)
  show ?thesis by (simp add: decode_def encode_seq_eq)
qed

lemma decode_data_rendered:
  assumes "wf_data f" and "df_size f \<le> max_frame_size d" and "dec_pending d = None"
  shows "decode d (encode_data f [] @ rest) = ((d, rest), Inr (Some (DataF f)))"
proof -
  have hdr: "decode_header d (header_line f @ CRLF @ df_payload f @ TRAILER @ rest) =
      (df_payload f @ TRAILER @ rest, Inr (Some (ParsedData (header_of f))))"
    by (rule decode_header_rendered [OF header_line_no_LF length_header_line
          parse_header_line [OF assms(1,2)]])
  have wf: "wf_header (header_of f)"
    using assms(1) wf_data_size_le [OF assms(1)] by (simp add: wf_header_def header_of_def wf_data_def)
  have f: "frame_of (header_of f) (df_payload f) = f"
    by (simp add: frame_of_def header_of_def)
  have size: "unat (dh_size (header_of f)) = length (df_payload f)"
    using wf_data_size [OF assms(1)] by (simp add: header_of_def)
  show ?thesis
    using hdr assms(3)
    by (simp add: decode_def encode_data_eq decode_payload_eq [OF wf] size f Let_def)
qed

lemma decode_rendered:
  assumes "wf_frame f" and "dec_pending d = None" and "\<And>g. f = DataF g \<Longrightarrow> df_size g \<le> max_frame_size d"
  shows "decode d (encode f [] @ rest) = ((d, rest), Inr (Some f))"
  using assms by (cases f) (simp_all add: decode_seq_rendered decode_data_rendered)

lemma decode_nothing: "dec_pending d = None \<Longrightarrow> decode d [] = ((d, []), Inr None)"
  by (simp add: decode_def decode_header_def MAX_HEADER_LEN_def)

lemma drains_rendered:
  "\<forall>f \<in> set fs. wf_frame f \<Longrightarrow>
   drains decode decoder_new (concat (map (\<lambda>f. encode f []) fs)) fs decoder_new []"
proof (induction fs)
  case Nil
  then show ?case by (auto intro: drains_stop simp: decode_nothing decoder_new_def)
next
  case (Cons f fs)
  have "decode decoder_new (encode f [] @ concat (map (\<lambda>f. encode f []) fs)) =
      ((decoder_new, concat (map (\<lambda>f. encode f []) fs)), Inr (Some f))"
    using Cons.prems by (intro decode_rendered) (auto simp: decoder_new_def dest: wf_data_size_le)
  with Cons show ?case by (auto intro: drains_step)
qed

lemma decode_wf:
  assumes "wf_decoder d" and "decode d src = ((d', src'), r)"
  shows "wf_decoder d' \<and> max_frame_size d' = max_frame_size d \<and> (\<forall>f. r = Inr (Some f) \<longrightarrow> wf_frame f)"
proof -
  have payload: "wf_decoder e' \<and> max_frame_size e' = max_frame_size e \<and> (\<forall>f. q = Inr (Some f) \<longrightarrow> wf_frame f)"
    if "wf_decoder e" "dec_pending e = Some h" "decode_payload e h s = ((e', s'), q)" for e h s e' s' q
  proof -
    from that have wf: "wf_header h" by (simp add: wf_decoder_def)
    show ?thesis
      using that(1,3) wf_frame_of [OF wf]
      by (auto simp: decode_payload_eq [OF wf] wf_decoder_def Let_def split: if_splits)
  qed
  show ?thesis
  proof (cases d src rule: decode_cases)
    case (pending h)
    with assms(2) have "decode_payload d h src = ((d', src'), r)" by simp
    from payload [OF assms(1) pending(1) this] show ?thesis .
  next
    case (seq s1 s)
    with assms show ?thesis by (auto dest: decode_header_seq_wf)
  next
    case (data s1 h)
    from decode_header_wf [OF data(2)] have wf: "wf_decoder (d\<lparr>dec_pending := Some h\<rparr>)"
      by (simp add: wf_decoder_def)
    have "decode_payload (d\<lparr>dec_pending := Some h\<rparr>) h s1 = ((d', src'), r)"
      using assms(2) data(3) by simp
    from payload [OF wf _ this] show ?thesis by simp
  qed (use assms in auto)
qed

section \<open>Properties\<close>

definition sample_rpy :: data_frame where
  "sample_rpy = \<lparr>df_kind = Rpy, df_channel = 0, df_msgno = 0, df_more = False, df_seqno = 0,
     df_ansno = None, df_payload = ''hello''\<rparr>"

definition sample_seq :: seq_frame where
  "sample_seq = \<lparr>sf_channel = 1, sf_ackno = 4096, sf_window = 8192\<rparr>"

lemma sample_wf [simp]: "wf_data sample_rpy" "wf_seq sample_seq"
  by (simp_all add: sample_rpy_def sample_seq_def wf_data_def wf_seq_def has_ansno_def limit_defs)

text \<open>
  C10 (round trip). Decoding what \<open>encode\<close> appended gives back the frame, consumes exactly
  its octets, leaves what follows untouched and returns the decoder to its initial state:
  for every well-formed data frame within the configured size limit and every \<open>SEQ\<close> frame.
\<close>

theorem decode_encode:
  assumes "wf_frame f" and "\<And>g. f = DataF g \<Longrightarrow> df_size g \<le> mx"
  shows "decode (decoder_with_max_frame_size mx) (encode f [] @ rest) =
    ((decoder_with_max_frame_size mx, rest), Inr (Some f))"
  using assms by (intro decode_rendered) (auto simp: decoder_with_max_frame_size_def)

theorem decode_encode_witness:
  "decode (decoder_with_max_frame_size 4096) (encode (DataF sample_rpy) [] @ ''MSG'') =
    ((decoder_with_max_frame_size 4096, ''MSG''), Inr (Some (DataF sample_rpy)))"
  by (rule decode_encode) (use sample_wf in \<open>auto simp: df_size_def sample_rpy_def\<close>)

text \<open>
  A stream of well-formed frames, cut into chunks at any places
  and fed to a fresh decoder as the chunks arrive, yields exactly those frames in order and
  leaves nothing buffered.
\<close>

lemma decode_chunks:
  assumes "\<forall>f \<in> set fs. wf_frame f"
    and "concat chunks = concat (map (\<lambda>f. encode f []) fs)"
  shows "feeds decode decoder_new [] chunks fs decoder_new []"
proof -
  from drains_rendered [OF assms(1)] assms(2)
  have "drains decode decoder_new ([] @ concat chunks) fs decoder_new []" by simp
  then show ?thesis
    by (rule beep_decoder.drains_feeds) (simp add: decode_nothing decoder_new_def)
qed

text \<open>
  A strict prefix of a rendered frame is never an error and never a frame: the
  decoder waits. So a read that stops inside a frame cannot end the session.
\<close>

lemma decode_prefix_waits:
  assumes "wf_frame f" and "encode f [] = part @ rest" and "rest \<noteq> []"
  shows "\<exists>d' src'. decode decoder_new part = ((d', src'), Inr None)"
proof -
  have whole: "decode decoder_new (part @ rest) = ((decoder_new, []), Inr (Some f))"
    unfolding assms(2) [symmetric]
    using decode_rendered [OF assms(1), of decoder_new "[]"] assms(1)
    by (cases f) (auto simp: decoder_new_def dest: wf_data_size_le)
  obtain d' src' r where r: "decode decoder_new part = ((d', src'), r)" by (metis surj_pair)
  have "r = Inr None"
  proof (rule ccontr)
    assume "r \<noteq> Inr None"
    with decode_more [OF r] whole have "src' @ rest = []" by simp
    with assms(3) show False by simp
  qed
  with r show ?thesis by blast
qed

text \<open>
  C11 (invariant). A decoder that starts from one of its constructors only ever yields frames
  within the limits BEEP puts on header fields, and keeps its pending header within them
  and within the configured frame size.
\<close>

theorem decode_preserves_wf:
  assumes "wf_decoder d" and "decode d src = ((d', src'), r)"
  shows "wf_decoder d' \<and> (\<forall>f. r = Inr (Some f) \<longrightarrow> wf_frame f)"
  using decode_wf [OF assms] by auto

theorem decode_preserves_wf_witness:
  "wf_decoder decoder_new \<and> wf_frame (SeqF sample_seq)"
proof -
  have d: "decode decoder_new (encode (SeqF sample_seq) [] @ []) = ((decoder_new, []), Inr (Some (SeqF sample_seq)))"
    by (rule decode_rendered) (simp_all add: decoder_new_def)
  from decode_preserves_wf [OF wf_decoder_new(1) d] show ?thesis by simp
qed

text \<open>
  C39 (bounds). What a decoder keeps buffered while it waits is bounded: less than a header
  line when no header has been read, less than the announced payload and trailer after it.
\<close>

theorem decode_buffer_bound:
  assumes "wf_decoder d" and "decode d src = ((d', src'), Inr None)"
  shows "length src' < max MAX_HEADER_LEN (unat (max_frame_size d) + length TRAILER)"
proof -
  have payload: "length s < unat (max_frame_size e) + 5"
    if "dec_pending e = Some h" "wf_decoder e" "decode_payload e h s = ((e', s'), Inr None)" for e h s e' s'
  proof -
    from that have "length s < unat (dh_size h) + 5" and "dh_size h \<le> max_frame_size e"
      by (auto simp: decode_payload_def Let_def wf_decoder_def split: if_splits option.splits sum.splits)
    then show ?thesis by (simp add: word_le_nat_alt)
  qed
  show ?thesis
  proof (cases d src rule: decode_cases)
    case (pending h)
    with assms(2) have "decode_payload d h src = ((d', src'), Inr None)" by simp
    with payload [OF pending(1) assms(1) this] decode_payload_None [OF this] show ?thesis by simp
  next
    case none
    then have "length src < MAX_HEADER_LEN"
      by (auto simp: decode_header_def split: option.splits if_splits sum.splits)
    with none assms(2) show ?thesis by simp
  next
    case (data s1 h)
    let ?e = "d\<lparr>dec_pending := Some h\<rparr>"
    have wf: "wf_decoder ?e" using decode_header_wf [OF data(2)] by (simp add: wf_decoder_def)
    have eq: "decode_payload ?e h s1 = ((d', src'), Inr None)" using assms(2) data(3) by simp
    with payload [OF _ wf eq] decode_payload_None [OF eq] show ?thesis by simp
  qed (use assms(2) in auto)
qed

theorem decode_buffer_bound_witness:
  "decode decoder_new ''RPY 0 '' = ((decoder_new, ''RPY 0 ''), Inr None) \<and>
   length ''RPY 0 '' < max MAX_HEADER_LEN (unat (max_frame_size decoder_new) + length TRAILER)"
proof -
  have d: "decode decoder_new ''RPY 0 '' = ((decoder_new, ''RPY 0 ''), Inr None)" by code_simp
  from decode_buffer_bound [OF wf_decoder_new(1) this] d show ?thesis by blast
qed

text \<open>
  \<open>parse_u32\<close> accepts a field exactly when it is all digits and its
  decimal value, taken without any wrap-around, is at most the maximum; the value returned is
  that number. Leading zeros are therefore accepted and the \<open>u64\<close> accumulator never wraps.
\<close>

lemma parse_u32_correct:
  "parse_u32 bs name mx = Inr n \<longleftrightarrow>
     (\<forall>b \<in> set bs. is_ascii_digit b) \<and> dec_val 0 bs = unat n \<and> n \<le> mx"
  by (rule parse_u32_ok)

text \<open>
  \<open>frame_boundary\<close>, which the WebSocket binding uses to cut the outgoing
  stream, measures what the decoder consumes: whenever a fresh decoder takes a frame from the
  front of a buffer, the boundary is the number of octets it took.
\<close>

lemma frame_boundary_decode:
  assumes "decode decoder_new src = ((d', src'), Inr (Some f))"
  shows "frame_boundary src = Some (length src - length src') \<and>
    src' = drop (length src - length src') src \<and> d' = decoder_new"
proof -
  have hdr: "\<exists>lf. find_byte (take MAX_HEADER_LEN src) LF = Some lf \<and> lf < length src \<and>
      \<not> (lf = 0 \<or> src ! (lf - 1) \<noteq> CR) \<and> parse_header (take (lf - 1) src) MAX_FRAME_SIZE = Inr p \<and>
      s1 = drop (lf + 1) src"
    if "decode_header decoder_new src = (s1, Inr (Some p))" for s1 p
    using that
    by (auto simp: decode_header_def decoder_new_def split: option.splits if_splits sum.splits
        dest!: find_byte_SomeD)
  have boundary: "frame_boundary src =
      (if lf = 0 \<or> src ! (lf - 1) \<noteq> CR then None
       else case parse_header (take (lf - 1) src) MAX_FRAME_SIZE of
         Inl _ \<Rightarrow> None | Inr (ParsedSeq _) \<Rightarrow> Some (lf + 1)
       | Inr (ParsedData h) \<Rightarrow>
           if length src \<ge> lf + 1 + unat (dh_size h) + 5 then Some (lf + 1 + unat (dh_size h) + 5) else None)"
    if "find_byte (take MAX_HEADER_LEN src) LF = Some lf" for lf
    using that unfolding frame_boundary_def take_window Let_def length_TRAILER by simp
  show ?thesis
  proof (cases decoder_new src rule: decode_cases)
    case (seq s1 s)
    from hdr [OF seq(2)] boundary assms seq(3) show ?thesis by auto
  next
    case (data s1 h)
    have wf: "wf_header h" using decode_header_wf [OF data(2)] by simp
    from hdr [OF data(2)] boundary assms data(3) show ?thesis
      by (auto simp: decode_payload_eq [OF wf] Let_def decoder_new_def split: if_splits)
  qed (use assms in \<open>auto simp: decoder_new_def\<close>)
qed

end
