(* ===== verification/Windows.thy ===== *)
theory Windows
  imports Frames
begin

text \<open>
  \<^verbatim>\<open>vortice-proto/src/window.rs\<close>: sequence numbers modulo $2^{32}$ and the sliding
  window. \<open>SeqNo\<close> is a newtype around \<open>u32\<close>; here it is the word itself, so
  \<open>SeqNo::new\<close> and \<open>get\<close> are the identity and \<open>ZERO\<close> is \<open>0\<close>.
\<close>

section \<open>Sequence numbers\<close>

type_synonym seq_no = u32

definition advance :: "seq_no \<Rightarrow> u32 \<Rightarrow> seq_no" where
  "advance s octets = s + octets"

definition distance_from :: "seq_no \<Rightarrow> seq_no \<Rightarrow> u32" where
  "distance_from s base = s - base"

text \<open>
  What the window code relies on: a counter that can be moved forward and a distance that
  undoes the move. Nothing else about the representation is used below.
\<close>

locale octet_counter =
  fixes adv :: "'s \<Rightarrow> u32 \<Rightarrow> 's" and dist :: "'s \<Rightarrow> 's \<Rightarrow> u32"
  assumes dist_adv: "dist (adv s n) s = n"
    and adv_dist: "adv b (dist s b) = s"
    and adv_adv: "adv (adv s m) n = adv s (m + n)"
begin

lemma dist_self: "dist s s = 0"
proof -
  have "adv s (dist s s + dist s s) = adv s (dist s s)"
    using adv_adv [of s "dist s s" "dist s s"] adv_dist [of s s] by simp
  then have "dist s s + dist s s = dist s s" using dist_adv by metis
  then show ?thesis by simp
qed

lemma adv_0: "adv s 0 = s"
  using adv_dist [of s s] by (simp add: dist_self)

lemma adv_inject: "adv s m = adv s n \<longleftrightarrow> m = n"
  using dist_adv by metis

lemma dist_adv_both: "dist (adv s m) (adv s n) = m - n"
proof -
  have "adv (adv s n) (m - n) = adv s m" by (simp add: adv_adv)
  with dist_adv [of "adv s n" "m - n"] show ?thesis by simp
qed

lemma dist_translate: "dist (adv s n) (adv b n) = dist s b"
  using dist_adv_both [of b "dist s b + n" n] by (simp add: adv_adv [symmetric] adv_dist)

lemma dist_adv_left: "dist (adv s n) b = dist s b + n"
  using dist_adv [of b "dist s b + n"] by (simp add: adv_adv [symmetric] adv_dist)

lemma full_cycle: "adv (adv s u32_MAX) 1 = s"
proof -
  have "u32_MAX + 1 = 0" by (simp add: u32_MAX_def)
  then show ?thesis by (simp add: adv_adv adv_0)
qed

end

interpretation seq_counter: octet_counter advance distance_from
  by unfold_locales (simp_all add: advance_def distance_from_def)

section \<open>The window\<close>

record window =
  w_base :: seq_no
  w_size :: u32

definition INITIAL_WINDOW_SIZE :: u32 where "INITIAL_WINDOW_SIZE = 4096"
definition MAX_WINDOW_SIZE :: u32 where "MAX_WINDOW_SIZE = MAX_FRAME_SIZE"

definition window_default :: window where
  "window_default = \<lparr>w_base = 0, w_size = INITIAL_WINDOW_SIZE\<rparr>"

definition window_new :: "seq_no \<Rightarrow> u32 \<Rightarrow> window" where
  "window_new base sz = \<lparr>w_base = base, w_size = sz\<rparr>"

definition limit :: "window \<Rightarrow> seq_no" where
  "limit w = advance (w_base w) (w_size w)"

text \<open>The sum is taken in \<open>u64\<close>, as in the source.\<close>

definition accepts :: "window \<Rightarrow> seq_no \<Rightarrow> u32 \<Rightarrow> bool" where
  "accepts w seqno len \<longleftrightarrow>
     (let offset = ucast (distance_from seqno (w_base w)) :: u64
      in offset + ucast len \<le> ucast (w_size w))"

definition remaining :: "window \<Rightarrow> seq_no \<Rightarrow> u32" where
  "remaining w next_octet = saturating_sub (w_size w) (distance_from next_octet (w_base w))"

definition window_is_stalled :: "window \<Rightarrow> seq_no \<Rightarrow> bool" where
  "window_is_stalled w next_octet \<longleftrightarrow> remaining w next_octet = 0"

definition updated :: "window \<Rightarrow> seq_no \<Rightarrow> u32 \<Rightarrow> window" where
  "updated w ackno sz = \<lparr>w_base = ackno, w_size = sz\<rparr>"

definition consumed :: "window \<Rightarrow> u32 \<Rightarrow> window" where
  "consumed w octets = \<lparr>w_base = advance (w_base w) octets, w_size = w_size w\<rparr>"

definition resized :: "window \<Rightarrow> u32 \<Rightarrow> window" where
  "resized w sz = \<lparr>w_base = w_base w, w_size = sz\<rparr>"

definition to_seq_frame :: "window \<Rightarrow> u32 \<Rightarrow> seq_frame result" where
  "to_seq_frame w channel = new_seq channel (w_base w) (w_size w)"

section \<open>Window arithmetic\<close>

lemma unat_ucast_u64: "unat (ucast (x :: u32) :: u64) = unat x"
  by (simp add: unsigned_ucast_eq take_bit_nat_eq_self less_trans [OF unat_u32_lt])

text \<open>In natural numbers the acceptance test is the obvious one: the \<open>u64\<close> sum is exact.\<close>

lemma accepts_iff:
  "accepts w s len \<longleftrightarrow> unat (distance_from s (w_base w)) + unat len \<le> unat (w_size w)"
proof -
  have "unat (distance_from s (w_base w)) + unat len < 18446744073709551616"
    using unat_u32_lt [of "distance_from s (w_base w)"] unat_u32_lt [of len] by linarith
  then have "unat (ucast (distance_from s (w_base w)) + ucast len :: u64) =
      unat (distance_from s (w_base w)) + unat len"
    by (simp add: unat_word_ariths unat_ucast_u64)
  then show ?thesis by (simp add: accepts_def word_le_nat_alt unat_ucast_u64)
qed

lemma unat_remaining: "unat (remaining w s) = unat (w_size w) - unat (distance_from s (w_base w))"
  by (simp add: remaining_def unat_saturating_sub)

lemma accepts_iff_remaining: "0 < len \<Longrightarrow> accepts w s len \<longleftrightarrow> len \<le> remaining w s"
  by (auto simp: accepts_iff word_le_nat_alt unat_remaining word_less_nat_alt)

lemma window_select [simp]:
  "w_base (consumed w n) = advance (w_base w) n" "w_size (consumed w n) = w_size w"
  "w_base (resized w n) = w_base w" "w_size (resized w n) = n"
  "w_base (updated w a n) = a" "w_size (updated w a n) = n"
  "w_base (window_new a n) = a" "w_size (window_new a n) = n"
  by (simp_all add: consumed_def resized_def updated_def window_new_def)

section \<open>Properties\<close>

text \<open>
  A frame is accepted exactly when its offset into the window plus its length,
  added without wrap-around, is at most the window size; in particular the test does not
  depend on where the window sits relative to the $2^{32}$ boundary, since moving window and
  frame together by any amount changes nothing.
\<close>

lemma accepts_arithmetic:
  "(accepts \<lparr>w_base = base, w_size = sz\<rparr> (advance base offset) len \<longleftrightarrow>
      unat offset + unat len \<le> unat sz) \<and>
   (accepts \<lparr>w_base = advance base shift, w_size = sz\<rparr> (advance s shift) len \<longleftrightarrow>
      accepts \<lparr>w_base = base, w_size = sz\<rparr> s len)"
  by (simp add: accepts_iff seq_counter.dist_adv seq_counter.dist_translate)

text \<open>
  The sender's budget and the receiver's test are the same condition: a
  non-empty run of octets is accepted exactly when its length is at most what \<open>remaining\<close>
  reports, and the budget is used up exactly at the window limit.
\<close>

lemma remaining_is_acceptance:
  "(0 < len \<longrightarrow> (accepts w s len \<longleftrightarrow> len \<le> remaining w s)) \<and>
   (window_is_stalled w s \<longleftrightarrow> \<not> accepts w s 1) \<and> window_is_stalled w (limit w)"
proof (intro conjI)
  show "0 < len \<longrightarrow> (accepts w s len \<longleftrightarrow> len \<le> remaining w s)" by (simp add: accepts_iff_remaining)
  have "window_is_stalled w s \<longleftrightarrow> unat (remaining w s) = 0"
    by (simp add: window_is_stalled_def unat_eq_zero)
  also have "\<dots> \<longleftrightarrow> \<not> (unat (distance_from s (w_base w)) + 1 \<le> unat (w_size w))"
    by (auto simp: unat_remaining)
  also have "\<dots> \<longleftrightarrow> \<not> accepts w s 1" by (simp add: accepts_iff)
  finally show "window_is_stalled w s \<longleftrightarrow> \<not> accepts w s 1" .
  show "window_is_stalled w (limit w)"
    by (simp add: window_is_stalled_def remaining_def limit_def seq_counter.dist_adv saturating_sub_def)
qed

end
