(* ===== verification/Channels.thy ===== *)
theory Channels
  imports Windows
begin

text \<open>
  \<^verbatim>\<open>vortice-proto/src/channel.rs\<close>: the bookkeeping of one channel. A \<open>BTreeSet\<close> is a
  set, a \<open>BTreeMap\<close> a partial map. Methods on \<open>&mut self\<close> return the channel with their
  result, also on an error.
\<close>

section \<open>State\<close>

record emitted =
  em_frames :: "data_frame list"
  em_remaining :: bytes

definition is_complete :: "emitted \<Rightarrow> bool" where
  "is_complete e \<longleftrightarrow> em_remaining e = []"

record message =
  msg_kind :: frame_kind
  msg_msgno :: u32
  msg_ansno :: "u32 option"
  msg_payload :: bytes

record partial =
  pt_kind :: frame_kind
  pt_msgno :: u32
  pt_ansno :: "u32 option"
  pt_payload :: bytes

definition matches :: "partial \<Rightarrow> data_frame \<Rightarrow> bool" where
  "matches p f \<longleftrightarrow> pt_kind p = df_kind f \<and> pt_msgno p = df_msgno f \<and> pt_ansno p = df_ansno f"

record channel =
  ch_number :: u32
  ch_profile :: string
  ch_send_window :: window
  ch_next_seqno :: seq_no
  ch_next_msgno :: u32
  ch_outstanding :: "u32 set"
  ch_next_ansno :: "u32 \<rightharpoonup> u32"
  ch_recv_window :: window
  ch_expected_seqno :: seq_no
  ch_awaiting_reply :: "u32 set"
  ch_partial :: "partial option"

definition channel_with_window_size :: "u32 \<Rightarrow> string \<Rightarrow> u32 \<Rightarrow> channel" where
  "channel_with_window_size number prof window_size =
     \<lparr>ch_number = number, ch_profile = prof,
      ch_send_window = window_new 0 INITIAL_WINDOW_SIZE, ch_next_seqno = 0, ch_next_msgno = 0,
      ch_outstanding = {}, ch_next_ansno = Map.empty,
      ch_recv_window = window_new 0 window_size, ch_expected_seqno = 0,
      ch_awaiting_reply = {}, ch_partial = None\<rparr>"

definition channel_new :: "u32 \<Rightarrow> string \<Rightarrow> channel" where
  "channel_new number prof = channel_with_window_size number prof INITIAL_WINDOW_SIZE"

section \<open>Outgoing\<close>

definition writable :: "channel \<Rightarrow> u32" where
  "writable c = remaining (ch_send_window c) (ch_next_seqno c)"

definition is_stalled :: "channel \<Rightarrow> bool" where
  "is_stalled c \<longleftrightarrow> writable c = 0"

definition next_after :: "u32 \<Rightarrow> u32" where
  "next_after msgno = (if msgno = MAX_MSG_NO then 0 else msgno + 1)"

text \<open>The loop of \<open>allocate_msgno\<close>, with the number of rounds left.\<close>

fun allocate_loop :: "nat \<Rightarrow> channel \<Rightarrow> channel \<times> u32 result" where
  "allocate_loop rounds c =
     (if rounds = 0 then (c, Inl MsgNoExhausted)
      else let candidate = ch_next_msgno c; c' = c\<lparr>ch_next_msgno := next_after candidate\<rparr>
           in if candidate \<notin> ch_outstanding c'
              then (c'\<lparr>ch_outstanding := insert candidate (ch_outstanding c')\<rparr>, Inr candidate)
              else allocate_loop (rounds - 1) c')"

declare allocate_loop.simps [simp del]

definition allocate_msgno :: "channel \<Rightarrow> channel \<times> u32 result" where
  "allocate_msgno c = allocate_loop (unat MAX_MSG_NO + 1) c"

definition reserve_msgno :: "channel \<Rightarrow> u32 \<Rightarrow> channel \<times> unit result" where
  "reserve_msgno c msgno =
     (if msgno > MAX_MSG_NO then (c, Inl (ValueOutOfRange ''msgno'' MAX_MSG_NO))
      else if msgno \<in> ch_outstanding c then (c, Inl (MsgNoInUse msgno))
      else (c\<lparr>ch_outstanding := insert msgno (ch_outstanding c), ch_next_msgno := next_after msgno\<rparr>, Inr ()))"

definition release_msgno :: "channel \<Rightarrow> u32 \<Rightarrow> channel" where
  "release_msgno c msgno = c\<lparr>ch_outstanding := ch_outstanding c - {msgno}\<rparr>"

text \<open>\<open>Channel::build\<close>: one frame, its payload charged against the outgoing counter.\<close>

definition build ::
  "channel \<Rightarrow> frame_kind \<Rightarrow> u32 \<Rightarrow> u32 option \<Rightarrow> bytes \<Rightarrow> bool \<Rightarrow> channel \<times> data_frame result" where
  "build c kind msgno ansno payload m =
     (case try_u32 (length payload) of
        None \<Rightarrow> (c, Inl (FrameTooLarge MAX_FRAME_SIZE MAX_FRAME_SIZE))
      | Some len \<Rightarrow>
          let seqno = ch_next_seqno c;
              made = (case ansno of
                        Some a \<Rightarrow> new_ans (ch_number c) msgno seqno a payload
                      | None \<Rightarrow> new_data kind (ch_number c) msgno seqno payload)
          in case made of
               Inl e \<Rightarrow> (c, Inl e)
             | Inr f \<Rightarrow> (c\<lparr>ch_next_seqno := advance seqno len\<rparr>, Inr (with_more f m)))"

definition u32_or_max :: "nat \<Rightarrow> u32" where
  "u32_or_max n = (case try_u32 n of Some w \<Rightarrow> w | None \<Rightarrow> u32_MAX)"

definition chunk_limit :: "u32 \<Rightarrow> u32" where
  "chunk_limit max_frame_size = clamp_u32 max_frame_size 1 MAX_FRAME_SIZE"

lemma chunk_limit_pos: "0 < unat (chunk_limit mfs)"
  by (auto simp: chunk_limit_def clamp_u32_def limit_defs unat_gt_0 word_less_nat_alt)

lemma u32_or_max_pos: "0 < n \<Longrightarrow> 0 < unat (u32_or_max n)"
  by (auto simp: u32_or_max_def u32_MAX_def split: option.split dest: try_u32_SomeD)

lemma emit_shrinks:
  assumes "head \<noteq> []"
  shows "length (drop (unat (min (chunk_limit mfs) (u32_or_max (length head)))) head) < length head"
proof -
  have "0 < length head" using assms by simp
  then have "0 < unat (min (chunk_limit mfs) (u32_or_max (length head)))"
    using chunk_limit_pos [of mfs] u32_or_max_pos [of "length head"] by (auto simp: min_def)
  with \<open>0 < length head\<close> show ?thesis by simp
qed

text \<open>The fragmentation loop of \<open>emit\<close>: \<open>head\<close> is what still has to become frames.\<close>

function emit_loop ::
  "u32 \<Rightarrow> frame_kind \<Rightarrow> u32 \<Rightarrow> u32 option \<Rightarrow> bytes \<Rightarrow> channel \<Rightarrow> bytes \<Rightarrow> data_frame list \<Rightarrow>
     channel \<times> (data_frame list) result" where
  "emit_loop mfs kind msgno ansno rest c head frames =
     (if head = [] then (c, Inr frames)
      else let n = unat (min (chunk_limit mfs) (u32_or_max (length head)));
               chunk = take n head; head' = drop n head;
               m = (head' \<noteq> [] \<or> rest \<noteq> [])
           in bind_st (build c kind msgno ansno chunk m) (\<lambda>c f.
                emit_loop mfs kind msgno ansno rest c head' (frames @ [f])))"
  by pat_completeness auto
termination
  by (relation "measure (\<lambda>(mfs, kind, msgno, ansno, rest, c, head, frames). length head)")
    (simp_all add: emit_shrinks del: length_drop)

declare emit_loop.simps [simp del]

definition emit ::
  "channel \<Rightarrow> frame_kind \<Rightarrow> u32 \<Rightarrow> u32 option \<Rightarrow> bytes \<Rightarrow> u32 \<Rightarrow> channel \<times> emitted result" where
  "emit c kind msgno ansno payload mfs =
     (if has_ansno kind \<noteq> (ansno \<noteq> None) then (c, Inl (MissingField ''ansno''))
      else if payload = [] then
        bind_st (build c kind msgno ansno [] False) (\<lambda>c f.
          (c, Inr \<lparr>em_frames = [f], em_remaining = []\<rparr>))
      else let budget = writable c in
        if budget = 0 then (c, Inl ChannelStalled)
        else let total = u32_or_max (length payload); cut = unat (min budget total);
                 head = take cut payload; rest = drop cut payload
             in bind_st (emit_loop mfs kind msgno ansno rest c head []) (\<lambda>c frames.
                  (c, Inr \<lparr>em_frames = frames, em_remaining = rest\<rparr>)))"

definition allocate_ansno :: "channel \<Rightarrow> u32 \<Rightarrow> channel \<times> u32" where
  "allocate_ansno c msgno =
     (let ansno = (case ch_next_ansno c msgno of Some a \<Rightarrow> a | None \<Rightarrow> 0)
      in (c\<lparr>ch_next_ansno := (ch_next_ansno c)(msgno \<mapsto> ansno + 1)\<rparr>, ansno))"

definition finish_answers :: "channel \<Rightarrow> u32 \<Rightarrow> channel" where
  "finish_answers c msgno = c\<lparr>ch_next_ansno := (ch_next_ansno c)(msgno := None)\<rparr>"

definition apply_seq :: "channel \<Rightarrow> seq_frame \<Rightarrow> channel" where
  "apply_seq c seq = c\<lparr>ch_send_window := updated (ch_send_window c) (sf_ackno seq) (sf_window seq)\<rparr>"

section \<open>Incoming\<close>

definition has_partial_message :: "channel \<Rightarrow> bool" where
  "has_partial_message c \<longleftrightarrow> ch_partial c \<noteq> None"

definition accept :: "channel \<Rightarrow> data_frame \<Rightarrow> channel \<times> (message option) result" where
  "accept c f =
     (let seqno = df_seqno f; len = df_size f in
      if seqno \<noteq> ch_expected_seqno c then (c, Inl (UnexpectedSeqNo (df_seqno f) (ch_expected_seqno c)))
      else if \<not> accepts (ch_recv_window c) seqno len
      then (c, Inl (OutsideWindow (df_seqno f) len (limit (ch_recv_window c))))
      else
        let c = c\<lparr>ch_expected_seqno := advance seqno len\<rparr>;
            c = (if df_kind f = Msg \<and> \<not> df_more f
                 then c\<lparr>ch_awaiting_reply := insert (df_msgno f) (ch_awaiting_reply c)\<rparr> else c)
        in case ch_partial c of
             Some p \<Rightarrow>
               let c = c\<lparr>ch_partial := None\<rparr> in
               if \<not> matches p f then (c, Inl InterleavedFragment)
               else let p = p\<lparr>pt_payload := pt_payload p @ df_payload f\<rparr> in
                 if df_more f then (c\<lparr>ch_partial := Some p\<rparr>, Inr None)
                 else (c, Inr (Some \<lparr>msg_kind = pt_kind p, msg_msgno = pt_msgno p,
                                     msg_ansno = pt_ansno p, msg_payload = pt_payload p\<rparr>))
           | None \<Rightarrow>
               if df_more f
               then (c\<lparr>ch_partial := Some \<lparr>pt_kind = df_kind f, pt_msgno = df_msgno f,
                                            pt_ansno = df_ansno f, pt_payload = df_payload f\<rparr>\<rparr>, Inr None)
               else (c, Inr (Some \<lparr>msg_kind = df_kind f, msg_msgno = df_msgno f,
                                   msg_ansno = df_ansno f, msg_payload = df_payload f\<rparr>)))"

definition replied :: "channel \<Rightarrow> u32 \<Rightarrow> channel" where
  "replied c msgno = c\<lparr>ch_awaiting_reply := ch_awaiting_reply c - {msgno}\<rparr>"

definition consume :: "channel \<Rightarrow> u32 \<Rightarrow> channel \<times> seq_frame result" where
  "consume c octets =
     (let c = c\<lparr>ch_recv_window := consumed (ch_recv_window c) octets\<rparr>
      in (c, to_seq_frame (ch_recv_window c) (ch_number c)))"

definition set_recv_window_size :: "channel \<Rightarrow> u32 \<Rightarrow> channel" where
  "set_recv_window_size c sz = c\<lparr>ch_recv_window := resized (ch_recv_window c) sz\<rparr>"

section \<open>What fragmentation should do\<close>

text \<open>
  The reference: cut the octets every \<open>n\<close>, number the pieces consecutively, and put the
  continuation indicator on every piece but the last one of the message (\<open>pending\<close> says
  that octets of the message remain beyond these).
\<close>

function fragments ::
  "nat \<Rightarrow> frame_kind \<Rightarrow> u32 \<Rightarrow> u32 \<Rightarrow> u32 option \<Rightarrow> bool \<Rightarrow> seq_no \<Rightarrow> bytes \<Rightarrow> data_frame list" where
  "fragments n kind number msgno ansno pending seqno xs =
     (if xs = [] \<or> n = 0 then []
      else \<lparr>df_kind = kind, df_channel = number, df_msgno = msgno,
            df_more = (drop n xs \<noteq> [] \<or> pending), df_seqno = seqno, df_ansno = ansno,
            df_payload = take n xs\<rparr> #
           fragments n kind number msgno ansno pending (advance seqno (of_nat (length (take n xs)))) (drop n xs))"
  by pat_completeness auto
termination
  by (relation "measure (\<lambda>(n, kind, number, msgno, ansno, pending, seqno, xs). length xs)") auto

declare fragments.simps [simp del]

definition sendable :: "channel \<Rightarrow> frame_kind \<Rightarrow> u32 \<Rightarrow> u32 option \<Rightarrow> bool" where
  "sendable c kind msgno ansno \<longleftrightarrow>
     ch_number c \<le> MAX_CHANNEL_NO \<and> msgno \<le> MAX_MSG_NO \<and>
     (\<forall>a. ansno = Some a \<longrightarrow> a \<le> MAX_ANS_NO) \<and> (has_ansno kind \<longleftrightarrow> ansno \<noteq> None)"

lemma sendable_next_seqno [simp]: "sendable (c\<lparr>ch_next_seqno := s\<rparr>) = sendable c"
  by (simp add: sendable_def fun_eq_iff)

lemma build_ok:
  assumes "sendable c kind msgno ansno" and "length payload \<le> unat MAX_FRAME_SIZE"
  shows "build c kind msgno ansno payload m =
    (c\<lparr>ch_next_seqno := advance (ch_next_seqno c) (of_nat (length payload))\<rparr>,
     Inr \<lparr>df_kind = kind, df_channel = ch_number c, df_msgno = msgno, df_more = m,
          df_seqno = ch_next_seqno c, df_ansno = ansno, df_payload = payload\<rparr>)"
proof -
  let ?f = "\<lparr>df_kind = kind, df_channel = ch_number c, df_msgno = msgno, df_more = False,
          df_seqno = ch_next_seqno c, df_ansno = ansno, df_payload = payload\<rparr>"
  have "(case ansno of Some a \<Rightarrow> new_ans (ch_number c) msgno (ch_next_seqno c) a payload
         | None \<Rightarrow> new_data kind (ch_number c) msgno (ch_next_seqno c) payload) = Inr ?f"
    using assms
    by (auto simp: sendable_def new_ans_def new_data_ok build_frame_ok has_ansno_def split: option.split)
  moreover have "length payload < 4294967296"
    using assms(2) by (simp add: limit_defs)
  ultimately show ?thesis by (simp add: build_def with_more_def Let_def)
qed

lemma chunk_limit_le: "unat (chunk_limit mfs) \<le> unat MAX_FRAME_SIZE"
  by (auto simp: chunk_limit_def clamp_u32_def limit_defs word_le_nat_alt word_less_nat_alt)

lemma unat_min_u32: "unat (min a b :: u32) = min (unat a) (unat b)"
  by (auto simp: min_def word_le_nat_alt)

lemma take_min_u32_or_max:
  "take (unat (min w (u32_or_max (length xs)))) xs = take (unat w) xs"
  "drop (unat (min w (u32_or_max (length xs)))) xs = drop (unat w) xs"
proof -
  have "unat (u32_or_max (length xs)) = length xs \<or> unat w \<le> unat (u32_or_max (length xs))"
    by (auto simp: u32_or_max_def u32_MAX_def split: option.split dest: try_u32_SomeD)
  then show "take (unat (min w (u32_or_max (length xs)))) xs = take (unat w) xs"
    and "drop (unat (min w (u32_or_max (length xs)))) xs = drop (unat w) xs"
    unfolding unat_min_u32 by (auto simp: min_def)
qed

lemma advance_of_nat: "advance (advance s (of_nat m)) (of_nat n) = advance s (of_nat (m + n))"
  by (simp add: advance_def)

text \<open>The loop of the source computes the reference fragmentation.\<close>

lemma emit_loop_fragments:
  "sendable c kind msgno ansno \<Longrightarrow>
   emit_loop mfs kind msgno ansno rest c head frames =
     (c\<lparr>ch_next_seqno := advance (ch_next_seqno c) (of_nat (length head))\<rparr>,
      Inr (frames @ fragments (unat (chunk_limit mfs)) kind (ch_number c) msgno ansno (rest \<noteq> [])
             (ch_next_seqno c) head))"
proof (induction "length head" arbitrary: c head frames rule: less_induct)
  case less
  let ?n = "unat (chunk_limit mfs)"
  show ?case
  proof (cases "head = []")
    case True
    then show ?thesis by (simp add: emit_loop.simps fragments.simps advance_def)
  next
    case False
    let ?c = "c\<lparr>ch_next_seqno := advance (ch_next_seqno c) (of_nat (length (take ?n head)))\<rparr>"
    have "length (take ?n head) \<le> unat MAX_FRAME_SIZE"
      using chunk_limit_le [of mfs] by simp
    note b = build_ok [OF less.prems this]
    have shrink: "length (drop ?n head) < length head"
      using emit_shrinks [OF False, of mfs] by (simp add: take_min_u32_or_max)
    have len: "length (take ?n head) + length (drop ?n head) = length head"
      by (metis append_take_drop_id length_append)
    have pos: "?n \<noteq> 0" using chunk_limit_pos [of mfs] by simp
    have "sendable ?c kind msgno ansno" using less.prems by simp
    note IH = less.hyps [OF shrink this]
    show ?thesis
      using False pos
      by (subst emit_loop.simps, subst fragments.simps)
        (simp add: Let_def take_min_u32_or_max b IH advance_of_nat len del: length_take length_drop drop_eq_Nil drop_eq_Nil2)
  qed
qed

lemma fragments_Nil [simp]: "fragments n kind number msgno ansno p s [] = []"
  by (simp add: fragments.simps)

lemma fragments_Cons:
  "xs \<noteq> [] \<Longrightarrow> 0 < n \<Longrightarrow> fragments n kind number msgno ansno p s xs =
     \<lparr>df_kind = kind, df_channel = number, df_msgno = msgno, df_more = (drop n xs \<noteq> [] \<or> p),
      df_seqno = s, df_ansno = ansno, df_payload = take n xs\<rparr> #
     fragments n kind number msgno ansno p (advance s (of_nat (length (take n xs)))) (drop n xs)"
  by (subst fragments.simps) simp

lemma fragments_induct [consumes 1, case_names Nil Cons]:
  assumes "0 < (n :: nat)" and "P []"
    and "\<And>xs. xs \<noteq> [] \<Longrightarrow> P (drop n xs) \<Longrightarrow> P xs"
  shows "P (xs :: bytes)"
proof (induction "length xs" arbitrary: xs rule: less_induct)
  case less
  show ?case
  proof (cases "xs = []")
    case False
    with assms(1) have "length (drop n xs) < length xs" by simp
    with less assms(3) False show ?thesis by blast
  qed (use assms(2) in simp)
qed

lemma fragments_payload:
  assumes "0 < n" shows "concat (map df_payload (fragments n kind number msgno ansno p s xs)) = xs"
  using assms
proof (induction xs arbitrary: s rule: fragments_induct)
  case (Cons xs)
  then show ?case by (simp add: fragments_Cons assms)
qed simp

lemma fragments_attrs:
  assumes "0 < n" and "f \<in> set (fragments n kind number msgno ansno p s xs)"
  shows "df_kind f = kind \<and> df_channel f = number \<and> df_msgno f = msgno \<and> df_ansno f = ansno \<and>
     df_payload f \<noteq> [] \<and> length (df_payload f) \<le> n"
  using assms(1,2)
proof (induction xs arbitrary: s rule: fragments_induct)
  case (Cons xs)
  then show ?case using assms(1) by (auto simp: fragments_Cons)
qed simp

text \<open>Consecutive numbering, and the continuation flags of a message.\<close>

fun contiguous :: "seq_no \<Rightarrow> data_frame list \<Rightarrow> bool" where
  "contiguous s [] = True"
| "contiguous s (f # fs) \<longleftrightarrow> df_seqno f = s \<and> contiguous (advance s (df_size f)) fs"

fun more_flags :: "bool \<Rightarrow> data_frame list \<Rightarrow> bool" where
  "more_flags pending [] = True"
| "more_flags pending (f # fs) \<longleftrightarrow> (df_more f \<longleftrightarrow> fs \<noteq> [] \<or> pending) \<and> more_flags pending fs"

lemma fragments_empty_iff: "0 < n \<Longrightarrow> fragments n kind number msgno ansno p s xs = [] \<longleftrightarrow> xs = []"
  by (subst fragments.simps) simp

lemma fragments_contiguous:
  assumes "0 < n" shows "contiguous s (fragments n kind number msgno ansno p s xs)"
  using assms
proof (induction xs arbitrary: s rule: fragments_induct)
  case (Cons xs)
  then show ?case by (simp add: fragments_Cons assms df_size_def)
qed simp

lemma fragments_more_flags:
  assumes "0 < n" shows "more_flags p (fragments n kind number msgno ansno p s xs)"
  using assms
proof (induction xs arbitrary: s rule: fragments_induct)
  case (Cons xs)
  then show ?case by (simp add: fragments_Cons assms fragments_empty_iff)
qed simp

text \<open>\<open>emit\<close> on every branch.\<close>

definition cut_at :: "channel \<Rightarrow> bytes \<Rightarrow> nat" where
  "cut_at c payload = min (unat (writable c)) (length payload)"

lemma emit_data:
  assumes "sendable c kind msgno ansno" and "payload \<noteq> []" and "writable c \<noteq> 0"
  shows "emit c kind msgno ansno payload mfs =
    (c\<lparr>ch_next_seqno := advance (ch_next_seqno c) (of_nat (cut_at c payload))\<rparr>,
     Inr \<lparr>em_frames = fragments (unat (chunk_limit mfs)) kind (ch_number c) msgno ansno
            (drop (cut_at c payload) payload \<noteq> []) (ch_next_seqno c) (take (cut_at c payload) payload),
          em_remaining = drop (cut_at c payload) payload\<rparr>)"
proof -
  let ?w = "unat (writable c)"
  have cut: "take (cut_at c payload) payload = take ?w payload"
    "drop (cut_at c payload) payload = drop ?w payload" "length (take ?w payload) = cut_at c payload"
    by (simp_all add: cut_at_def min_def)
  show ?thesis
    using assms
    by (simp add: emit_def sendable_def take_min_u32_or_max Let_def emit_loop_fragments [OF assms(1)] cut
        del: length_take drop_eq_Nil drop_eq_Nil2)
qed

lemma emit_empty:
  assumes "sendable c kind msgno ansno"
  shows "emit c kind msgno ansno [] mfs =
    (c, Inr \<lparr>em_frames = [\<lparr>df_kind = kind, df_channel = ch_number c, df_msgno = msgno, df_more = False,
               df_seqno = ch_next_seqno c, df_ansno = ansno, df_payload = []\<rparr>], em_remaining = []\<rparr>)"
  using assms build_ok [OF assms, of "[]" False] by (simp add: emit_def sendable_def advance_def)

lemma emit_stalled:
  assumes "sendable c kind msgno ansno" and "payload \<noteq> []" and "writable c = 0"
  shows "emit c kind msgno ansno payload mfs = (c, Inl ChannelStalled)"
  using assms by (simp add: emit_def sendable_def)

section \<open>Reassembly\<close>

text \<open>Accepting a run of frames, collecting the messages they complete.\<close>

fun accept_all :: "channel \<Rightarrow> data_frame list \<Rightarrow> channel \<times> (message list) result" where
  "accept_all c [] = (c, Inr [])"
| "accept_all c (f # fs) =
     bind_st (accept c f) (\<lambda>c m.
     bind_st (accept_all c fs) (\<lambda>c ms. (c, Inr (case m of None \<Rightarrow> ms | Some x \<Rightarrow> x # ms))))"

text \<open>The octets of one message a channel already holds: none, or a partial of that message.\<close>

definition holding :: "channel \<Rightarrow> frame_kind \<Rightarrow> u32 \<Rightarrow> u32 option \<Rightarrow> bytes \<Rightarrow> bool" where
  "holding c k m a acc \<longleftrightarrow>
     (ch_partial c = None \<and> acc = []) \<or>
     ch_partial c = Some \<lparr>pt_kind = k, pt_msgno = m, pt_ansno = a, pt_payload = acc\<rparr>"

definition received :: "channel \<Rightarrow> frame_kind \<Rightarrow> u32 \<Rightarrow> u32 option \<Rightarrow> bool \<Rightarrow> seq_no \<Rightarrow> bytes \<Rightarrow> channel" where
  "received c k m a pending s acc =
     c\<lparr>ch_expected_seqno := s,
       ch_awaiting_reply := (if k = Msg \<and> \<not> pending then insert m (ch_awaiting_reply c) else ch_awaiting_reply c),
       ch_partial := (if pending then Some \<lparr>pt_kind = k, pt_msgno = m, pt_ansno = a, pt_payload = acc\<rparr> else None)\<rparr>"

lemma received_simps [simp]:
  "ch_expected_seqno (received c k m a p s acc) = s"
  "ch_recv_window (received c k m a p s acc) = ch_recv_window c"
  "holding (received c k m a True s acc) k m a acc"
  "received (received c k m a True s acc) k m a p s' acc' = received c k m a p s' acc'"
  by (simp_all add: received_def holding_def)

lemma accept_in_order:
  assumes "df_seqno f = ch_expected_seqno c" and "accepts (ch_recv_window c) (df_seqno f) (df_size f)"
    and "holding c (df_kind f) (df_msgno f) (df_ansno f) acc"
  shows "accept c f =
    (received c (df_kind f) (df_msgno f) (df_ansno f) (df_more f) (advance (df_seqno f) (df_size f))
       (acc @ df_payload f),
     Inr (if df_more f then None
          else Some \<lparr>msg_kind = df_kind f, msg_msgno = df_msgno f, msg_ansno = df_ansno f,
                     msg_payload = acc @ df_payload f\<rparr>))"
  using assms
  by (cases c) (auto simp: accept_def received_def holding_def matches_def Let_def)

lemma accept_fragments:
  assumes "0 < n"
  shows "xs \<noteq> [] \<Longrightarrow> ch_expected_seqno c = s \<Longrightarrow>
    unat (distance_from s (w_base (ch_recv_window c))) + length xs \<le> unat (w_size (ch_recv_window c)) \<Longrightarrow>
    holding c k m a acc \<Longrightarrow>
    accept_all c (fragments n k num m a p s xs) =
      (received c k m a p (advance s (of_nat (length xs))) (acc @ xs),
       Inr (if p then []
            else [\<lparr>msg_kind = k, msg_msgno = m, msg_ansno = a, msg_payload = acc @ xs\<rparr>]))"
  using assms
proof (induction xs arbitrary: c s acc rule: fragments_induct)
  case (Cons xs)
  let ?hd = "take n xs" and ?tl = "drop n xs" and ?w = "ch_recv_window c"
  let ?f = "\<lparr>df_kind = k, df_channel = num, df_msgno = m, df_more = (?tl \<noteq> [] \<or> p),
      df_seqno = s, df_ansno = a, df_payload = ?hd\<rparr>"
  have len: "length ?hd + length ?tl = length xs" by (metis append_take_drop_id length_append)
  have "length xs < 4294967296" using Cons.prems(3) unat_u32_lt [of "w_size ?w"] by linarith
  with len have size: "unat (df_size ?f) = length ?hd"
    by (simp add: df_size_def unat_of_nat_u32 del: length_take)
  have "accepts ?w s (df_size ?f)"
    unfolding accepts_iff size using Cons.prems(3) len by linarith
  with Cons.prems(2,4) have acc: "accept c ?f =
    (received c k m a (?tl \<noteq> [] \<or> p) (advance s (of_nat (length ?hd))) (acc @ ?hd),
     Inr (if ?tl \<noteq> [] \<or> p then None
          else Some \<lparr>msg_kind = k, msg_msgno = m, msg_ansno = a, msg_payload = acc @ ?hd\<rparr>))"
    by (subst accept_in_order [where acc = acc]) (simp_all add: df_size_def del: length_take drop_eq_Nil)
  show ?case
  proof (cases "?tl = []")
    case True
    then have "?hd = xs" by simp
    with True acc Cons.prems(1) assms show ?thesis by (simp add: fragments_Cons)
  next
    case False
    let ?s = "advance s (of_nat (length ?hd))"
    have "unat (distance_from ?s (w_base ?w)) = unat (distance_from s (w_base ?w)) + length ?hd"
    proof -
      have "unat (distance_from s (w_base ?w)) + length ?hd < 4294967296"
        using Cons.prems(3) len unat_u32_lt [of "w_size ?w"] by linarith
      then show ?thesis
        using size by (simp add: seq_counter.dist_adv_left df_size_def unat_u32_add_lt del: length_take)
    qed
    with Cons.prems(3) len
    have win: "unat (distance_from ?s (w_base ?w)) + length ?tl \<le> unat (w_size ?w)" by linarith
    let ?c = "received c k m a True ?s (acc @ ?hd)"
    have IH: "accept_all ?c (fragments n k num m a p ?s ?tl) =
        (received ?c k m a p (advance ?s (of_nat (length ?tl))) ((acc @ ?hd) @ ?tl),
         Inr (if p then []
              else [\<lparr>msg_kind = k, msg_msgno = m, msg_ansno = a, msg_payload = (acc @ ?hd) @ ?tl\<rparr>]))"
      by (rule Cons.IH [OF False]) (use win in simp_all)
    show ?thesis
      using False acc IH Cons.prems(1) assms
      by (simp add: fragments_Cons advance_of_nat len del: length_take length_drop drop_eq_Nil)
  qed
qed simp

text \<open>
  Two ends of a channel are in step when the next octet one will send is the next one the
  other expects, and the room the sender sees is room the receiver has.
\<close>

definition in_step :: "channel \<Rightarrow> channel \<Rightarrow> bool" where
  "in_step s r \<longleftrightarrow>
     ch_number s = ch_number r \<and> ch_next_seqno s = ch_expected_seqno r \<and>
     unat (distance_from (ch_expected_seqno r) (w_base (ch_recv_window r))) + unat (writable s)
       \<le> unat (w_size (ch_recv_window r))"

lemma emit_accept_all:
  assumes "sendable s k m a" and "in_step s r" and "holding r k m a acc"
    and "emit s k m a payload mfs = (s', Inr e)"
  shows "\<exists>sent. payload = sent @ em_remaining e \<and>
    accept_all r (em_frames e) =
      (received r k m a (em_remaining e \<noteq> []) (ch_next_seqno s') (acc @ sent),
       Inr (if em_remaining e \<noteq> [] then []
            else [\<lparr>msg_kind = k, msg_msgno = m, msg_ansno = a, msg_payload = acc @ payload\<rparr>]))"
proof (cases "payload = []")
  case True
  have "accepts (ch_recv_window r) (ch_expected_seqno r) 0"
    using assms(2) by (simp add: in_step_def accepts_iff)
  with True assms show ?thesis
    by (auto simp: emit_empty in_step_def accept_in_order [where acc = acc] df_size_def advance_def)
next
  case False
  then have w: "writable s \<noteq> 0"
    using assms(1,4) emit_stalled by fastforce
  let ?n = "cut_at s payload"
  have "0 < ?n" using False w by (simp add: cut_at_def unat_gt_0)
  then have ne: "take ?n payload \<noteq> []" using False by simp
  have lt: "length (take ?n payload) = ?n" by (simp add: cut_at_def)
  have win: "unat (distance_from (ch_next_seqno s) (w_base (ch_recv_window r))) + length (take ?n payload)
      \<le> unat (w_size (ch_recv_window r))"
    using assms(2) unfolding lt by (auto simp: in_step_def cut_at_def min_def)
  from assms(4) emit_data [OF assms(1) False w]
  have e: "e = \<lparr>em_frames = fragments (unat (chunk_limit mfs)) k (ch_number s) m a
            (drop ?n payload \<noteq> []) (ch_next_seqno s) (take ?n payload), em_remaining = drop ?n payload\<rparr>"
    and s': "s' = s\<lparr>ch_next_seqno := advance (ch_next_seqno s) (of_nat ?n)\<rparr>" by auto
  have all: "payload = take ?n payload @ drop ?n payload" by simp
  have msg: "\<not> (drop ?n payload \<noteq> []) \<Longrightarrow> take ?n payload = payload" using all by simp
  show ?thesis
    using accept_fragments [OF chunk_limit_pos ne _ win assms(3), of mfs "ch_number s" "drop ?n payload \<noteq> []"]
      assms(2) msg unfolding e s' lt
    by (intro exI [of _ "take ?n payload"]) (auto simp: in_step_def simp del: drop_eq_Nil)
qed

section \<open>Message numbers\<close>

definition wf_channel :: "channel \<Rightarrow> bool" where
  "wf_channel c \<longleftrightarrow>
     ch_number c \<le> MAX_CHANNEL_NO \<and> ch_next_msgno c \<le> MAX_MSG_NO \<and> ch_outstanding c \<subseteq> {..MAX_MSG_NO}"

lemma next_after_le: "m \<le> MAX_MSG_NO \<Longrightarrow> next_after m \<le> MAX_MSG_NO"
  by (auto simp: next_after_def limit_defs word_le_nat_alt unat_word_ariths word_unat_eq_iff)

lemma unat_next_after:
  assumes "m \<le> MAX_MSG_NO" shows "unat (next_after m) = (unat m + 1) mod 2147483648"
proof (cases "m = MAX_MSG_NO")
  case True
  then show ?thesis by (simp add: next_after_def limit_defs)
next
  case False
  with assms have "unat m < 2147483647"
    by (simp add: limit_defs word_le_nat_alt word_unat_eq_iff)
  with False show ?thesis by (simp add: next_after_def unat_word_ariths)
qed

text \<open>What a run of the loop found: a free number, or none among the ones it tried.\<close>

lemma allocate_loop_result:
  "ch_next_msgno c \<le> MAX_MSG_NO \<Longrightarrow> allocate_loop rounds c = (c', r) \<Longrightarrow>
     (\<exists>m. r = Inr m \<and> m \<notin> ch_outstanding c \<and> m \<le> MAX_MSG_NO \<and>
        c' = c\<lparr>ch_next_msgno := next_after m, ch_outstanding := insert m (ch_outstanding c)\<rparr>) \<or>
     (r = Inl MsgNoExhausted \<and>
        (\<forall>i < rounds. \<exists>m \<in> ch_outstanding c. unat m = (unat (ch_next_msgno c) + i) mod 2147483648))"
proof (induction rounds arbitrary: c)
  case 0
  then show ?case by (simp add: allocate_loop.simps)
next
  case (Suc n)
  let ?m = "ch_next_msgno c" and ?c = "c\<lparr>ch_next_msgno := next_after (ch_next_msgno c)\<rparr>"
  have m: "unat ?m mod 2147483648 = unat ?m"
    using Suc.prems(1) by (simp add: limit_defs word_le_nat_alt)
  show ?case
  proof (cases "?m \<in> ch_outstanding c")
    case False
    with Suc.prems show ?thesis by (auto simp: allocate_loop.simps [of "Suc n"] Let_def)
  next
    case True
    with Suc.prems(2) have rec: "allocate_loop n ?c = (c', r)"
      by (simp add: allocate_loop.simps [of "Suc n"] Let_def)
    have tried: "\<exists>m \<in> ch_outstanding c. unat m = (unat ?m + i) mod 2147483648"
      if "i < Suc n" "\<forall>i < n. \<exists>m \<in> ch_outstanding c. unat m = (unat (next_after ?m) + i) mod 2147483648" for i
    proof (cases i)
      case 0
      with True m show ?thesis by auto
    next
      case (Suc j)
      with that Suc.prems unat_next_after [OF Suc.prems(1)] show ?thesis
        by (auto simp: mod_simps)
    qed
    from Suc.IH [OF _ rec] Suc.prems(1) tried show ?thesis
      by (auto simp: next_after_le)
  qed
qed

lemma allocate_msgno_result:
  assumes "ch_next_msgno c \<le> MAX_MSG_NO" and "allocate_msgno c = (c', r)"
  shows "(\<exists>m. r = Inr m \<and> m \<notin> ch_outstanding c \<and> m \<le> MAX_MSG_NO \<and>
        c' = c\<lparr>ch_next_msgno := next_after m, ch_outstanding := insert m (ch_outstanding c)\<rparr>) \<or>
     (r = Inl MsgNoExhausted \<and> {..MAX_MSG_NO} \<subseteq> ch_outstanding c)"
proof -
  have all: "{..MAX_MSG_NO} \<subseteq> ch_outstanding c"
    if tried: "\<forall>i < 2147483648. \<exists>m \<in> ch_outstanding c. unat m = (unat (ch_next_msgno c) + i) mod 2147483648"
  proof
    fix m assume "m \<in> {..MAX_MSG_NO}"
    then have m: "unat m < 2147483648" by (simp add: limit_defs word_le_nat_alt)
    let ?i = "(unat m + (2147483648 - unat (ch_next_msgno c))) mod 2147483648"
    have next_le: "unat (ch_next_msgno c) \<le> 2147483648"
      using assms(1) by (simp add: limit_defs word_le_nat_alt)
    have "?i < 2147483648" by simp
    with tried obtain m' where m': "m' \<in> ch_outstanding c"
      "unat m' = (unat (ch_next_msgno c) + ?i) mod 2147483648" by blast
    moreover have "(unat (ch_next_msgno c) + ?i) mod 2147483648 = unat m"
      using m next_le by (simp add: mod_simps)
    ultimately show "m \<in> ch_outstanding c" by (metis word_unat_eq_iff)
  qed
  have rounds: "unat MAX_MSG_NO + 1 = 2147483648" by (simp add: limit_defs)
  show ?thesis
    using allocate_loop_result [OF assms(1) assms(2) [unfolded allocate_msgno_def rounds]] all by blast
qed

lemma allocate_loop_keeps:
  "ch_next_msgno c \<le> MAX_MSG_NO \<Longrightarrow>
     \<exists>n os. fst (allocate_loop rounds c) = c\<lparr>ch_next_msgno := n, ch_outstanding := os\<rparr> \<and> n \<le> MAX_MSG_NO \<and>
       os \<subseteq> ch_outstanding c \<union> {..MAX_MSG_NO}"
proof (induction rounds arbitrary: c)
  case 0
  then show ?case
    by (intro exI [of _ "ch_next_msgno c"] exI [of _ "ch_outstanding c"]) (simp add: allocate_loop.simps)
next
  case (Suc rounds)
  show ?case
  proof (cases "ch_next_msgno c \<in> ch_outstanding c")
    case True
    with Suc.IH [of "c\<lparr>ch_next_msgno := next_after (ch_next_msgno c)\<rparr>"] Suc.prems show ?thesis
      by (auto simp: allocate_loop.simps [of "Suc rounds"] Let_def next_after_le)
  next
    case False
    with Suc.prems show ?thesis
      by (intro exI [of _ "next_after (ch_next_msgno c)"] exI [of _ "insert (ch_next_msgno c) (ch_outstanding c)"])
        (auto simp: allocate_loop.simps [of "Suc rounds"] Let_def next_after_le)
  qed
qed

lemma allocate_msgno_keeps:
  "ch_next_msgno c \<le> MAX_MSG_NO \<Longrightarrow>
     \<exists>n os. fst (allocate_msgno c) = c\<lparr>ch_next_msgno := n, ch_outstanding := os\<rparr> \<and> n \<le> MAX_MSG_NO \<and>
       os \<subseteq> ch_outstanding c \<union> {..MAX_MSG_NO}"
  unfolding allocate_msgno_def by (rule allocate_loop_keeps)

lemma wf_channel_seqno [simp]: "wf_channel (c\<lparr>ch_next_seqno := s\<rparr>) = wf_channel c"
  by (simp add: wf_channel_def)

section \<open>Pacing a message against the window\<close>

text \<open>
  One end sends, the other accepts, hands everything to its application and answers with the
  \<open>SEQ\<close> its \<open>consume\<close> builds; repeat until the message is out. The fuel counts rounds.
\<close>

fun pace :: "nat \<Rightarrow> frame_kind \<Rightarrow> u32 \<Rightarrow> u32 option \<Rightarrow> u32 \<Rightarrow> channel \<Rightarrow> channel \<Rightarrow> bytes \<Rightarrow>
    (channel \<times> channel \<times> message list) option" where
  "pace 0 k m a mfs s r payload = None"
| "pace (Suc n) k m a mfs s r payload =
     (case emit s k m a payload mfs of
        (s', Inl _) \<Rightarrow> None
      | (s', Inr e) \<Rightarrow>
          (case accept_all r (em_frames e) of
             (r', Inl _) \<Rightarrow> None
           | (r', Inr ms) \<Rightarrow>
               (case consume r' (distance_from (ch_expected_seqno r') (w_base (ch_recv_window r'))) of
                  (r'', Inl _) \<Rightarrow> None
                | (r'', Inr seq) \<Rightarrow>
                    if is_complete e then Some (apply_seq s' seq, r'', ms)
                    else pace n k m a mfs (apply_seq s' seq) r'' (em_remaining e))))"

lemma consume_Inr:
  "consume r n = (r', Inr seq) \<longleftrightarrow>
     ch_number r \<le> MAX_CHANNEL_NO \<and> w_size (ch_recv_window r) \<le> MAX_FRAME_SIZE \<and>
     r' = r\<lparr>ch_recv_window := consumed (ch_recv_window r) n\<rparr> \<and>
     seq = \<lparr>sf_channel = ch_number r, sf_ackno = advance (w_base (ch_recv_window r)) n,
            sf_window = w_size (ch_recv_window r)\<rparr>"
  by (auto simp: consume_def to_seq_frame_def new_seq_ok Let_def)

lemma in_step_after_seq:
  assumes "consume r n = (r', Inr seq)" and "ch_number s = ch_number r"
    and "ch_next_seqno s = ch_expected_seqno r" and "n = distance_from (ch_expected_seqno r) (w_base (ch_recv_window r))"
  shows "in_step (apply_seq s seq) r' \<and> writable (apply_seq s seq) = w_size (ch_recv_window r) \<and>
    ch_partial r' = ch_partial r \<and> w_size (ch_recv_window r') = w_size (ch_recv_window r) \<and>
    ch_number r' = ch_number r"
proof -
  have base: "advance (w_base (ch_recv_window r)) n = ch_expected_seqno r"
    unfolding assms(4) by (rule seq_counter.adv_dist)
  from assms(1) have r': "r' = r\<lparr>ch_recv_window := consumed (ch_recv_window r) n\<rparr>"
    and seq: "seq = \<lparr>sf_channel = ch_number r, sf_ackno = ch_expected_seqno r,
        sf_window = w_size (ch_recv_window r)\<rparr>" by (simp_all add: consume_Inr base)
  have wr: "writable (apply_seq s seq) = w_size (ch_recv_window r)"
    by (simp add: seq apply_seq_def writable_def remaining_def assms(3) seq_counter.dist_self
        saturating_sub_def)
  have "in_step (apply_seq s seq) r'"
    unfolding in_step_def wr
    by (simp add: r' apply_seq_def assms(2,3) base seq_counter.dist_self)
  with wr show ?thesis by (simp add: r')
qed

lemma consume_ok:
  "ch_number r \<le> MAX_CHANNEL_NO \<Longrightarrow> w_size (ch_recv_window r) \<le> MAX_FRAME_SIZE \<Longrightarrow>
     \<exists>r' seq. consume r n = (r', Inr seq)"
  by (simp add: consume_Inr)

lemma received_partial:
  "holding (received r k m a p s acc) k m a (if p then acc else [])"
  by (simp add: received_def holding_def)

lemma pace_delivers:
  assumes "sendable s k m a" and "in_step s r" and "holding r k m a acc"
    and "payload = [] \<or> writable s \<noteq> 0" and "0 < w_size (ch_recv_window r)"
    and "w_size (ch_recv_window r) \<le> MAX_FRAME_SIZE" and "length payload < n"
  shows "\<exists>s' r'. pace n k m a mfs s r payload =
      Some (s', r', [\<lparr>msg_kind = k, msg_msgno = m, msg_ansno = a, msg_payload = acc @ payload\<rparr>]) \<and>
      in_step s' r' \<and> ch_partial r' = None"
  using assms
proof (induction n arbitrary: s r payload acc)
  case (Suc n)
  obtain s' e where e: "emit s k m a payload mfs = (s', Inr e)"
    using emit_data [OF Suc.prems(1)] emit_empty [OF Suc.prems(1)] Suc.prems(4)
    by (cases "payload = []") fastforce+
  from emit_accept_all [OF Suc.prems(1-3) e] obtain sent where
    sent: "payload = sent @ em_remaining e" and
    acc: "accept_all r (em_frames e) =
      (received r k m a (em_remaining e \<noteq> []) (ch_next_seqno s') (acc @ sent),
       Inr (if em_remaining e \<noteq> [] then []
            else [\<lparr>msg_kind = k, msg_msgno = m, msg_ansno = a, msg_payload = acc @ payload\<rparr>]))" by blast
  define r1 where "r1 = received r k m a (em_remaining e \<noteq> []) (ch_next_seqno s') (acc @ sent)"
  have s': "ch_number s' = ch_number s" "sendable s' k m a"
    and short: "em_remaining e \<noteq> [] \<Longrightarrow> length (em_remaining e) < length payload"
    using e Suc.prems(1,4) emit_data [OF Suc.prems(1), of payload] emit_empty [OF Suc.prems(1)]
    by (cases "payload = []"; auto simp: cut_at_def unat_gt_0)+
  have r1: "ch_number r1 = ch_number r" "ch_recv_window r1 = ch_recv_window r"
    "ch_expected_seqno r1 = ch_next_seqno s'" "holding r1 k m a (if em_remaining e \<noteq> [] then acc @ sent else [])"
    by (simp_all add: r1_def received_def holding_def)
  have num: "ch_number s = ch_number r" using Suc.prems(2) by (simp add: in_step_def)
  then have "ch_number r1 \<le> MAX_CHANNEL_NO" using Suc.prems(1) r1(1) by (simp add: sendable_def)
  then obtain r2 seq where c: "consume r1 (distance_from (ch_expected_seqno r1) (w_base (ch_recv_window r1))) = (r2, Inr seq)"
    using consume_ok Suc.prems(6) r1(2) by metis
  from in_step_after_seq [OF c, of s'] s'(1) num r1
  have step: "in_step (apply_seq s' seq) r2" "writable (apply_seq s' seq) = w_size (ch_recv_window r)"
    "ch_partial r2 = ch_partial r1" "w_size (ch_recv_window r2) = w_size (ch_recv_window r)" by auto
  show ?case
  proof (cases "em_remaining e = []")
    case True
    then have "ch_partial r2 = None" using step(3) by (simp add: r1_def received_def)
    with True e acc c step(1) show ?thesis by (simp add: r1_def is_complete_def)
  next
    case False
    have "holding r2 k m a (acc @ sent)" using step(3) r1(4) False by (simp add: holding_def)
    moreover have "sendable (apply_seq s' seq) k m a" using s'(2) by (simp add: apply_seq_def sendable_def)
    moreover have "writable (apply_seq s' seq) \<noteq> 0" using step(2) Suc.prems(5) by auto
    moreover have "length (em_remaining e) < n" using short [OF False] Suc.prems(7) by simp
    ultimately obtain s3 r3 where "pace n k m a mfs (apply_seq s' seq) r2 (em_remaining e) =
        Some (s3, r3, [\<lparr>msg_kind = k, msg_msgno = m, msg_ansno = a, msg_payload = (acc @ sent) @ em_remaining e\<rparr>])
        \<and> in_step s3 r3 \<and> ch_partial r3 = None"
      using Suc.IH [of "apply_seq s' seq" r2 "acc @ sent" "em_remaining e"] step Suc.prems(5,6) by auto
    with False e acc c sent show ?thesis by (simp add: r1_def is_complete_def)
  qed
qed simp

section \<open>What every operation leaves alone\<close>

definition only_seqno :: "channel \<Rightarrow> channel \<Rightarrow> bool" where
  "only_seqno c c' \<longleftrightarrow> c' = c\<lparr>ch_next_seqno := ch_next_seqno c'\<rparr>"

lemma only_seqno_refl [simp]: "only_seqno c c"
  by (simp add: only_seqno_def)

lemma only_seqno_update [simp]: "only_seqno c (c'\<lparr>ch_next_seqno := s\<rparr>) = only_seqno c c'"
  by (cases c; cases c') (auto simp: only_seqno_def)

lemma build_only_seqno: "only_seqno c c0 \<Longrightarrow> only_seqno c (fst (build c0 k m a p b))"
  by (auto simp: build_def Let_def split: option.split sum.split)

lemma emit_loop_only_seqno: "only_seqno c0 c \<Longrightarrow> only_seqno c0 (fst (emit_loop mfs k m a rest c head frames))"
proof (induction mfs k m a rest c head frames rule: emit_loop.induct)
  case (1 mfs k m a rest c head frames)
  then show ?case
    by (subst emit_loop.simps)
      (auto simp: Let_def build_only_seqno simp del: drop_eq_Nil intro!: bind_st_keeps [where P = "only_seqno c0"])
qed

lemma emit_only_seqno: "only_seqno c (fst (emit c k m a payload mfs))"
  by (auto simp: emit_def Let_def build_only_seqno emit_loop_only_seqno simp del: drop_eq_Nil
      intro!: bind_st_keeps [where P = "only_seqno c"])

text \<open>
  Both directions respect their window: the next octet to send is inside what the peer
  advertised, the next octet expected inside what this end advertised.
\<close>

definition within_windows :: "channel \<Rightarrow> bool" where
  "within_windows c \<longleftrightarrow>
     distance_from (ch_next_seqno c) (w_base (ch_send_window c)) \<le> w_size (ch_send_window c) \<and>
     distance_from (ch_expected_seqno c) (w_base (ch_recv_window c)) \<le> w_size (ch_recv_window c)"

lemma u32_add_le: "unat a + unat b \<le> unat c \<Longrightarrow> a + b \<le> (c :: u32)"
proof -
  assume le: "unat a + unat b \<le> unat c"
  then have "unat a + unat b < 4294967296" using unat_u32_lt [of c] by linarith
  with le show ?thesis by (simp add: word_le_nat_alt unat_u32_add_lt)
qed

lemma within_windows_new: "within_windows (channel_with_window_size n p w)"
  by (simp add: within_windows_def channel_with_window_size_def distance_from_def)

lemma emit_within_windows:
  assumes "sendable c k m a" and "within_windows c"
  shows "within_windows (fst (emit c k m a payload mfs))"
proof (cases "payload = [] \<or> writable c = 0")
  case True
  then show ?thesis using assms emit_empty [OF assms(1)] emit_stalled [OF assms(1)]
    by (cases "payload = []") simp_all
next
  case False
  let ?w = "ch_send_window c"
  have d: "unat (distance_from (ch_next_seqno c) (w_base ?w)) \<le> unat (w_size ?w)"
    using assms(2) by (simp add: within_windows_def word_le_nat_alt)
  have n: "cut_at c payload \<le> unat (w_size ?w) - unat (distance_from (ch_next_seqno c) (w_base ?w))"
    by (simp add: cut_at_def writable_def unat_remaining)
  then have lt: "unat (distance_from (ch_next_seqno c) (w_base ?w)) + cut_at c payload \<le> unat (w_size ?w)"
    using d by linarith
  then have u: "unat (of_nat (cut_at c payload) :: u32) = cut_at c payload"
    using unat_u32_lt [of "w_size ?w"] by (simp add: unat_of_nat_u32 del: unat_u32_lt)
  have "unat (distance_from (ch_next_seqno c) (w_base ?w) + of_nat (cut_at c payload)) \<le> unat (w_size ?w)"
    using lt u u32_add_le [of "distance_from (ch_next_seqno c) (w_base ?w)" "of_nat (cut_at c payload)"]
    by (simp add: word_le_nat_alt)
  with False assms(2) show ?thesis
    by (simp add: emit_data [OF assms(1)] within_windows_def seq_counter.dist_adv_left word_le_nat_alt)
qed

text \<open>Octets that cannot be sent leave the channel as it was.\<close>

lemma build_unsendable:
  assumes "\<not> sendable c k m a" and "has_ansno k \<longleftrightarrow> a \<noteq> None"
  shows "\<exists>e. build c k m a xs more' = (c, Inl e)"
proof (cases "build c k m a xs more'")
  case (Pair c' r)
  show ?thesis
  proof (cases r)
    case (Inl e)
    with Pair show ?thesis by (auto simp: build_def Let_def split: option.splits sum.splits)
  next
    case (Inr f)
    with Pair assms show ?thesis
      by (auto simp: build_def Let_def sendable_def new_ans_def new_data_ok build_frame_ok split: option.splits sum.splits)
  qed
qed

lemma emit_unsendable_keeps:
  assumes "\<not> sendable c k m a" shows "fst (emit c k m a payload mfs) = c"
proof (cases "has_ansno k \<longleftrightarrow> a \<noteq> None")
  case True
  then obtain err where b: "build c k m a xs more' = (c, Inl (err xs more'))" for xs more'
    using build_unsendable [OF assms] by metis
  have "fst (emit_loop mfs k m a rest c head frames) = c" for rest head frames
    using b by (subst emit_loop.simps) (simp add: Let_def)
  then have l: "\<exists>r. emit_loop mfs k m a rest c head frames = (c, r)" for rest head frames
    by (metis prod.collapse)
  show ?thesis
  proof (cases "payload = [] \<or> writable c = 0")
    case True
    with \<open>has_ansno k \<longleftrightarrow> a \<noteq> None\<close> b show ?thesis by (auto simp: emit_def)
  next
    case False
    let ?cut = "unat (min (writable c) (u32_or_max (length payload)))"
    from l obtain r where "emit_loop mfs k m a (drop ?cut payload) c (take ?cut payload) [] = (c, r)" by blast
    with False True show ?thesis by (cases r) (simp_all add: emit_def Let_def del: drop_eq_Nil)
  qed
qed (simp add: emit_def)

lemma accept_window:
  assumes "within_windows c" shows "within_windows (fst (accept c f))"
proof (cases "df_seqno f = ch_expected_seqno c \<and> accepts (ch_recv_window c) (df_seqno f) (df_size f)")
  case True
  let ?d = "distance_from (ch_expected_seqno c) (w_base (ch_recv_window c))"
  have "unat ?d + unat (df_size f) \<le> unat (w_size (ch_recv_window c))"
    using True by (auto simp: accepts_iff)
  then have "?d + df_size f \<le> w_size (ch_recv_window c)" by (rule u32_add_le)
  with True assms show ?thesis
    by (auto simp: accept_def Let_def within_windows_def seq_counter.dist_adv_left split: option.split)
next
  case False
  with assms show ?thesis by (auto simp: accept_def Let_def)
qed

lemma consume_window:
  assumes "within_windows c" and "n \<le> distance_from (ch_expected_seqno c) (w_base (ch_recv_window c))"
  shows "within_windows (fst (consume c n))"
proof -
  have "distance_from (ch_expected_seqno c) (advance (w_base (ch_recv_window c)) n) =
      distance_from (ch_expected_seqno c) (w_base (ch_recv_window c)) - n"
    by (simp add: distance_from_def advance_def)
  then have "distance_from (ch_expected_seqno c) (advance (w_base (ch_recv_window c)) n) \<le> w_size (ch_recv_window c)"
    using assms(1,2) word_sub_le [OF assms(2)] by (simp add: within_windows_def) (metis order_trans)
  with assms(1) show ?thesis by (simp add: consume_def Let_def within_windows_def)
qed

section \<open>Properties\<close>

text \<open>
  C12 (functional). Sending: with room in the window, \<open>emit\<close> takes exactly the octets that
  fit (all of the payload, or as many as the window allows), cuts them into non-empty frames
  no longer than the frame limit, numbers the frames consecutively from the next sequence
  number, puts the continuation indicator on every frame but the last of the message, hands
  back the octets that did not fit, and moves only the sequence number. With no room it
  changes nothing and reports the stall, and an empty payload is one frame whatever the room.
\<close>

theorem emit_correct:
  assumes "sendable c kind msgno ansno"
  shows "(payload \<noteq> [] \<and> writable c \<noteq> 0 \<longrightarrow>
      (\<exists>frames. emit c kind msgno ansno payload mfs =
         (c\<lparr>ch_next_seqno := advance (ch_next_seqno c) (of_nat (cut_at c payload))\<rparr>,
          Inr \<lparr>em_frames = frames, em_remaining = drop (cut_at c payload) payload\<rparr>) \<and>
         concat (map df_payload frames) = take (cut_at c payload) payload \<and>
         contiguous (ch_next_seqno c) frames \<and>
         more_flags (drop (cut_at c payload) payload \<noteq> []) frames \<and>
         (\<forall>f \<in> set frames. df_kind f = kind \<and> df_channel f = ch_number c \<and> df_msgno f = msgno \<and>
            df_ansno f = ansno \<and> df_payload f \<noteq> [] \<and> length (df_payload f) \<le> unat (chunk_limit mfs)))) \<and>
    (payload \<noteq> [] \<and> writable c = 0 \<longrightarrow> emit c kind msgno ansno payload mfs = (c, Inl ChannelStalled)) \<and>
    (payload = [] \<longrightarrow> emit c kind msgno ansno payload mfs =
       (c, Inr \<lparr>em_frames = [\<lparr>df_kind = kind, df_channel = ch_number c, df_msgno = msgno, df_more = False,
               df_seqno = ch_next_seqno c, df_ansno = ansno, df_payload = []\<rparr>], em_remaining = []\<rparr>))"
proof (intro conjI impI, goal_cases)
  case 1
  let ?fs = "fragments (unat (chunk_limit mfs)) kind (ch_number c) msgno ansno
      (drop (cut_at c payload) payload \<noteq> []) (ch_next_seqno c) (take (cut_at c payload) payload)"
  show ?case
    using emit_data [OF assms, of payload mfs] 1 chunk_limit_pos [of mfs]
      fragments_attrs [OF chunk_limit_pos [of mfs]]
    by (intro exI [of _ ?fs] conjI ballI)
      (auto simp: fragments_payload fragments_contiguous fragments_more_flags simp del: drop_eq_Nil)
qed (use assms emit_stalled emit_empty in simp_all)

theorem emit_correct_witness:
  "\<exists>frames. emit (channel_new 1 ''p'') Msg 0 None ''hello'' 2 =
      ((channel_new 1 ''p'')\<lparr>ch_next_seqno := 5\<rparr>, Inr \<lparr>em_frames = frames, em_remaining = []\<rparr>) \<and>
    concat (map df_payload frames) = ''hello'' \<and> contiguous 0 frames \<and> more_flags False frames"
proof -
  let ?c = "channel_new 1 ''p''"
  have s: "sendable ?c Msg 0 None"
    by (simp add: sendable_def channel_new_def channel_with_window_size_def limit_defs has_ansno_def)
  have w: "writable ?c = 4096" and n: "ch_next_seqno ?c = 0"
    by (simp_all add: writable_def channel_new_def channel_with_window_size_def remaining_def
        saturating_sub_def distance_from_def INITIAL_WINDOW_SIZE_def)
  then have cut: "cut_at ?c ''hello'' = 5" by (simp add: cut_at_def)
  show ?thesis
    using emit_correct [OF s, of "''hello''" 2] w n unfolding cut by (auto simp: advance_def)
qed

text \<open>
  C13 (refinement). Reassembly inverts fragmentation: when the two ends are in step, the
  receiver accepts every frame \<open>emit\<close> produced, and what it then holds is the octets it held
  before followed by the octets sent: a partial message while octets remain unsent, and
  otherwise exactly the message, payload intact, with nothing left over.
\<close>

theorem emit_then_accept:
  assumes "sendable s k m a" and "in_step s r" and "holding r k m a acc"
    and "emit s k m a payload mfs = (s', Inr e)"
  shows "\<exists>sent. payload = sent @ em_remaining e \<and>
    accept_all r (em_frames e) =
      (received r k m a (em_remaining e \<noteq> []) (ch_next_seqno s') (acc @ sent),
       Inr (if em_remaining e \<noteq> [] then []
            else [\<lparr>msg_kind = k, msg_msgno = m, msg_ansno = a, msg_payload = acc @ payload\<rparr>]))"
  using emit_accept_all [OF assms] .

theorem emit_then_accept_witness:
  "\<exists>s' e r'. emit (channel_new 1 ''p'') Msg 0 None ''hello'' 2 = (s', Inr e) \<and>
     accept_all (channel_new 1 ''p'') (em_frames e) =
       (r', Inr [\<lparr>msg_kind = Msg, msg_msgno = 0, msg_ansno = None, msg_payload = ''hello''\<rparr>])"
proof -
  let ?c = "channel_new 1 ''p''"
  have s: "sendable ?c Msg 0 None"
    by (simp add: sendable_def channel_new_def channel_with_window_size_def limit_defs has_ansno_def)
  have w: "writable ?c = 4096"
    by (simp add: writable_def channel_new_def channel_with_window_size_def remaining_def
        saturating_sub_def distance_from_def INITIAL_WINDOW_SIZE_def)
  have i: "in_step ?c ?c" unfolding in_step_def w
    by (simp add: channel_new_def channel_with_window_size_def distance_from_def INITIAL_WINDOW_SIZE_def)
  have h: "holding ?c Msg 0 None []"
    by (simp add: holding_def channel_new_def channel_with_window_size_def)
  obtain s' e where e: "emit ?c Msg 0 None ''hello'' 2 = (s', Inr e)" "em_remaining e = []"
    using emit_data [OF s, of "''hello''" 2] w by (simp add: cut_at_def)
  then show ?thesis using emit_then_accept [OF s i h e(1)] by auto
qed

text \<open>
  C14 (liveness). A message of any length gets through a window of any non-zero size: sending
  what fits, delivering it and answering with \<open>consume\<close>'s \<open>SEQ\<close> for what arrived completes
  the message, byte for byte, in at most one round per octet, with no error on either side
  and both ends in step again.
\<close>

theorem pacing_delivers:
  assumes "sendable s k m a" and "in_step s r" and "ch_partial r = None" and "writable s \<noteq> 0"
    and "0 < w_size (ch_recv_window r)" and "w_size (ch_recv_window r) \<le> MAX_FRAME_SIZE"
  shows "\<exists>s' r'. pace (length payload + 1) k m a mfs s r payload =
      Some (s', r', [\<lparr>msg_kind = k, msg_msgno = m, msg_ansno = a, msg_payload = payload\<rparr>]) \<and>
      in_step s' r' \<and> ch_partial r' = None"
  using pace_delivers [OF assms(1,2), of "[]" payload "length payload + 1" mfs] assms(3-6)
  by (simp add: holding_def)

theorem pacing_delivers_witness:
  "\<exists>s' r'. pace 6 Rpy 7 None 2 ((channel_new 3 ''p'')\<lparr>ch_send_window := window_new 0 3\<rparr>)
      (channel_with_window_size 3 ''p'' 3) ''hello'' =
    Some (s', r', [\<lparr>msg_kind = Rpy, msg_msgno = 7, msg_ansno = None, msg_payload = ''hello''\<rparr>])"
proof -
  let ?s = "(channel_new 3 ''p'')\<lparr>ch_send_window := window_new 0 3\<rparr>" and ?r = "channel_with_window_size 3 ''p'' 3"
  have s: "sendable ?s Rpy 7 None"
    by (simp add: sendable_def channel_new_def channel_with_window_size_def limit_defs has_ansno_def)
  have w: "writable ?s = 3"
    by (simp add: writable_def channel_new_def channel_with_window_size_def remaining_def
        saturating_sub_def distance_from_def)
  have i: "in_step ?s ?r" unfolding in_step_def w
    by (simp add: channel_new_def channel_with_window_size_def distance_from_def)
  have r: "ch_partial ?r = None" "0 < w_size (ch_recv_window ?r)" "w_size (ch_recv_window ?r) \<le> MAX_FRAME_SIZE"
    by (simp_all add: channel_with_window_size_def limit_defs)
  have six: "length ''hello'' + 1 = 6" by simp
  show ?thesis
    using pacing_delivers [OF s i r(1) _ r(2,3), of "''hello''" 2] w unfolding six by auto
qed

text \<open>
  A message number is handed out only if no message with that number is
  outstanding; it is in range, becomes outstanding and the search continues after it. The
  allocator gives up only when every number of the range is outstanding, and then leaves the
  set as it was.
\<close>

lemma allocate_msgno_fresh:
  assumes "wf_channel c" and "allocate_msgno c = (c', r)"
  shows "(\<exists>m. r = Inr m \<and> m \<notin> ch_outstanding c \<and> m \<le> MAX_MSG_NO \<and>
        c' = c\<lparr>ch_next_msgno := next_after m, ch_outstanding := insert m (ch_outstanding c)\<rparr>) \<or>
     (r = Inl MsgNoExhausted \<and> ch_outstanding c = {..MAX_MSG_NO})"
  using allocate_msgno_result [OF _ assms(2)] assms(1) unfolding wf_channel_def by blast

text \<open>
  What \<open>accept\<close> does with a frame, branch by branch: a wrong sequence number or a
  frame beyond the advertised window is refused and changes nothing; a frame that continues a
  different message than the one being assembled is refused after its octets were counted,
  and the partial message is dropped; every other frame is counted and either extends the
  message being assembled or completes it. A completed \<open>MSG\<close> is owed a reply.
\<close>

lemma accept_verdict:
  "(df_seqno f \<noteq> ch_expected_seqno c \<longrightarrow>
      accept c f = (c, Inl (UnexpectedSeqNo (df_seqno f) (ch_expected_seqno c)))) \<and>
   (df_seqno f = ch_expected_seqno c \<and> \<not> accepts (ch_recv_window c) (df_seqno f) (df_size f) \<longrightarrow>
      accept c f = (c, Inl (OutsideWindow (df_seqno f) (df_size f) (limit (ch_recv_window c))))) \<and>
   (df_seqno f = ch_expected_seqno c \<and> accepts (ch_recv_window c) (df_seqno f) (df_size f) \<longrightarrow>
      (\<exists>c' r. accept c f = (c', r) \<and> ch_expected_seqno c' = advance (df_seqno f) (df_size f) \<and>
        ch_awaiting_reply c' = ch_awaiting_reply c \<union> (if df_kind f = Msg \<and> \<not> df_more f then {df_msgno f} else {}) \<and>
        (case ch_partial c of
           Some p \<Rightarrow>
             if \<not> matches p f then r = Inl InterleavedFragment \<and> ch_partial c' = None
             else if df_more f then r = Inr None \<and>
               ch_partial c' = Some (p\<lparr>pt_payload := pt_payload p @ df_payload f\<rparr>)
             else r = Inr (Some \<lparr>msg_kind = pt_kind p, msg_msgno = pt_msgno p, msg_ansno = pt_ansno p,
                                 msg_payload = pt_payload p @ df_payload f\<rparr>) \<and> ch_partial c' = None
         | None \<Rightarrow>
             if df_more f then r = Inr None \<and>
               ch_partial c' = Some \<lparr>pt_kind = df_kind f, pt_msgno = df_msgno f,
                                     pt_ansno = df_ansno f, pt_payload = df_payload f\<rparr>
             else r = Inr (Some \<lparr>msg_kind = df_kind f, msg_msgno = df_msgno f, msg_ansno = df_ansno f,
                                 msg_payload = df_payload f\<rparr>) \<and> ch_partial c' = None)))"
  by (cases "ch_partial c") (auto simp: accept_def Let_def)

text \<open>
  C15 (invariant). Every operation keeps the channel, message and outstanding numbers in range.
  The operations that move no window keep the next octet to send inside the peer's window and
  the next octet expected inside the own one, whether they succeed or fail. The three that move
  a window keep it there exactly when what they are given allows it: \<open>apply_seq\<close> when the
  octets sent beyond the acknowledged one fit the window advertised, \<open>set_recv_window_size\<close>
  when the octets that arrived beyond the base fit the new size, \<open>consume\<close> when those that
  are left after it do, as they always are when no more is consumed than arrived.
\<close>

theorem channel_invariant:
  assumes "wf_channel c" and "within_windows c"
  shows "let keeps = (\<lambda>c'. wf_channel c' \<and> within_windows c');
         arrived = distance_from (ch_expected_seqno c) (w_base (ch_recv_window c)) in
     keeps (fst (allocate_msgno c)) \<and> keeps (fst (reserve_msgno c m)) \<and> keeps (release_msgno c m) \<and>
     keeps (fst (allocate_ansno c m)) \<and> keeps (finish_answers c m) \<and> keeps (replied c m) \<and>
     keeps (fst (accept c f)) \<and> keeps (fst (emit c k m a payload mfs)) \<and>
     wf_channel (fst (consume c n)) \<and> wf_channel (apply_seq c seq) \<and> wf_channel (set_recv_window_size c n) \<and>
     (within_windows (fst (consume c n)) \<longleftrightarrow> arrived - n \<le> w_size (ch_recv_window c)) \<and>
     (n \<le> arrived \<longrightarrow> within_windows (fst (consume c n))) \<and>
     (within_windows (apply_seq c seq) \<longleftrightarrow> distance_from (ch_next_seqno c) (sf_ackno seq) \<le> sf_window seq) \<and>
     (within_windows (set_recv_window_size c n) \<longleftrightarrow> arrived \<le> n)"
  unfolding Let_def
proof (intro conjI impI)
  have next_le: "ch_next_msgno c \<le> MAX_MSG_NO" using assms(1) by (simp add: wf_channel_def)
  show "wf_channel (fst (allocate_msgno c))"
    using allocate_msgno_keeps [OF next_le] assms(1) by (auto simp: wf_channel_def next_after_le)
  show "within_windows (fst (allocate_msgno c))"
    using allocate_msgno_keeps [OF next_le] assms(2) by (auto simp: within_windows_def)
  show "wf_channel (fst (accept c f))"
    using assms(1) by (auto simp: accept_def Let_def wf_channel_def split: option.split)
  show "wf_channel (fst (emit c k m a payload mfs))"
    using assms(1) emit_only_seqno [of c k m a payload mfs] unfolding only_seqno_def
    by (metis wf_channel_seqno)
  show "within_windows (fst (emit c k m a payload mfs))"
    using emit_within_windows [OF _ assms(2)] emit_unsendable_keeps assms(2) by (cases "sendable c k m a") simp_all
  show "within_windows (fst (consume c n)) \<longleftrightarrow>
      distance_from (ch_expected_seqno c) (w_base (ch_recv_window c)) - n \<le> w_size (ch_recv_window c)"
    using assms(2) by (simp add: consume_def Let_def within_windows_def) (simp add: distance_from_def advance_def diff_diff_eq)
qed (use assms accept_window consume_window in
      \<open>auto simp: wf_channel_def within_windows_def reserve_msgno_def release_msgno_def allocate_ansno_def
         finish_answers_def replied_def consume_def apply_seq_def set_recv_window_size_def next_after_le Let_def\<close>)

theorem channel_invariant_witness:
  "wf_channel (channel_new 1 ''p'') \<and> within_windows (channel_new 1 ''p'') \<and>
   wf_channel (fst (allocate_msgno (channel_new 1 ''p''))) \<and>
   within_windows (fst (allocate_msgno (channel_new 1 ''p'')))"
proof -
  have wf: "wf_channel (channel_new 1 ''p'')"
    by (simp add: wf_channel_def channel_new_def channel_with_window_size_def limit_defs)
  have win: "within_windows (channel_new 1 ''p'')"
    by (simp add: channel_new_def within_windows_new)
  show ?thesis
    using channel_invariant [OF wf win] wf win unfolding Let_def by blast
qed

end
