(* ===== verification/Utf8.thy ===== *)
theory Utf8
  imports Prelude
begin

text \<open>
  The part of Rust's \<open>str\<close> the sources rely on. A \<open>str\<close> is its UTF-8 octets; \<open>from_utf8\<close>
  accepts exactly the well-formed sequences of the Unicode standard (no overlong forms, no
  surrogates, nothing above U+10FFFF).
\<close>

section \<open>Well-formed octets\<close>

definition octet_in :: "nat \<Rightarrow> nat \<Rightarrow> byte \<Rightarrow> bool" where
  "octet_in lo hi b \<longleftrightarrow> lo \<le> of_char b \<and> of_char b \<le> hi"

definition utf8_cont :: "byte \<Rightarrow> bool" where
  "utf8_cont b \<longleftrightarrow> octet_in 0x80 0xBF b"

definition utf8_lead3 :: "byte \<Rightarrow> byte \<Rightarrow> bool" where
  "utf8_lead3 b c \<longleftrightarrow>
     octet_in 0xE0 0xE0 b \<and> octet_in 0xA0 0xBF c \<or>
     (octet_in 0xE1 0xEC b \<or> octet_in 0xEE 0xEF b) \<and> utf8_cont c \<or>
     octet_in 0xED 0xED b \<and> octet_in 0x80 0x9F c"

definition utf8_lead4 :: "byte \<Rightarrow> byte \<Rightarrow> bool" where
  "utf8_lead4 b c \<longleftrightarrow>
     octet_in 0xF0 0xF0 b \<and> octet_in 0x90 0xBF c \<or>
     octet_in 0xF1 0xF3 b \<and> utf8_cont c \<or>
     octet_in 0xF4 0xF4 b \<and> octet_in 0x80 0x8F c"

text \<open>One character off the front.\<close>

fun utf8_step :: "bytes \<Rightarrow> bytes option" where
  "utf8_step [] = None"
| "utf8_step (b # r) =
     (if octet_in 0 0x7F b then Some r
      else case r of [] \<Rightarrow> None
      | c # r \<Rightarrow>
        if octet_in 0xC2 0xDF b \<and> utf8_cont c then Some r
        else case r of [] \<Rightarrow> None
        | d # r \<Rightarrow>
          if utf8_lead3 b c \<and> utf8_cont d then Some r
          else case r of [] \<Rightarrow> None
          | e # r \<Rightarrow> if utf8_lead4 b c \<and> utf8_cont d \<and> utf8_cont e then Some r else None)"

lemma utf8_step_shrinks: "utf8_step s = Some r \<Longrightarrow> length r < length s"
  by (cases s) (auto split: if_splits list.splits)

function utf8_valid :: "bytes \<Rightarrow> bool" where
  "utf8_valid s = (s = [] \<or> (case utf8_step s of None \<Rightarrow> False | Some r \<Rightarrow> utf8_valid r))"
  by pat_completeness auto
termination
  by (relation "measure length") (auto dest: utf8_step_shrinks)

declare utf8_valid.simps [simp del]

lemma utf8_valid_Nil [simp]: "utf8_valid []"
  by (simp add: utf8_valid.simps)

lemmas octet_classes = octet_in_def utf8_cont_def utf8_lead3_def utf8_lead4_def

lemma utf8_leads:
  "utf8_cont c \<Longrightarrow> \<not> octet_in 0 0x7F c"
  "octet_in 0xC2 0xDF b \<Longrightarrow> \<not> octet_in 0 0x7F b"
  "utf8_lead3 b c \<Longrightarrow> \<not> octet_in 0 0x7F b \<and> \<not> octet_in 0xC2 0xDF b \<and> \<not> octet_in 0 0x7F c"
  "utf8_lead4 b c \<Longrightarrow> \<not> octet_in 0 0x7F b \<and> \<not> octet_in 0xC2 0xDF b \<and> \<not> octet_in 0 0x7F c"
  by (auto simp: octet_classes)

lemma utf8_lead4_not_lead3: "utf8_lead4 b c \<Longrightarrow> \<not> utf8_lead3 b c"
  by (auto simp: octet_classes)

text \<open>A step takes an ASCII octet, or a run of octets that are all outside ASCII.\<close>

lemma utf8_stepE:
  assumes "utf8_step s = Some r"
  obtains p where "s = p @ r" "\<And>t. utf8_step (p @ t) = Some t"
    "(\<exists>b. p = [b] \<and> octet_in 0 0x7F b) \<or> (\<forall>b \<in> set p. \<not> octet_in 0 0x7F b)"
proof -
  from assms consider
    (1) b where "s = b # r" "octet_in 0 0x7F b"
  | (2) b c where "s = b # c # r" "octet_in 0xC2 0xDF b" "utf8_cont c"
  | (3) b c d where "s = b # c # d # r" "utf8_lead3 b c" "utf8_cont d"
  | (4) b c d e where "s = b # c # d # e # r" "utf8_lead4 b c" "utf8_cont d" "utf8_cont e"
    by (cases s) (auto split: if_splits list.splits)
  then show thesis
  proof cases
    case 1
    then show ?thesis by (intro that [of "[b]"]) auto
  next
    case 2
    then show ?thesis by (intro that [of "[b, c]"]) (simp_all add: utf8_leads)
  next
    case 3
    then show ?thesis by (intro that [of "[b, c, d]"]) (simp_all add: utf8_leads)
  next
    case 4
    then show ?thesis by (intro that [of "[b, c, d, e]"]) (simp_all add: utf8_leads utf8_lead4_not_lead3)
  qed
qed

lemma utf8_induct [consumes 1, case_names Nil ascii other]:
  assumes "utf8_valid s" and "P []"
    and "\<And>b r. octet_in 0 0x7F b \<Longrightarrow> utf8_valid r \<Longrightarrow> P r \<Longrightarrow> P (b # r)"
    and "\<And>p r. \<forall>b \<in> set p. \<not> octet_in 0 0x7F b \<Longrightarrow> (\<And>t. utf8_step (p @ t) = Some t) \<Longrightarrow>
           utf8_valid r \<Longrightarrow> P r \<Longrightarrow> P (p @ r)"
  shows "P s"
  using assms(1)
proof (induction s rule: utf8_valid.induct)
  case (1 s)
  show ?case
  proof (cases "s = []")
    case False
    with 1(2) obtain r where r: "utf8_step s = Some r" "utf8_valid r"
      by (subst (asm) utf8_valid.simps) (auto split: option.splits)
    then have "P r" using 1(1) False by blast
    from r(1) show ?thesis
    proof (rule utf8_stepE)
      fix p assume p: "s = p @ r" "\<And>t. utf8_step (p @ t) = Some t"
        "(\<exists>b. p = [b] \<and> octet_in 0 0x7F b) \<or> (\<forall>b \<in> set p. \<not> octet_in 0 0x7F b)"
      from p(3) show "P s"
      proof
        assume "\<exists>b. p = [b] \<and> octet_in 0 0x7F b"
        with p(1) r(2) \<open>P r\<close> assms(3) show ?thesis by auto
      next
        assume "\<forall>b \<in> set p. \<not> octet_in 0 0x7F b"
        from assms(4) [OF this p(2) r(2) \<open>P r\<close>] p(1) show ?thesis by simp
      qed
    qed
  qed (use assms(2) in simp)
qed

lemma utf8_valid_step: "utf8_step (p @ r) = Some r \<Longrightarrow> utf8_valid (p @ r) \<longleftrightarrow> utf8_valid r"
  by (subst utf8_valid.simps) auto

lemma utf8_valid_Cons [simp]: "octet_in 0 0x7F b \<Longrightarrow> utf8_valid (b # r) \<longleftrightarrow> utf8_valid r"
  by (subst utf8_valid.simps) simp

lemma utf8_valid_append:
  assumes "utf8_valid a" and "utf8_valid b" shows "utf8_valid (a @ b)"
  using assms(1)
proof (induction a rule: utf8_induct)
  case (other p r)
  then show ?case using utf8_valid_step [of p "r @ b"] by simp
qed (use assms(2) in simp_all)

lemma utf8_valid_ascii: "\<forall>b \<in> set s. octet_in 0 0x7F b \<Longrightarrow> utf8_valid s"
  by (induction s) simp_all

section \<open>Characters\<close>

text \<open>\<open>char::from_u32\<close> and \<open>String::push\<close>.\<close>

definition char_from_u32 :: "nat \<Rightarrow> nat option" where
  "char_from_u32 v = (if v > 0x10FFFF \<or> (0xD800 \<le> v \<and> v \<le> 0xDFFF) then None else Some v)"

definition utf8_encode :: "nat \<Rightarrow> bytes" where
  "utf8_encode c =
     (if c < 0x80 then [char_of c]
      else if c < 0x800 then [char_of (0xC0 + c div 64), char_of (0x80 + c mod 64)]
      else if c < 0x10000 then
        [char_of (0xE0 + c div 4096), char_of (0x80 + c div 64 mod 64), char_of (0x80 + c mod 64)]
      else [char_of (0xF0 + c div 262144), char_of (0x80 + c div 4096 mod 64),
            char_of (0x80 + c div 64 mod 64), char_of (0x80 + c mod 64)])"

text \<open>\<open>str::trim\<close>: the characters with the White\_Space property, as UTF-8.\<close>

definition white_space :: "bytes list" where
  "white_space =
     map utf8_encode ([0x09, 0x0A, 0x0B, 0x0C, 0x0D, 0x20, 0x85, 0xA0, 0x1680] @
       [0x2000, 0x2001, 0x2002, 0x2003, 0x2004, 0x2005, 0x2006, 0x2007, 0x2008, 0x2009, 0x200A,
        0x2028, 0x2029, 0x202F, 0x205F, 0x3000])"

lemma white_space_not_Nil: "w \<in> set white_space \<Longrightarrow> w \<noteq> []"
  by (auto simp: white_space_def utf8_encode_def)

function strip_all :: "bytes list \<Rightarrow> bytes \<Rightarrow> bytes" where
  "strip_all ws s =
     (case find (\<lambda>w. w \<noteq> [] \<and> starts_with s w) ws of
        Some w \<Rightarrow> strip_all ws (drop (length w) s)
      | None \<Rightarrow> s)"
  by pat_completeness auto
termination
  by (relation "measure (\<lambda>(ws, s). length s)")
    (auto simp: find_Some_iff intro!: diff_less dest: starts_with_length)

declare strip_all.simps [simp del]

definition str_trim :: "bytes \<Rightarrow> bytes" where
  "str_trim s = rev (strip_all (map rev white_space) (rev (strip_all white_space s)))"

definition trimmed :: "bytes \<Rightarrow> bool" where
  "trimmed s \<longleftrightarrow> (\<forall>w \<in> set white_space. (\<nexists>r. s = w @ r) \<and> (\<nexists>r. s = r @ w))"

lemma str_trim_id:
  assumes "trimmed s" shows "str_trim s = s"
proof -
  have "find (\<lambda>w. w \<noteq> [] \<and> starts_with s w) white_space = None"
    using assms by (auto simp: find_None_iff starts_with_iff trimmed_def)
  then have front: "strip_all white_space s = s" by (simp add: strip_all.simps)
  have "\<not> starts_with (rev s) (rev w)" if "w \<in> set white_space" for w
    using assms that by (auto simp: starts_with_iff trimmed_def rev_swap)
  then have "find (\<lambda>w. w \<noteq> [] \<and> starts_with (rev s) w) (map rev white_space) = None"
    by (auto simp: find_None_iff)
  with front show ?thesis by (simp add: str_trim_def strip_all.simps)
qed

end
