(* ===== verification/Xml.thy ===== *)
theory Xml
  imports Errors Utf8
begin

text \<open>
  \<^verbatim>\<open>vortice-proto/src/xml.rs\<close>: the XML reader for channel management. The \<open>Parser\<close> of
  the source is a text and a position in it; here it is the text from that position on, so a
  method returns what it read together with the rest. Positions only serve to cut slices
  (\<open>src[start..i]\<close>), which are the prefixes passed over. Names, values and text are UTF-8
  octets; every octet the reader compares with is ASCII, so scanning octets and scanning
  characters find the same places.
\<close>

section \<open>Elements\<close>

definition MAX_DEPTH :: nat where "MAX_DEPTH = 32"
definition MAX_ENTITY_LEN :: nat where "MAX_ENTITY_LEN = 12"
definition CDATA_OPEN :: bytes where "CDATA_OPEN = ''<![CDATA[''"
definition CDATA_CLOSE :: bytes where "CDATA_CLOSE = '']]>''"

datatype element = Element
  (el_name: bytes) (el_attrs: "(bytes \<times> bytes) list") (el_children: "element list") (el_text: bytes)

fun push_attr :: "element \<Rightarrow> bytes \<times> bytes \<Rightarrow> element" where
  "push_attr (Element nm attrs children txt) a = Element nm (attrs @ [a]) children txt"

fun push_child :: "element \<Rightarrow> element \<Rightarrow> element" where
  "push_child (Element nm attrs children txt) c = Element nm attrs (children @ [c]) txt"

fun push_text :: "element \<Rightarrow> bytes \<Rightarrow> element" where
  "push_text (Element nm attrs children txt) t = Element nm attrs children (txt @ t)"

definition attr :: "element \<Rightarrow> bytes \<Rightarrow> bytes option" where
  "attr e nm = map_option snd (find (\<lambda>(key, _). key = nm) (el_attrs e))"

definition children_named :: "element \<Rightarrow> bytes \<Rightarrow> element list" where
  "children_named e nm = filter (\<lambda>child. el_name child = nm) (el_children e)"

section \<open>Escaping\<close>

fun escape_char :: "byte \<Rightarrow> bytes" where
  "escape_char ch =
     (if ch = CHR ''&'' then ''&amp;''
      else if ch = CHR ''<'' then ''&lt;''
      else if ch = CHR ''>'' then ''&gt;''
      else if ch = QUOT then ''&apos;''
      else if ch = DQUOT then ''&quot;''
      else [ch])"

definition escape :: "bytes \<Rightarrow> bytes \<Rightarrow> bytes" where
  "escape out val = out @ concat (map escape_char val)"

text \<open>\<open>u32::from_str_radix\<close>: an optional plus sign, then at least one digit, no overflow.\<close>

definition to_digit :: "nat \<Rightarrow> byte \<Rightarrow> nat option" where
  "to_digit radix b =
     (let d = (if octet_in 48 57 b then Some (of_char b - 48)
               else if octet_in 97 122 b then Some (of_char b - 87)
               else if octet_in 65 90 b then Some (of_char b - 55) else None)
      in case d of Some v \<Rightarrow> if v < radix then Some v else None | None \<Rightarrow> None)"

fun radix_loop :: "nat \<Rightarrow> nat \<Rightarrow> bytes \<Rightarrow> nat option" where
  "radix_loop radix acc [] = Some acc"
| "radix_loop radix acc (b # bs) =
     (case to_digit radix b of
        None \<Rightarrow> None
      | Some d \<Rightarrow> let v = acc * radix + d in if v < 2 ^ 32 then radix_loop radix v bs else None)"

definition from_str_radix :: "nat \<Rightarrow> bytes \<Rightarrow> nat option" where
  "from_str_radix radix s =
     (case s of [] \<Rightarrow> None
      | b # bs \<Rightarrow>
          if b = CHR ''+'' then (if bs = [] then None else radix_loop radix 0 bs)
          else radix_loop radix 0 s)"

definition decode_numeric_reference :: "bytes \<Rightarrow> bytes result" where
  "decode_numeric_reference nm =
     (let invalid = XmlError ''unsupported entity reference''
      in bind_res (ok_or (strip_prefix ''#'' nm) invalid) (\<lambda>digits.
         bind_res (ok_or (case digits of
                            x # hex \<Rightarrow> if x \<in> {CHR ''x'', CHR ''X''} then from_str_radix 16 hex
                                       else from_str_radix 10 digits
                          | [] \<Rightarrow> from_str_radix 10 digits) invalid) (\<lambda>v.
         bind_res (ok_or (char_from_u32 v) invalid) (\<lambda>c. Inr (utf8_encode c)))))"

definition entity :: "bytes \<Rightarrow> bytes result" where
  "entity nm =
     (if nm = ''amp'' then Inr ''&''
      else if nm = ''lt'' then Inr ''<''
      else if nm = ''gt'' then Inr ''>''
      else if nm = ''quot'' then Inr [DQUOT]
      else if nm = ''apos'' then Inr [QUOT]
      else decode_numeric_reference nm)"

function decode_entities_loop :: "bytes \<Rightarrow> bytes \<Rightarrow> bytes result" where
  "decode_entities_loop out rest =
     (case find_byte rest (CHR ''&'') of
        None \<Rightarrow> Inr (out @ rest)
      | Some at \<Rightarrow>
          let tail = drop (at + 1) rest in
          case find_byte (take MAX_ENTITY_LEN tail) (CHR '';'') of
            None \<Rightarrow> Inl (XmlError ''unterminated entity reference'')
          | Some en \<Rightarrow>
              bind_res (entity (take en tail)) (\<lambda>c.
                decode_entities_loop (out @ take at rest @ c) (drop (en + 1) tail)))"
  by pat_completeness auto
termination
  by (relation "measure (\<lambda>(out, rest). length rest)") (auto dest: find_byte_SomeD)

declare decode_entities_loop.simps [simp del]

definition decode_entities :: "bytes \<Rightarrow> bytes result" where
  "decode_entities raw =
     (if CHR ''&'' \<notin> set raw then Inr raw else decode_entities_loop [] raw)"

section \<open>The reader\<close>

definition is_xml_ws :: "byte \<Rightarrow> bool" where
  "is_xml_ws b \<longleftrightarrow> b \<in> {CHR '' '', TAB, CR, LF}"

definition skip_ws :: "bytes \<Rightarrow> bytes" where
  "skip_ws inp = dropWhile is_xml_ws inp"

definition skip_past :: "bytes \<Rightarrow> bytes \<Rightarrow> bytes result" where
  "skip_past pat rest =
     bind_res (ok_or (range_find (length rest - (length pat - 1)) (\<lambda>i. starts_with (drop i rest) pat))
                 (XmlError ''unterminated declaration or comment'')) (\<lambda>at.
       Inr (drop (at + length pat) rest))"

lemma skip_past_shrinks: "skip_past pat inp = Inr r \<Longrightarrow> pat \<noteq> [] \<Longrightarrow> length r < length inp"
  by (cases inp) (auto simp: skip_past_def bind_res_Inr_iff ok_or_Inr_iff range_find_Some_iff intro!: diff_less)

lemma skip_ws_le: "length (skip_ws inp) \<le> length inp"
  by (simp add: skip_ws_def length_dropWhile_le)

function skip_prolog :: "bytes \<Rightarrow> bytes result" where
  "skip_prolog inp =
     (let inp' = skip_ws inp in
      if starts_with inp' ''<?'' then bind_res (skip_past ''?>'' inp') skip_prolog
      else if starts_with inp' ''<!--'' then bind_res (skip_past ''-->'' inp') skip_prolog
      else if starts_with inp' ''<!'' then bind_res (skip_past ''>'' inp') skip_prolog
      else Inr inp')"
  by pat_completeness auto
termination
  by (relation "measure length")
    (auto dest!: skip_past_shrinks intro: less_le_trans [OF _ skip_ws_le])

declare skip_prolog.simps [simp del]

definition expect :: "byte \<Rightarrow> string \<Rightarrow> bytes \<Rightarrow> bytes result" where
  "expect b reason inp =
     (case inp of x # r \<Rightarrow> if x = b then Inr r else Inl (XmlError reason) | [] \<Rightarrow> Inl (XmlError reason))"

definition ends_name :: "byte \<Rightarrow> bool" where
  "ends_name b \<longleftrightarrow> b \<in> {CHR '' '', TAB, CR, LF, CHR ''/'', CHR ''>'', CHR ''='', CHR ''<''}"

definition read_name :: "bytes \<Rightarrow> (bytes \<times> bytes) result" where
  "read_name inp =
     (let nm = takeWhile (\<lambda>b. \<not> ends_name b) inp
      in if nm = [] then Inl (XmlError ''expected an element or attribute name'')
         else Inr (nm, dropWhile (\<lambda>b. \<not> ends_name b) inp))"

definition read_attr_value :: "bytes \<Rightarrow> (bytes \<times> bytes) result" where
  "read_attr_value inp =
     (case inp of
        quote # r \<Rightarrow>
          if quote \<in> {DQUOT, QUOT} then
            (case find_byte r quote of
               Some i \<Rightarrow> bind_res (decode_entities (take i r)) (\<lambda>v. Inr (v, drop (i + 1) r))
             | None \<Rightarrow> Inl (XmlError ''unterminated attribute value''))
          else Inl (XmlError ''attribute value must be quoted'')
      | [] \<Rightarrow> Inl (XmlError ''attribute value must be quoted''))"

text \<open>One \<open>key = 'value'\<close>, the third branch of the loop in \<open>parse_element\<close>.\<close>

definition read_attr :: "bytes \<Rightarrow> ((bytes \<times> bytes) \<times> bytes) result" where
  "read_attr inp =
     bind_res (read_name inp) (\<lambda>(key, r).
     bind_res (expect (CHR ''='') ''expected '=' after an attribute name'' (skip_ws r)) (\<lambda>r.
     bind_res (read_attr_value (skip_ws r)) (\<lambda>(v, r). Inr ((key, v), r))))"

lemma read_name_shrinks: "read_name inp = Inr (nm, r) \<Longrightarrow> length r < length inp"
proof -
  assume a: "read_name inp = Inr (nm, r)"
  have "length (takeWhile (\<lambda>b. \<not> ends_name b) inp) + length (dropWhile (\<lambda>b. \<not> ends_name b) inp) = length inp"
    by (metis length_append takeWhile_dropWhile_id)
  moreover from a have "takeWhile (\<lambda>b. \<not> ends_name b) inp \<noteq> []" "r = dropWhile (\<lambda>b. \<not> ends_name b) inp"
    by (auto simp: read_name_def Let_def split: if_splits)
  ultimately show ?thesis by (metis add_less_same_cancel2 length_greater_0_conv less_add_same_cancel2)
qed

lemma expect_shrinks: "expect b reason inp = Inr r \<Longrightarrow> inp = b # r"
  by (auto simp: expect_def split: list.splits if_splits)

lemma read_attr_value_shrinks: "read_attr_value inp = Inr (v, r) \<Longrightarrow> length r < length inp"
  by (auto simp: read_attr_value_def bind_res_Inr_iff split: list.splits if_splits option.splits)

lemma read_attr_shrinks: "read_attr inp = Inr (a, r) \<Longrightarrow> length r < length inp"
proof -
  assume "read_attr inp = Inr (a, r)"
  then obtain key r1 r2 v where r: "read_name inp = Inr (key, r1)"
    "skip_ws r1 = CHR ''='' # r2" "read_attr_value (skip_ws r2) = Inr (v, r)"
    by (auto simp: read_attr_def bind_res_Inr_iff dest!: expect_shrinks)
  have "length r2 \<le> length r1" using skip_ws_le [of r1] r(2) by simp
  with read_name_shrinks [OF r(1)] read_attr_value_shrinks [OF r(3)] skip_ws_le [of r2] show ?thesis
    by linarith
qed

text \<open>The loop over the start tag: \<open>True\<close> when the element was closed in place.\<close>

function parse_attrs :: "element \<Rightarrow> bytes \<Rightarrow> (element \<times> bool \<times> bytes) result" where
  "parse_attrs e inp =
     (let inp' = skip_ws inp in
      case inp' of
        [] \<Rightarrow> Inl (XmlError ''unterminated start tag'')
      | b # r \<Rightarrow>
          if b = CHR ''/'' then
            bind_res (expect (CHR ''>'') ''expected '>' closing an empty element'' r) (\<lambda>r. Inr (e, True, r))
          else if b = CHR ''>'' then Inr (e, False, r)
          else bind_res (read_attr inp') (\<lambda>(a, r). parse_attrs (push_attr e a) r))"
  by pat_completeness auto
termination
proof (relation "measure (\<lambda>(e, inp). length inp)", goal_cases)
  case (2 e inp inp' b l x a r)
  then have "length r < length (skip_ws inp)" by (auto intro: read_attr_shrinks)
  then show ?case using skip_ws_le [of inp] by simp
qed simp

declare parse_attrs.simps [simp del]

lemma parse_attrs_shrinks: "parse_attrs e inp = Inr (e', closed, r) \<Longrightarrow> length r < length inp"
proof (induction e inp rule: parse_attrs.induct)
  case (1 e inp)
  show ?case
  proof (cases "skip_ws inp")
    case Nil
    with "1.prems" show ?thesis by (subst (asm) parse_attrs.simps) simp
  next
    case (Cons b s)
    have le: "length s < length inp" using skip_ws_le [of inp] Cons by simp
    show ?thesis
    proof (cases "b = CHR ''/'' \<or> b = CHR ''>''")
      case True
      with "1.prems" Cons le show ?thesis
        by (subst (asm) parse_attrs.simps)
          (auto simp: bind_res_Inr_iff dest!: expect_shrinks split: if_splits)
    next
      case False
      with "1.prems" Cons obtain a r' where a: "read_attr (skip_ws inp) = Inr (a, r')"
        and p: "parse_attrs (push_attr e a) r' = Inr (e', closed, r)"
        by (subst (asm) parse_attrs.simps) (auto simp: bind_res_Inr_iff)
      have "length r < length r'"
        using "1.IH" [OF refl Cons _ _ _ refl p] False a Cons by simp
      with read_attr_shrinks [OF a] skip_ws_le [of inp] show ?thesis by linarith
    qed
  qed
qed

text \<open>
  \<open>parse_element\<close> and \<open>parse_content\<close> call each other; \<open>parse_content\<close> returns the element
  it was given a mutable reference to. Each continues where the other stopped, so that the
  recursion ends is part of what has to be shown: a reader that succeeds has consumed input.
\<close>

function (domintros) parse_element :: "nat \<Rightarrow> bytes \<Rightarrow> (element \<times> bytes) result"
  and parse_content :: "element \<Rightarrow> nat \<Rightarrow> bytes \<Rightarrow> (element \<times> bytes) result" where
  "parse_element depth inp =
     (if depth > MAX_DEPTH then Inl (XmlError ''element nesting too deep'')
      else bind_res (expect (CHR ''<'') ''expected an element'' inp) (\<lambda>r.
           bind_res (read_name r) (\<lambda>(nm, r).
           bind_res (parse_attrs (Element nm [] [] []) r) (\<lambda>(e, closed, r).
             if closed then Inr (e, r) else parse_content e depth r))))"
| "parse_content e depth inp =
     (if starts_with inp ''</'' then
        bind_res (read_name (drop 2 inp)) (\<lambda>(closing, r).
        bind_res (expect (CHR ''>'') ''expected '>' closing an end tag'' (skip_ws r)) (\<lambda>r.
          if closing \<noteq> el_name e then Inl (XmlError ''end tag does not match its start tag'')
          else Inr (e, r)))
      else if starts_with inp ''<!--'' then
        bind_res (skip_past ''-->'' inp) (\<lambda>r. parse_content e depth r)
      else if starts_with inp CDATA_OPEN then
        (let start = drop (length CDATA_OPEN) inp in
         bind_res (skip_past CDATA_CLOSE start) (\<lambda>r.
           parse_content (push_text e (take (length start - length r - length CDATA_CLOSE) start)) depth r))
      else case inp of
        [] \<Rightarrow> Inl (XmlError ''unterminated element content'')
      | b # _ \<Rightarrow>
          if b = CHR ''<'' then
            bind_res (parse_element (depth + 1) inp) (\<lambda>(child, r).
              parse_content (push_child e child) depth r)
          else
            bind_res (decode_entities (takeWhile (\<lambda>c. c \<noteq> CHR ''<'') inp)) (\<lambda>t.
              parse_content (push_text e t) depth (dropWhile (\<lambda>c. c \<noteq> CHR ''<'') inp)))"
  by pat_completeness auto

lemma reader_shrinks:
  "parse_element_parse_content_dom (Inl (depth, inp)) \<Longrightarrow>
     (\<forall>e r. parse_element depth inp = Inr (e, r) \<longrightarrow> length r < length inp)"
  "parse_element_parse_content_dom (Inr (e0, depth, inp)) \<Longrightarrow>
     (\<forall>e r. parse_content e0 depth inp = Inr (e, r) \<longrightarrow> length r < length inp)"
proof (induction depth inp and e0 depth inp rule: parse_element_parse_content.pinduct)
  case (1 depth inp)
  show ?case
  proof (intro allI impI)
    fix e r assume "parse_element depth inp = Inr (e, r)"
    then obtain r1 nm r2 e1 c r3 where d: "\<not> depth > MAX_DEPTH"
      and x: "expect (CHR ''<'') ''expected an element'' inp = Inr r1"
      and n: "read_name r1 = Inr (nm, r2)" and a: "parse_attrs (Element nm [] [] []) r2 = Inr (e1, c, r3)"
      and c: "(if c then Inr (e1, r3) else parse_content e1 depth r3) = Inr (e, r)"
      by (auto simp: parse_element.psimps [OF "1.hyps"] bind_res_Inr_iff split: if_splits)
    have "length r \<le> length r3"
    proof (cases c)
      case False
      from "1.IH" [OF d x n refl a refl refl False] c False show ?thesis by (simp add: less_imp_le)
    qed (use c in simp)
    moreover have "length r3 < length r2" "length r2 < length r1" "length r1 < length inp"
      using parse_attrs_shrinks [OF a] read_name_shrinks [OF n] expect_shrinks [OF x] by simp_all
    ultimately show "length r < length inp" by linarith
  qed
next
  case (2 e0 depth inp)
  note ps = parse_content.psimps [OF "2.hyps"]
  show ?case
  proof (intro allI impI)
    fix e r assume eq: "parse_content e0 depth inp = Inr (e, r)"
    consider (close) "starts_with inp ''</''" | (comment) "\<not> starts_with inp ''</''" "starts_with inp ''<!--''"
      | (cdata) "\<not> starts_with inp ''</''" "\<not> starts_with inp ''<!--''" "starts_with inp CDATA_OPEN"
      | (other) "\<not> starts_with inp ''</''" "\<not> starts_with inp ''<!--''" "\<not> starts_with inp CDATA_OPEN"
      by blast
    then show "length r < length inp"
    proof cases
      case close
      then obtain nm r1 where n: "read_name (drop 2 inp) = Inr (nm, r1)" and x: "skip_ws r1 = CHR ''>'' # r"
        using eq by (auto simp: ps bind_res_Inr_iff dest!: expect_shrinks split: if_splits)
      have "length r < length r1" using skip_ws_le [of r1] x by simp
      with read_name_shrinks [OF n] show ?thesis by simp
    next
      case comment
      then obtain r1 where s: "skip_past ''-->'' inp = Inr r1" and p: "parse_content e0 depth r1 = Inr (e, r)"
        using eq by (auto simp: ps bind_res_Inr_iff)
      from "2.IH"(1) [OF comment s] p skip_past_shrinks [OF s] show ?thesis by fastforce
    next
      case cdata
      let ?st = "drop (length CDATA_OPEN) inp"
      from cdata eq obtain r1 where s: "skip_past CDATA_CLOSE ?st = Inr r1"
        and p: "parse_content (push_text e0 (take (length ?st - length r1 - length CDATA_CLOSE) ?st)) depth r1 = Inr (e, r)"
        by (auto simp: ps bind_res_Inr_iff Let_def add.assoc)
      have "length r1 < length ?st" using skip_past_shrinks [OF s] by (simp add: CDATA_CLOSE_def)
      moreover have "length r < length r1" using "2.IH"(2) [OF cdata refl s] p by blast
      ultimately show ?thesis by simp
    next
      case other
      then obtain b s where i: "inp = b # s" using eq [unfolded ps] by (cases inp) auto
      show ?thesis
      proof (cases "b = CHR ''<''")
        case True
        with other eq [unfolded ps] i obtain ch r1 where pe: "parse_element (depth + 1) inp = Inr (ch, r1)"
          and p: "parse_content (push_child e0 ch) depth r1 = Inr (e, r)"
          by (auto simp: bind_res_Inr_iff)
        from "2.IH"(3) [OF other i True] pe have "length r1 < length inp" by blast
        moreover from "2.IH"(4) [OF other i True pe refl] p have "length r < length r1" by blast
        ultimately show ?thesis by simp
      next
        case False
        with other eq [unfolded ps] i obtain t where t: "decode_entities (takeWhile (\<lambda>c. c \<noteq> CHR ''<'') inp) = Inr t"
          and p: "parse_content (push_text e0 t) depth (dropWhile (\<lambda>c. c \<noteq> CHR ''<'') inp) = Inr (e, r)"
          by (auto simp: bind_res_Inr_iff)
        from "2.IH"(5) [OF other i False t] p
        have "length r < length (dropWhile (\<lambda>c. c \<noteq> CHR ''<'') inp)" by blast
        with length_dropWhile_le [of "\<lambda>c. c \<noteq> CHR ''<''" inp] show ?thesis by linarith
      qed
    qed
  qed
qed

termination parse_element
proof (relation "measure (case_sum (\<lambda>(depth, inp). 2 * length inp) (\<lambda>(e, depth, inp). 2 * length inp + 1))", goal_cases)
  case (2 depth inp r1 x2 nm r2 x3 e1 y3 closed r3)
  then have "length r1 < length inp" "length r2 < length r1" "length r3 < length r2"
    by (auto dest: expect_shrinks read_name_shrinks parse_attrs_shrinks)
  then show ?case by simp
next
  case (3 e depth inp r)
  then show ?case by (auto dest: skip_past_shrinks)
next
  case (4 e depth inp st r)
  then have "length r < length st" by (auto simp: CDATA_CLOSE_def dest: skip_past_shrinks)
  with 4 show ?case by simp
next
  case (6 e depth inp b s x child r)
  then show ?case using reader_shrinks(1) by fastforce
next
  case (7 e depth inp b s t)
  then show ?case using length_dropWhile_le [of "\<lambda>c. c \<noteq> CHR ''<''" s] by auto
qed simp_all

declare parse_element.simps [simp del] parse_content.simps [simp del]

definition parse :: "bytes \<Rightarrow> element result" where
  "parse inp =
     (if \<not> utf8_valid inp then Inl NotUtf8
      else bind_res (skip_prolog inp) (\<lambda>r.
           bind_res (parse_element 0 r) (\<lambda>(root, r).
           bind_res (skip_prolog r) (\<lambda>r.
             if r \<noteq> [] then Inl (XmlError ''trailing content after the root element'')
             else Inr root))))"

section \<open>Escaping and its inverse\<close>

abbreviation esc :: "bytes \<Rightarrow> bytes" where "esc v \<equiv> escape [] v"

lemma escape_append: "escape out v = out @ esc v"
  by (simp add: escape_def)

lemma esc_simps [simp]: "esc [] = []" "esc (c # v) = escape_char c @ esc v"
  by (simp_all add: escape_def)

declare escape_char.simps [simp del]

lemma esc_no_markup: "b \<in> set (esc v) \<Longrightarrow> b \<notin> {CHR ''<'', CHR ''>'', QUOT, DQUOT}"
  by (induction v) (auto simp: escape_char.simps split: if_splits)

lemma esc_Nil_iff [simp]: "esc v = [] \<longleftrightarrow> v = []"
  by (cases v) (auto simp: escape_char.simps)

lemma decode_entities_loop_plain:
  assumes "CHR ''&'' \<notin> set p"
  shows "decode_entities_loop out (p @ rest) = decode_entities_loop (out @ p) rest"
proof (cases "find_byte rest (CHR ''&'')")
  case None
  with assms show ?thesis
    by (simp add: decode_entities_loop.simps [of _ rest] decode_entities_loop.simps [of _ "p @ rest"] find_byte_append)
next
  case (Some i)
  then have "find_byte (p @ rest) (CHR ''&'') = Some (i + length p)"
    using assms by (simp add: find_byte_append)
  moreover have "drop (i + length p + 1) (p @ rest) = drop (i + 1) rest"
    "take (i + length p) (p @ rest) = p @ take i rest" by simp_all
  ultimately show ?thesis using Some
    by (simp only: decode_entities_loop.simps [of _ rest] decode_entities_loop.simps [of _ "p @ rest"]
        option.case Let_def append_assoc)
qed

lemma decode_entities_loop_entity:
  assumes "CHR '';'' \<notin> set nm" and "length nm < MAX_ENTITY_LEN" and "entity nm = Inr c"
  shows "decode_entities_loop out (CHR ''&'' # nm @ CHR '';'' # rest) = decode_entities_loop (out @ c) rest"
proof -
  have "take MAX_ENTITY_LEN (nm @ CHR '';'' # rest) = nm @ CHR '';'' # take (MAX_ENTITY_LEN - length nm - 1) rest"
    using assms(2) by (simp add: take_Cons')
  then have "find_byte (take MAX_ENTITY_LEN (nm @ CHR '';'' # rest)) (CHR '';'') = Some (length nm)"
    by (simp add: find_byte_first [OF assms(1)])
  with assms(3) show ?thesis
    by (subst decode_entities_loop.simps) (simp add: Let_def)
qed

lemma decode_entities_loop_escape_char:
  "decode_entities_loop out (escape_char c @ rest) = decode_entities_loop (out @ [c]) rest"
proof -
  note ent = decode_entities_loop_entity [of "''amp''" "''&''"] decode_entities_loop_entity [of "''lt''" "''<''"]
    decode_entities_loop_entity [of "''gt''" "''>''"] decode_entities_loop_entity [of "''apos''" "[QUOT]"]
    decode_entities_loop_entity [of "''quot''" "[DQUOT]"]
  show ?thesis
    using ent [of out rest] decode_entities_loop_plain [of "[c]" out rest]
    by (simp add: escape_char.simps entity_def MAX_ENTITY_LEN_def)
qed

lemma decode_entities_loop_esc: "decode_entities_loop out (esc v) = Inr (out @ v)"
proof (induction v arbitrary: out)
  case Nil
  then show ?case by (simp add: decode_entities_loop.simps)
next
  case (Cons c v)
  then show ?case by (simp add: decode_entities_loop_escape_char)
qed

lemma esc_id: "CHR ''&'' \<notin> set (esc v) \<Longrightarrow> esc v = v"
  by (induction v) (auto simp: escape_char.simps split: if_splits)

lemma decode_entities_esc: "decode_entities (esc v) = Inr v"
  by (auto simp: decode_entities_def decode_entities_loop_esc esc_id)

lemma decode_entities_plain: "CHR ''&'' \<notin> set v \<Longrightarrow> decode_entities v = Inr v"
  by (simp add: decode_entities_def)

lemma esc_append: "esc (a @ b) = esc a @ esc b"
  by (simp add: escape_def)

lemma esc_non_ascii: "\<forall>b \<in> set p. \<not> octet_in 0 0x7F b \<Longrightarrow> esc p = p"
  by (induction p) (auto simp: escape_char.simps octet_in_def)

lemma esc_utf8: "utf8_valid v \<Longrightarrow> utf8_valid (esc v)"
proof (induction v rule: utf8_induct)
  case (ascii b r)
  have "\<forall>c \<in> set (escape_char b). octet_in 0 0x7F c"
    using ascii(1) by (auto simp: escape_char.simps octet_in_def)
  with ascii(3) show ?case by (simp add: utf8_valid_append utf8_valid_ascii)
next
  case (other p r)
  then show ?case using utf8_valid_step [of p "esc r"] by (simp add: esc_append esc_non_ascii)
qed simp

section \<open>Reading what was written\<close>

definition name_ok :: "bytes \<Rightarrow> bool" where
  "name_ok nm \<longleftrightarrow> nm \<noteq> [] \<and> (\<forall>b \<in> set nm. \<not> ends_name b)"

text \<open>A tag name must also not look like markup of another kind.\<close>

definition tag_ok :: "bytes \<Rightarrow> bool" where
  "tag_ok nm \<longleftrightarrow> name_ok nm \<and> hd nm \<notin> {CHR ''!'', CHR ''?''}"

lemma ends_name_ws: "is_xml_ws b \<Longrightarrow> ends_name b"
  by (auto simp: is_xml_ws_def ends_name_def)

lemma read_name_at:
  assumes "name_ok nm" and "ends_name b"
  shows "read_name (nm @ b # r) = Inr (nm, b # r)"
  using assms by (simp add: read_name_def name_ok_def takeWhile_append2 dropWhile_append2)

lemma name_ok_no_ws: "name_ok nm \<Longrightarrow> \<not> is_xml_ws (hd nm)"
  using ends_name_ws hd_in_set by (auto simp: name_ok_def)

lemma skip_ws_Cons: "skip_ws (b # r) = (if is_xml_ws b then skip_ws r else b # r)"
  by (simp add: skip_ws_def)

lemma skip_ws_name: "name_ok nm \<Longrightarrow> skip_ws (nm @ r) = nm @ r"
  using name_ok_no_ws [of nm] by (cases nm) (auto simp: skip_ws_Cons name_ok_def)

lemma xml_octets [simp]:
  "is_xml_ws (CHR '' '')" "is_xml_ws CR" "is_xml_ws LF" "is_xml_ws TAB"
  "\<not> is_xml_ws (CHR ''='')" "\<not> is_xml_ws QUOT" "\<not> is_xml_ws (CHR ''/'')" "\<not> is_xml_ws (CHR ''>'')"
  "\<not> is_xml_ws (CHR ''<'')" "\<not> is_xml_ws DQUOT"
  "ends_name (CHR '' '')" "ends_name (CHR ''='')" "ends_name (CHR ''>'')" "ends_name (CHR ''/'')"
  by (simp_all add: is_xml_ws_def ends_name_def)

lemma read_attr_value_esc: "read_attr_value (QUOT # esc v @ QUOT # r) = Inr (v, r)"
proof -
  have "QUOT \<notin> set (esc v)" using esc_no_markup by fastforce
  then show ?thesis by (simp add: read_attr_value_def find_byte_first decode_entities_esc)
qed

definition attr_text :: "bytes \<times> bytes \<Rightarrow> bytes" where
  "attr_text a = fst a @ ''='' @ [QUOT] @ esc (snd a) @ [QUOT]"

lemma read_attr_text: "name_ok (fst a) \<Longrightarrow> read_attr (attr_text a @ r) = Inr (a, r)"
  by (simp add: read_attr_def attr_text_def read_name_at skip_ws_Cons expect_def read_attr_value_esc)

lemma parse_attrs_one:
  assumes "name_ok (fst a)"
  shows "parse_attrs e (CHR '' '' # attr_text a @ r) = parse_attrs (push_attr e a) r"
proof -
  have ws: "skip_ws (CHR '' '' # attr_text a @ r) = attr_text a @ r"
    using skip_ws_name [OF assms] by (simp add: skip_ws_Cons attr_text_def)
  obtain b nm where n: "fst a = b # nm" using assms by (auto simp: name_ok_def neq_Nil_conv)
  have "\<not> ends_name b" using assms n by (simp add: name_ok_def)
  then have "b \<noteq> CHR ''/''" "b \<noteq> CHR ''>''" by (auto simp: ends_name_def)
  moreover obtain t where t: "attr_text a @ r = b # t" by (simp add: attr_text_def n)
  ultimately show ?thesis
    using read_attr_text [OF assms, of r] ws
    by (subst parse_attrs.simps) simp
qed

definition attrs_text :: "(bytes \<times> bytes) list \<Rightarrow> bytes" where
  "attrs_text as = concat (map (\<lambda>a. CHR '' '' # attr_text a) as)"

fun push_attrs :: "element \<Rightarrow> (bytes \<times> bytes) list \<Rightarrow> element" where
  "push_attrs (Element nm as cs t) bs = Element nm (as @ bs) cs t"

lemma parse_attrs_text:
  "\<forall>a \<in> set as. name_ok (fst a) \<Longrightarrow> parse_attrs e (attrs_text as @ r) = parse_attrs (push_attrs e as) r"
proof (induction as arbitrary: e)
  case Nil
  then show ?case by (cases e) (simp add: attrs_text_def)
next
  case (Cons a as)
  then show ?case
    using parse_attrs_one [of a e "attrs_text as @ r"] by (cases e) (simp add: attrs_text_def)
qed

lemma parse_attrs_open: "parse_attrs e (CHR ''>'' # r) = Inr (e, False, r)"
  by (subst parse_attrs.simps) (simp add: skip_ws_Cons)

lemma parse_attrs_closed: "parse_attrs e ('' />'' @ r) = Inr (e, True, r)"
  by (subst parse_attrs.simps) (simp add: skip_ws_Cons expect_def)

text \<open>A start tag, and an element closed in place.\<close>

lemma read_name_tag:
  assumes "name_ok nm" and "\<forall>a \<in> set as. name_ok (fst a)" and "ends_name b"
  shows "read_name (nm @ attrs_text as @ b # r) = Inr (nm, attrs_text as @ b # r)"
  using read_name_at [OF assms(1)] assms(3)
  by (cases as) (simp_all add: attrs_text_def)

lemma parse_element_open:
  assumes "d \<le> MAX_DEPTH" and "name_ok nm" and "\<forall>a \<in> set as. name_ok (fst a)"
  shows "parse_element d (CHR ''<'' # nm @ attrs_text as @ CHR ''>'' # r) = parse_content (Element nm as [] []) d r"
  using assms
  by (subst parse_element.simps)
    (simp add: expect_def read_name_tag [OF assms(2,3)] parse_attrs_text [OF assms(3)] parse_attrs_open)

lemma parse_element_closed:
  assumes "d \<le> MAX_DEPTH" and "name_ok nm" and "\<forall>a \<in> set as. name_ok (fst a)"
  shows "parse_element d (CHR ''<'' # nm @ attrs_text as @ '' />'' @ r) = Inr (Element nm as [] [], r)"
  using assms read_name_tag [OF assms(2,3), of "CHR '' ''" "''/>'' @ r"] parse_attrs_closed [of _ r]
  by (subst parse_element.simps) (simp add: expect_def parse_attrs_text [OF assms(3)])

text \<open>The pieces of content.\<close>

lemma parse_content_close:
  assumes "name_ok (el_name e)"
  shows "parse_content e d (''</'' @ el_name e @ CHR ''>'' # r) = Inr (e, r)"
  using assms
  by (subst parse_content.simps)
    (simp add: starts_with_def read_name_at skip_ws_Cons expect_def)

lemma parse_content_text:
  assumes "t \<noteq> []" and "CHR ''<'' \<notin> set t" and "decode_entities t = Inr t'" and "r = [] \<or> hd r = CHR ''<''"
  shows "parse_content e d (t @ r) = parse_content (push_text e t') d r"
proof -
  obtain b s where t: "t = b # s" using assms(1) by (cases t) auto
  have b: "b \<noteq> CHR ''<''" using assms(2) t by auto
  have "takeWhile (\<lambda>c. c \<noteq> CHR ''<'') (t @ r) = t" "dropWhile (\<lambda>c. c \<noteq> CHR ''<'') (t @ r) = r"
    using assms(2,4) by (cases r; auto simp: takeWhile_append dropWhile_append; force)+
  with b t assms(3) show ?thesis
    by (subst parse_content.simps) (simp add: starts_with_def CDATA_OPEN_def)
qed

lemma parse_content_child:
  assumes "parse_element (Suc d) x = Inr (c, r)" and "x = CHR ''<'' # nm @ s" and "tag_ok nm"
  shows "parse_content e d x = parse_content (push_child e c) d r"
proof -
  obtain b n where n: "nm = b # n" using assms(3) by (auto simp: tag_ok_def name_ok_def neq_Nil_conv)
  have "b \<noteq> CHR ''/''" "b \<noteq> CHR ''!''"
    using assms(3) by (auto simp: n tag_ok_def name_ok_def ends_name_def)
  then show ?thesis
    using assms(1) unfolding assms(2) n
    by (subst parse_content.simps) (simp add: starts_with_def CDATA_OPEN_def)
qed

lemma skip_past_first:
  assumes "pat \<noteq> []" and "\<And>a b. x @ pat @ y = a @ pat @ b \<Longrightarrow> length x \<le> length a"
  shows "skip_past pat (x @ pat @ y) = Inr y"
proof -
  have "\<not> starts_with (drop j (x @ pat @ y)) pat" if "j < length x" for j
  proof
    assume "starts_with (drop j (x @ pat @ y)) pat"
    then obtain b where "drop j (x @ pat @ y) = pat @ b" by (auto simp: starts_with_iff)
    then have "x @ pat @ y = take j (x @ pat @ y) @ pat @ b" by (metis append_take_drop_id)
    from assms(2) [OF this] that show False by simp
  qed
  moreover have "starts_with (drop (length x) (x @ pat @ y)) pat" by (simp add: starts_with_def)
  moreover have "length x < length (x @ pat @ y) - (length pat - 1)"
    using assms(1) by (cases pat) simp_all
  ultimately have "range_find (length (x @ pat @ y) - (length pat - 1))
      (\<lambda>i. starts_with (drop i (x @ pat @ y)) pat) = Some (length x)"
    unfolding range_find_Some_iff by blast
  then show ?thesis by (simp add: skip_past_def)
qed

text \<open>CDATA is read verbatim as long as it does not contain its own terminator.\<close>

definition cdata_ok :: "bytes \<Rightarrow> bool" where
  "cdata_ok t \<longleftrightarrow> (\<forall>a b. t @ CDATA_CLOSE = a @ CDATA_CLOSE @ b \<longrightarrow> length t \<le> length a)"

lemma parse_content_cdata:
  assumes "cdata_ok t"
  shows "parse_content e d (CDATA_OPEN @ t @ CDATA_CLOSE @ r) = parse_content (push_text e t) d r"
proof -
  have "length t \<le> length a" if eq: "t @ CDATA_CLOSE @ r = a @ CDATA_CLOSE @ b" for a b
  proof (rule ccontr)
    assume lt: "\<not> length t \<le> length a"
    have "take (length t + 3) (t @ CDATA_CLOSE @ r) = t @ CDATA_CLOSE" by (simp add: CDATA_CLOSE_def)
    moreover have "take (length t + 3) (a @ CDATA_CLOSE @ b) = a @ CDATA_CLOSE @ take (length t - length a) b"
      using lt by (simp add: CDATA_CLOSE_def take_Cons' numeral_eq_Suc)
    ultimately have "t @ CDATA_CLOSE = a @ CDATA_CLOSE @ take (length t - length a) b" using eq by simp
    with assms lt show False unfolding cdata_ok_def by blast
  qed
  then have "skip_past CDATA_CLOSE (t @ CDATA_CLOSE @ r) = Inr r"
    by (intro skip_past_first) (simp_all add: CDATA_CLOSE_def)
  moreover have "\<not> starts_with (CDATA_OPEN @ x) ''</''" "\<not> starts_with (CDATA_OPEN @ x) ''<!--''"
    "starts_with (CDATA_OPEN @ x) CDATA_OPEN" for x
    by (simp_all add: starts_with_def CDATA_OPEN_def)
  ultimately show ?thesis by (subst parse_content.simps) (simp add: Let_def)
qed

section \<open>Documents\<close>

text \<open>
  A plain printer, as the reference the reader is compared with: attributes in single quotes,
  everything escaped, text before children.
\<close>

fun print_element :: "element \<Rightarrow> bytes" where
  "print_element (Element nm as cs t) =
     (if cs = [] \<and> t = [] then CHR ''<'' # nm @ attrs_text as @ '' />''
      else CHR ''<'' # nm @ attrs_text as @ ''>'' @ esc t @ concat (map print_element cs) @ ''</'' @ nm @ ''>'')"

fun height :: "element \<Rightarrow> nat" where
  "height (Element nm as cs t) = Suc (Max (insert 0 (set (map height cs))))"

fun wf_element :: "element \<Rightarrow> bool" where
  "wf_element (Element nm as cs t) \<longleftrightarrow>
     tag_ok nm \<and> (\<forall>a \<in> set as. name_ok (fst a)) \<and> (\<forall>c \<in> set cs. wf_element c)"

lemma height_pos: "0 < height e"
  by (cases e) simp

lemma height_child: "c \<in> set (el_children e) \<Longrightarrow> height c < height e"
  by (cases e) (auto simp: less_Suc_eq_le)

lemma height_le_iff: "height e \<le> Suc n \<longleftrightarrow> (\<forall>c \<in> set (el_children e). height c \<le> n)"
  by (cases e) auto

lemma print_element_hd:
  "wf_element e \<Longrightarrow> \<exists>s. print_element e = CHR ''<'' # el_name e @ s"
  by (cases e) auto

lemma parse_content_children:
  assumes "\<And>c r. c \<in> set cs \<Longrightarrow> parse_element (Suc d) (print_element c @ r) = Inr (c, r)"
    and "\<forall>c \<in> set cs. wf_element c"
  shows "parse_content (Element nm as cs0 t) d (concat (map print_element cs) @ r) =
     parse_content (Element nm as (cs0 @ cs) t) d r"
  using assms
proof (induction cs arbitrary: cs0)
  case (Cons c cs)
  let ?x = "print_element c @ concat (map print_element cs) @ r"
  from print_element_hd [of c] Cons.prems(2) obtain s where s: "print_element c = CHR ''<'' # el_name c @ s"
    by auto
  have "tag_ok (el_name c)" using Cons.prems(2) by (cases c) simp
  then have "parse_content (Element nm as cs0 t) d ?x =
      parse_content (push_child (Element nm as cs0 t) c) d (concat (map print_element cs) @ r)"
    using Cons.prems(1) [of c] s by (intro parse_content_child) auto
  with Cons show ?case by simp
qed simp

lemma parse_element_print:
  "wf_element e \<Longrightarrow> d + height e \<le> Suc MAX_DEPTH \<Longrightarrow> parse_element d (print_element e @ r) = Inr (e, r)"
proof (induction e arbitrary: d r)
  case (Element nm as cs t)
  let ?e = "Element nm as cs t"
  have d: "d \<le> MAX_DEPTH" using Element.prems(2) by simp
  have nm: "name_ok nm" "tag_ok nm" and as: "\<forall>a \<in> set as. name_ok (fst a)"
    and cs: "\<forall>c \<in> set cs. wf_element c" using Element.prems(1) by (simp_all add: tag_ok_def)
  show ?case
  proof (cases "cs = [] \<and> t = []")
    case True
    with parse_element_closed [OF d nm(1) as] show ?thesis by simp
  next
    case False
    let ?fin = "''</'' @ nm @ ''>'' @ r"
    let ?kids = "concat (map print_element cs) @ ?fin"
    have kids: "?kids = [] \<or> hd ?kids = CHR ''<''"
      using print_element_hd cs by (cases cs) fastforce+
    have "parse_content (Element nm as [] []) d (esc t @ ?kids) = parse_content (Element nm as [] t) d ?kids"
      using parse_content_text [OF _ _ decode_entities_esc kids, of t "Element nm as [] []" d] esc_no_markup [of _ t]
      by (cases "t = []") auto
    also have "\<dots> = parse_content (Element nm as cs t) d ?fin"
    proof -
      have "d + 1 + height c \<le> Suc MAX_DEPTH" if "c \<in> set cs" for c
        using height_child [of c ?e] that Element.prems(2) by simp
      with Element.IH cs show ?thesis by (subst parse_content_children) auto
    qed
    also have "\<dots> = Inr (?e, r)"
      using parse_content_close [of ?e d r] nm(1) by simp
    finally show ?thesis using False parse_element_open [OF d nm(1) as, of "esc t @ ?kids"] by auto
  qed
qed

text \<open>The reader never builds a tree deeper than the limit.\<close>

lemma parse_attrs_children: "parse_attrs e inp = Inr (e', c, r) \<Longrightarrow> el_children e' = el_children e"
proof (induction e inp rule: parse_attrs.induct)
  case (1 e inp)
  have push: "el_children (push_attr e a) = el_children e" for a by (cases e; cases a) simp
  show ?case
    using "1.prems" "1.IH" [OF refl]
    by (subst (asm) parse_attrs.simps) (auto simp: Let_def bind_res_Inr_iff push split: list.splits if_splits)
qed

lemma push_children [simp]:
  "el_children (push_text e t) = el_children e" "el_children (push_child e c) = el_children e @ [c]"
  by (cases e, simp)+

lemma parse_height:
  "parse_element d inp = Inr (e, r) \<Longrightarrow> d + height e \<le> Suc MAX_DEPTH"
  "parse_content e0 d inp = Inr (e, r) \<Longrightarrow>
     \<forall>c \<in> set (el_children e0). d + height c \<le> MAX_DEPTH \<Longrightarrow> \<forall>c \<in> set (el_children e). d + height c \<le> MAX_DEPTH"
proof (induction d inp and e0 d inp arbitrary: e r and e r rule: parse_element_parse_content.induct)
  case (1 d inp)
  then obtain r1 nm r2 e1 c r3 where d: "\<not> d > MAX_DEPTH"
    and x: "expect (CHR ''<'') ''expected an element'' inp = Inr r1"
    and n: "read_name r1 = Inr (nm, r2)" and a: "parse_attrs (Element nm [] [] []) r2 = Inr (e1, c, r3)"
    and c: "(if c then Inr (e1, r3) else parse_content e1 d r3) = Inr (e, r)"
    by (auto simp: parse_element.simps [of d inp] bind_res_Inr_iff split: if_splits)
  have no_kids: "el_children e1 = []" using parse_attrs_children [OF a] by simp
  have "\<forall>c \<in> set (el_children e). d + height c \<le> MAX_DEPTH"
  proof (cases c)
    case True
    then show ?thesis using c no_kids by simp
  next
    case False
    with "1.IH" [OF d x n refl a refl refl False] c no_kids show ?thesis by simp
  qed
  then have "height e \<le> Suc (MAX_DEPTH - d)" unfolding height_le_iff by auto
  with d show ?case by simp
next
  case (2 e0 d inp)
  note eq = "2.prems"(1) [unfolded parse_content.simps [of e0 d inp]]
  consider (close) "starts_with inp ''</''" | (comment) "\<not> starts_with inp ''</''" "starts_with inp ''<!--''"
    | (cdata) "\<not> starts_with inp ''</''" "\<not> starts_with inp ''<!--''" "starts_with inp CDATA_OPEN"
    | (other) "\<not> starts_with inp ''</''" "\<not> starts_with inp ''<!--''" "\<not> starts_with inp CDATA_OPEN"
    by blast
  then show ?case
  proof cases
    case close
    then have "e = e0" using eq by (auto simp: bind_res_Inr_iff split: if_splits)
    with "2.prems"(2) show ?thesis by simp
  next
    case comment
    then obtain r1 where s: "skip_past ''-->'' inp = Inr r1" and p: "parse_content e0 d r1 = Inr (e, r)"
      using eq by (auto simp: bind_res_Inr_iff)
    from "2.IH"(1) [OF comment s p "2.prems"(2)] show ?thesis .
  next
    case cdata
    let ?st = "drop (length CDATA_OPEN) inp"
    from cdata eq obtain r1 where s: "skip_past CDATA_CLOSE ?st = Inr r1"
      and p: "parse_content (push_text e0 (take (length ?st - length r1 - length CDATA_CLOSE) ?st)) d r1 = Inr (e, r)"
      by (auto simp: bind_res_Inr_iff Let_def add.assoc)
    from "2.IH"(2) [OF cdata refl s p] "2.prems"(2) show ?thesis by simp
  next
    case other
    then obtain b s where i: "inp = b # s" using eq by (cases inp) auto
    show ?thesis
    proof (cases "b = CHR ''<''")
      case True
      with other eq i obtain ch r1 where pe: "parse_element (d + 1) inp = Inr (ch, r1)"
        and p: "parse_content (push_child e0 ch) d r1 = Inr (e, r)"
        by (auto simp: bind_res_Inr_iff)
      from "2.IH"(3) [OF other i True pe] have "d + height ch \<le> MAX_DEPTH" by simp
      with "2.IH"(4) [OF other i True pe refl p] "2.prems"(2) show ?thesis by simp
    next
      case False
      with other eq i obtain t where t: "decode_entities (takeWhile (\<lambda>c. c \<noteq> CHR ''<'') inp) = Inr t"
        and p: "parse_content (push_text e0 t) d (dropWhile (\<lambda>c. c \<noteq> CHR ''<'') inp) = Inr (e, r)"
        by (auto simp: bind_res_Inr_iff)
      from "2.IH"(5) [OF other i False t p] "2.prems"(2) show ?thesis by simp
    qed
  qed
qed

lemma skip_ws_all: "\<forall>b \<in> set ws. is_xml_ws b \<Longrightarrow> skip_ws (ws @ r) = skip_ws r"
  by (induction ws) (simp_all add: skip_ws_def)

lemma skip_prolog_ws: "\<forall>b \<in> set ws. is_xml_ws b \<Longrightarrow> skip_prolog ws = Inr []"
proof -
  assume "\<forall>b \<in> set ws. is_xml_ws b"
  then have "skip_ws ws = []" by (simp add: skip_ws_def)
  then show ?thesis by (subst skip_prolog.simps) (simp add: starts_with_def)
qed

lemma skip_prolog_tag:
  assumes "\<forall>b \<in> set ws. is_xml_ws b" and "tag_ok nm"
  shows "skip_prolog (ws @ CHR ''<'' # nm @ s) = Inr (CHR ''<'' # nm @ s)"
proof -
  obtain b n where n: "nm = b # n" using assms(2) by (auto simp: tag_ok_def name_ok_def neq_Nil_conv)
  then have "b \<noteq> CHR ''?''" "b \<noteq> CHR ''!''" using assms(2) by (auto simp: tag_ok_def)
  then show ?thesis
    by (subst skip_prolog.simps) (simp add: skip_ws_all [OF assms(1)] skip_ws_Cons starts_with_def n)
qed

lemma parse_document:
  assumes "utf8_valid (lead @ CHR ''<'' # nm @ s)" and "\<forall>b \<in> set lead. is_xml_ws b" and "tag_ok nm"
    and "parse_element 0 (CHR ''<'' # nm @ s) = Inr (root, trail)" and "\<forall>b \<in> set trail. is_xml_ws b"
  shows "parse (lead @ CHR ''<'' # nm @ s) = Inr root"
  using assms(1,4) by (simp add: parse_def skip_prolog_tag [OF assms(2,3)] skip_prolog_ws [OF assms(5)])

fun utf8_element :: "element \<Rightarrow> bool" where
  "utf8_element (Element nm as cs t) \<longleftrightarrow>
     utf8_valid nm \<and> (\<forall>a \<in> set as. utf8_valid (fst a) \<and> utf8_valid (snd a)) \<and> utf8_valid t \<and>
     (\<forall>c \<in> set cs. utf8_element c)"

lemma utf8_valid_concat: "\<forall>x \<in> set xs. utf8_valid x \<Longrightarrow> utf8_valid (concat xs)"
  by (induction xs) (simp_all add: utf8_valid_append)

lemma octet_ascii [simp]:
  "octet_in 0 0x7F (CHR ''<'')" "octet_in 0 0x7F (CHR ''>'')" "octet_in 0 0x7F (CHR ''/'')"
  "octet_in 0 0x7F (CHR '' '')" "octet_in 0 0x7F (CHR ''='')" "octet_in 0 0x7F QUOT"
  "octet_in 0 0x7F CR" "octet_in 0 0x7F LF"
  by (simp_all add: octet_in_def)

lemma utf8_attrs_text:
  "\<forall>a \<in> set as. utf8_valid (fst a) \<and> utf8_valid (snd a) \<Longrightarrow> utf8_valid (attrs_text as)"
  unfolding attrs_text_def
  by (rule utf8_valid_concat) (force simp: attr_text_def intro!: utf8_valid_append esc_utf8)

lemma utf8_print: "utf8_element e \<Longrightarrow> utf8_valid (print_element e)"
proof (induction e)
  case (Element nm as cs t)
  then have "utf8_valid (attrs_text as)" "utf8_valid (concat (map print_element cs))"
    by (auto intro!: utf8_attrs_text utf8_valid_concat)
  moreover have "utf8_valid nm" "utf8_valid (esc t)" using Element.prems by (simp_all add: esc_utf8)
  ultimately show ?case
    unfolding print_element.simps by (auto intro!: utf8_valid_append simp del: concat.simps)
qed

lemma is_xml_ws_ascii: "is_xml_ws b \<Longrightarrow> octet_in 0 0x7F b"
  unfolding is_xml_ws_def by (elim insertE) (simp_all add: octet_in_def)

lemma utf8_ws: "\<forall>b \<in> set ws. is_xml_ws b \<Longrightarrow> utf8_valid ws"
  using is_xml_ws_ascii by (blast intro: utf8_valid_ascii)

section \<open>Elements on lines of their own\<close>

text \<open>
  The renderers of the source put each child on an indented line. What they promise of the
  child is all that is needed to read the lines back.
\<close>

locale written_child =
  fixes render :: "'a \<Rightarrow> bytes" and tree :: "'a \<Rightarrow> element" and ok :: "'a \<Rightarrow> bool"
  assumes opens: "ok x \<Longrightarrow> \<exists>nm s. render x = CHR ''<'' # nm @ s \<and> tag_ok nm"
    and reads: "ok x \<Longrightarrow> d \<le> MAX_DEPTH \<Longrightarrow> parse_element d (render x @ r) = Inr (tree x, r)"
begin

definition lines_of :: "'a list \<Rightarrow> bytes" where
  "lines_of xs = concat (map (\<lambda>x. ''   '' @ render x @ CRLF) xs)"

lemma reads_lines:
  assumes "\<forall>x \<in> set xs. ok x" and "d < MAX_DEPTH" and "name_ok nm"
  shows "\<exists>t'. parse_content (Element nm as cs t) d (CRLF @ lines_of xs @ ''</'' @ nm @ ''>'' @ r) =
    Inr (Element nm as (cs @ map tree xs) t', r)"
  using assms(1)
proof (induction xs arbitrary: cs t)
  case Nil
  have "parse_content (Element nm as cs t) d (CRLF @ (''</'' @ nm @ ''>'' @ r)) =
      parse_content (Element nm as cs (t @ CRLF)) d (''</'' @ nm @ ''>'' @ r)"
    by (subst parse_content_text [OF _ _ decode_entities_plain]) auto
  also have "\<dots> = Inr (Element nm as cs (t @ CRLF), r)"
    using parse_content_close [of "Element nm as cs (t @ CRLF)" d r] assms(3) by simp
  finally show ?case by (simp add: lines_of_def)
next
  case (Cons x xs)
  let ?rest = "CRLF @ lines_of xs @ ''</'' @ nm @ ''>'' @ r"
  from opens [of x] Cons.prems obtain n s where n: "render x = CHR ''<'' # n @ s" "tag_ok n" by auto
  have "parse_content (Element nm as cs t) d ((CRLF @ ''   '') @ render x @ ?rest) =
      parse_content (Element nm as cs (t @ CRLF @ ''   '')) d (render x @ ?rest)"
    using n(1) by (subst parse_content_text [OF _ _ decode_entities_plain]) auto
  also have "\<dots> = parse_content (push_child (Element nm as cs (t @ CRLF @ ''   '')) (tree x)) d ?rest"
    using reads [of x "Suc d" ?rest] Cons.prems assms(2) n by (intro parse_content_child [where nm = n]) auto
  finally show ?case using Cons.IH [of "cs @ [tree x]" "t @ CRLF @ ''   ''"] Cons.prems
    by (simp add: lines_of_def)
qed

end

section \<open>Properties\<close>

text \<open>
  Escaping cannot be defeated: whatever octets a value holds, its escaped form
  contains none of the characters that delimit markup or attribute values, and expanding its
  entities gives the value back.
\<close>

lemma escape_decode:
  "escape out v = out @ escape [] v \<and> decode_entities (escape [] v) = Inr v \<and>
   set (escape [] v) \<inter> {CHR ''<'', CHR ''>'', QUOT, DQUOT} = {}"
  using decode_entities_esc [of v] esc_no_markup [of _ v] by (auto simp: escape_def)

text \<open>
  C17 (roundtrip). Every element tree within the depth limit, written down with its text
  before its children and surrounded by any amount of white space, is read back exactly:
  names, attributes in order, children in order, text.
\<close>

theorem parse_print:
  assumes "wf_element e" and "utf8_element e" and "height e \<le> MAX_DEPTH + 1"
    and "\<forall>b \<in> set lead. is_xml_ws b" and "\<forall>b \<in> set trail. is_xml_ws b"
  shows "parse (lead @ print_element e @ trail) = Inr e"
proof -
  obtain s where s: "print_element e = CHR ''<'' # el_name e @ s" using print_element_hd [OF assms(1)] by blast
  have "utf8_valid (lead @ print_element e @ trail)"
    by (intro utf8_valid_append utf8_print utf8_ws assms)
  moreover have "tag_ok (el_name e)" using assms(1) by (cases e) simp
  moreover have "parse_element 0 (print_element e @ trail) = Inr (e, trail)"
    using parse_element_print [OF assms(1), of 0] assms(3) by simp
  ultimately show ?thesis using parse_document [OF _ assms(4) _ _ assms(5), of "el_name e" "s @ trail"] s by simp
qed

theorem parse_print_witness:
  "parse (''<a x='' @ [QUOT] @ ''1&lt;2'' @ [QUOT] @ ''>t<b /></a>'' @ CRLF) =
     Inr (Element ''a'' [(''x'', ''1<2'')] [Element ''b'' [] [] []] ''t'')"
proof -
  let ?e = "Element ''a'' [(''x'', ''1<2'')] [Element ''b'' [] [] []] ''t''"
  have "wf_element ?e" by (simp add: tag_ok_def name_ok_def ends_name_def)
  moreover have "utf8_element ?e" by (simp add: octet_in_def)
  moreover have "height ?e \<le> MAX_DEPTH + 1" by (simp add: MAX_DEPTH_def)
  ultimately have "parse ([] @ print_element ?e @ CRLF) = Inr ?e" by (rule parse_print) simp_all
  then show ?thesis by (simp add: attrs_text_def attr_text_def escape_char.simps)
qed

text \<open>
  Whatever the input, reading it ends, and a tree that is returned is at most
  \<open>MAX_DEPTH + 1\<close> elements deep; input that is not UTF-8 is refused before anything is read.
\<close>

lemma parse_bounded:
  "(case parse inp of Inr e \<Rightarrow> height e \<le> MAX_DEPTH + 1 | Inl _ \<Rightarrow> True) \<and>
   (\<not> utf8_valid inp \<longrightarrow> parse inp = Inl NotUtf8)"
proof -
  have "height e \<le> MAX_DEPTH + 1" if "parse inp = Inr e" for e
    using that parse_height(1) [of 0] by (auto simp: parse_def bind_res_Inr_iff split: if_splits)
  then show ?thesis by (auto simp: parse_def split: sum.split)
qed

end
