(* ===== verification/Mime.thy ===== *)
theory Mime
  imports Prelude
begin

text \<open>
  \<^verbatim>\<open>vortice-proto/src/mime.rs\<close>: splitting a payload into its entity headers and its
  body, and looking a header up.
\<close>

section \<open>Operations\<close>

definition CONTENT_TYPE :: bytes where "CONTENT_TYPE = ''Content-Type''"
definition DEFAULT_CONTENT_TYPE :: bytes where "DEFAULT_CONTENT_TYPE = ''application/octet-stream''"
definition BEEP_XML :: bytes where "BEEP_XML = ''application/beep+xml''"

definition find_subslice :: "bytes \<Rightarrow> bytes \<Rightarrow> nat option" where
  "find_subslice haystack needle =
     (if length needle > length haystack then None
      else range_find (length haystack - length needle + 1)
             (\<lambda>i. take (length needle) (drop i haystack) = needle))"

definition split :: "bytes \<Rightarrow> bytes \<times> bytes" where
  "split payload =
     (case strip_prefix CRLF payload of
        Some body \<Rightarrow> ([], body)
      | None \<Rightarrow>
          (case find_subslice payload (CRLF @ CRLF) of
             Some i \<Rightarrow> (take i payload, drop (i + 4) payload)
           | None \<Rightarrow> ([], payload)))"

text \<open>\<open>slice::split\<close> on one octet: always at least one piece.\<close>

fun split_on :: "byte \<Rightarrow> bytes \<Rightarrow> bytes list" where
  "split_on c [] = [[]]"
| "split_on c (x # xs) =
     (if x = c then [] # split_on c xs
      else case split_on c xs of [] \<Rightarrow> [[x]] | l # ls \<Rightarrow> (x # l) # ls)"

definition strip_cr :: "bytes \<Rightarrow> bytes" where
  "strip_cr line = (if line \<noteq> [] \<and> last line = CR then butlast line else line)"

definition split_lines :: "bytes \<Rightarrow> bytes list" where
  "split_lines headers = filter (\<lambda>line. line \<noteq> []) (map strip_cr (split_on LF headers))"

fun trim_front :: "bytes \<Rightarrow> bytes" where
  "trim_front [] = []"
| "trim_front (first # rest) = (if is_ascii_whitespace first then trim_front rest else first # rest)"

definition trim :: "bytes \<Rightarrow> bytes" where
  "trim val = rev (trim_front (rev (trim_front val)))"

fun header_loop :: "bytes list \<Rightarrow> bytes \<Rightarrow> bytes option" where
  "header_loop [] nm = None"
| "header_loop (line # ls) nm =
     (case find_byte line (CHR '':'') of
        None \<Rightarrow> header_loop ls nm
      | Some colon \<Rightarrow>
          if eq_ignore_ascii_case (take colon line) nm then Some (trim (drop (colon + 1) line))
          else header_loop ls nm)"

definition header :: "bytes \<Rightarrow> bytes \<Rightarrow> bytes option" where
  "header headers nm = header_loop (split_lines headers) nm"

definition content_type :: "bytes \<Rightarrow> bytes" where
  "content_type payload =
     (let (headers, _) = split payload
      in case header headers CONTENT_TYPE of Some v \<Rightarrow> v | None \<Rightarrow> DEFAULT_CONTENT_TYPE)"

section \<open>Lemmas\<close>

lemma take_drop_append_iff:
  "i + length p \<le> length xs \<Longrightarrow> take (length p) (drop i xs) = p \<longleftrightarrow> xs = take i xs @ p @ drop (i + length p) xs"
proof
  assume "take (length p) (drop i xs) = p"
  then have "drop i xs = p @ drop (i + length p) xs"
    by (metis add.commute append_take_drop_id drop_drop)
  then show "xs = take i xs @ p @ drop (i + length p) xs" by (metis append_take_drop_id)
next
  assume le: "i + length p \<le> length xs" and eq: "xs = take i xs @ p @ drop (i + length p) xs"
  have "length (take i xs) = i" using le by simp
  then have "drop i xs = p @ drop (i + length p) xs"
    by (metis append_eq_conv_conj eq)
  then show "take (length p) (drop i xs) = p" by simp
qed

text \<open>The index found is the first place where the needle stands.\<close>

lemma find_subslice_Some:
  "find_subslice h n = Some i \<Longrightarrow>
     h = take i h @ n @ drop (i + length n) h \<and> i + length n \<le> length h \<and>
     (\<forall>a b. h = a @ n @ b \<longrightarrow> i \<le> length a)"
proof -
  assume f: "find_subslice h n = Some i"
  then have i: "i + length n \<le> length h" "take (length n) (drop i h) = n"
    "\<forall>j < i. take (length n) (drop j h) \<noteq> n"
    by (auto simp: find_subslice_def range_find_Some_iff split: if_splits)
  have "i \<le> length a" if "h = a @ n @ b" for a b
    using i(3) that by (metis append_eq_conv_conj linorder_not_less)
  with i take_drop_append_iff show ?thesis by blast
qed

lemma find_subslice_first:
  assumes "\<And>a b. x @ n @ y = a @ n @ b \<Longrightarrow> length x \<le> length a"
  shows "find_subslice (x @ n @ y) n = Some (length x)"
proof -
  have "take (length n) (drop j (x @ n @ y)) \<noteq> n" if "j < length x" for j
  proof
    assume "take (length n) (drop j (x @ n @ y)) = n"
    moreover have "j + length n \<le> length (x @ n @ y)" using that by simp
    ultimately have "x @ n @ y = take j (x @ n @ y) @ n @ drop (j + length n) (x @ n @ y)"
      using take_drop_append_iff by blast
    from assms [OF this] that show False by simp
  qed
  then show ?thesis by (auto simp: find_subslice_def range_find_Some_iff)
qed

lemma find_subslice_None:
  assumes "find_subslice h n = None" shows "h \<noteq> a @ n @ b"
proof
  assume h: "h = a @ n @ b"
  then have "take (length n) (drop (length a) h) \<noteq> n"
    using assms by (auto simp: find_subslice_def range_find_None_iff simp del: take_append drop_append split: if_splits)
  with h show False by simp
qed

lemma no_earlier_CR:
  assumes "CR \<notin> set x" and "x @ y = a @ CR # b" shows "length x \<le> length a"
proof (rule ccontr)
  assume "\<not> length x \<le> length a"
  then have "x ! length a = (x @ y) ! length a" and "length a < length x" by (simp_all add: nth_append)
  with assms show False by (metis nth_append_length nth_mem)
qed

text \<open>A header block of one line, or with no carriage return in it, is found as it was written.\<close>

lemma split_block:
  assumes "CR \<notin> set h" and "h \<noteq> []"
  shows "split (h @ CRLF @ CRLF @ body) = (h, body)"
proof -
  obtain x xs where h: "h = x # xs" using assms(2) by (cases h) auto
  then have "strip_prefix CRLF (h @ CRLF @ CRLF @ body) = None"
    using assms(1) by (auto simp: h)
  moreover have "find_subslice (h @ (CRLF @ CRLF) @ body) (CRLF @ CRLF) = Some (length h)"
    by (rule find_subslice_first) (rule no_earlier_CR [OF assms(1)], simp)
  ultimately show ?thesis by (simp add: split_def)
qed

lemma split_on_none: "c \<notin> set xs \<Longrightarrow> split_on c xs = [xs]"
  by (induction xs) auto

lemma split_on_first: "c \<notin> set xs \<Longrightarrow> split_on c (xs @ c # ys) = xs # split_on c ys"
  by (induction xs) auto

lemma strip_cr_append [simp]: "strip_cr (xs @ [CR]) = xs"
  by (simp add: strip_cr_def)

lemma strip_cr_id: "CR \<notin> set xs \<Longrightarrow> strip_cr xs = xs"
  using last_in_set by (force simp: strip_cr_def)

fun header_block :: "(bytes \<times> bytes) list \<Rightarrow> bytes" where
  "header_block [] = []"
| "header_block [(n, v)] = n @ CHR '':'' # v"
| "header_block ((n, v) # hs) = n @ CHR '':'' # v @ CRLF @ header_block hs"

definition header_ok :: "bytes \<times> bytes \<Rightarrow> bool" where
  "header_ok h \<longleftrightarrow> (case h of (n, v) \<Rightarrow> CHR '':'' \<notin> set n \<and> {CR, LF} \<inter> (set n \<union> set v) = {})"

lemma split_lines_block:
  "\<forall>h \<in> set hs. header_ok h \<Longrightarrow> split_lines (header_block hs) = map (\<lambda>(n, v). n @ CHR '':'' # v) hs"
proof (induction hs rule: header_block.induct)
  case 1
  then show ?case by (simp add: split_lines_def strip_cr_def)
next
  case (2 n v)
  then have "LF \<notin> set (n @ CHR '':'' # v)" "CR \<notin> set (n @ CHR '':'' # v)"
    by (auto simp: header_ok_def)
  then show ?case by (simp add: split_lines_def split_on_none strip_cr_id)
next
  case (3 n v h hs)
  let ?l = "(n @ CHR '':'' # v) @ [CR]"
  have "LF \<notin> set ?l" using 3(2) by (auto simp: header_ok_def)
  then have "split_on LF (?l @ LF # header_block (h # hs)) = ?l # split_on LF (header_block (h # hs))"
    by (rule split_on_first)
  then have "split_lines (header_block ((n, v) # h # hs)) = (n @ CHR '':'' # v) # split_lines (header_block (h # hs))"
    using strip_cr_append [of "n @ CHR '':'' # v"] by (simp add: split_lines_def)
  with 3 show ?case by simp
qed

lemma header_loop_block:
  "\<forall>h \<in> set hs. header_ok h \<Longrightarrow>
     header_loop (map (\<lambda>(n, v). n @ CHR '':'' # v) hs) nm =
       map_option (\<lambda>(n, v). trim v) (find (\<lambda>(n, v). eq_ignore_ascii_case n nm) hs)"
  by (induction hs) (auto simp: header_ok_def find_byte_first)

text \<open>The one header block the channel-management code writes.\<close>

definition beep_xml_headers :: bytes where
  "beep_xml_headers = CONTENT_TYPE @ '': '' @ BEEP_XML"

lemma split_beep_xml: "split (beep_xml_headers @ CRLF @ CRLF @ body) = (beep_xml_headers, body)"
  by (rule split_block) (simp_all add: beep_xml_headers_def CONTENT_TYPE_def BEEP_XML_def)

lemma header_beep_xml: "header beep_xml_headers CONTENT_TYPE = Some BEEP_XML"
proof -
  let ?hs = "[(CONTENT_TYPE, CHR '' '' # BEEP_XML)]"
  have ok: "\<forall>h \<in> set ?hs. header_ok h" by (simp add: header_ok_def CONTENT_TYPE_def BEEP_XML_def)
  have block: "beep_xml_headers = header_block ?hs" by (simp add: beep_xml_headers_def)
  show ?thesis
    unfolding block header_def split_lines_block [OF ok] header_loop_block [OF ok]
    by (simp add: trim_def is_ascii_whitespace_def BEEP_XML_def)
qed

section \<open>Properties\<close>

text \<open>
  Splitting loses nothing and stops at the first blank line: either the
  payload opens with the blank line and the rest is the body, or the headers end at the first
  \<open>CRLF CRLF\<close>, or there is none and the whole payload is the body.
\<close>

lemma split_lossless:
  "case split payload of (headers, body) \<Rightarrow>
     (headers = [] \<and> payload = CRLF @ body) \<or>
     (payload = headers @ (CRLF @ CRLF) @ body \<and>
        (\<forall>a b. payload = a @ (CRLF @ CRLF) @ b \<longrightarrow> length headers \<le> length a)) \<or>
     (headers = [] \<and> body = payload \<and> (\<forall>a b. payload \<noteq> a @ (CRLF @ CRLF) @ b))"
proof (cases "strip_prefix CRLF payload")
  case (Some body)
  then have "payload = CRLF @ body" by (simp add: strip_prefix_Some_iff)
  then show ?thesis by (simp add: split_def)
next
  case None
  show ?thesis
  proof (cases "find_subslice payload (CRLF @ CRLF)")
    case (Some i)
    then have sp: "split payload = (take i payload, drop (i + 4) payload)" using None by (simp add: split_def)
    have i: "payload = take i payload @ (CRLF @ CRLF) @ drop (i + 4) payload" "i + 4 \<le> length payload"
      "\<forall>a b. payload = a @ (CRLF @ CRLF) @ b \<longrightarrow> i \<le> length a"
      using find_subslice_Some [OF Some] by (simp_all add: numeral_eq_Suc)
    then have "length (take i payload) = i" by simp
    with i(1,3) show ?thesis unfolding sp prod.case by metis
  next
    case n: None
    with find_subslice_None [OF n] None show ?thesis by (simp add: split_def)
  qed
qed

text \<open>
  Looking a header up in a block of \<open>name:value\<close> lines returns the trimmed
  value of the first line whose name is the one asked for, letter case ignored, and nothing
  when there is none.
\<close>

lemma header_lookup:
  assumes "\<forall>h \<in> set hs. header_ok h"
  shows "header (header_block hs) nm =
    map_option (\<lambda>(n, v). trim v) (find (\<lambda>(n, v). eq_ignore_ascii_case n nm) hs)"
  by (simp add: header_def split_lines_block [OF assms] header_loop_block [OF assms])

end
