(* ===== verification/Management.thy ===== *)
theory Management
  imports Xml Mime Frames
begin

text \<open>
  \<^verbatim>\<open>vortice-proto/src/management.rs\<close>: the channel-management messages, read from and
  written to \<open>application/beep+xml\<close> payloads. Builder methods (\<open>with_content\<close>, \<open>offering\<close>,
  \dots) are functions from the value to the extended value.
\<close>

section \<open>Messages\<close>

definition SUCCESS :: u32 where "SUCCESS = 200"
definition SYNTAX_ERROR_IN_PARAMETERS :: u32 where "SYNTAX_ERROR_IN_PARAMETERS = 501"
definition REQUESTED_ACTION_NOT_TAKEN :: u32 where "REQUESTED_ACTION_NOT_TAKEN = 550"

datatype encoding = NoEncoding | Base64

definition encoding_parse :: "bytes option \<Rightarrow> encoding result" where
  "encoding_parse v =
     (if v = None \<or> v = Some ''none'' then Inr NoEncoding
      else if v = Some ''base64'' then Inr Base64
      else Inl (XmlError (''encoding must be 'none' or 'base64'' @ [QUOT])))"

record profile =
  pr_uri :: bytes
  pr_encoding :: encoding
  pr_content :: "bytes option"

definition profile_new :: "bytes \<Rightarrow> profile" where
  "profile_new uri = \<lparr>pr_uri = uri, pr_encoding = NoEncoding, pr_content = None\<rparr>"

definition with_content :: "profile \<Rightarrow> bytes \<Rightarrow> profile" where
  "with_content p content = p\<lparr>pr_content := Some content\<rparr>"

definition with_base64_content :: "profile \<Rightarrow> bytes \<Rightarrow> profile" where
  "with_base64_content p content = p\<lparr>pr_content := Some content, pr_encoding := Base64\<rparr>"

definition profile_parse :: "element \<Rightarrow> profile result" where
  "profile_parse e =
     bind_res (ok_or (attr e ''uri'') (XmlError ''profile element without a uri attribute'')) (\<lambda>uri.
     bind_res (encoding_parse (attr e ''encoding'')) (\<lambda>enc.
       Inr \<lparr>pr_uri = uri, pr_encoding = enc,
            pr_content = (if el_text e = [] then None else Some (el_text e))\<rparr>))"

definition profile_render :: "profile \<Rightarrow> bytes \<Rightarrow> bytes" where
  "profile_render p out =
     (let out = escape (out @ ''<profile uri='' @ [QUOT]) (pr_uri p) @ [QUOT];
          out = (if pr_encoding p = Base64 then out @ '' encoding='' @ [QUOT] @ ''base64'' @ [QUOT] else out)
      in case pr_content p of
           None \<Rightarrow> out @ '' />''
         | Some content \<Rightarrow> out @ ''><![CDATA['' @ content @ '']]></profile>'')"

record start =
  st_number :: u32
  st_server_name :: "bytes option"
  st_profiles :: "profile list"

definition start_new :: "u32 \<Rightarrow> profile \<Rightarrow> start" where
  "start_new number p = \<lparr>st_number = number, st_server_name = None, st_profiles = [p]\<rparr>"

definition with_server_name :: "start \<Rightarrow> bytes \<Rightarrow> start" where
  "with_server_name s nm = s\<lparr>st_server_name := Some nm\<rparr>"

definition offering :: "start \<Rightarrow> profile \<Rightarrow> start" where
  "offering s p = s\<lparr>st_profiles := st_profiles s @ [p]\<rparr>"

record close =
  cl_number :: u32
  cl_code :: u32
  cl_lang :: "bytes option"
  cl_text :: "bytes option"

definition close_new :: "u32 \<Rightarrow> close" where
  "close_new number = \<lparr>cl_number = number, cl_code = SUCCESS, cl_lang = None, cl_text = None\<rparr>"

definition close_with_code :: "close \<Rightarrow> u32 \<Rightarrow> close" where
  "close_with_code c code = c\<lparr>cl_code := code\<rparr>"

definition close_with_text :: "close \<Rightarrow> bytes \<Rightarrow> bytes option \<Rightarrow> close" where
  "close_with_text c txt lang = c\<lparr>cl_text := Some txt, cl_lang := lang\<rparr>"

record error_reply =
  er_code :: u32
  er_lang :: "bytes option"
  er_text :: "bytes option"

definition error_reply_new :: "u32 \<Rightarrow> error_reply" where
  "error_reply_new code = \<lparr>er_code = code, er_lang = None, er_text = None\<rparr>"

definition error_reply_with_text :: "error_reply \<Rightarrow> bytes \<Rightarrow> bytes option \<Rightarrow> error_reply" where
  "error_reply_with_text e txt lang = e\<lparr>er_text := Some txt, er_lang := lang\<rparr>"

datatype mgmt_message = MStart start | MClose close | MProfile profile | MOk | MError error_reply

section \<open>Reading\<close>

definition text_of :: "element \<Rightarrow> bytes option" where
  "text_of e = (let t = str_trim (el_text e) in if t = [] then None else Some t)"

definition attr_u32 :: "element \<Rightarrow> string \<Rightarrow> u32 result" where
  "attr_u32 e nm =
     bind_res (ok_or (attr e nm) (MissingField nm)) (\<lambda>raw.
       if raw = [] \<or> \<not> list_all is_ascii_digit raw then Inl (InvalidDigit nm)
       else bind_res (ok_or (from_str_radix 10 raw) (ValueOutOfRange nm u32_MAX)) (\<lambda>v. Inr (of_nat v)))"

fun collect_results :: "('a \<Rightarrow> 'b result) \<Rightarrow> 'a list \<Rightarrow> ('b list) result" where
  "collect_results f [] = Inr []"
| "collect_results f (x # xs) =
     bind_res (f x) (\<lambda>y. bind_res (collect_results f xs) (\<lambda>ys. Inr (y # ys)))"

definition from_xml :: "bytes \<Rightarrow> mgmt_message result" where
  "from_xml body =
     bind_res (parse body) (\<lambda>root.
       if el_name root = ''start'' then
         bind_res (attr_u32 root ''number'') (\<lambda>number.
         bind_res (collect_results profile_parse (children_named root ''profile'')) (\<lambda>ps.
           Inr (MStart \<lparr>st_number = number, st_server_name = attr root ''serverName'', st_profiles = ps\<rparr>)))
       else if el_name root = ''close'' then
         bind_res (attr_u32 root ''number'') (\<lambda>number.
         bind_res (attr_u32 root ''code'') (\<lambda>code.
           Inr (MClose \<lparr>cl_number = number, cl_code = code, cl_lang = attr root ''xml:lang'', cl_text = text_of root\<rparr>)))
       else if el_name root = ''profile'' then bind_res (profile_parse root) (\<lambda>p. Inr (MProfile p))
       else if el_name root = ''ok'' then Inr MOk
       else if el_name root = ''error'' then
         bind_res (attr_u32 root ''code'') (\<lambda>code.
           Inr (MError \<lparr>er_code = code, er_lang = attr root ''xml:lang'', er_text = text_of root\<rparr>))
       else Inl UnexpectedElement)"

text \<open>The content type check, which the greeting makes as well.\<close>

definition from_payload :: "bytes \<Rightarrow> mgmt_message result" where
  "from_payload payload =
     (let (headers, body) = split payload in
      bind_res (ok_or (header headers CONTENT_TYPE) NotBeepXml) (\<lambda>ct.
        if \<not> eq_ignore_ascii_case ct BEEP_XML then Inl NotBeepXml else from_xml body))"

section \<open>Writing\<close>

definition push_u32 :: "bytes \<Rightarrow> u32 \<Rightarrow> bytes" where
  "push_u32 out v = out @ put_u32_loop v []"

definition render_lang_and_text :: "bytes \<Rightarrow> bytes option \<Rightarrow> bytes option \<Rightarrow> bytes \<Rightarrow> bytes" where
  "render_lang_and_text out lang txt tag =
     (let out = (case lang of Some l \<Rightarrow> escape (out @ '' xml:lang='' @ [QUOT]) l @ [QUOT] | None \<Rightarrow> out)
      in case txt of
           None \<Rightarrow> out @ '' />'' @ CRLF
         | Some t \<Rightarrow> escape (out @ ''>'') t @ ''</'' @ tag @ ''>'' @ CRLF)"

fun render_profiles :: "profile list \<Rightarrow> bytes \<Rightarrow> bytes" where
  "render_profiles [] out = out"
| "render_profiles (p # ps) out = render_profiles ps (profile_render p (out @ ''   '') @ CRLF)"

fun render :: "mgmt_message \<Rightarrow> bytes \<Rightarrow> bytes" where
  "render (MStart s) out =
     (let out = push_u32 (out @ ''<start number='' @ [QUOT]) (st_number s) @ [QUOT];
          out = (case st_server_name s of
                   Some nm \<Rightarrow> escape (out @ '' serverName='' @ [QUOT]) nm @ [QUOT] | None \<Rightarrow> out)
      in render_profiles (st_profiles s) (out @ ''>'' @ CRLF) @ ''</start>'' @ CRLF)"
| "render (MClose c) out =
     (let out = push_u32 (out @ ''<close number='' @ [QUOT]) (cl_number c) @ [QUOT];
          out = push_u32 (out @ '' code='' @ [QUOT]) (cl_code c) @ [QUOT]
      in render_lang_and_text out (cl_lang c) (cl_text c) ''close'')"
| "render (MProfile p) out = profile_render p out @ CRLF"
| "render MOk out = out @ ''<ok />''"
| "render (MError e) out =
     (let out = push_u32 (out @ ''<error code='' @ [QUOT]) (er_code e) @ [QUOT]
      in render_lang_and_text out (er_lang e) (er_text e) ''error'')"

declare render.simps [simp del]

definition to_payload :: "mgmt_message \<Rightarrow> bytes" where
  "to_payload m = render m (CONTENT_TYPE @ '': '' @ BEEP_XML @ CRLF @ CRLF)"

section \<open>What is written is a document\<close>

text \<open>The element each message is written as.\<close>

definition profile_attrs :: "profile \<Rightarrow> (bytes \<times> bytes) list" where
  "profile_attrs p =
     (''uri'', pr_uri p) # (if pr_encoding p = Base64 then [(''encoding'', ''base64'')] else [])"

definition profile_tree :: "profile \<Rightarrow> element" where
  "profile_tree p = Element ''profile'' (profile_attrs p) [] (case pr_content p of None \<Rightarrow> [] | Some c \<Rightarrow> c)"

definition profile_ok :: "profile \<Rightarrow> bool" where
  "profile_ok p \<longleftrightarrow> utf8_valid (pr_uri p) \<and>
     (case pr_content p of None \<Rightarrow> True | Some c \<Rightarrow> c \<noteq> [] \<and> utf8_valid c \<and> cdata_ok c)"

lemma escape_char_plain:
  "escape_char c = [c]" if "c \<notin> {CHR ''&'', CHR ''<'', CHR ''>'', QUOT, DQUOT}"
  using that by (simp add: escape_char.simps)

lemma profile_render_text:
  "profile_render p out = out @ ''<profile'' @ attrs_text (profile_attrs p) @
     (case pr_content p of None \<Rightarrow> '' />'' | Some c \<Rightarrow> ''>'' @ CDATA_OPEN @ c @ CDATA_CLOSE @ ''</profile>'')"
  by (simp add: profile_render_def escape_append [of "out @ _"] attrs_text_def attr_text_def profile_attrs_def
      escape_char_plain CDATA_OPEN_def CDATA_CLOSE_def split: option.split)

lemma tag_names [simp]:
  "tag_ok ''profile''" "tag_ok ''start''" "tag_ok ''close''" "tag_ok ''error''" "tag_ok ''ok''" "tag_ok ''greeting''"
  by (simp_all add: tag_ok_def name_ok_def ends_name_def)

lemma attr_names [simp]:
  "name_ok ''uri''" "name_ok ''encoding''" "name_ok ''number''" "name_ok ''serverName''" "name_ok ''code''"
  "name_ok ''xml:lang''" "name_ok ''features''" "name_ok ''localize''"
  by (simp_all add: name_ok_def ends_name_def)

lemma tag_okD: "tag_ok nm \<Longrightarrow> name_ok nm"
  by (simp add: tag_ok_def)

lemma profile_attrs_ok: "\<forall>a \<in> set (profile_attrs p). name_ok (fst a)"
  by (simp add: profile_attrs_def)

lemma profile_reads:
  assumes "profile_ok p" and "d \<le> MAX_DEPTH"
  shows "parse_element d (profile_render p [] @ r) = Inr (profile_tree p, r)"
proof (cases "pr_content p")
  case None
  then show ?thesis
    using parse_element_closed [OF assms(2) tag_okD profile_attrs_ok, of "''profile''" p r]
    by (simp add: profile_render_text profile_tree_def)
next
  case (Some c)
  let ?e = "Element ''profile'' (profile_attrs p) [] []"
  have c: "cdata_ok c" using assms(1) Some by (simp add: profile_ok_def)
  have "parse_element d (CHR ''<'' # ''profile'' @ attrs_text (profile_attrs p) @ CHR ''>'' #
      CDATA_OPEN @ c @ CDATA_CLOSE @ ''</profile>'' @ r) =
      parse_content ?e d (CDATA_OPEN @ c @ CDATA_CLOSE @ ''</profile>'' @ r)"
    by (rule parse_element_open [OF assms(2) tag_okD profile_attrs_ok]) simp
  also have "\<dots> = parse_content (push_text ?e c) d (''</profile>'' @ r)"
    by (rule parse_content_cdata [OF c])
  also have "\<dots> = Inr (push_text ?e c, r)"
    using parse_content_close [of "push_text ?e c" d r] tag_okD [of "''profile''"] by simp
  finally show ?thesis using Some by (simp add: profile_render_text profile_tree_def)
qed

interpretation profile_lines: written_child "\<lambda>p. profile_render p []" profile_tree profile_ok
proof unfold_locales
  fix p assume "profile_ok p"
  have "\<exists>s. profile_render p [] = CHR ''<'' # ''profile'' @ s" by (simp add: profile_render_text)
  then show "\<exists>nm s. profile_render p [] = CHR ''<'' # nm @ s \<and> tag_ok nm" using tag_names(1) by blast
qed (rule profile_reads)

lemma profile_parse_tree: "profile_ok p \<Longrightarrow> profile_parse (profile_tree p) = Inr p"
  by (cases "pr_encoding p")
    (auto simp: profile_parse_def profile_tree_def profile_attrs_def profile_ok_def attr_def encoding_parse_def
      split: option.splits)

lemma render_profiles_lines: "render_profiles ps out = out @ profile_lines.lines_of ps"
proof (induction ps arbitrary: out)
  case (Cons p ps)
  then show ?case
    by (simp add: profile_lines.lines_of_def profile_render_text [of p "out @ _"] profile_render_text [of p "[]"])
qed (simp add: profile_lines.lines_of_def)

lemma profile_utf8: "profile_ok p \<Longrightarrow> utf8_valid (profile_render p [])"
proof -
  assume p: "profile_ok p"
  have ascii: "utf8_valid ''<profile''" "utf8_valid '' />''" "utf8_valid ''>''" "utf8_valid CDATA_OPEN"
    "utf8_valid CDATA_CLOSE" "utf8_valid ''</profile>''" "utf8_valid ''encoding''" "utf8_valid ''base64''" "utf8_valid ''uri''"
    by (simp_all add: octet_in_def CDATA_OPEN_def CDATA_CLOSE_def)
  have "utf8_valid (attrs_text (profile_attrs p))"
    using p ascii by (intro utf8_attrs_text) (simp add: profile_attrs_def profile_ok_def)
  then show ?thesis
    using p ascii unfolding profile_render_text
    by (cases "pr_content p") (simp_all add: profile_ok_def utf8_valid_append del: append.simps)
qed

lemma lines_utf8: "\<forall>p \<in> set ps. profile_ok p \<Longrightarrow> utf8_valid (profile_lines.lines_of ps)"
  unfolding profile_lines.lines_of_def
  by (rule utf8_valid_concat) (auto intro!: utf8_valid_append profile_utf8)

section \<open>Numbers in attributes\<close>

lemma to_digit_dec: "is_ascii_digit b \<Longrightarrow> to_digit 10 b = Some (digit_val b)"
  by (auto simp: to_digit_def is_ascii_digit_def octet_in_def digit_val_def)

lemma radix_loop_dec:
  "list_all is_ascii_digit bs \<Longrightarrow>
     radix_loop 10 acc bs = (if dec_val acc bs < 2 ^ 32 \<or> bs = [] then Some (dec_val acc bs) else None)"
proof (induction bs arbitrary: acc)
  case (Cons b bs)
  have "acc * 10 + digit_val b \<le> dec_val (acc * 10 + digit_val b) bs" by (rule dec_val_mono)
  with Cons show ?case by (auto simp: to_digit_dec Let_def)
qed simp

lemma from_str_radix_dec:
  assumes "bs \<noteq> []" and "list_all is_ascii_digit bs"
  shows "from_str_radix 10 bs = (if dec_val 0 bs < 2 ^ 32 then Some (dec_val 0 bs) else None)"
proof -
  obtain b r where b: "bs = b # r" using assms(1) by (cases bs) auto
  have "b \<noteq> CHR ''+''" using assms(2) b by (auto simp: is_ascii_digit_def)
  with radix_loop_dec [OF assms(2), of 0] b show ?thesis by (simp add: from_str_radix_def)
qed

lemma attr_u32_dec: "attr e nm = Some (dec (unat n)) \<Longrightarrow> attr_u32 e nm = Inr n"
  using dec_digits [of "unat n"]
  by (simp add: attr_u32_def from_str_radix_dec list_all_iff)

lemma esc_digits: "\<forall>b \<in> set v. is_ascii_digit b \<Longrightarrow> esc v = v"
  by (induction v) (auto simp: escape_char.simps is_ascii_digit_def)

lemma esc_dec [simp]: "esc (dec n) = dec n"
  by (rule esc_digits) (rule dec_digits)

lemma utf8_dec: "utf8_valid (dec n)"
  using dec_digits [of n] by (intro utf8_valid_ascii) (auto simp: is_ascii_digit_def octet_in_def)

lemma push_u32_eq: "push_u32 out v = out @ dec (unat v)"
  by (simp add: push_u32_def put_u32_loop_dec)

section \<open>Start, close and error\<close>

definition text_ok :: "bytes option \<Rightarrow> bool" where
  "text_ok t \<longleftrightarrow> (case t of None \<Rightarrow> True | Some v \<Rightarrow> v \<noteq> [] \<and> utf8_valid v \<and> trimmed v)"

definition name_attr :: "bytes \<Rightarrow> bytes option \<Rightarrow> (bytes \<times> bytes) list" where
  "name_attr nm v = (case v of None \<Rightarrow> [] | Some x \<Rightarrow> [(nm, x)])"

fun mgmt_ok :: "mgmt_message \<Rightarrow> bool" where
  "mgmt_ok (MStart s) \<longleftrightarrow> pred_option utf8_valid (st_server_name s) \<and> (\<forall>p \<in> set (st_profiles s). profile_ok p)"
| "mgmt_ok (MClose c) \<longleftrightarrow> pred_option utf8_valid (cl_lang c) \<and> text_ok (cl_text c)"
| "mgmt_ok (MProfile p) \<longleftrightarrow> profile_ok p"
| "mgmt_ok MOk \<longleftrightarrow> True"
| "mgmt_ok (MError e) \<longleftrightarrow> pred_option utf8_valid (er_lang e) \<and> text_ok (er_text e)"

text \<open>An element with attributes and, possibly, text: how \<open>close\<close> and \<open>error\<close> are written.\<close>

definition text_element :: "bytes \<Rightarrow> (bytes \<times> bytes) list \<Rightarrow> bytes option \<Rightarrow> bytes" where
  "text_element tag as txt = CHR ''<'' # tag @ attrs_text as @
     (case txt of None \<Rightarrow> '' />'' @ CRLF | Some t \<Rightarrow> ''>'' @ esc t @ ''</'' @ tag @ ''>'' @ CRLF)"

lemma parse_text_element:
  assumes "tag_ok tag" and "\<forall>a \<in> set as. name_ok (fst a) \<and> utf8_valid (fst a) \<and> utf8_valid (snd a)"
    and "text_ok txt" and "utf8_valid tag"
  shows "parse (text_element tag as txt) = Inr (Element tag as [] (case txt of None \<Rightarrow> [] | Some t \<Rightarrow> t))"
proof -
  let ?root = "Element tag as [] (case txt of None \<Rightarrow> [] | Some t \<Rightarrow> t)"
  have nm: "name_ok tag" and as: "\<forall>a \<in> set as. name_ok (fst a)" using assms(1,2) by (auto simp: tag_ok_def)
  have "parse_element 0 (text_element tag as txt) = Inr (?root, CRLF)"
  proof (cases "txt")
    case None
    then show ?thesis using parse_element_closed [OF _ nm as, of 0 CRLF] by (simp add: text_element_def)
  next
    case (Some t)
    let ?fin = "''</'' @ tag @ CHR ''>'' # CRLF"
    have "t \<noteq> []" using assms(3) Some by (simp add: text_ok_def)
    then have "parse_content (Element tag as [] []) 0 (esc t @ ?fin) = parse_content (Element tag as [] t) 0 ?fin"
      using esc_no_markup [of _ t] by (subst parse_content_text [OF _ _ decode_entities_esc]) auto
    also have "\<dots> = Inr (Element tag as [] t, CRLF)"
      using parse_content_close [of "Element tag as [] t" 0 CRLF] nm by simp
    finally show ?thesis
      using Some parse_element_open [OF _ nm as, of 0 "esc t @ ?fin"] by (simp add: text_element_def)
  qed
  moreover have "utf8_valid (text_element tag as txt)"
  proof -
    have "utf8_valid (attrs_text as)" using assms(2) by (intro utf8_attrs_text) auto
    moreover have "utf8_valid t" if "txt = Some t" for t using assms(3) that by (simp add: text_ok_def)
    ultimately show ?thesis using assms(4)
      by (cases "txt") (simp_all add: text_element_def utf8_valid_append esc_utf8)
  qed
  ultimately show ?thesis
    using parse_document [of "[]" tag _ ?root CRLF] assms(1) by (simp add: text_element_def)
qed

lemma utf8_names [simp]:
  "utf8_valid ''uri''" "utf8_valid ''encoding''" "utf8_valid ''number''" "utf8_valid ''serverName''"
  "utf8_valid ''code''" "utf8_valid ''xml:lang''" "utf8_valid ''features''" "utf8_valid ''localize''"
  "utf8_valid ''start''" "utf8_valid ''close''" "utf8_valid ''error''" "utf8_valid ''profile''" "utf8_valid ''greeting''"
  by (simp_all add: octet_in_def)

lemma render_lang_and_text_eq:
  "render_lang_and_text (out @ CHR ''<'' # tag @ attrs_text as) lang txt tag =
     out @ text_element tag (as @ name_attr ''xml:lang'' lang) txt"
  by (simp add: render_lang_and_text_def text_element_def escape_append [of "out @ _"] name_attr_def attrs_text_def
      attr_text_def Let_def split: option.split)

definition close_attrs :: "close \<Rightarrow> (bytes \<times> bytes) list" where
  "close_attrs c = [(''number'', dec (unat (cl_number c))), (''code'', dec (unat (cl_code c)))] @ name_attr ''xml:lang'' (cl_lang c)"

definition error_attrs :: "error_reply \<Rightarrow> (bytes \<times> bytes) list" where
  "error_attrs e = (''code'', dec (unat (er_code e))) # name_attr ''xml:lang'' (er_lang e)"

definition start_attrs :: "start \<Rightarrow> (bytes \<times> bytes) list" where
  "start_attrs s = (''number'', dec (unat (st_number s))) # name_attr ''serverName'' (st_server_name s)"

lemma render_close: "render (MClose c) out = out @ text_element ''close'' (close_attrs c) (cl_text c)"
  using render_lang_and_text_eq [of out "''close''"
      "[(''number'', dec (unat (cl_number c))), (''code'', dec (unat (cl_code c)))]" "cl_lang c" "cl_text c"]
  by (simp add: render.simps push_u32_eq close_attrs_def attrs_text_def attr_text_def)

lemma render_error: "render (MError e) out = out @ text_element ''error'' (error_attrs e) (er_text e)"
  using render_lang_and_text_eq [of out "''error''" "[(''code'', dec (unat (er_code e)))]" "er_lang e" "er_text e"]
  by (simp add: render.simps push_u32_eq error_attrs_def attrs_text_def attr_text_def)

lemma render_start:
  "render (MStart s) out = out @ CHR ''<'' # ''start'' @ attrs_text (start_attrs s) @ CHR ''>'' #
     CRLF @ profile_lines.lines_of (st_profiles s) @ ''</'' @ ''start'' @ ''>'' @ CRLF"
  by (simp add: render.simps push_u32_eq start_attrs_def attrs_text_def attr_text_def name_attr_def escape_append [of "out @ _"]
      render_profiles_lines Let_def split: option.split)

lemma parse_start:
  assumes "mgmt_ok (MStart s)"
  shows "\<exists>t. parse (render (MStart s) []) = Inr (Element ''start'' (start_attrs s) (map profile_tree (st_profiles s)) t)"
proof -
  let ?inner = "CRLF @ profile_lines.lines_of (st_profiles s) @ ''</'' @ ''start'' @ ''>'' @ CRLF"
  have names: "\<forall>a \<in> set (start_attrs s). name_ok (fst a)"
    by (auto simp: start_attrs_def name_attr_def split: option.split)
  have "\<exists>t. parse_content (Element ''start'' (start_attrs s) [] []) 0 ?inner =
      Inr (Element ''start'' (start_attrs s) ([] @ map profile_tree (st_profiles s)) t, CRLF)"
    using assms by (intro profile_lines.reads_lines) (simp_all add: MAX_DEPTH_def tag_okD)
  then obtain t where "parse_element 0 (render (MStart s) []) =
      Inr (Element ''start'' (start_attrs s) (map profile_tree (st_profiles s)) t, CRLF)"
    using parse_element_open [OF _ tag_okD names, of 0 "''start''" ?inner] by (auto simp: render_start)
  moreover have "utf8_valid (render (MStart s) [])"
  proof -
    have "\<forall>a \<in> set (start_attrs s). utf8_valid (fst a) \<and> utf8_valid (snd a)"
      using assms by (cases "st_server_name s") (auto simp: start_attrs_def name_attr_def utf8_dec)
    then have "utf8_valid (attrs_text (start_attrs s))" by (rule utf8_attrs_text)
    then show ?thesis unfolding render_start
      using assms lines_utf8 [of "st_profiles s"] utf8_names(9)
      by (auto simp del: append.simps(2) intro!: utf8_valid_append simp: utf8_valid_append octet_in_def)
  qed
  ultimately show ?thesis
    using parse_document [of "[]" "''start''" _ _ CRLF] by (auto simp: render_start)
qed

lemma collect_map: "\<forall>x \<in> set xs. f (g x) = Inr x \<Longrightarrow> collect_results f (map g xs) = Inr xs"
  by (induction xs) auto

lemma trim_text: "text_ok txt \<Longrightarrow> text_of (Element nm as cs (case txt of None \<Rightarrow> [] | Some t \<Rightarrow> t)) = txt"
proof (cases "txt")
  case None
  have "w @ r \<noteq> []" "r @ w \<noteq> []" if "w \<in> set white_space" for w r
    using white_space_not_Nil [OF that] by simp_all
  then have "trimmed []" unfolding trimmed_def by metis
  then have "str_trim [] = []" by (rule str_trim_id)
  with None show ?thesis by (simp add: text_of_def)
next
  case (Some t)
  then show "text_ok txt \<Longrightarrow> ?thesis" by (simp add: text_of_def text_ok_def str_trim_id)
qed

lemma to_payload_eq: "to_payload m = beep_xml_headers @ CRLF @ CRLF @ render m []"
proof -
  have r: "render m out = out @ render m []" for out
    by (cases m) (simp_all add: render_start render_close render_error render.simps(3,4)
        profile_render_text [of _ out] profile_render_text [of _ "[]"])
  show ?thesis unfolding to_payload_def by (subst r) (simp add: beep_xml_headers_def)
qed

lemma from_payload_beep_xml: "from_payload (beep_xml_headers @ CRLF @ CRLF @ body) = from_xml body"
  using split_beep_xml [of body] by (simp add: from_payload_def header_beep_xml)

lemma text_attrs_ok:
  "pred_option utf8_valid (cl_lang c) \<Longrightarrow>
     \<forall>a \<in> set (close_attrs c). name_ok (fst a) \<and> utf8_valid (fst a) \<and> utf8_valid (snd a)"
  "pred_option utf8_valid (er_lang e) \<Longrightarrow>
     \<forall>a \<in> set (error_attrs e). name_ok (fst a) \<and> utf8_valid (fst a) \<and> utf8_valid (snd a)"
  by (cases "cl_lang c"; auto simp: close_attrs_def name_attr_def utf8_dec)
    (cases "er_lang e"; auto simp: error_attrs_def name_attr_def utf8_dec)

lemma from_xml_start:
  assumes "mgmt_ok (MStart s)" shows "from_xml (render (MStart s) []) = Inr (MStart s)"
proof -
  obtain t where p: "parse (render (MStart s) []) =
      Inr (Element ''start'' (start_attrs s) (map profile_tree (st_profiles s)) t)"
    using parse_start [OF assms] by blast
  let ?root = "Element ''start'' (start_attrs s) (map profile_tree (st_profiles s)) t"
  have "children_named ?root ''profile'' = map profile_tree (st_profiles s)"
    by (simp add: children_named_def profile_tree_def)
  moreover have "collect_results profile_parse (map profile_tree (st_profiles s)) = Inr (st_profiles s)"
    using assms by (intro collect_map) (simp add: profile_parse_tree)
  moreover have "attr_u32 ?root ''number'' = Inr (st_number s)"
    by (rule attr_u32_dec) (simp add: attr_def start_attrs_def)
  moreover have "attr ?root ''serverName'' = st_server_name s"
    by (cases "st_server_name s") (simp_all add: attr_def start_attrs_def name_attr_def)
  ultimately show ?thesis by (simp add: from_xml_def p)
qed

lemma from_xml_close:
  assumes "mgmt_ok (MClose c)" shows "from_xml (render (MClose c) []) = Inr (MClose c)"
proof -
  let ?root = "Element ''close'' (close_attrs c) [] (case cl_text c of None \<Rightarrow> [] | Some t \<Rightarrow> t)"
  have p: "parse (render (MClose c) []) = Inr ?root"
    using assms parse_text_element [OF _ text_attrs_ok(1), of "''close''" c "cl_text c"] by (simp add: render_close)
  have "attr_u32 ?root ''number'' = Inr (cl_number c)" "attr_u32 ?root ''code'' = Inr (cl_code c)"
    by (auto intro!: attr_u32_dec simp: attr_def close_attrs_def)
  moreover have "attr ?root ''xml:lang'' = cl_lang c"
    by (cases "cl_lang c") (simp_all add: attr_def close_attrs_def name_attr_def)
  ultimately show ?thesis using assms by (simp add: from_xml_def p trim_text)
qed

lemma from_xml_error:
  assumes "mgmt_ok (MError e)" shows "from_xml (render (MError e) []) = Inr (MError e)"
proof -
  let ?root = "Element ''error'' (error_attrs e) [] (case er_text e of None \<Rightarrow> [] | Some t \<Rightarrow> t)"
  have p: "parse (render (MError e) []) = Inr ?root"
    using assms parse_text_element [OF _ text_attrs_ok(2), of "''error''" e "er_text e"] by (simp add: render_error)
  have "attr_u32 ?root ''code'' = Inr (er_code e)"
    by (auto intro!: attr_u32_dec simp: attr_def error_attrs_def)
  moreover have "attr ?root ''xml:lang'' = er_lang e"
    by (cases "er_lang e") (simp_all add: attr_def error_attrs_def name_attr_def)
  ultimately show ?thesis using assms by (simp add: from_xml_def p trim_text)
qed

lemma from_xml_profile:
  assumes "profile_ok p" shows "from_xml (render (MProfile p) []) = Inr (MProfile p)"
proof -
  obtain s where s: "profile_render p [] = CHR ''<'' # ''profile'' @ s"
    by (simp add: profile_render_text)
  have "parse ([] @ CHR ''<'' # ''profile'' @ s @ CRLF) = Inr (profile_tree p)"
    using profile_reads [OF assms, of 0 CRLF] profile_utf8 [OF assms] s
    by (intro parse_document [where trail = CRLF]) (simp_all add: utf8_valid_append octet_in_def)
  then show ?thesis
    using s profile_parse_tree [OF assms] by (simp add: from_xml_def render.simps(3) profile_tree_def)
qed

lemma from_xml_ok: "from_xml (render MOk []) = Inr MOk"
proof -
  have "parse_element 0 (CHR ''<'' # ''ok'' @ attrs_text [] @ '' />'' @ []) = Inr (Element ''ok'' [] [] [], [])"
    by (rule parse_element_closed) (simp_all add: tag_okD)
  then have "parse ([] @ CHR ''<'' # ''ok'' @ '' />'') = Inr (Element ''ok'' [] [] [])"
    by (intro parse_document [where trail = "[]"]) (simp_all add: attrs_text_def octet_in_def)
  then show ?thesis by (simp add: from_xml_def render.simps(4))
qed

lemmas from_xml_render = from_xml_start from_xml_close from_xml_error from_xml_profile from_xml_ok

lemma management_read_back: "mgmt_ok m \<Longrightarrow> from_payload (to_payload m) = Inr m"
  by (cases m) (simp_all add: to_payload_eq from_payload_beep_xml from_xml_render del: append.simps)

section \<open>Properties\<close>

text \<open>
  C16 (roundtrip). A channel-management message within \<open>mgmt_ok\<close> is read back from its own
  payload: numbers, codes, virtual host, language, text, and the offered profiles in order with
  their encoding and content. \<open>mgmt_ok\<close> asks that strings are UTF-8, that a piggybacked content
  is not empty and does not contain \<open>]]>\<close>, and that an explanation is neither empty nor padded
  with white space; the others are not all read back, as \<open>cdata_breaks_out\<close> shows for \<open>]]>\<close>.
\<close>

theorem management_roundtrip:
  assumes "mgmt_ok m" shows "from_payload (to_payload m) = Inr m"
  by (rule management_read_back [OF assms])

theorem management_roundtrip_witness:
  "from_payload (to_payload (MStart \<lparr>st_number = 3, st_server_name = Some ''a&b'',
      st_profiles = [\<lparr>pr_uri = ''http://x/'', pr_encoding = Base64, pr_content = Some ''aGk=''\<rparr>, profile_new ''y'']\<rparr>)) =
    Inr (MStart \<lparr>st_number = 3, st_server_name = Some ''a&b'',
      st_profiles = [\<lparr>pr_uri = ''http://x/'', pr_encoding = Base64, pr_content = Some ''aGk=''\<rparr>, profile_new ''y'']\<rparr>)"
proof -
  have c: "cdata_ok ''aGk=''"
    by (auto simp: cdata_ok_def CDATA_CLOSE_def Cons_eq_append_conv)
  show ?thesis
    by (rule management_roundtrip) (simp add: profile_ok_def profile_new_def octet_in_def c)
qed

text \<open>
  Content is written into the CDATA section as it is, so content that closes the
  section early turns what follows it into markup: a start that offers one profile with such
  content is read as offering two, the second of which the sender never offered.
\<close>

lemma cdata_breaks_out:
  "from_payload (to_payload (MStart (start_new 1 (with_content (profile_new ''u'')
       (''x]]></profile><profile uri='' @ [QUOT] @ ''v'' @ [QUOT] @ ''><![CDATA[y''))))) =
   Inr (MStart (offering (start_new 1 (with_content (profile_new ''u'') ''x'')) (with_content (profile_new ''v'') ''y'')))"
proof -
  let ?s = "start_new 1 (with_content (profile_new ''u'')
       (''x]]></profile><profile uri='' @ [QUOT] @ ''v'' @ [QUOT] @ ''><![CDATA[y''))"
  let ?p = "with_content (profile_new ''u'') ''x''" and ?q = "with_content (profile_new ''v'') ''y''"
  let ?e = "\<lambda>cs t. Element ''start'' [(''number'', ''1'')] cs t"
  let ?fin = "CRLF @ ''</start>'' @ CRLF"
  have "cdata_ok ''x''" "cdata_ok ''y''" by (auto simp: cdata_ok_def CDATA_CLOSE_def Cons_eq_append_conv)
  then have ok: "profile_ok ?p" "profile_ok ?q"
    by (simp_all add: profile_ok_def with_content_def profile_new_def octet_in_def)
  obtain pr qr where pq: "profile_render ?p [] = CHR ''<'' # ''profile'' @ pr"
    "profile_render ?q [] = CHR ''<'' # ''profile'' @ qr" by (simp add: profile_render_text)
  have doc: "render (MStart ?s) [] = CHR ''<'' # ''start'' @ attrs_text [(''number'', ''1'')] @ CHR ''>'' #
      (CRLF @ ''   '') @ profile_render ?p [] @ profile_render ?q [] @ ?fin"
    by (simp add: render.simps(1) start_new_def push_u32_eq dec_eval attrs_text_def attr_text_def escape_char_plain
        profile_render_text profile_attrs_def with_content_def profile_new_def CDATA_OPEN_def CDATA_CLOSE_def)
  have "parse_element 0 (render (MStart ?s) []) =
      parse_content (?e [] []) 0 ((CRLF @ ''   '') @ profile_render ?p [] @ profile_render ?q [] @ ?fin)"
    unfolding doc by (rule parse_element_open) (simp_all add: tag_okD)
  also have "\<dots> = parse_content (?e [] (CRLF @ ''   '')) 0 (profile_render ?p [] @ profile_render ?q [] @ ?fin)"
    by (subst parse_content_text [OF _ _ decode_entities_plain]) (auto simp: pq)
  also have "\<dots> = parse_content (?e [profile_tree ?p] (CRLF @ ''   '')) 0 (profile_render ?q [] @ ?fin)"
    using profile_reads [OF ok(1), of 1] by (subst parse_content_child [where nm = "''profile''"]) (auto simp: pq MAX_DEPTH_def)
  also have "\<dots> = parse_content (?e [profile_tree ?p, profile_tree ?q] (CRLF @ ''   '')) 0 ?fin"
    using profile_reads [OF ok(2), of 1] by (subst parse_content_child [where nm = "''profile''"]) (auto simp: pq MAX_DEPTH_def)
  finally obtain t where root: "parse_element 0 (render (MStart ?s) []) =
      Inr (?e [profile_tree ?p, profile_tree ?q] t, CRLF)"
    using profile_lines.reads_lines [of "[]" 0 "''start''" "[(''number'', ''1'')]" "[profile_tree ?p, profile_tree ?q]"
        "CRLF @ ''   ''" CRLF]
    by (auto simp: profile_lines.lines_of_def MAX_DEPTH_def tag_okD)
  have "utf8_valid (render (MStart ?s) [])"
    using profile_utf8 [OF ok(1)] profile_utf8 [OF ok(2)] unfolding doc
    by (simp add: utf8_valid_append octet_in_def attrs_text_def attr_text_def escape_char_plain)
  with root have "parse (render (MStart ?s) []) = Inr (?e [profile_tree ?p, profile_tree ?q] t)"
    using parse_document [of "[]" "''start''" _ _ CRLF] unfolding doc by simp
  moreover have "attr_u32 (?e [profile_tree ?p, profile_tree ?q] t) ''number'' = Inr 1"
    by (rule attr_u32_dec) (simp add: attr_def dec_eval)
  ultimately have "from_xml (render (MStart ?s) []) =
      Inr (MStart \<lparr>st_number = 1, st_server_name = None, st_profiles = [?p, ?q]\<rparr>)"
    using profile_parse_tree [OF ok(1)] profile_parse_tree [OF ok(2)]
    by (simp add: from_xml_def children_named_def) (simp add: profile_tree_def attr_def)
  then show ?thesis
    unfolding to_payload_eq from_payload_beep_xml by (simp add: start_new_def offering_def)
qed

end
