(* ===== verification/Greetings.thy ===== *)
theory Greetings
  imports Management
begin

text \<open>
  \<^verbatim>\<open>vortice-proto/src/greeting.rs\<close>: the greeting each peer sends on channel 0.
\<close>

section \<open>Operations\<close>

definition GREETING_CHANNEL :: u32 where "GREETING_CHANNEL = 0"

record greeting =
  gr_profiles :: "bytes list"
  gr_features :: "bytes option"
  gr_localize :: "bytes option"

definition greeting_new :: greeting where
  "greeting_new = \<lparr>gr_profiles = [], gr_features = None, gr_localize = None\<rparr>"

definition with_profile :: "greeting \<Rightarrow> bytes \<Rightarrow> greeting" where
  "with_profile g uri = g\<lparr>gr_profiles := gr_profiles g @ [uri]\<rparr>"

definition with_features :: "greeting \<Rightarrow> bytes \<Rightarrow> greeting" where
  "with_features g features = g\<lparr>gr_features := Some features\<rparr>"

definition with_localize :: "greeting \<Rightarrow> bytes \<Rightarrow> greeting" where
  "with_localize g localize = g\<lparr>gr_localize := Some localize\<rparr>"

definition advertises :: "greeting \<Rightarrow> bytes \<Rightarrow> bool" where
  "advertises g uri \<longleftrightarrow> list_ex (\<lambda>p. p = uri) (gr_profiles g)"

definition greeting_push_attr :: "bytes \<Rightarrow> bytes \<Rightarrow> bytes \<Rightarrow> bytes" where
  "greeting_push_attr out nm v = escape (out @ '' '' @ nm @ ''='' @ [QUOT]) v @ [QUOT]"

fun greeting_profiles_loop :: "bytes list \<Rightarrow> bytes \<Rightarrow> bytes" where
  "greeting_profiles_loop [] out = out"
| "greeting_profiles_loop (uri # uris) out =
     greeting_profiles_loop uris (escape (out @ ''   <profile uri='' @ [QUOT]) uri @ [QUOT] @ '' />'' @ CRLF)"

definition greeting_to_payload :: "greeting \<Rightarrow> bytes" where
  "greeting_to_payload g =
     (let out = CONTENT_TYPE @ '': '' @ BEEP_XML @ CRLF @ CRLF @ ''<greeting'';
          out = (case gr_features g of Some v \<Rightarrow> greeting_push_attr out ''features'' v | None \<Rightarrow> out);
          out = (case gr_localize g of Some v \<Rightarrow> greeting_push_attr out ''localize'' v | None \<Rightarrow> out)
      in if gr_profiles g = [] then out @ '' />'' @ CRLF
         else greeting_profiles_loop (gr_profiles g) (out @ ''>'' @ CRLF) @ ''</greeting>'' @ CRLF)"

definition greeting_to_frame :: "greeting \<Rightarrow> u32 \<Rightarrow> data_frame result" where
  "greeting_to_frame g seqno = new_data Rpy GREETING_CHANNEL 0 seqno (greeting_to_payload g)"

definition greeting_from_payload :: "bytes \<Rightarrow> greeting result" where
  "greeting_from_payload payload =
     (let (headers, body) = split payload in
      bind_res (ok_or (header headers CONTENT_TYPE) NotBeepXml) (\<lambda>ct.
        if \<not> eq_ignore_ascii_case ct BEEP_XML then Inl NotBeepXml
        else bind_res (parse body) (\<lambda>root.
          if el_name root \<noteq> ''greeting'' then Inl UnexpectedElement
          else Inr \<lparr>gr_profiles = List.map_filter (\<lambda>child. attr child ''uri'') (children_named root ''profile''),
                    gr_features = attr root ''features'', gr_localize = attr root ''localize''\<rparr>)))"

definition greeting_from_frame :: "data_frame \<Rightarrow> greeting result" where
  "greeting_from_frame f =
     (if df_kind f \<noteq> Rpy then Inl (NotAGreeting ''expected an RPY frame'')
      else if df_channel f \<noteq> GREETING_CHANNEL then Inl (NotAGreeting ''expected channel 0'')
      else if df_msgno f \<noteq> 0 then Inl (NotAGreeting ''expected message number 0'')
      else if df_seqno f \<noteq> 0 then Inl (NotAGreeting ''expected sequence number 0'')
      else if df_more f then Inl (NotAGreeting ''expected a complete frame'')
      else greeting_from_payload (df_payload f))"

section \<open>The greeting as a document\<close>

text \<open>Each advertised profile is a line of its own.\<close>

definition uri_text :: "bytes \<Rightarrow> bytes" where
  "uri_text uri = CHR ''<'' # ''profile'' @ attrs_text [(''uri'', uri)] @ '' />''"

interpretation uri_lines: written_child uri_text "\<lambda>uri. Element ''profile'' [(''uri'', uri)] [] []" utf8_valid
proof unfold_locales
  fix uri :: bytes assume "utf8_valid uri"
  show "\<exists>nm s. uri_text uri = CHR ''<'' # nm @ s \<and> tag_ok nm"
    unfolding uri_text_def using tag_names(1) by blast
next
  fix uri r :: bytes and d :: nat assume "utf8_valid uri" and d: "d \<le> MAX_DEPTH"
  show "parse_element d (uri_text uri @ r) = Inr (Element ''profile'' [(''uri'', uri)] [] [], r)"
    using parse_element_closed [OF d tag_okD, of "''profile''" "[(''uri'', uri)]" r] by (simp add: uri_text_def)
qed

definition greeting_attrs :: "greeting \<Rightarrow> (bytes \<times> bytes) list" where
  "greeting_attrs g = name_attr ''features'' (gr_features g) @ name_attr ''localize'' (gr_localize g)"

definition greeting_ok :: "greeting \<Rightarrow> bool" where
  "greeting_ok g \<longleftrightarrow> pred_option utf8_valid (gr_features g) \<and> pred_option utf8_valid (gr_localize g) \<and>
     (\<forall>u \<in> set (gr_profiles g). utf8_valid u)"

definition greeting_body :: "greeting \<Rightarrow> bytes" where
  "greeting_body g = CHR ''<'' # ''greeting'' @ attrs_text (greeting_attrs g) @
     (if gr_profiles g = [] then '' />'' @ CRLF
      else ''>'' @ CRLF @ uri_lines.lines_of (gr_profiles g) @ ''</'' @ ''greeting'' @ ''>'' @ CRLF)"

lemma greeting_loop_lines: "greeting_profiles_loop uris out = out @ uri_lines.lines_of uris"
proof (induction uris arbitrary: out)
  case (Cons u us)
  then show ?case
    by (simp add: uri_lines.lines_of_def uri_text_def [of u] escape_append [of "out @ _"] attrs_text_def attr_text_def)
qed (simp add: uri_lines.lines_of_def)

lemma greeting_push_attr_text: "greeting_push_attr out nm v = out @ attrs_text [(nm, v)]"
  by (simp add: greeting_push_attr_def escape_append [of "out @ _"] attrs_text_def attr_text_def)

lemma greeting_to_payload_eq: "greeting_to_payload g = beep_xml_headers @ CRLF @ CRLF @ greeting_body g"
  by (simp add: greeting_to_payload_def beep_xml_headers_def greeting_body_def greeting_attrs_def name_attr_def
      greeting_push_attr_text greeting_loop_lines attrs_text_def split: option.split)

lemma greeting_attrs_ok:
  assumes "greeting_ok g"
  shows "\<forall>a \<in> set (greeting_attrs g). name_ok (fst a) \<and> utf8_valid (fst a) \<and> utf8_valid (snd a)"
  using assms unfolding greeting_attrs_def greeting_ok_def name_attr_def
  by (cases "gr_features g"; cases "gr_localize g") auto

lemma greeting_utf8:
  assumes "greeting_ok g" shows "utf8_valid (greeting_body g)"
proof -
  have uri: "utf8_valid (uri_text u)" if "utf8_valid u" for u
  proof -
    have "utf8_valid (attrs_text [(''uri'', u)])" using that by (intro utf8_attrs_text) simp
    then show ?thesis using utf8_names(12) by (simp add: uri_text_def utf8_valid_append octet_in_def)
  qed
  have "utf8_valid (uri_lines.lines_of (gr_profiles g))"
    unfolding uri_lines.lines_of_def using assms uri
    by (intro utf8_valid_concat) (auto simp: greeting_ok_def intro!: utf8_valid_append)
  moreover have "utf8_valid (attrs_text (greeting_attrs g))"
    using greeting_attrs_ok [OF assms] by (intro utf8_attrs_text) auto
  ultimately show ?thesis by (simp add: greeting_body_def utf8_valid_append octet_in_def)
qed

lemma greeting_parse:
  assumes "greeting_ok g"
  shows "\<exists>t. parse (greeting_body g) =
    Inr (Element ''greeting'' (greeting_attrs g) (map (\<lambda>u. Element ''profile'' [(''uri'', u)] [] []) (gr_profiles g)) t)"
proof -
  have names: "\<forall>a \<in> set (greeting_attrs g). name_ok (fst a)" using greeting_attrs_ok [OF assms] by blast
  let ?tree = "\<lambda>t. Element ''greeting'' (greeting_attrs g) (map (\<lambda>u. Element ''profile'' [(''uri'', u)] [] []) (gr_profiles g)) t"
  obtain t where "parse_element 0 (greeting_body g) = Inr (?tree t, CRLF)"
  proof (cases "gr_profiles g = []")
    case True
    then show ?thesis
      using parse_element_closed [OF _ tag_okD names, of 0 "''greeting''" CRLF] that [of "[]"]
      by (simp add: greeting_body_def)
  next
    case False
    let ?inner = "CRLF @ uri_lines.lines_of (gr_profiles g) @ ''</'' @ ''greeting'' @ ''>'' @ CRLF"
    have "\<exists>t. parse_content (Element ''greeting'' (greeting_attrs g) [] []) 0 ?inner =
        Inr (Element ''greeting'' (greeting_attrs g) ([] @ map (\<lambda>u. Element ''profile'' [(''uri'', u)] [] []) (gr_profiles g)) t, CRLF)"
      using assms by (intro uri_lines.reads_lines) (simp_all add: MAX_DEPTH_def tag_okD greeting_ok_def)
    with False that show ?thesis
      using parse_element_open [OF _ tag_okD names, of 0 "''greeting''" ?inner] by (auto simp: greeting_body_def)
  qed
  then show ?thesis
    using parse_document [of "[]" "''greeting''" _ _ CRLF] greeting_utf8 [OF assms] by (auto simp: greeting_body_def)
qed

lemma greeting_read_back:
  assumes "greeting_ok g" shows "greeting_from_payload (greeting_to_payload g) = Inr g"
proof -
  obtain t where p: "parse (greeting_body g) =
    Inr (Element ''greeting'' (greeting_attrs g) (map (\<lambda>u. Element ''profile'' [(''uri'', u)] [] []) (gr_profiles g)) t)"
    using greeting_parse [OF assms] by blast
  let ?root = "Element ''greeting'' (greeting_attrs g) (map (\<lambda>u. Element ''profile'' [(''uri'', u)] [] []) (gr_profiles g)) t"
  have "List.map_filter (\<lambda>child. attr child ''uri'') (children_named ?root ''profile'') = gr_profiles g"
    by (simp add: children_named_def List.map_filter_def attr_def filter_map comp_def)
  moreover have "attr ?root ''features'' = gr_features g" "attr ?root ''localize'' = gr_localize g"
    by (cases "gr_features g"; cases "gr_localize g"; simp add: attr_def greeting_attrs_def name_attr_def)+
  ultimately show ?thesis
    unfolding greeting_to_payload_eq greeting_from_payload_def split_beep_xml
    by (simp add: header_beep_xml p)
qed

section \<open>Properties\<close>

text \<open>
  A greeting survives its frame: built with sequence number 0 and parsed by
  the peer it gives the same profiles in the same order and the same attributes; any frame of
  another kind, channel, message or sequence number, or with the continuation indicator, is
  refused before its payload is looked at.
\<close>

lemma greeting_roundtrip:
  assumes "greeting_ok g" and "length (greeting_to_payload g) \<le> unat MAX_FRAME_SIZE"
  shows "\<exists>f. greeting_to_frame g 0 = Inr f \<and> greeting_from_frame f = Inr g \<and>
    (\<forall>f'. df_payload f' = df_payload f \<and> \<not> (df_kind f' = Rpy \<and> df_channel f' = 0 \<and> df_msgno f' = 0 \<and>
       df_seqno f' = 0 \<and> \<not> df_more f') \<longrightarrow> (\<exists>reason. greeting_from_frame f' = Inl (NotAGreeting reason)))"
proof -
  let ?f = "\<lparr>df_kind = Rpy, df_channel = 0, df_msgno = 0, df_more = False, df_seqno = 0, df_ansno = None,
      df_payload = greeting_to_payload g\<rparr>"
  have "greeting_to_frame g 0 = Inr ?f"
    using assms(2) by (simp add: greeting_to_frame_def new_data_ok build_frame_ok GREETING_CHANNEL_def limit_defs has_ansno_def)
  moreover have "greeting_from_frame ?f = Inr g"
    using greeting_read_back [OF assms(1)] by (simp add: greeting_from_frame_def GREETING_CHANNEL_def)
  ultimately show ?thesis by (auto simp: greeting_from_frame_def GREETING_CHANNEL_def)
qed

end
