(* ===== verification/Sessions.thy ===== *)
theory Sessions
  imports Codec Channels Greetings
begin

text \<open>
  \<^verbatim>\<open>vortice-proto/src/session.rs\<close>: the session state machine. A \<open>BTreeMap\<close> is a partial
  map, a \<open>VecDeque\<close> a list with its front at the head, \<open>outbound\<close> and \<open>inbound\<close> the octets
  they hold. Every method on \<open>&mut self\<close> returns the session together with its result, so
  what an early return leaves behind is visible.
\<close>

section \<open>State\<close>

datatype role = Initiator | Listener

fun first_channel :: "role \<Rightarrow> u32" where
  "first_channel Initiator = 1"
| "first_channel Listener = 2"

fun owns :: "role \<Rightarrow> u32 \<Rightarrow> bool" where
  "owns Initiator ch \<longleftrightarrow> ch mod 2 = 1"
| "owns Listener ch \<longleftrightarrow> ch mod 2 = 0 \<and> ch \<noteq> 0"

datatype state = AwaitingGreeting | Ready | Closed

datatype event =
    GreetingReceived greeting
  | StartRequested u32 u32 start          \<comment> \<open>channel, msgno, start\<close>
  | ChannelOpened u32 profile             \<comment> \<open>channel, profile\<close>
  | StartRefused u32 error_reply          \<comment> \<open>channel, error\<close>
  | CloseRequested u32 u32 close          \<comment> \<open>channel, msgno, close\<close>
  | ChannelClosed u32
  | CloseRefused u32 error_reply          \<comment> \<open>channel, error\<close>
  | SessionClosed
  | MessageReceived u32 message           \<comment> \<open>channel, message\<close>

record config =
  cf_role :: role
  cf_greeting :: greeting
  cf_window_size :: u32
  cf_max_frame_size :: u32

definition DEFAULT_WINDOW_SIZE :: u32 where "DEFAULT_WINDOW_SIZE = 32768"

definition config_new :: "role \<Rightarrow> config" where
  "config_new r = \<lparr>cf_role = r, cf_greeting = greeting_new, cf_window_size = DEFAULT_WINDOW_SIZE,
     cf_max_frame_size = INITIAL_WINDOW_SIZE\<rparr>"

definition config_with_profile :: "config \<Rightarrow> bytes \<Rightarrow> config" where
  "config_with_profile c uri = c\<lparr>cf_greeting := with_profile (cf_greeting c) uri\<rparr>"

definition config_with_window_size :: "config \<Rightarrow> u32 \<Rightarrow> config" where
  "config_with_window_size c sz = c\<lparr>cf_window_size := sz\<rparr>"

definition config_with_max_frame_size :: "config \<Rightarrow> u32 \<Rightarrow> config" where
  "config_with_max_frame_size c sz = c\<lparr>cf_max_frame_size := sz\<rparr>"

record queued =
  q_kind :: frame_kind
  q_msgno :: u32
  q_ansno :: "u32 option"
  q_payload :: bytes

datatype pending = PStart u32 | PClose u32

record session =
  s_config :: config
  s_decoder :: decoder
  s_state :: state
  s_peer_greeting :: "greeting option"
  s_inbound :: bytes
  s_zero :: channel
  s_channels :: "u32 \<rightharpoonup> channel"
  s_queues :: "u32 \<rightharpoonup> queued list"
  s_pending :: "u32 \<rightharpoonup> pending"
  s_reply_order :: "u32 \<rightharpoonup> u32 list"
  s_held_replies :: "u32 \<rightharpoonup> (u32 \<rightharpoonup> queued list)"
  s_half_open :: "u32 \<rightharpoonup> profile"
  s_unacked :: "u32 \<rightharpoonup> u32"
  s_server_name :: "bytes option"
  s_authenticated :: "bytes option"
  s_next_channel :: u32
  s_outbound :: bytes
  s_events :: "event list"

text \<open>\<open>entry(k).or_default()\<close> on a map whose values have an empty default.\<close>

definition or_empty :: "'a list option \<Rightarrow> 'a list" where
  "or_empty x = (case x of None \<Rightarrow> [] | Some xs \<Rightarrow> xs)"

definition push_event :: "event \<Rightarrow> session \<Rightarrow> session" where
  "push_event e s = s\<lparr>s_events := s_events s @ [e]\<rparr>"

definition put_channel :: "u32 \<Rightarrow> channel \<Rightarrow> session \<Rightarrow> session" where
  "put_channel n c s = s\<lparr>s_channels := (s_channels s)(n \<mapsto> c)\<rparr>"

section \<open>Writing\<close>

fun is_reply :: "frame_kind \<Rightarrow> bool" where
  "is_reply k \<longleftrightarrow> k \<in> {Rpy, Err, Ans, Nul}"

fun completes_reply :: "frame_kind \<Rightarrow> bool" where
  "completes_reply k \<longleftrightarrow> k \<in> {Rpy, Err, Nul}"

definition enqueue :: "u32 \<Rightarrow> frame_kind \<Rightarrow> u32 \<Rightarrow> u32 option \<Rightarrow> bytes \<Rightarrow> session \<Rightarrow> session" where
  "enqueue number kind msgno ansno payload s =
     s\<lparr>s_queues := (s_queues s)(number \<mapsto> or_empty (s_queues s number) @
        [\<lparr>q_kind = kind, q_msgno = msgno, q_ansno = ansno, q_payload = payload\<rparr>])\<rparr>"

text \<open>The loop of \<open>flush\<close>: the channel, the octets written, and what stays queued.\<close>

fun flush_loop :: "u32 \<Rightarrow> channel \<Rightarrow> bytes \<Rightarrow> queued list \<Rightarrow> (channel \<times> bytes \<times> queued list) \<times> unit result" where
  "flush_loop mfs c out [] = ((c, out, []), Inr ())"
| "flush_loop mfs c out (front # rest) =
     (if is_stalled c \<and> q_payload front \<noteq> [] then ((c, out, front # rest), Inr ())
      else case emit c (q_kind front) (q_msgno front) (q_ansno front) (q_payload front) mfs of
             (c', Inl e) \<Rightarrow> ((c', out, front # rest), Inl e)
           | (c', Inr em) \<Rightarrow>
               let out' = foldl (\<lambda>dst f. encode_data f dst) out (em_frames em) in
               if is_complete em then flush_loop mfs c' out' rest
               else ((c', out', front\<lparr>q_payload := em_remaining em\<rparr> # rest), Inr ()))"

definition flush :: "u32 \<Rightarrow> session \<Rightarrow> session \<times> unit result" where
  "flush number s =
     (case s_queues s number of
        None \<Rightarrow> (s, Inr ())
      | Some queue \<Rightarrow>
          if number = GREETING_CHANNEL then
            (case flush_loop (cf_max_frame_size (s_config s)) (s_zero s) (s_outbound s) queue of
               ((c, out, q), r) \<Rightarrow>
                 (s\<lparr>s_zero := c, s_outbound := out, s_queues := (s_queues s)(number \<mapsto> q)\<rparr>, r))
          else case s_channels s number of
            None \<Rightarrow> (s, Inr ())
          | Some ch \<Rightarrow>
              (case flush_loop (cf_max_frame_size (s_config s)) ch (s_outbound s) queue of
                 ((c, out, q), r) \<Rightarrow>
                   ((put_channel number c s)\<lparr>s_outbound := out, s_queues := (s_queues s)(number \<mapsto> q)\<rparr>, r)))"

definition write_zero :: "frame_kind \<Rightarrow> u32 \<Rightarrow> mgmt_message \<Rightarrow> session \<Rightarrow> session \<times> unit result" where
  "write_zero kind msgno management s =
     flush GREETING_CHANNEL (enqueue GREETING_CHANNEL kind msgno None (to_payload management) s)"

definition advertise_window :: "u32 \<Rightarrow> session \<Rightarrow> session" where
  "advertise_window number s =
     (if cf_window_size (s_config s) \<le> INITIAL_WINDOW_SIZE then s
      else case (if number = GREETING_CHANNEL then Some (s_zero s) else s_channels s number) of
             None \<Rightarrow> s
           | Some ch \<Rightarrow>
               (case to_seq_frame (ch_recv_window ch) number of
                  Inr seq \<Rightarrow> s\<lparr>s_outbound := encode_seq seq (s_outbound s)\<rparr>
                | Inl _ \<Rightarrow> s))"

text \<open>
  \<open>Session::new\<close>. The source unwraps the result of the first \<open>flush\<close>; that it is never an
  error is shown below.
\<close>

definition session_init :: "config \<Rightarrow> session" where
  "session_init cfg =
     \<lparr>s_config = cfg, s_decoder = decoder_new, s_state = AwaitingGreeting, s_peer_greeting = None,
      s_inbound = [], s_zero = channel_with_window_size GREETING_CHANNEL [] (cf_window_size cfg),
      s_channels = Map.empty, s_queues = Map.empty, s_pending = Map.empty, s_reply_order = Map.empty,
      s_held_replies = Map.empty, s_half_open = Map.empty, s_unacked = Map.empty,
      s_server_name = None, s_authenticated = None, s_next_channel = first_channel (cf_role cfg),
      s_outbound = [], s_events = []\<rparr>"

definition session_greet :: "config \<Rightarrow> session \<times> unit result" where
  "session_greet cfg =
     flush GREETING_CHANNEL
       (enqueue GREETING_CHANNEL Rpy 0 None (greeting_to_payload (cf_greeting cfg)) (session_init cfg))"

definition session_new :: "config \<Rightarrow> session" where
  "session_new cfg = advertise_window GREETING_CHANNEL (fst (session_greet cfg))"

definition poll_transmit :: "session \<Rightarrow> session \<times> bytes option" where
  "poll_transmit s =
     (if s_outbound s = [] then (s, None) else (s\<lparr>s_outbound := []\<rparr>, Some (s_outbound s)))"

definition poll_event :: "session \<Rightarrow> session \<times> event option" where
  "poll_event s =
     (case s_events s of [] \<Rightarrow> (s, None) | e # es \<Rightarrow> (s\<lparr>s_events := es\<rparr>, Some e))"

definition set_authenticated :: "bytes \<Rightarrow> session \<Rightarrow> session" where
  "set_authenticated identity s = s\<lparr>s_authenticated := Some identity\<rparr>"

definition set_server_name :: "bytes \<Rightarrow> session \<Rightarrow> session" where
  "set_server_name nm s = s\<lparr>s_server_name := Some nm\<rparr>"

section \<open>Reading\<close>

text \<open>The channel a number stands for, channel 0 being kept apart from the table.\<close>

definition channel_of :: "session \<Rightarrow> u32 \<Rightarrow> channel option" where
  "channel_of s number = (if number = GREETING_CHANNEL then Some (s_zero s) else s_channels s number)"

definition store_channel :: "u32 \<Rightarrow> channel \<Rightarrow> session \<Rightarrow> session" where
  "store_channel number c s = (if number = GREETING_CHANNEL then s\<lparr>s_zero := c\<rparr> else put_channel number c s)"

definition acknowledge :: "u32 \<Rightarrow> u32 \<Rightarrow> session \<Rightarrow> session \<times> unit result" where
  "acknowledge number octets s =
     (case channel_of s number of
        None \<Rightarrow> (s, Inr ())
      | Some ch \<Rightarrow>
          let pending_now = saturating_add (case s_unacked s number of None \<Rightarrow> 0 | Some n \<Rightarrow> n) octets;
              s = s\<lparr>s_unacked := (s_unacked s)(number \<mapsto> pending_now)\<rparr>;
              threshold = clamp_u32 (w_size (ch_recv_window ch) div 2) 1 (INITIAL_WINDOW_SIZE div 2)
          in if pending_now \<ge> threshold then
               (case consume ch pending_now of
                  (ch', Inl e) \<Rightarrow> (store_channel number ch' s, Inl e)
                | (ch', Inr seq) \<Rightarrow>
                    ((store_channel number ch' s)\<lparr>s_unacked := (s_unacked s)(number \<mapsto> 0),
                       s_outbound := encode_seq seq (s_outbound s)\<rparr>, Inr ()))
             else (s, Inr ()))"

definition finish_close :: "u32 \<Rightarrow> session \<Rightarrow> session" where
  "finish_close ch s =
     (if ch = GREETING_CHANNEL then
        push_event SessionClosed
          (s\<lparr>s_state := Closed, s_channels := Map.empty, s_queues := Map.empty, s_unacked := Map.empty,
             s_reply_order := Map.empty, s_held_replies := Map.empty\<rparr>)
      else
        push_event (ChannelClosed ch)
          (s\<lparr>s_channels := (s_channels s)(ch := None), s_queues := (s_queues s)(ch := None),
             s_unacked := (s_unacked s)(ch := None), s_reply_order := (s_reply_order s)(ch := None),
             s_held_replies := (s_held_replies s)(ch := None)\<rparr>))"

definition release_zero :: "u32 \<Rightarrow> session \<Rightarrow> session" where
  "release_zero msgno s = s\<lparr>s_zero := release_msgno (s_zero s) msgno\<rparr>"

definition open_channel :: "u32 \<Rightarrow> bytes \<Rightarrow> session \<Rightarrow> session" where
  "open_channel number uri s =
     put_channel number (channel_with_window_size number uri (cf_window_size (s_config s))) s"

definition take_pending :: "u32 \<Rightarrow> session \<Rightarrow> session \<times> pending option" where
  "take_pending msgno s = (s\<lparr>s_pending := (s_pending s)(msgno := None)\<rparr>, s_pending s msgno)"

definition dispatch_management ::
  "frame_kind \<Rightarrow> u32 \<Rightarrow> mgmt_message \<Rightarrow> session \<Rightarrow> session \<times> unit result" where
  "dispatch_management kind msgno management s =
     (case (kind, management) of
        (Msg, MStart start) \<Rightarrow>
          let s = (case (s_server_name s, st_server_name start) of
                     (None, Some nm) \<Rightarrow> s\<lparr>s_server_name := Some nm\<rparr> | _ \<Rightarrow> s)
          in (push_event (StartRequested (st_number start) msgno start) s, Inr ())
      | (Msg, MClose close) \<Rightarrow> (push_event (CloseRequested (cl_number close) msgno close) s, Inr ())
      | (Rpy, MProfile prof) \<Rightarrow>
          (case take_pending msgno s of
             (s, Some (PStart number)) \<Rightarrow>
               let s = release_zero msgno s;
                   s = s\<lparr>s_half_open := (s_half_open s)(number := None)\<rparr>;
                   s = open_channel number (pr_uri prof) s
               in (push_event (ChannelOpened number prof) s, Inr ())
           | (s, _) \<Rightarrow> (s, Inl (UnknownMsgNo msgno)))
      | (Rpy, MOk) \<Rightarrow>
          (case take_pending msgno s of
             (s, Some (PClose number)) \<Rightarrow> (finish_close number (release_zero msgno s), Inr ())
           | (s, _) \<Rightarrow> (s, Inl (UnknownMsgNo msgno)))
      | (Err, MError err) \<Rightarrow>
          (case take_pending msgno s of
             (s, None) \<Rightarrow> (s, Inl (UnknownMsgNo msgno))
           | (s, Some p) \<Rightarrow>
               let s = release_zero msgno s in
               (case p of
                  PStart number \<Rightarrow>
                    (push_event (StartRefused number err) (s\<lparr>s_half_open := (s_half_open s)(number := None)\<rparr>), Inr ())
                | PClose number \<Rightarrow> (push_event (CloseRefused number err) s, Inr ())))
      | _ \<Rightarrow> (s, Inl UnexpectedElement))"

definition accept_on :: "u32 \<Rightarrow> channel \<Rightarrow> data_frame \<Rightarrow> session \<Rightarrow> session \<times> (message option) result" where
  "accept_on number ch f s = (case accept ch f of (ch', r) \<Rightarrow> (store_channel number ch' s, r))"

definition handle_channel_zero :: "data_frame \<Rightarrow> session \<Rightarrow> session \<times> unit result" where
  "handle_channel_zero f s =
     (if s_state s = AwaitingGreeting then
        (case greeting_from_frame f of
           Inl e \<Rightarrow> (s, Inl e)
         | Inr g \<Rightarrow>
             bind_st (accept_on GREETING_CHANNEL (s_zero s) f s) (\<lambda>s _.
             bind_st (acknowledge GREETING_CHANNEL (df_size f) s) (\<lambda>s _.
               (push_event (GreetingReceived g) (s\<lparr>s_peer_greeting := Some g, s_state := Ready\<rparr>), Inr ()))))
      else
        bind_st (accept_on GREETING_CHANNEL (s_zero s) f s) (\<lambda>s complete.
        bind_st (acknowledge GREETING_CHANNEL (df_size f) s) (\<lambda>s _.
          case complete of
            None \<Rightarrow> (s, Inr ())
          | Some msg \<Rightarrow>
              (case from_payload (msg_payload msg) of
                 Inl e \<Rightarrow> (s, Inl e)
               | Inr management \<Rightarrow> dispatch_management (msg_kind msg) (msg_msgno msg) management s))))"

definition handle_data :: "data_frame \<Rightarrow> session \<Rightarrow> session \<times> unit result" where
  "handle_data f s =
     (if df_channel f = GREETING_CHANNEL then handle_channel_zero f s
      else let number = df_channel f in
        case s_channels s number of
          None \<Rightarrow> (s, Inl (NoSuchChannel number))
        | Some ch \<Rightarrow>
            bind_st (accept_on number ch f s) (\<lambda>s complete.
            bind_st (acknowledge number (df_size f) s) (\<lambda>s _.
              case complete of
                None \<Rightarrow> (s, Inr ())
              | Some msg \<Rightarrow>
                  let s = (if msg_kind msg = Msg
                           then s\<lparr>s_reply_order := (s_reply_order s)(number \<mapsto>
                                    or_empty (s_reply_order s number) @ [msg_msgno msg])\<rparr>
                           else s)
                  in (push_event (MessageReceived number msg) s, Inr ()))))"

definition handle_seq :: "seq_frame \<Rightarrow> session \<Rightarrow> session \<times> unit result" where
  "handle_seq seq s =
     (case channel_of s (sf_channel seq) of
        None \<Rightarrow> (s, Inl (NoSuchChannel (sf_channel seq)))
      | Some ch \<Rightarrow> flush (sf_channel seq) (store_channel (sf_channel seq) (apply_seq ch seq) s))"

fun handle_frame :: "frame \<Rightarrow> session \<Rightarrow> session \<times> unit result" where
  "handle_frame (SeqF seq) s = handle_seq seq s"
| "handle_frame (DataF data) s = handle_data data s"

section \<open>What the pieces leave alone\<close>

text \<open>
  Input is only taken by the decoding loop: no handler touches the decoder or the octets still
  buffered. The loop below ends because of it.
\<close>

definition same_input :: "session \<Rightarrow> session \<Rightarrow> bool" where
  "same_input s s' \<longleftrightarrow> s_decoder s' = s_decoder s \<and> s_inbound s' = s_inbound s"

lemma same_input_refl [simp]: "same_input s s"
  by (simp add: same_input_def)

lemma same_input_updates [simp]:
  "same_input s (push_event e s') = same_input s s'" "same_input s (put_channel n c s') = same_input s s'"
  "same_input s (store_channel n c s') = same_input s s'" "same_input s (release_zero m s') = same_input s s'"
  "same_input s (open_channel n u s') = same_input s s'" "same_input s (finish_close n s') = same_input s s'"
  "same_input s (enqueue n k m a p s') = same_input s s'"
  by (auto simp: same_input_def push_event_def put_channel_def store_channel_def release_zero_def open_channel_def
      finish_close_def enqueue_def)

lemma same_input_flush: "same_input s s' \<Longrightarrow> same_input s (fst (flush n s'))"
  by (auto simp: flush_def same_input_def put_channel_def split: option.split prod.split)

lemma same_input_acknowledge: "same_input s s' \<Longrightarrow> same_input s (fst (acknowledge n k s'))"
  by (auto simp: acknowledge_def same_input_def store_channel_def put_channel_def Let_def
      split: option.split prod.split sum.split)

lemma same_input_accept_on: "same_input s s' \<Longrightarrow> same_input s (fst (accept_on n c f s'))"
  by (auto simp: accept_on_def split: prod.split)

lemma same_input_dispatch: "same_input s s' \<Longrightarrow> same_input s (fst (dispatch_management k m mg s'))"
  by (auto simp: dispatch_management_def take_pending_def Let_def same_input_def push_event_def release_zero_def
      open_channel_def finish_close_def put_channel_def
      split: option.split frame_kind.split mgmt_message.split pending.split)

lemmas same_input_parts = same_input_flush same_input_acknowledge same_input_accept_on same_input_dispatch

lemma same_input_frame: "same_input s (fst (handle_frame f s))"
proof (cases f)
  case (SeqF seq)
  then show ?thesis by (auto simp: handle_seq_def same_input_parts split: option.split)
next
  case (DataF d)
  have z: "same_input s (fst (handle_channel_zero d s))"
    unfolding handle_channel_zero_def
    by (auto intro!: bind_st_keeps [where P = "same_input s"] same_input_parts split: sum.split option.split)
      (simp_all add: same_input_def push_event_def)
  have "same_input s (fst (handle_data d s))"
    unfolding handle_data_def Let_def using z
    by (auto intro!: bind_st_keeps [where P = "same_input s"] same_input_parts split: option.split)
      (simp_all add: same_input_def push_event_def)
  with DataF show ?thesis by simp
qed

text \<open>The loop of \<open>handle_input\<close>.\<close>

function input_loop :: "session \<Rightarrow> session \<times> unit result" where
  "input_loop s =
     (case decode (s_decoder s) (s_inbound s) of
        ((d, buf), r) \<Rightarrow>
          let s = s\<lparr>s_decoder := d, s_inbound := buf\<rparr> in
          case r of
            Inl e \<Rightarrow> (s, Inl e)
          | Inr None \<Rightarrow> (s, Inr ())
          | Inr (Some f) \<Rightarrow> bind_st (handle_frame f s) (\<lambda>s _. input_loop s))"
  by pat_completeness auto
termination
proof (relation "measure (\<lambda>s. length (s_inbound s))", goal_cases)
  case (2 s x r d buf s1 v f s2 u)
  then have step: "decode (s_decoder s) (s_inbound s) = ((d, buf), Inr (Some f))" by simp
  have "s_inbound s2 = buf"
    using same_input_frame [of s1 f] 2 by (auto simp: same_input_def)
  with decode_progress [OF step] show ?case by simp
qed simp

declare input_loop.simps [simp del]

definition handle_input :: "bytes \<Rightarrow> session \<Rightarrow> session \<times> unit result" where
  "handle_input inp s = input_loop (s\<lparr>s_inbound := s_inbound s @ inp\<rparr>)"

definition buffered_input :: "session \<Rightarrow> nat" where
  "buffered_input s = length (s_inbound s)"

section \<open>Requests and replies\<close>

definition require_ready :: "session \<Rightarrow> unit result" where
  "require_ready s =
     (if s_state s = Ready then Inr ()
      else Inl (ChannelNumber ''greetings have not been exchanged yet''))"

definition request :: "mgmt_message \<Rightarrow> pending \<Rightarrow> session \<Rightarrow> session \<times> unit result" where
  "request management p s =
     (case allocate_msgno (s_zero s) of
        (z, Inl e) \<Rightarrow> (s\<lparr>s_zero := z\<rparr>, Inl e)
      | (z, Inr msgno) \<Rightarrow>
          write_zero Msg msgno management (s\<lparr>s_zero := z, s_pending := (s_pending s)(msgno \<mapsto> p)\<rparr>))"

definition reply :: "frame_kind \<Rightarrow> u32 \<Rightarrow> mgmt_message \<Rightarrow> session \<Rightarrow> session \<times> unit result" where
  "reply kind msgno management s =
     write_zero kind msgno management (s\<lparr>s_zero := replied (s_zero s) msgno\<rparr>)"

definition start_channel :: "profile \<Rightarrow> session \<Rightarrow> session \<times> u32 result" where
  "start_channel prof s =
     (case require_ready s of
        Inl e \<Rightarrow> (s, Inl e)
      | Inr _ \<Rightarrow>
          let number = s_next_channel s;
              s = s\<lparr>s_next_channel := s_next_channel s + 2,
                    s_half_open := (s_half_open s)(number \<mapsto> prof)\<rparr>
          in bind_st (request (MStart (start_new number prof)) (PStart number) s) (\<lambda>s _. (s, Inr number)))"

definition accept_start :: "u32 \<Rightarrow> u32 \<Rightarrow> profile \<Rightarrow> session \<Rightarrow> session \<times> unit result" where
  "accept_start ch msgno prof s =
     (if ch = GREETING_CHANNEL \<or> owns (cf_role (s_config s)) ch
      then (s, Inl (ChannelNumber ''the peer may not allocate that number''))
      else if s_channels s ch \<noteq> None then (s, Inl (ChannelNumber ''already open''))
      else reply Rpy msgno (MProfile prof) (open_channel ch (pr_uri prof) s))"

definition refuse_start :: "u32 \<Rightarrow> error_reply \<Rightarrow> session \<Rightarrow> session \<times> unit result" where
  "refuse_start msgno err s = reply Err msgno (MError err) s"

definition close_channel :: "u32 \<Rightarrow> session \<Rightarrow> session \<times> unit result" where
  "close_channel ch s =
     (case require_ready s of
        Inl e \<Rightarrow> (s, Inl e)
      | Inr _ \<Rightarrow>
          if ch \<noteq> GREETING_CHANNEL \<and> s_channels s ch = None then (s, Inl (NoSuchChannel ch))
          else request (MClose (close_new ch)) (PClose ch) s)"

definition accept_close :: "u32 \<Rightarrow> u32 \<Rightarrow> session \<Rightarrow> session \<times> unit result" where
  "accept_close ch msgno s = bind_st (reply Rpy msgno MOk s) (\<lambda>s _. (finish_close ch s, Inr ()))"

definition refuse_close :: "u32 \<Rightarrow> error_reply \<Rightarrow> session \<Rightarrow> session \<times> unit result" where
  "refuse_close msgno err s = reply Err msgno (MError err) s"

section \<open>Payloads\<close>

definition is_next_reply :: "session \<Rightarrow> u32 \<Rightarrow> u32 \<Rightarrow> bool" where
  "is_next_reply s ch msgno =
     (case or_empty (s_reply_order s ch) of [] \<Rightarrow> True | nxt # _ \<Rightarrow> nxt = msgno)"

definition pop_order :: "u32 \<Rightarrow> session \<Rightarrow> session" where
  "pop_order ch s =
     (case s_reply_order s ch of
        None \<Rightarrow> s
      | Some order \<Rightarrow> s\<lparr>s_reply_order := (s_reply_order s)(ch \<mapsto> tl order)\<rparr>)"

definition enqueue_all :: "u32 \<Rightarrow> queued list \<Rightarrow> session \<Rightarrow> session" where
  "enqueue_all ch qs s = fold (\<lambda>q s. enqueue ch (q_kind q) (q_msgno q) (q_ansno q) (q_payload q) s) qs s"

lemma flush_reply_order [simp]: "s_reply_order (fst (flush n s)) = s_reply_order s"
  by (auto simp: flush_def put_channel_def split: option.split prod.split)

lemma enqueue_reply_order [simp]: "s_reply_order (enqueue n k m a p s) = s_reply_order s"
  by (simp add: enqueue_def)

lemma enqueue_all_reply_order [simp]: "s_reply_order (enqueue_all n qs s) = s_reply_order s"
  unfolding enqueue_all_def by (induction qs arbitrary: s) simp_all

text \<open>The loop of \<open>reply_finished\<close>: each round releases the replies held for the message now
  at the front, and goes on if they completed its exchange.\<close>

function release_loop :: "u32 \<Rightarrow> session \<Rightarrow> session \<times> unit result" where
  "release_loop ch s =
     (case or_empty (s_reply_order s ch) of
        [] \<Rightarrow> (s, Inr ())
      | nxt # _ \<Rightarrow>
          (case s_held_replies s ch of
             None \<Rightarrow> (s, Inr ())
           | Some channel_held \<Rightarrow>
               (case channel_held nxt of
                  None \<Rightarrow> (s, Inr ())
                | Some held \<Rightarrow>
                    let s = s\<lparr>s_held_replies := (s_held_replies s)(ch \<mapsto> channel_held(nxt := None))\<rparr>;
                        finished = list_ex (\<lambda>q. completes_reply (q_kind q)) held
                    in bind_st (flush ch (enqueue_all ch held s)) (\<lambda>s _.
                         if \<not> finished then (s, Inr ()) else release_loop ch (pop_order ch s)))))"
  by pat_completeness auto
termination
proof (relation "measure (\<lambda>(ch, s). length (or_empty (s_reply_order s ch)))", goal_cases)
  case (2 ch s nxt rest held_map held s1 fin s2 u)
  have "s_reply_order s2 ch = s_reply_order s1 ch"
    using 2(6) flush_reply_order [of ch "enqueue_all ch held s1"] by simp
  then have "s_reply_order s2 ch = s_reply_order s ch" using 2 by simp
  with 2(1) show ?case by (auto simp: pop_order_def or_empty_def split: option.splits)
qed simp

declare release_loop.simps [simp del]

definition reply_finished :: "u32 \<Rightarrow> u32 \<Rightarrow> session \<Rightarrow> session \<times> unit result" where
  "reply_finished ch msgno s =
     (let s = (case s_reply_order s ch of
                 Some (nxt # _) \<Rightarrow> if nxt = msgno then pop_order ch s else s
               | _ \<Rightarrow> s)
      in release_loop ch s)"

definition hold_reply :: "u32 \<Rightarrow> queued \<Rightarrow> session \<Rightarrow> session" where
  "hold_reply ch q s =
     (let held = (case s_held_replies s ch of None \<Rightarrow> Map.empty | Some h \<Rightarrow> h)
      in s\<lparr>s_held_replies := (s_held_replies s)(ch \<mapsto>
             held(q_msgno q \<mapsto> or_empty (held (q_msgno q)) @ [q]))\<rparr>)"

definition send :: "u32 \<Rightarrow> frame_kind \<Rightarrow> u32 \<Rightarrow> u32 option \<Rightarrow> bytes \<Rightarrow> session \<Rightarrow> session \<times> unit result" where
  "send ch kind msgno ansno payload s =
     (case s_channels s ch of
        None \<Rightarrow> (s, Inl (NoSuchChannel ch))
      | Some c \<Rightarrow>
          let (c, ansno) =
                (if kind = Ans \<and> ansno = None
                 then (let (c, a) = allocate_ansno c msgno in (c, Some a))
                 else (if kind = Nul then finish_answers c msgno else c, ansno));
              s = put_channel ch c s
          in if is_reply kind \<and> \<not> is_next_reply s ch msgno
             then (hold_reply ch \<lparr>q_kind = kind, q_msgno = msgno, q_ansno = ansno, q_payload = payload\<rparr> s, Inr ())
             else bind_st (flush ch (enqueue ch kind msgno ansno payload s)) (\<lambda>s _.
                    if completes_reply kind then reply_finished ch msgno s else (s, Inr ())))"

definition set_window_size :: "u32 \<Rightarrow> u32 \<Rightarrow> session \<Rightarrow> session \<times> unit result" where
  "set_window_size ch sz s =
     (case s_channels s ch of
        None \<Rightarrow> (s, Inl (NoSuchChannel ch))
      | Some c \<Rightarrow> (put_channel ch (set_recv_window_size c sz) s, Inr ()))"

definition send_msg :: "u32 \<Rightarrow> bytes \<Rightarrow> session \<Rightarrow> session \<times> u32 result" where
  "send_msg ch payload s =
     (case s_channels s ch of
        None \<Rightarrow> (s, Inl (NoSuchChannel ch))
      | Some c \<Rightarrow>
          (case allocate_msgno c of
             (c', Inl e) \<Rightarrow> (put_channel ch c' s, Inl e)
           | (c', Inr msgno) \<Rightarrow>
               bind_st (send ch Msg msgno None payload (put_channel ch c' s)) (\<lambda>s _. (s, Inr msgno))))"

definition profile_not_supported :: error_reply where
  "profile_not_supported =
     error_reply_with_text (error_reply_new REQUESTED_ACTION_NOT_TAKEN) ''profile not supported'' None"

end
