(* ===== verification/SessionFlow.thy ===== *)
theory SessionFlow
  imports Sessions
begin

text \<open>
  What a session writes: the queue of a channel is a first-in first-out stream cut to the
  peer's window, and replies enter it in the order their messages arrived.
\<close>

section \<open>Entries that can be sent\<close>

lemma build_Inr_sendable:
  assumes "build c k m a p b = (c', Inr f)" and "has_ansno k \<longleftrightarrow> a \<noteq> None"
  shows "sendable c k m a"
  using assms
  by (auto simp: build_def sendable_def Let_def new_ans_def new_data_ok build_frame_ok
      split: option.splits sum.splits)

lemma emit_loop_Inr_sendable:
  assumes "emit_loop mfs k m a rest c head frames = (c', Inr fs)" and "head \<noteq> []" and "has_ansno k \<longleftrightarrow> a \<noteq> None"
  shows "sendable c k m a"
  using assms
  by (subst (asm) emit_loop.simps)
    (auto simp: Let_def bind_st_Inr_iff simp del: drop_eq_Nil intro: build_Inr_sendable)

lemma emit_Inr_sendable:
  assumes "emit c k m a payload mfs = (c', Inr e)" shows "sendable c k m a"
proof -
  from assms have k: "has_ansno k \<longleftrightarrow> a \<noteq> None" by (auto simp: emit_def split: if_splits)
  show ?thesis
  proof (cases "payload = []")
    case True
    with assms k show ?thesis
      by (auto simp: emit_def bind_st_Inr_iff intro: build_Inr_sendable split: if_splits)
  next
    case False
    with assms k obtain c1 fs where w: "writable c \<noteq> 0"
      and l: "emit_loop mfs k m a (drop (unat (min (writable c) (u32_or_max (length payload)))) payload) c
         (take (unat (min (writable c) (u32_or_max (length payload)))) payload) [] = (c1, Inr fs)"
      by (auto simp: emit_def bind_st_Inr_iff Let_def split: if_splits)
    have "0 < unat (min (writable c) (u32_or_max (length payload)))"
      using w u32_or_max_pos [of "length payload"] False by (simp add: unat_min_u32 unat_gt_0)
    with False have "take (unat (min (writable c) (u32_or_max (length payload)))) payload \<noteq> []" by auto
    with l k show ?thesis by (auto intro: emit_loop_Inr_sendable)
  qed
qed

text \<open>What cannot be sent is refused before anything is numbered.\<close>

lemma emit_unsendable:
  assumes "\<not> sendable c k m a" and "payload = [] \<or> writable c \<noteq> 0"
  shows "\<exists>e. emit c k m a payload mfs = (c, Inl e)"
proof (cases "has_ansno k \<longleftrightarrow> a \<noteq> None")
  case True
  note bad = build_unsendable [OF assms(1) True]
  show ?thesis
  proof (cases "payload = []")
    case p: True
    from bad [of "[]" False] show ?thesis using True p by (auto simp: emit_def)
  next
    case False
    let ?n = "unat (min (writable c) (u32_or_max (length payload)))"
    have "0 < ?n" using assms(2) False u32_or_max_pos [of "length payload"] by (simp add: unat_min_u32 unat_gt_0)
    then have ne: "take ?n payload \<noteq> []" using False by auto
    let ?h = "take ?n payload" and ?r = "drop ?n payload"
    let ?k = "unat (min (chunk_limit mfs) (u32_or_max (length ?h)))"
    obtain e where e: "build c k m a (take ?k ?h) (drop ?k ?h \<noteq> [] \<or> ?r \<noteq> []) = (c, Inl e)" using bad by blast
    have "emit_loop mfs k m a ?r c ?h [] = (c, Inl e)"
      by (subst emit_loop.simps) (simp only: ne if_False Let_def e bind_st_simps)
    with True False assms(2) have "emit c k m a payload mfs = (c, Inl e)"
      by (simp add: emit_def Let_def del: drop_eq_Nil)
    then show ?thesis by blast
  qed
next
  case False
  then show ?thesis by (auto simp: emit_def)
qed

text \<open>After an emission that did not finish, the window is used up.\<close>

lemma writable_after:
  assumes "n \<le> unat (writable c)"
  shows "unat (writable (c\<lparr>ch_next_seqno := advance (ch_next_seqno c) (of_nat n)\<rparr>)) = unat (writable c) - n"
proof (cases "n = 0")
  case True
  then show ?thesis by (simp add: advance_def)
next
  case False
  let ?w = "ch_send_window c"
  let ?d = "unat (distance_from (ch_next_seqno c) (w_base ?w))"
  have n: "n \<le> unat (w_size ?w) - ?d" using assms by (simp add: writable_def unat_remaining)
  with False have lt: "?d + n \<le> unat (w_size ?w)" by linarith
  then have "n < 4294967296" "?d + n < 4294967296" using unat_u32_lt [of "w_size ?w"] by linarith+
  then have "unat (distance_from (advance (ch_next_seqno c) (of_nat n)) (w_base ?w)) = ?d + n"
    by (simp add: seq_counter.dist_adv_left unat_u32_add_lt unat_of_nat_u32)
  then show ?thesis by (simp add: writable_def unat_remaining)
qed

lemma cut_le_writable: "cut_at c payload \<le> unat (writable c)"
  by (simp add: cut_at_def)

lemma emit_incomplete:
  assumes "emit c k m a payload mfs = (c', Inr e)" and "em_remaining e \<noteq> []"
  shows "is_stalled c'"
proof -
  have s: "sendable c k m a" by (rule emit_Inr_sendable [OF assms(1)])
  have p: "payload \<noteq> []" using assms emit_empty [OF s] by auto
  have w: "writable c \<noteq> 0" using assms(1) emit_stalled [OF s p] by auto
  from assms emit_data [OF s p w, of mfs]
  have c': "c' = c\<lparr>ch_next_seqno := advance (ch_next_seqno c) (of_nat (cut_at c payload))\<rparr>"
    and rem: "drop (cut_at c payload) payload \<noteq> []" by auto
  from rem have "cut_at c payload = unat (writable c)" by (auto simp: cut_at_def min_def split: if_splits)
  with writable_after [OF cut_le_writable, of c payload] show ?thesis
    by (simp add: is_stalled_def c' flip: unat_eq_zero)
qed

section \<open>The queue is a stream\<close>

lemma flush_loop_append:
  "flush_loop mfs c out (q1 @ q2) =
     (case flush_loop mfs c out q1 of
        ((c1, o1, []), Inr _) \<Rightarrow> flush_loop mfs c1 o1 q2
      | ((c1, o1, q1'), r) \<Rightarrow> ((c1, o1, q1' @ q2), r))"
  by (induction mfs c out q1 rule: flush_loop.induct) (auto simp: Let_def split: prod.split sum.split)

text \<open>A queue that was left behind stays as it is until the window moves.\<close>

definition blocked :: "channel \<Rightarrow> queued list \<Rightarrow> bool" where
  "blocked c q \<longleftrightarrow> q \<noteq> [] \<longrightarrow> is_stalled c \<and> q_payload (hd q) \<noteq> []"

lemma flush_loop_blocked: "flush_loop mfs c out q = ((c', out', q'), Inr u) \<Longrightarrow> blocked c' q'"
  by (induction mfs c out q rule: flush_loop.induct)
    (auto simp: blocked_def Let_def is_complete_def emit_incomplete split: if_splits prod.splits sum.splits)

lemma blocked_flush_loop: "blocked c q \<Longrightarrow> q \<noteq> [] \<Longrightarrow> flush_loop mfs c out (q @ r) = ((c, out, q @ r), Inr ())"
  by (cases q) (simp_all add: blocked_def)

lemma flush_loop_again:
  assumes "flush_loop mfs c out q = ((c1, out1, q1), Inr u)"
  shows "flush_loop mfs c1 out1 (q1 @ r) = flush_loop mfs c out (q @ r)"
proof (cases q1)
  case Nil
  with assms show ?thesis by (simp add: flush_loop_append)
next
  case (Cons x xs)
  with blocked_flush_loop [OF flush_loop_blocked [OF assms], of mfs out1 r] assms show ?thesis
    by (simp add: flush_loop_append)
qed

section \<open>First in, first out, and nothing lost\<close>

text \<open>
  The messages a channel still owes its peer, when \<open>acc\<close> is what the peer holds of the first:
  the abstract content of the stream between a queue and the application behind it.
\<close>

definition message_of :: "queued \<Rightarrow> bytes \<Rightarrow> message" where
  "message_of q acc = \<lparr>msg_kind = q_kind q, msg_msgno = q_msgno q, msg_ansno = q_ansno q, msg_payload = acc @ q_payload q\<rparr>"

fun to_deliver :: "bytes \<Rightarrow> queued list \<Rightarrow> message list" where
  "to_deliver acc [] = []"
| "to_deliver acc (q # qs) = message_of q acc # map (\<lambda>q. message_of q []) qs"

definition sendable_entry :: "channel \<Rightarrow> queued \<Rightarrow> bool" where
  "sendable_entry c q \<longleftrightarrow> sendable c (q_kind q) (q_msgno q) (q_ansno q)"

fun holding_queue :: "channel \<Rightarrow> bytes \<Rightarrow> queued list \<Rightarrow> bool" where
  "holding_queue r acc [] \<longleftrightarrow> ch_partial r = None \<and> acc = []"
| "holding_queue r acc (q # qs) \<longleftrightarrow> holding r (q_kind q) (q_msgno q) (q_ansno q) acc"

lemma to_deliver_Nil: "to_deliver [] qs = map (\<lambda>q. message_of q []) qs"
  by (cases qs) simp_all

lemma holding_queue_fresh: "ch_partial r = None \<Longrightarrow> holding_queue r [] qs"
  by (cases qs) (simp_all add: holding_def)

lemma accept_all_append:
  "accept_all r (fs @ gs) =
     bind_st (accept_all r fs) (\<lambda>r ms. bind_st (accept_all r gs) (\<lambda>r ns. (r, Inr (ms @ ns))))"
proof (induction fs arbitrary: r)
  case Nil
  have "bind_st x (\<lambda>r ns. (r, Inr ns)) = x" for x :: "channel \<times> (error + message list)"
    by (auto simp: bind_st_def split: prod.split sum.split)
  then show ?case by simp
next
  case (Cons f fs)
  then show ?case
    by (auto simp: bind_st_def split: prod.split sum.split option.split)
qed

lemma foldl_encode:
  "foldl (\<lambda>dst f. encode_data f dst) out fs = out @ concat (map (\<lambda>f. encode_data f []) fs)"
  by (induction fs arbitrary: out) (simp_all add: encode_data_eq)

text \<open>Both ends stay in step over an emission and its acceptance.\<close>

lemma in_step_emit:
  assumes "in_step s r" and "emit s k m a payload mfs = (s', Inr e)"
  shows "in_step s' (received r k m a p (ch_next_seqno s') acc)"
proof -
  have s: "sendable s k m a" by (rule emit_Inr_sendable [OF assms(2)])
  show ?thesis
  proof (cases "payload = []")
    case True
    with assms emit_empty [OF s] show ?thesis by (auto simp: in_step_def received_def)
  next
    case False
    have w: "writable s \<noteq> 0" using assms(2) emit_stalled [OF s False] by auto
    let ?n = "cut_at s payload"
    have s': "s' = s\<lparr>ch_next_seqno := advance (ch_next_seqno s) (of_nat ?n)\<rparr>"
      using assms(2) emit_data [OF s False w] by simp
    have n: "?n \<le> unat (writable s)" by (rule cut_le_writable)
    note wr = writable_after [OF n, folded s']
    let ?d = "distance_from (ch_expected_seqno r) (w_base (ch_recv_window r))"
    have room: "unat ?d + unat (writable s) \<le> unat (w_size (ch_recv_window r))"
      and eq: "ch_next_seqno s = ch_expected_seqno r" "ch_number s = ch_number r"
      using assms(1) by (simp_all add: in_step_def)
    have "unat ?d + ?n < 4294967296" "?n < 4294967296"
      using n room unat_u32_lt [of "w_size (ch_recv_window r)"] by linarith+
    then have "unat (distance_from (ch_next_seqno s') (w_base (ch_recv_window r))) = unat ?d + ?n"
      by (simp add: s' eq seq_counter.dist_adv_left unat_u32_add_lt unat_of_nat_u32)
    with wr room n eq(2) show ?thesis by (simp add: in_step_def received_def) (simp add: s')
  qed
qed

lemma sendable_only_seqno: "only_seqno c c' \<Longrightarrow> sendable_entry c' = sendable_entry c"
  unfolding only_seqno_def sendable_entry_def by (metis sendable_next_seqno)

lemma flush_loop_delivers:
  assumes "\<forall>q \<in> set queue. sendable_entry c q" and "in_step c r" and "holding_queue r acc queue"
  shows "\<exists>c' queue' frames r' msgs acc'.
      flush_loop mfs c out queue = ((c', out @ concat (map (\<lambda>f. encode_data f []) frames), queue'), Inr ()) \<and>
      accept_all r frames = (r', Inr msgs) \<and>
      to_deliver acc queue = msgs @ to_deliver acc' queue' \<and>
      in_step c' r' \<and> holding_queue r' acc' queue' \<and> blocked c' queue' \<and> (queue = [] \<longrightarrow> r' = r)"
  using assms
proof (induction queue arbitrary: c r acc out)
  case Nil
  then show ?case by (intro exI [of _ c] exI [of _ "[]"] exI [of _ r]) (simp add: blocked_def)
next
  case (Cons q queue)
  let ?emit = "emit c (q_kind q) (q_msgno q) (q_ansno q) (q_payload q) mfs"
  have s: "sendable c (q_kind q) (q_msgno q) (q_ansno q)" using Cons.prems(1) by (simp add: sendable_entry_def)
  show ?case
  proof (cases "is_stalled c \<and> q_payload q \<noteq> []")
    case True
    with Cons.prems(2,3) show ?thesis
      by (intro exI [of _ c] exI [of _ "q # queue"] exI [of _ "[]"] exI [of _ r] exI [of _ acc]) (simp add: blocked_def)
  next
    case False
    obtain c1 em where em: "?emit = (c1, Inr em)"
      using False emit_data [OF s] emit_empty [OF s] by (cases "q_payload q = []") (auto simp: is_stalled_def)
    let ?more = "em_remaining em \<noteq> []"
    from emit_accept_all [OF s Cons.prems(2) _ em, of acc] Cons.prems(3) obtain sent where
      sent: "q_payload q = sent @ em_remaining em" and
      acc1: "accept_all r (em_frames em) =
        (received r (q_kind q) (q_msgno q) (q_ansno q) ?more (ch_next_seqno c1) (acc @ sent),
         Inr (if ?more then [] else [message_of q acc]))" by (auto simp: message_of_def)
    let ?r = "received r (q_kind q) (q_msgno q) (q_ansno q) ?more (ch_next_seqno c1) (acc @ sent)"
    have step: "in_step c1 ?r" by (rule in_step_emit [OF Cons.prems(2) em])
    let ?out = "out @ concat (map (\<lambda>f. encode_data f []) (em_frames em))"
    show ?thesis
    proof (cases ?more)
      case True
      have "flush_loop mfs c out (q # queue) = ((c1, ?out, q\<lparr>q_payload := em_remaining em\<rparr> # queue), Inr ())"
        using False em True by (auto simp: foldl_encode is_complete_def)
      moreover have "blocked c1 (q\<lparr>q_payload := em_remaining em\<rparr> # queue)"
        using emit_incomplete [OF em True] True by (simp add: blocked_def)
      ultimately show ?thesis
        using True acc1 step sent
        by (intro exI [of _ c1] exI [of _ "q\<lparr>q_payload := em_remaining em\<rparr> # queue"] exI [of _ "em_frames em"]
            exI [of _ ?r] exI [of _ "[]"] exI [of _ "acc @ sent"])
          (simp add: message_of_def)
    next
      case whole: False
      have "\<forall>q \<in> set queue. sendable_entry c1 q"
        using Cons.prems(1) sendable_only_seqno [OF emit_only_seqno, of c] em by (metis fst_conv list.set_intros(2))
      moreover have "holding_queue ?r [] queue" using whole by (intro holding_queue_fresh) (simp add: received_def)
      ultimately obtain c' queue' frames r' msgs acc' where IH:
        "flush_loop mfs c1 ?out queue = ((c', ?out @ concat (map (\<lambda>f. encode_data f []) frames), queue'), Inr ())"
        "accept_all ?r frames = (r', Inr msgs)" "to_deliver [] queue = msgs @ to_deliver acc' queue'"
        "in_step c' r'" "holding_queue r' acc' queue'" "blocked c' queue'"
        using Cons.IH [of c1 ?r "[]" ?out] step by blast
      have "flush_loop mfs c out (q # queue) =
          ((c', out @ concat (map (\<lambda>f. encode_data f []) (em_frames em @ frames)), queue'), Inr ())"
        using False em whole IH(1) by (auto simp: foldl_encode is_complete_def)
      moreover have "accept_all r (em_frames em @ frames) = (r', Inr (message_of q acc # msgs))"
        using acc1 IH(2) whole by (simp add: accept_all_append)
      ultimately show ?thesis using IH(3-6) to_deliver_Nil [of queue] by fastforce
    qed
  qed
qed

section \<open>Flushing a session\<close>

text \<open>A channel of the table, and the octets queued for it.\<close>

definition queue_of :: "session \<Rightarrow> u32 \<Rightarrow> queued list" where
  "queue_of s n = or_empty (s_queues s n)"

lemma flush_open:
  assumes "n \<noteq> GREETING_CHANNEL" and "s_channels s n = Some c" and "s_queues s n = Some q"
    and "flush_loop (cf_max_frame_size (s_config s)) c (s_outbound s) q = ((c', out', q'), r)"
  shows "flush n s = ((put_channel n c' s)\<lparr>s_outbound := out', s_queues := (s_queues s)(n \<mapsto> q')\<rparr>, r)"
  using assms by (simp add: flush_def)

lemma enqueue_queued:
  "enqueue n (q_kind q) (q_msgno q) (q_ansno q) (q_payload q) s =
     s\<lparr>s_queues := (s_queues s)(n \<mapsto> queue_of s n @ [q])\<rparr>"
proof -
  have "\<lparr>q_kind = q_kind q, q_msgno = q_msgno q, q_ansno = q_ansno q, q_payload = q_payload q\<rparr> = q"
    by simp
  then show ?thesis by (simp only: enqueue_def queue_of_def)
qed

lemma enqueue_all_eq:
  "enqueue_all n (q # qs) s = s\<lparr>s_queues := (s_queues s)(n \<mapsto> queue_of s n @ q # qs)\<rparr>"
proof (induction qs arbitrary: q s)
  case Nil
  show ?case by (simp only: enqueue_all_def enqueue_queued fold.simps o_apply id_apply)
next
  case (Cons p qs)
  have "enqueue_all n (q # p # qs) s = enqueue_all n (p # qs) (enqueue_all n [q] s)"
    by (simp add: enqueue_all_def)
  also have "enqueue_all n [q] s = s\<lparr>s_queues := (s_queues s)(n \<mapsto> queue_of s n @ [q])\<rparr>"
    by (simp only: enqueue_all_def enqueue_queued fold.simps o_apply id_apply)
  also have "enqueue_all n (p # qs) (s\<lparr>s_queues := (s_queues s)(n \<mapsto> queue_of s n @ [q])\<rparr>) =
      s\<lparr>s_queues := (s_queues s)(n \<mapsto> queue_of s n @ q # p # qs)\<rparr>"
    unfolding Cons.IH by (simp add: queue_of_def or_empty_def)
  finally show ?case .
qed

text \<open>Writing in two goes is writing in one: the order of what leaves is the order of the queue.\<close>

lemma flush_enqueue_flush:
  assumes "n \<noteq> GREETING_CHANNEL" and "s_channels s n = Some c" and "s_queues s n = Some q"
    and "flush n s = (s1, Inr ())"
  shows "flush n (enqueue_all n (x # xs) s1) = flush n (enqueue_all n (x # xs) s)"
proof -
  let ?mfs = "cf_max_frame_size (s_config s)"
  obtain c1 o1 q1 r where l: "flush_loop ?mfs c (s_outbound s) q = ((c1, o1, q1), r)" by (metis prod.collapse)
  with assms flush_open [OF assms(1-3) l]
  have s1: "s1 = (put_channel n c1 s)\<lparr>s_outbound := o1, s_queues := (s_queues s)(n \<mapsto> q1)\<rparr>"
    and r: "r = Inr ()" by simp_all
  have again: "flush_loop ?mfs c1 o1 (q1 @ x # xs) = flush_loop ?mfs c (s_outbound s) (q @ x # xs)"
    using flush_loop_again l r by blast
  obtain c2 o2 q2 r2 where l2: "flush_loop ?mfs c (s_outbound s) (q @ x # xs) = ((c2, o2, q2), r2)"
    by (metis prod.collapse)
  show ?thesis
    using assms(1-3) again l2
    by (simp add: enqueue_all_eq s1 flush_def queue_of_def or_empty_def put_channel_def)
qed

section \<open>Replies in arrival order\<close>

text \<open>
  What releasing amounts to, for one channel: walk the messages still to be answered in the
  order they arrived, and let out what is held for each until one has no complete reply yet.
\<close>

fun released :: "u32 list \<Rightarrow> (u32 \<rightharpoonup> queued list) \<Rightarrow> queued list \<times> u32 list \<times> (u32 \<rightharpoonup> queued list)" where
  "released [] h = ([], [], h)"
| "released (m # ms) h =
     (case h m of
        None \<Rightarrow> ([], m # ms, h)
      | Some qs \<Rightarrow>
          if list_ex (\<lambda>q. completes_reply (q_kind q)) qs
          then (case released ms (h(m := None)) of (out, ms', h') \<Rightarrow> (qs @ out, ms', h'))
          else (qs, m # ms, h(m := None)))"

definition with_replies :: "u32 \<Rightarrow> u32 list \<Rightarrow> (u32 \<rightharpoonup> queued list) \<Rightarrow> session \<Rightarrow> session" where
  "with_replies ch order h s =
     s\<lparr>s_reply_order := (s_reply_order s)(ch \<mapsto> order), s_held_replies := (s_held_replies s)(ch \<mapsto> h)\<rparr>"

lemma flush_with_replies:
  "flush n (with_replies ch order h s) = map_prod (with_replies ch order h) id (flush n s)"
  by (auto simp: flush_def with_replies_def put_channel_def split: option.split prod.split)

lemma enqueue_all_with_replies:
  "enqueue_all n qs (with_replies ch order h s) = with_replies ch order h (enqueue_all n qs s)"
  by (cases qs) (simp_all add: enqueue_all_eq with_replies_def queue_of_def, simp add: enqueue_all_def)

lemma with_replies_idem [simp]: "with_replies ch o1 h1 (with_replies ch o2 h2 s) = with_replies ch o1 h1 s"
  by (simp add: with_replies_def)

lemma with_replies_select [simp]:
  "s_reply_order (with_replies ch ord h s) ch = Some ord" "s_held_replies (with_replies ch ord h s) ch = Some h"
  "s_channels (with_replies ch ord h s) = s_channels s" "s_queues (with_replies ch ord h s) = s_queues s"
  by (simp_all add: with_replies_def)

definition quiet :: "u32 \<Rightarrow> session \<Rightarrow> bool" where
  "quiet ch s \<longleftrightarrow> ch \<noteq> GREETING_CHANNEL \<and> s_channels s ch \<noteq> None \<and> s_queues s ch \<noteq> None \<and> flush ch s = (s, Inr ())"

lemma flush_quiet:
  assumes "ch \<noteq> GREETING_CHANNEL" and "s_channels s ch \<noteq> None" and "s_queues s ch \<noteq> None" and "flush ch s = (s1, Inr ())"
  shows "quiet ch s1"
proof -
  obtain c q where c: "s_channels s ch = Some c" and q: "s_queues s ch = Some q" using assms by blast
  let ?mfs = "cf_max_frame_size (s_config s)"
  obtain c1 o1 q1 r where l: "flush_loop ?mfs c (s_outbound s) q = ((c1, o1, q1), r)" by (metis prod.collapse)
  with assms flush_open [OF assms(1) c q l]
  have s1: "s1 = (put_channel ch c1 s)\<lparr>s_outbound := o1, s_queues := (s_queues s)(ch \<mapsto> q1)\<rparr>"
    and r: "r = Inr ()" by simp_all
  have "flush_loop ?mfs c1 o1 q1 = ((c1, o1, q1), Inr ())"
    using flush_loop_again [of ?mfs c "s_outbound s" q c1 o1 q1 "()" "[]"] l r by simp
  then show ?thesis
    using assms(1) by (simp add: quiet_def s1 flush_def put_channel_def)
qed

lemma enqueue_all_append: "enqueue_all n (xs @ ys) s = enqueue_all n ys (enqueue_all n xs s)"
  by (simp add: enqueue_all_def)

lemma enqueue_all_channels [simp]: "s_channels (enqueue_all n qs s) = s_channels s"
  by (cases qs) (simp_all add: enqueue_all_eq, simp add: enqueue_all_def)

lemma enqueue_all_queues: "s_queues s n \<noteq> None \<Longrightarrow> s_queues (enqueue_all n qs s) n \<noteq> None"
  by (cases qs) (simp_all add: enqueue_all_eq, simp add: enqueue_all_def)

text \<open>Flushing after each batch leaves the session as flushing once after all of them.\<close>

lemma flush_batches:
  assumes "ch \<noteq> GREETING_CHANNEL" and "s_channels s ch \<noteq> None" and "s_queues s ch \<noteq> None" and "flush ch s = (s1, Inr ())"
  shows "flush ch (enqueue_all ch qs s1) = flush ch (enqueue_all ch qs s)"
proof (cases qs)
  case Nil
  have "quiet ch s1" by (rule flush_quiet [OF assms])
  with Nil assms(4) show ?thesis by (simp add: enqueue_all_def quiet_def)
next
  case (Cons x xs)
  with assms flush_enqueue_flush [OF assms(1) _ _ assms(4)] show ?thesis by auto
qed

lemma with_replies_same:
  "s_reply_order s ch = Some ord \<Longrightarrow> s_held_replies s ch = Some h \<Longrightarrow> with_replies ch ord h s = s"
  by (simp add: with_replies_def map_upd_triv)

lemma quiet_with_replies [simp]: "quiet ch (with_replies ch ord h s) \<longleftrightarrow> quiet ch s"
proof -
  have "flush ch (with_replies ch ord h s) = (with_replies ch ord h s, Inr ()) \<longleftrightarrow>
      (\<exists>s'. flush ch s = (s', Inr ()) \<and> with_replies ch ord h s' = with_replies ch ord h s)"
    by (auto simp: flush_with_replies) (cases "flush ch s", auto)
  moreover have "s' = s" if "flush ch s = (s', Inr ())" "with_replies ch ord h s' = with_replies ch ord h s" for s'
  proof -
    have "s_reply_order s' = s_reply_order s" "s_held_replies s' = s_held_replies s"
      using that(1) by (auto simp: flush_def put_channel_def split: option.splits if_splits prod.splits)
    with that(2) show ?thesis by (cases s; cases s') (simp add: with_replies_def)
  qed
  ultimately show ?thesis by (auto simp: quiet_def)
qed

lemma release_loop_released:
  assumes "quiet ch s" and "s_reply_order s ch = Some ord" and "s_held_replies s ch = Some h"
    and "release_loop ch s = (s', Inr ())"
  shows "\<exists>s1. flush ch (enqueue_all ch (fst (released ord h)) s) = (s1, Inr ()) \<and>
    s' = with_replies ch (fst (snd (released ord h))) (snd (snd (released ord h))) s1"
  using assms
proof (induction ord arbitrary: s h)
  case Nil
  then have "s' = s" by (simp add: release_loop.simps or_empty_def)
  with Nil show ?case by (simp add: enqueue_all_def quiet_def with_replies_same)
next
  case (Cons m ms)
  show ?case
  proof (cases "h m")
    case None
    with Cons.prems have "s' = s" by (simp add: release_loop.simps or_empty_def)
    with Cons.prems None show ?thesis by (simp add: enqueue_all_def quiet_def with_replies_same)
  next
    case (Some qs)
    let ?h = "h(m := None)" and ?s = "with_replies ch (m # ms) (h(m := None)) s"
    let ?fin = "list_ex (\<lambda>q. completes_reply (q_kind q)) qs"
    have s: "s\<lparr>s_held_replies := (s_held_replies s)(ch \<mapsto> ?h)\<rparr> = ?s"
      using Cons.prems(2) by (simp add: with_replies_def map_upd_triv)
    obtain s2 r where f: "flush ch (enqueue_all ch qs s) = (s2, r)" by fastforce
    have f': "flush ch (enqueue_all ch qs ?s) = (with_replies ch (m # ms) ?h s2, r)"
      by (simp add: enqueue_all_with_replies flush_with_replies f)
    have loop: "(s', Inr ()) = bind_st (flush ch (enqueue_all ch qs ?s)) (\<lambda>s _.
        if \<not> ?fin then (s, Inr ()) else release_loop ch (pop_order ch s))"
      using Cons.prems(2,3,4) Some by (subst (asm) release_loop.simps) (simp add: or_empty_def s Let_def)
    then have r: "r = Inr ()" unfolding f' by (cases r) auto
    show ?thesis
    proof (cases ?fin)
      case False
      with loop f' r have "s' = with_replies ch (m # ms) ?h s2" by simp
      with False Some f r show ?thesis by (simp add: fun_upd_def)
    next
      case True
      let ?s3 = "with_replies ch ms ?h s2"
      have open_: "ch \<noteq> GREETING_CHANNEL" "s_channels s ch \<noteq> None" "s_queues s ch \<noteq> None"
        using Cons.prems(1) by (auto simp: quiet_def)
      have pop: "pop_order ch (with_replies ch (m # ms) ?h s2) = ?s3"
        by (simp add: pop_order_def) (simp add: with_replies_def)
      have rel: "release_loop ch ?s3 = (s', Inr ())"
        using loop True unfolding f' r by (simp add: pop)
      have "quiet ch s2"
        using flush_quiet [OF open_(1), of "enqueue_all ch qs s" s2] open_ f r by (simp add: enqueue_all_queues)
      then obtain s1 where s1: "flush ch (enqueue_all ch (fst (released ms ?h)) ?s3) = (s1, Inr ())"
        and s': "s' = with_replies ch (fst (snd (released ms ?h))) (snd (snd (released ms ?h))) s1"
        using Cons.IH [OF _ _ _ rel] by auto
      obtain s4 where s4: "flush ch (enqueue_all ch (fst (released ms ?h)) s2) = (s4, Inr ())"
        "s1 = with_replies ch ms ?h s4"
        using s1 by (auto simp: enqueue_all_with_replies flush_with_replies)
          (cases "flush ch (enqueue_all ch (fst (released ms ?h)) s2)", auto)
      have "flush ch (enqueue_all ch (qs @ fst (released ms ?h)) s) = (s4, Inr ())"
        using flush_batches [OF open_(1), of "enqueue_all ch qs s" s2 "fst (released ms ?h)"] s4(1) f r open_
        by (simp add: enqueue_all_append enqueue_all_queues)
      with True Some s' s4(2) show ?thesis by (simp add: case_prod_beta)
    qed
  qed
qed

definition finished_reply :: "queued list \<Rightarrow> bool" where
  "finished_reply qs \<longleftrightarrow> list_ex (\<lambda>q. completes_reply (q_kind q)) qs"

text \<open>The replies still held once those of \<open>ms\<close> have gone out.\<close>

definition held_but :: "u32 set \<Rightarrow> (u32 \<rightharpoonup> queued list) \<Rightarrow> u32 \<rightharpoonup> queued list" where
  "held_but ms h = (\<lambda>m. if m \<in> ms then None else h m)"

lemma released_prefix:
  assumes "distinct ms" and "released ms h = (out, ms', h')"
  shows "\<exists>answered part. ms = answered @ ms' \<and> out = concat (map (\<lambda>m. the (h m)) answered) @ part \<and>
    (\<forall>m \<in> set answered. \<exists>qs. h m = Some qs \<and> finished_reply qs) \<and>
    part = (case ms' of [] \<Rightarrow> [] | m # _ \<Rightarrow> or_empty (h m)) \<and> \<not> finished_reply part \<and>
    h' = held_but (set answered \<union> set (take 1 ms')) h"
  using assms
proof (induction ms arbitrary: h out)
  case (Cons m ms)
  show ?case
  proof (cases "h m")
    case None
    with Cons.prems have "ms' = m # ms" "out = []" "h' = held_but {m} h"
      by (auto simp: held_but_def)
    with None show ?thesis
      by (intro exI [of _ "[]"]) (simp add: or_empty_def finished_reply_def)
  next
    case (Some qs)
    show ?thesis
    proof (cases "finished_reply qs")
      case False
      with Some Cons.prems have "ms' = m # ms" "out = qs" "h' = held_but {m} h"
        by (auto simp: held_but_def finished_reply_def)
      with False Some show ?thesis
        by (intro exI [of _ "[]"] exI [of _ qs]) (simp add: or_empty_def)
    next
      case True
      obtain out1 where r: "released ms (h(m := None)) = (out1, ms', h')" and out: "out = qs @ out1"
        using True Some Cons.prems(2) by (auto simp: finished_reply_def split: prod.splits)
      have "distinct ms" using Cons.prems(1) by simp
      from Cons.IH [OF this r] obtain answered part where
        a: "ms = answered @ ms'" "out1 = concat (map (\<lambda>m'. the ((h(m := None)) m')) answered) @ part"
        "\<forall>m' \<in> set answered. \<exists>qs. (h(m := None)) m' = Some qs \<and> finished_reply qs"
        "part = (case ms' of [] \<Rightarrow> [] | m1 # _ \<Rightarrow> or_empty ((h(m := None)) m1))" "\<not> finished_reply part"
        "h' = held_but (set answered \<union> set (take 1 ms')) (h(m := None))" by blast
      have nm: "m \<notin> set answered" "m \<notin> set ms'" using Cons.prems(1) a(1) by auto
      have eq: "map (\<lambda>m'. the ((h(m := None)) m')) answered = map (\<lambda>m'. the (h m')) answered"
        using nm(1) by (auto intro!: map_cong)
      have "\<exists>qs. h m' = Some qs \<and> finished_reply qs" if "m' \<in> set (m # answered)" for m'
        using that Some True a(3) nm(1) by (auto split: if_splits)
      moreover have "part = (case ms' of [] \<Rightarrow> [] | m1 # _ \<Rightarrow> or_empty (h m1))"
        using a(4) nm(2) by (auto split: list.splits)
      moreover have "out = concat (map (\<lambda>m'. the (h m')) (m # answered)) @ part"
        unfolding out a(2) eq using Some by simp
      moreover have "h' = held_but (set (m # answered) \<union> set (take 1 ms')) h"
        using a(6) by (auto simp: held_but_def fun_eq_iff)
      ultimately show ?thesis using a(1,5) by (intro exI [of _ "m # answered"] exI [of _ part]) simp
    qed
  qed
qed (simp add: held_but_def finished_reply_def)

lemma send_next_reply:
  assumes "ch \<noteq> GREETING_CHANNEL" and "s_channels s ch = Some c" and "s_reply_order s ch = Some (msgno # ms)"
    and "s_held_replies s ch = Some h" and "kind \<in> {Rpy, Err}" and "send ch kind msgno None payload s = (s', Inr ())"
  shows "\<exists>s1. flush ch (enqueue_all ch (\<lparr>q_kind = kind, q_msgno = msgno, q_ansno = None, q_payload = payload\<rparr> #
        fst (released ms h)) s) = (s1, Inr ()) \<and>
    s' = with_replies ch (fst (snd (released ms h))) (snd (snd (released ms h))) s1"
proof -
  let ?q = "\<lparr>q_kind = kind, q_msgno = msgno, q_ansno = None, q_payload = payload\<rparr>"
  let ?e = "enqueue_all ch [?q] s"
  have e: "enqueue ch kind msgno None payload s = ?e" by (simp add: enqueue_all_def)
  have put: "put_channel ch c s = s" using assms(2) by (simp add: put_channel_def map_upd_triv)
  have kind: "is_reply kind" "completes_reply kind" "kind \<noteq> Ans" "kind \<noteq> Nul" using assms(5) by auto
  have next': "is_next_reply s ch msgno" using assms(3) by (simp add: is_next_reply_def or_empty_def)
  have "send ch kind msgno None payload s = bind_st (flush ch ?e) (\<lambda>s _. reply_finished ch msgno s)"
    unfolding send_def using assms(2) kind next' put by (simp add: e Let_def)
  with assms(6) obtain s2 where f: "flush ch ?e = (s2, Inr ())" and rf: "reply_finished ch msgno s2 = (s', Inr ())"
    by (auto simp: bind_st_Inr_iff)
  have e_open: "s_channels ?e ch \<noteq> None" "s_queues ?e ch \<noteq> None"
    using assms(2) by (simp_all add: enqueue_all_eq)
  have q2: "quiet ch s2" by (rule flush_quiet [OF assms(1) e_open f])
  have keep: "s_reply_order s2 ch = Some (msgno # ms)" "s_held_replies s2 ch = Some h"
    using f assms(3,4) by (auto simp: flush_def put_channel_def enqueue_all_eq split: option.splits if_splits prod.splits)
  have "pop_order ch s2 = with_replies ch ms h s2"
    using keep by (simp add: pop_order_def with_replies_def map_upd_triv)
  with rf keep have "release_loop ch (with_replies ch ms h s2) = (s', Inr ())" by (simp add: reply_finished_def)
  from release_loop_released [OF _ _ _ this, of ms h] q2 obtain s3 where
    s3: "flush ch (enqueue_all ch (fst (released ms h)) (with_replies ch ms h s2)) = (s3, Inr ())"
    and s': "s' = with_replies ch (fst (snd (released ms h))) (snd (snd (released ms h))) s3" by auto
  then obtain s4 where s4: "flush ch (enqueue_all ch (fst (released ms h)) s2) = (s4, Inr ())" "s3 = with_replies ch ms h s4"
    by (auto simp: enqueue_all_with_replies flush_with_replies)
      (cases "flush ch (enqueue_all ch (fst (released ms h)) s2)", auto)
  have "flush ch (enqueue_all ch ([?q] @ fst (released ms h)) s) = (s4, Inr ())"
    unfolding enqueue_all_append using flush_batches [OF assms(1) e_open f] s4(1) by simp
  with s' s4(2) show ?thesis by auto
qed

section \<open>Writing succeeds\<close>

text \<open>Entries within the limits of the wire: everything queued or held for a channel.\<close>

definition all_sendable :: "u32 \<Rightarrow> session \<Rightarrow> bool" where
  "all_sendable ch s \<longleftrightarrow>
     (\<exists>c. s_channels s ch = Some c \<and> (\<forall>q \<in> set (queue_of s ch). sendable_entry c q) \<and>
        (\<forall>h m qs. s_held_replies s ch = Some h \<longrightarrow> h m = Some qs \<longrightarrow> (\<forall>q \<in> set qs. sendable_entry c q)))"

lemma flush_loop_only_seqno: "only_seqno c (fst (fst (flush_loop mfs c out q)))"
proof (induction mfs c out q rule: flush_loop.induct)
  case (2 mfs c out front rest)
  let ?emit = "emit c (q_kind front) (q_msgno front) (q_ansno front) (q_payload front) mfs"
  have "only_seqno c (fst ?emit)" by (rule emit_only_seqno)
  moreover have "only_seqno c x" if "only_seqno c (fst ?emit)" "only_seqno (fst ?emit) x" for x
    using that by (metis only_seqno_def only_seqno_update)
  ultimately show ?case using 2 by (auto simp: Let_def split: prod.split sum.split)
qed simp

lemma flush_loop_ok:
  "\<forall>q \<in> set queue. sendable_entry c q \<Longrightarrow>
     snd (flush_loop mfs c out queue) = Inr () \<and>
     (\<forall>q \<in> set (snd (snd (fst (flush_loop mfs c out queue)))). sendable_entry c q)"
proof (induction mfs c out queue rule: flush_loop.induct)
  case (2 mfs c out front rest)
  let ?emit = "emit c (q_kind front) (q_msgno front) (q_ansno front) (q_payload front) mfs"
  have s: "sendable c (q_kind front) (q_msgno front) (q_ansno front)" using 2(2) by (simp add: sendable_entry_def)
  show ?case
  proof (cases "is_stalled c \<and> q_payload front \<noteq> []")
    case True
    with 2(2) show ?thesis by simp
  next
    case False
    obtain c1 em where em: "?emit = (c1, Inr em)"
      using False emit_data [OF s] emit_empty [OF s] by (cases "q_payload front = []") (auto simp: is_stalled_def)
    have same: "sendable_entry c1 = sendable_entry c"
      using sendable_only_seqno [OF emit_only_seqno] em by (metis fst_conv)
    then show ?thesis using 2 False em s by (auto simp: Let_def sendable_entry_def)
  qed
qed simp

lemma flush_all_sendable:
  assumes "ch \<noteq> GREETING_CHANNEL" and "all_sendable ch s"
  shows "\<exists>s'. flush ch s = (s', Inr ()) \<and> all_sendable ch s' \<and>
    s_reply_order s' = s_reply_order s \<and> s_held_replies s' = s_held_replies s"
proof (cases "s_queues s ch")
  case None
  with assms show ?thesis by (simp add: flush_def)
next
  case (Some q)
  from assms(2) obtain c where c: "s_channels s ch = Some c" "\<forall>q \<in> set (queue_of s ch). sendable_entry c q"
    "\<forall>h m qs. s_held_replies s ch = Some h \<longrightarrow> h m = Some qs \<longrightarrow> (\<forall>q \<in> set qs. sendable_entry c q)"
    by (auto simp: all_sendable_def)
  let ?mfs = "cf_max_frame_size (s_config s)"
  obtain c' out' q' r where l: "flush_loop ?mfs c (s_outbound s) q = ((c', out', q'), r)" by (metis prod.collapse)
  have q: "\<forall>q \<in> set q. sendable_entry c q" using c(2) Some by (simp add: queue_of_def or_empty_def)
  have "r = Inr ()" "\<forall>q \<in> set q'. sendable_entry c q"
    using flush_loop_ok [OF q, of ?mfs "s_outbound s"] l by simp_all
  moreover have "sendable_entry c' = sendable_entry c"
    using sendable_only_seqno [OF flush_loop_only_seqno [of c ?mfs "s_outbound s" q]] l by simp
  ultimately show ?thesis
    using flush_open [OF assms(1) c(1) Some l] c(3)
    by (simp add: all_sendable_def put_channel_def queue_of_def or_empty_def)
qed

lemma enqueue_all_sendable:
  assumes "all_sendable ch s" and "s_channels s ch = Some c" and "\<forall>q \<in> set qs. sendable_entry c q"
  shows "all_sendable ch (enqueue_all ch qs s)"
proof (cases qs)
  case Nil
  with assms(1) show ?thesis by (simp add: enqueue_all_def)
next
  case (Cons x xs)
  with assms show ?thesis by (auto simp: enqueue_all_eq all_sendable_def queue_of_def or_empty_def)
qed

lemma release_loop_ok:
  "ch \<noteq> GREETING_CHANNEL \<Longrightarrow> all_sendable ch s \<Longrightarrow> snd (release_loop ch s) = Inr ()"
proof (induction ch s rule: release_loop.induct)
  case (1 ch s)
  show ?case
  proof (cases "\<exists>nxt rest h held. or_empty (s_reply_order s ch) = nxt # rest \<and> s_held_replies s ch = Some h \<and> h nxt = Some held")
    case False
    then show ?thesis by (subst release_loop.simps) (auto split: list.split option.split)
  next
    case True
    then obtain nxt rest h held where t: "or_empty (s_reply_order s ch) = nxt # rest" "s_held_replies s ch = Some h"
      "h nxt = Some held" by blast
    let ?s = "s\<lparr>s_held_replies := (s_held_replies s)(ch \<mapsto> h(nxt := None))\<rparr>"
    from "1.prems"(2) obtain c where c: "s_channels s ch = Some c" "\<forall>q \<in> set held. sendable_entry c q"
      using t(2,3) by (auto simp: all_sendable_def)
    have "all_sendable ch ?s" using "1.prems"(2) t(2) by (auto simp: all_sendable_def queue_of_def)
    then have "all_sendable ch (enqueue_all ch held ?s)" by (rule enqueue_all_sendable) (use c in simp_all)
    from flush_all_sendable [OF "1.prems"(1) this] obtain s' where
      s': "flush ch (enqueue_all ch held ?s) = (s', Inr ())" "all_sendable ch s'" by blast
    have pop: "all_sendable ch (pop_order ch s')"
      using s'(2) by (auto simp: pop_order_def all_sendable_def queue_of_def split: option.split)
    show ?thesis
      using "1.IH" [OF t(1) t(2) t(3) refl refl s'(1)] "1.prems"(1) pop t s'(1)
      by (subst release_loop.simps) (simp add: Let_def)
  qed
qed

section \<open>Properties\<close>

text \<open>A listener with channel 1 open, two messages to answer and the second answered early.\<close>

definition sample_reply :: queued where
  "sample_reply = \<lparr>q_kind = Rpy, q_msgno = 6, q_ansno = None, q_payload = ''late''\<rparr>"

definition sample_session :: session where
  "sample_session =
     (session_init (config_new Listener))\<lparr>s_channels := [1 \<mapsto> channel_new 1 ''p''],
        s_queues := [1 \<mapsto> [sample_reply]], s_reply_order := [1 \<mapsto> [5, 6]], s_held_replies := [1 \<mapsto> [6 \<mapsto> [sample_reply]]]\<rparr>"

lemma sample_simps:
  "s_channels sample_session 1 = Some (channel_new 1 ''p'')" "s_queues sample_session 1 = Some [sample_reply]"
  "s_reply_order sample_session 1 = Some [5, 6]" "s_held_replies sample_session 1 = Some [6 \<mapsto> [sample_reply]]"
  "sendable_entry (channel_new 1 ''p'') sample_reply"
  by (simp_all add: sample_session_def sendable_entry_def sendable_def sample_reply_def channel_new_def
      channel_with_window_size_def limit_defs has_ansno_def)

lemma channel_new_in_step: "in_step (channel_new n p) (channel_new n p)"
  by (simp add: in_step_def writable_def channel_new_def channel_with_window_size_def remaining_def
      saturating_sub_def distance_from_def INITIAL_WINDOW_SIZE_def)

text \<open>
  C2 (refinement). A channel's outgoing queue is a first-in first-out stream to the peer.
  \<open>flush\<close> never fails on entries within the wire's limits; it appends frames to the outbound
  octets which the channel at the other end, being in step, accepts one by one; the messages
  delivered there followed by those still owed by the remaining queue are exactly, and in
  order, the messages owed before; and it stops only when the queue is empty or the peer's
  window is used up.
\<close>

theorem flush_fifo:
  assumes "n \<noteq> GREETING_CHANNEL" and "s_channels s n = Some c" and "s_queues s n = Some q"
    and "\<forall>x \<in> set q. sendable_entry c x" and "in_step c r" and "holding_queue r acc q"
  shows "\<exists>s' frames c' q' r' msgs acc'. flush n s = (s', Inr ()) \<and>
      s_outbound s' = s_outbound s @ concat (map (\<lambda>f. encode_data f []) frames) \<and>
      s_channels s' = (s_channels s)(n \<mapsto> c') \<and> s_queues s' = (s_queues s)(n \<mapsto> q') \<and>
      accept_all r frames = (r', Inr msgs) \<and> to_deliver acc q = msgs @ to_deliver acc' q' \<and>
      in_step c' r' \<and> holding_queue r' acc' q' \<and> (q' = [] \<or> is_stalled c')"
proof -
  let ?mfs = "cf_max_frame_size (s_config s)"
  from flush_loop_delivers [OF assms(4-6), of ?mfs "s_outbound s"] obtain c' q' frames r' msgs acc' where
    l: "flush_loop ?mfs c (s_outbound s) q =
        ((c', s_outbound s @ concat (map (\<lambda>f. encode_data f []) frames), q'), Inr ())" and
    d: "accept_all r frames = (r', Inr msgs)" "to_deliver acc q = msgs @ to_deliver acc' q'"
    "in_step c' r'" "holding_queue r' acc' q'" "blocked c' q'" by blast
  with flush_open [OF assms(1-3) l] show ?thesis
    by (intro exI [of _ "fst (flush n s)"] exI [of _ frames] exI [of _ c'] exI [of _ q'] exI [of _ r'] exI [of _ msgs]
        exI [of _ acc']) (auto simp: put_channel_def blocked_def)
qed

theorem flush_fifo_witness:
  "\<exists>s' frames c' q' r' msgs acc'. flush 1 sample_session = (s', Inr ()) \<and>
      s_outbound s' = [] @ concat (map (\<lambda>f. encode_data f []) frames) \<and>
      accept_all (channel_new 1 ''p'') frames = (r', Inr msgs) \<and>
      [message_of sample_reply []] = msgs @ to_deliver acc' q' \<and> (q' = [] \<or> is_stalled c')"
proof -
  have h: "holding_queue (channel_new 1 ''p'') [] [sample_reply]"
    by (rule holding_queue_fresh) (simp add: channel_new_def channel_with_window_size_def)
  have "s_outbound sample_session = []" by (simp add: sample_session_def session_init_def)
  moreover have "(1 :: u32) \<noteq> GREETING_CHANNEL" "\<forall>x \<in> set [sample_reply]. sendable_entry (channel_new 1 ''p'') x"
    using sample_simps(5) by (simp_all add: GREETING_CHANNEL_def)
  moreover have "to_deliver [] [sample_reply] = [message_of sample_reply []]" by simp
  ultimately show ?thesis
    using flush_fifo [of 1 sample_session, OF _ sample_simps(1,2) _ channel_new_in_step h] by metis
qed

text \<open>
  C5 (functional). A reply to the message at the front of a channel's order goes out at once
  and takes with it every finished reply that was only waiting for it, and no other. The
  messages still in the order split into \<open>answered\<close>, each of which had a finished reply held,
  and \<open>rest\<close>, whose first message has none: what goes to the wire is the new reply, then those
  of \<open>answered\<close> in the order their messages arrived, then the answers held so far for the
  message now at the front. The order is then \<open>rest\<close>, and of the replies held exactly
  those written are gone.
\<close>

theorem replies_in_order:
  assumes "ch \<noteq> GREETING_CHANNEL" and "all_sendable ch s" and "s_channels s ch = Some c"
    and "s_reply_order s ch = Some (msgno # ms)" and "distinct ms" and "s_held_replies s ch = Some h"
    and "kind \<in> {Rpy, Err}" and "msgno \<le> MAX_MSG_NO" and "ch_number c \<le> MAX_CHANNEL_NO"
  shows "\<exists>s' s1 answered part rest.
      send ch kind msgno None payload s = (s', Inr ()) \<and>
      flush ch (enqueue_all ch (\<lparr>q_kind = kind, q_msgno = msgno, q_ansno = None, q_payload = payload\<rparr> #
        concat (map (\<lambda>m. the (h m)) answered) @ part) s) = (s1, Inr ()) \<and>
      s_outbound s' = s_outbound s1 \<and> s_queues s' = s_queues s1 \<and> s_channels s' = s_channels s1 \<and>
      ms = answered @ rest \<and> s_reply_order s' ch = Some rest \<and>
      (\<forall>m \<in> set answered. \<exists>qs. h m = Some qs \<and> finished_reply qs) \<and>
      part = (case rest of [] \<Rightarrow> [] | m # _ \<Rightarrow> or_empty (h m)) \<and> \<not> finished_reply part \<and>
      s_held_replies s' ch = Some (held_but (set answered \<union> set (take 1 rest)) h)"
proof -
  let ?q = "\<lparr>q_kind = kind, q_msgno = msgno, q_ansno = None, q_payload = payload\<rparr>"
  have kind: "is_reply kind" "completes_reply kind" "kind \<noteq> Ans" "kind \<noteq> Nul" "\<not> has_ansno kind"
    using assms(7) by (auto simp: has_ansno_def)
  have "sendable_entry c ?q" using assms(8,9) kind by (simp add: sendable_entry_def sendable_def)
  then have "all_sendable ch (enqueue_all ch [?q] s)" 
    by (intro enqueue_all_sendable [OF assms(2,3)]) simp
  from flush_all_sendable [OF assms(1) this] obtain s2 where s2: "flush ch (enqueue_all ch [?q] s) = (s2, Inr ())"
    "all_sendable ch s2" "s_reply_order s2 = s_reply_order s" by auto
  have e: "enqueue ch kind msgno None payload s = enqueue_all ch [?q] s" by (simp add: enqueue_all_def)
  have "all_sendable ch (pop_order ch s2)"
    using s2(2) by (auto simp: pop_order_def all_sendable_def queue_of_def split: option.split)
  then have rel: "snd (reply_finished ch msgno s2) = Inr ()"
    using release_loop_ok [OF assms(1)] s2(3) assms(4) by (simp add: reply_finished_def)
  have put: "put_channel ch c s = s" using assms(3) by (simp add: put_channel_def map_upd_triv)
  have nxt: "is_next_reply s ch msgno" using assms(4) by (simp add: is_next_reply_def or_empty_def)
  have "send ch kind msgno None payload s = reply_finished ch msgno s2"
    unfolding send_def using assms(3) kind nxt put s2(1) by (simp add: e Let_def)
  with rel obtain s' where send: "send ch kind msgno None payload s = (s', Inr ())" by (metis prod.collapse)
  from send_next_reply [OF assms(1,3,4,6,7) send] obtain s1 where
    s1: "flush ch (enqueue_all ch (?q # fst (released ms h)) s) = (s1, Inr ())"
    "s' = with_replies ch (fst (snd (released ms h))) (snd (snd (released ms h))) s1" by blast
  have "released ms h = (fst (released ms h), fst (snd (released ms h)), snd (snd (released ms h)))" by simp
  from released_prefix [OF assms(5) this] obtain answered part where rp: "ms = answered @ fst (snd (released ms h))"
    "fst (released ms h) = concat (map (\<lambda>m. the (h m)) answered) @ part"
    "\<forall>m \<in> set answered. \<exists>qs. h m = Some qs \<and> finished_reply qs"
    "part = (case fst (snd (released ms h)) of [] \<Rightarrow> [] | m # _ \<Rightarrow> or_empty (h m))" "\<not> finished_reply part"
    "snd (snd (released ms h)) = held_but (set answered \<union> set (take 1 (fst (snd (released ms h))))) h"
    by blast
  have "s_reply_order s' ch = Some (fst (snd (released ms h)))" "s_outbound s' = s_outbound s1"
    "s_queues s' = s_queues s1" "s_channels s' = s_channels s1"
    "s_held_replies s' ch = Some (snd (snd (released ms h)))"
    by (simp_all add: s1(2)) (simp_all add: with_replies_def)
  with send s1(1) rp show ?thesis
    by (intro exI [of _ s'] exI [of _ s1] exI [of _ answered] exI [of _ part] exI [of _ "fst (snd (released ms h))"]) simp
qed

theorem replies_in_order_witness:
  "\<exists>s' s1 answered part rest.
      send 1 Rpy 5 None ''first'' sample_session = (s', Inr ()) \<and>
      flush 1 (enqueue_all 1 (\<lparr>q_kind = Rpy, q_msgno = 5, q_ansno = None, q_payload = ''first''\<rparr> #
        concat (map (\<lambda>m. the ([6 \<mapsto> [sample_reply]] m)) answered) @ part) sample_session) = (s1, Inr ()) \<and>
      s_outbound s' = s_outbound s1 \<and> [6] = answered @ rest \<and> s_reply_order s' 1 = Some rest \<and>
      answered = [6] \<and> s_held_replies s' 1 = Some Map.empty"
proof -
  have ok: "all_sendable 1 sample_session"
    using sample_simps by (auto simp: all_sendable_def queue_of_def or_empty_def split: if_splits)
  have n: "(1 :: u32) \<noteq> GREETING_CHANNEL" "distinct [6 :: u32]" "Rpy \<in> {Rpy, Err}" "(5 :: u32) \<le> MAX_MSG_NO"
    "ch_number (channel_new 1 ''p'') \<le> MAX_CHANNEL_NO"
    by (simp_all add: GREETING_CHANNEL_def limit_defs channel_new_def channel_with_window_size_def)
  from replies_in_order [OF n(1) ok sample_simps(1,3) n(2) sample_simps(4) n(3-5), of "''first''"]
  obtain s' s1 answered part rest where r:
    "send 1 Rpy 5 None ''first'' sample_session = (s', Inr ())"
    "flush 1 (enqueue_all 1 (\<lparr>q_kind = Rpy, q_msgno = 5, q_ansno = None, q_payload = ''first''\<rparr> #
        concat (map (\<lambda>m. the ([6 \<mapsto> [sample_reply]] m)) answered) @ part) sample_session) = (s1, Inr ())"
    "s_outbound s' = s_outbound s1" "[6] = answered @ rest" "s_reply_order s' 1 = Some rest"
    "part = (case rest of [] \<Rightarrow> [] | m # _ \<Rightarrow> or_empty ([6 \<mapsto> [sample_reply]] m))" "\<not> finished_reply part"
    "s_held_replies s' 1 = Some (held_but (set answered \<union> set (take 1 rest)) [6 \<mapsto> [sample_reply]])"
    by blast
  have fin: "finished_reply [sample_reply]" by (simp add: finished_reply_def sample_reply_def)
  have "answered = [6]"
    using r(4,6,7) fin by (cases answered) (auto simp: or_empty_def)
  moreover have "rest = []" using r(4) calculation by simp
  ultimately have "s_held_replies s' 1 = Some Map.empty" using r(8) by (auto simp: held_but_def)
  with r \<open>answered = [6]\<close> show ?thesis by blast
qed

text \<open>
  A reply out of turn writes nothing. While another message is at the front of
  the channel's order, sending a reply of any kind to a later one succeeds, leaves the
  outbound octets, every queue and the order itself as they were, and adds the reply at the
  end of those held for its message, an answer with the number it will be sent under.
\<close>

lemma reply_out_of_turn:
  assumes "s_channels s ch = Some c" and "s_reply_order s ch = Some (front # ms)" and "front \<noteq> msgno"
    and "is_reply kind"
  shows "\<exists>s' h q. send ch kind msgno ansno payload s = (s', Inr ()) \<and>
      s_outbound s' = s_outbound s \<and> s_queues s' = s_queues s \<and> s_reply_order s' = s_reply_order s \<and>
      s_held_replies s' = (s_held_replies s)(ch \<mapsto> h(msgno \<mapsto> or_empty (h msgno) @ [q])) \<and>
      h = (case s_held_replies s ch of None \<Rightarrow> Map.empty | Some h \<Rightarrow> h) \<and>
      q_kind q = kind \<and> q_msgno q = msgno \<and> q_payload q = payload \<and>
      q_ansno q = (if kind = Ans \<and> ansno = None then Some (snd (allocate_ansno c msgno)) else ansno)"
proof -
  let ?a = "if kind = Ans \<and> ansno = None then Some (snd (allocate_ansno c msgno)) else ansno"
  let ?c = "if kind = Ans \<and> ansno = None then fst (allocate_ansno c msgno)
            else if kind = Nul then finish_answers c msgno else c"
  let ?q = "\<lparr>q_kind = kind, q_msgno = msgno, q_ansno = ?a, q_payload = payload\<rparr>"
  have "\<not> is_next_reply (put_channel ch c' s) ch msgno" for c'
    using assms(2,3) by (simp add: is_next_reply_def or_empty_def put_channel_def)
  with assms(1,4) have "send ch kind msgno ansno payload s = (hold_reply ch ?q (put_channel ch ?c s), Inr ())"
    by (simp add: send_def Let_def case_prod_beta)
  then show ?thesis
    by (intro exI [of _ "hold_reply ch ?q (put_channel ch ?c s)"] exI [of _ ?q] exI
        [of _ "case s_held_replies s ch of None \<Rightarrow> Map.empty | Some h \<Rightarrow> h"])
      (simp add: hold_reply_def put_channel_def Let_def)
qed

text \<open>The messages an application sends one after the other on a channel, and what each call returned.\<close>

fun send_each :: "u32 \<Rightarrow> (u32 \<times> bytes) list \<Rightarrow> session \<Rightarrow> session \<times> unit result list" where
  "send_each ch [] s = (s, [])"
| "send_each ch ((m, p) # later) s =
     (case send ch Msg m None p s of (s, r) \<Rightarrow> map_prod id ((#) r) (send_each ch later s))"

definition queued_msg :: "u32 \<times> bytes \<Rightarrow> queued" where
  "queued_msg = (\<lambda>(m, p). \<lparr>q_kind = Msg, q_msgno = m, q_ansno = None, q_payload = p\<rparr>)"

lemma send_behind_refused:
  assumes "ch \<noteq> GREETING_CHANNEL" and "s_channels s ch = Some c" and "\<not> is_stalled c"
    and "s_queues s ch = Some (bad # qs)" and "q_kind bad = Msg" and "q_ansno bad = Some a"
  shows "send ch Msg m None p s =
    (s\<lparr>s_queues := (s_queues s)(ch \<mapsto> bad # qs @ [queued_msg (m, p)])\<rparr>, Inl (MissingField ''ansno''))"
proof -
  have put: "put_channel ch c (s\<lparr>s_queues := q\<rparr>) = s\<lparr>s_queues := q\<rparr>" "put_channel ch c s = s" for q
    using assms(2) by (simp_all add: put_channel_def map_upd_triv)
  have "flush_loop mfs c out (bad # rest) = ((c, out, bad # rest), Inl (MissingField ''ansno''))" for mfs out rest
    using assms(3,5,6) by (simp add: emit_def has_ansno_def)
  with assms(1,2,4) put show ?thesis
    by (simp add: send_def Let_def flush_def enqueue_def or_empty_def queued_msg_def del: flush_loop.simps)
qed

lemma send_each_behind_refused:
  assumes "ch \<noteq> GREETING_CHANNEL" and "s_channels s ch = Some c" and "\<not> is_stalled c"
    and "s_queues s ch = Some (bad # qs)" and "q_kind bad = Msg" and "q_ansno bad = Some a"
  shows "send_each ch later s =
    (s\<lparr>s_queues := (s_queues s)(ch \<mapsto> bad # qs @ map queued_msg later)\<rparr>,
     replicate (length later) (Inl (MissingField ''ansno'')))"
  using assms
proof (induction later arbitrary: s qs)
  case Nil
  then show ?case by (simp add: map_upd_triv)
next
  case (Cons x later)
  obtain m p where x: "x = (m, p)" by fastforce
  let ?s = "s\<lparr>s_queues := (s_queues s)(ch \<mapsto> bad # qs @ [queued_msg x])\<rparr>"
  have "send_each ch later ?s = (?s\<lparr>s_queues := (s_queues ?s)(ch \<mapsto> bad # (qs @ [queued_msg x]) @ map queued_msg later)\<rparr>,
      replicate (length later) (Inl (MissingField ''ansno'')))"
    by (rule Cons.IH [OF Cons.prems(1)]) (use Cons.prems in simp_all)
  with send_behind_refused [OF Cons.prems, of m p] show ?case by (simp add: x) (simp add: fun_upd_def)
qed

text \<open>
  C8 (error). A message sent with an answer number on an open channel with nothing queued and
  room in the peer's window is refused, and the refusal stops the channel: no octet is written,
  the refused entry is in the queue all the same, and of any messages the application then
  sends every one fails in the same way, none writes an octet, and they stay behind the refused
  entry, in order.
\<close>

theorem refused_send_blocks_channel:
  assumes "ch \<noteq> GREETING_CHANNEL" and "s_channels s ch = Some c" and "queue_of s ch = []" and "\<not> is_stalled c"
  shows "\<exists>s'. send ch Msg msgno (Some a) payload s = (s', Inl (MissingField ''ansno'')) \<and>
      s_outbound s' = s_outbound s \<and>
      queue_of s' ch = [\<lparr>q_kind = Msg, q_msgno = msgno, q_ansno = Some a, q_payload = payload\<rparr>] \<and>
      (\<forall>later. \<exists>s''. send_each ch later s' = (s'', replicate (length later) (Inl (MissingField ''ansno''))) \<and>
         s_outbound s'' = s_outbound s \<and> queue_of s'' ch = queue_of s' ch @ map queued_msg later)"
proof -
  let ?q = "\<lparr>q_kind = Msg, q_msgno = msgno, q_ansno = Some a, q_payload = payload\<rparr>"
  let ?s = "s\<lparr>s_queues := (s_queues s)(ch \<mapsto> [?q])\<rparr>"
  have put: "put_channel ch c s = s" using assms(2) by (simp add: put_channel_def map_upd_triv)
  have loop: "flush_loop mfs c out [?q] = ((c, out, [?q]), Inl (MissingField ''ansno''))" for mfs out
    using assms(4) by (simp add: emit_def has_ansno_def)
  have "flush ch (enqueue ch Msg msgno (Some a) payload s) = (?s, Inl (MissingField ''ansno''))"
    using assms put loop by (simp add: flush_def enqueue_def queue_of_def put_channel_def map_upd_triv del: flush_loop.simps)
  then have "send ch Msg msgno (Some a) payload s = (?s, Inl (MissingField ''ansno''))"
    using assms(2) put by (simp add: send_def Let_def)
  moreover have "send_each ch later ?s =
      (?s\<lparr>s_queues := (s_queues ?s)(ch \<mapsto> ?q # [] @ map queued_msg later)\<rparr>,
       replicate (length later) (Inl (MissingField ''ansno'')))" for later
    by (rule send_each_behind_refused [OF assms(1) _ assms(4)]) (use assms(2) in simp_all)
  ultimately show ?thesis by (intro exI [of _ ?s]) (simp add: queue_of_def or_empty_def)
qed

theorem refused_send_blocks_channel_witness:
  "\<exists>s'. send 1 Msg 0 (Some 0) ''x'' (sample_session\<lparr>s_queues := Map.empty\<rparr>) = (s', Inl (MissingField ''ansno'')) \<and>
      (\<exists>s''. send_each 1 [(1, ''y''), (2, ''z'')] s' =
         (s'', [Inl (MissingField ''ansno''), Inl (MissingField ''ansno'')]) \<and> length (queue_of s'' 1) = 3)"
proof -
  let ?s = "sample_session\<lparr>s_queues := Map.empty\<rparr>"
  have "\<not> is_stalled (channel_new 1 ''p'')"
    by (simp add: is_stalled_def writable_def channel_new_def channel_with_window_size_def remaining_def
        saturating_sub_def distance_from_def INITIAL_WINDOW_SIZE_def)
  moreover have "s_channels ?s 1 = Some (channel_new 1 ''p'')" "queue_of ?s 1 = []" "(1 :: u32) \<noteq> GREETING_CHANNEL"
    using sample_simps(1) by (simp_all add: queue_of_def or_empty_def GREETING_CHANNEL_def)
  ultimately obtain s' where s':
    "send 1 Msg 0 (Some 0) ''x'' ?s = (s', Inl (MissingField ''ansno''))" "length (queue_of s' 1) = 1"
    "\<forall>later. \<exists>s''. send_each 1 later s' = (s'', replicate (length later) (Inl (MissingField ''ansno''))) \<and>
       queue_of s'' 1 = queue_of s' 1 @ map queued_msg later"
    using refused_send_blocks_channel [of 1 ?s "channel_new 1 ''p''" 0 0 "''x''"] by fastforce
  from s'(3) [rule_format, of "[(1, ''y''), (2, ''z'')]"] s'(1,2) show ?thesis by fastforce
qed

text \<open>
  Creating a session never panics: the flush of the greeting, whose result the
  constructor unwraps, succeeds for every configuration; the new session awaits the peer's
  greeting with no channel open, no event pending and the greeting on its way.
\<close>

lemma session_new_ready:
  "snd (session_greet cfg) = Inr () \<and> s_state (session_new cfg) = AwaitingGreeting \<and>
   s_channels (session_new cfg) = Map.empty \<and> s_events (session_new cfg) = [] \<and>
   s_outbound (session_new cfg) \<noteq> []"
proof -
  let ?q = "\<lparr>q_kind = Rpy, q_msgno = 0, q_ansno = None, q_payload = greeting_to_payload (cf_greeting cfg)\<rparr>"
  let ?z = "channel_with_window_size GREETING_CHANNEL [] (cf_window_size cfg)"
  let ?l = "flush_loop (cf_max_frame_size cfg) ?z [] [?q]"
  have s: "sendable ?z Rpy 0 None"
    by (simp add: sendable_def channel_with_window_size_def limit_defs has_ansno_def GREETING_CHANNEL_def)
  then have ok: "snd ?l = Inr ()" using flush_loop_ok [of "[?q]" ?z] by (simp add: sendable_entry_def)
  have w: "writable ?z \<noteq> 0"
    by (simp add: writable_def channel_with_window_size_def remaining_def saturating_sub_def distance_from_def
        INITIAL_WINDOW_SIZE_def)
  have p: "q_payload ?q \<noteq> []" by (auto simp: greeting_to_payload_def Let_def)
  obtain c em where em: "emit ?z Rpy 0 None (q_payload ?q) (cf_max_frame_size cfg) = (c, Inr em)" and
    ne: "em_frames em \<noteq> []"
    using emit_data [OF s p w, of "cf_max_frame_size cfg"] chunk_limit_pos [of "cf_max_frame_size cfg"] p w
    by (auto simp: fragments_empty_iff cut_at_def simp flip: unat_eq_zero)
  have enc: "concat (map (\<lambda>f. encode_data f []) fs) \<noteq> []" if "fs \<noteq> []" for fs
    using that by (cases fs) (simp_all add: encode_data_eq)
  have out: "fst (snd (fst ?l)) \<noteq> []"
    using w p em ne enc by (auto simp: is_stalled_def Let_def foldl_encode)
  obtain c' out' q' r where l: "?l = ((c', out', q'), r)" by (metis prod.collapse)
  with ok out have "r = Inr ()" "out' \<noteq> []" by simp_all
  with l show ?thesis
    by (auto simp: session_greet_def session_new_def advertise_window_def flush_def enqueue_def session_init_def
        or_empty_def encode_seq_eq simp del: flush_loop.simps split: option.split sum.split)
qed

end
