(* ===== verification/SessionInput.thy ===== *)
theory SessionInput
  imports SessionFlow
begin

text \<open>
  What a session reads: the handling of its input does not depend on how the transport cut
  it into chunks.
\<close>

section \<open>Handlers do not look at the buffered octets\<close>

definition with_inbound :: "bytes \<Rightarrow> session \<Rightarrow> session" where
  "with_inbound b s = s\<lparr>s_inbound := b\<rparr>"

lemma with_inbound_simps [simp]:
  "s_channels (with_inbound b s) = s_channels s" "s_queues (with_inbound b s) = s_queues s"
  "s_zero (with_inbound b s) = s_zero s" "s_config (with_inbound b s) = s_config s"
  "s_state (with_inbound b s) = s_state s" "s_outbound (with_inbound b s) = s_outbound s"
  "s_unacked (with_inbound b s) = s_unacked s" "s_pending (with_inbound b s) = s_pending s"
  "s_inbound (with_inbound b s) = b" "s_decoder (with_inbound b s) = s_decoder s"
  "with_inbound b (with_inbound b' s) = with_inbound b s" "channel_of (with_inbound b s) n = channel_of s n"
  by (simp_all add: with_inbound_def channel_of_def)

lemma with_inbound_commutes:
  "push_event e (with_inbound b s) = with_inbound b (push_event e s)"
  "put_channel n c (with_inbound b s) = with_inbound b (put_channel n c s)"
  "store_channel n c (with_inbound b s) = with_inbound b (store_channel n c s)"
  "release_zero m (with_inbound b s) = with_inbound b (release_zero m s)"
  "open_channel n u (with_inbound b s) = with_inbound b (open_channel n u s)"
  "finish_close n (with_inbound b s) = with_inbound b (finish_close n s)"
  by (simp_all add: with_inbound_def push_event_def put_channel_def store_channel_def release_zero_def
      open_channel_def finish_close_def)

lemma with_inbound_bind:
  assumes "\<And>s x. G (with_inbound b s) x = map_prod (with_inbound b) id (G s x)"
  shows "bind_st (map_prod (with_inbound b) id r) G = map_prod (with_inbound b) id (bind_st r G)"
  using assms by (cases r rule: bind_st_cases) simp_all

lemma flush_with_inbound: "flush n (with_inbound b s) = map_prod (with_inbound b) id (flush n s)"
  by (auto simp: flush_def put_channel_def with_inbound_def split: option.split prod.split)

lemma acknowledge_with_inbound:
  "acknowledge n k (with_inbound b s) = map_prod (with_inbound b) id (acknowledge n k s)"
  by (auto simp: acknowledge_def Let_def split: option.split prod.split sum.split)
    (auto simp: with_inbound_def store_channel_def put_channel_def)

lemma accept_on_with_inbound:
  "accept_on n c f (with_inbound b s) = map_prod (with_inbound b) id (accept_on n c f s)"
  by (auto simp: accept_on_def with_inbound_commutes split: prod.split)

lemma dispatch_with_inbound:
  "dispatch_management k m mg (with_inbound b s) = map_prod (with_inbound b) id (dispatch_management k m mg s)"
  by (auto simp: dispatch_management_def take_pending_def Let_def with_inbound_def push_event_def release_zero_def
      open_channel_def finish_close_def put_channel_def
      split: option.split frame_kind.split mgmt_message.split pending.split)

lemmas with_inbound_parts = flush_with_inbound acknowledge_with_inbound accept_on_with_inbound dispatch_with_inbound

lemma handle_frame_with_inbound:
  "handle_frame f (with_inbound b s) = map_prod (with_inbound b) id (handle_frame f s)"
proof (cases f)
  case (SeqF seq)
  then show ?thesis
    by (auto simp: handle_seq_def with_inbound_commutes with_inbound_parts split: option.split)
next
  case (DataF d)
  have greet: "(push_event e ((with_inbound b s)\<lparr>s_peer_greeting := g, s_state := st\<rparr>), r) =
      map_prod (with_inbound b) id (push_event e (s\<lparr>s_peer_greeting := g, s_state := st\<rparr>), r)" for e s g st r
    by (simp add: push_event_def with_inbound_def)
  have z: "handle_channel_zero d (with_inbound b s) = map_prod (with_inbound b) id (handle_channel_zero d s)"
    unfolding handle_channel_zero_def
    by (auto simp: greet with_inbound_parts intro!: with_inbound_bind split: sum.split option.split)
  have "handle_data d (with_inbound b s) = map_prod (with_inbound b) id (handle_data d s)"
    unfolding handle_data_def Let_def using z
    by (auto simp: with_inbound_parts intro!: with_inbound_bind split: option.split)
      (simp_all add: push_event_def with_inbound_def)
  with DataF show ?thesis by simp
qed

section \<open>Octets that come later\<close>

lemma input_loop_step:
  assumes "decode (s_decoder s) (s_inbound s) = ((d, buf), r)"
  shows "input_loop s =
    (case r of
       Inl e \<Rightarrow> (s\<lparr>s_decoder := d, s_inbound := buf\<rparr>, Inl e)
     | Inr None \<Rightarrow> (s\<lparr>s_decoder := d, s_inbound := buf\<rparr>, Inr ())
     | Inr (Some f) \<Rightarrow> bind_st (handle_frame f (s\<lparr>s_decoder := d, s_inbound := buf\<rparr>)) (\<lambda>s _. input_loop s))"
  using assms by (subst input_loop.simps) (simp add: Let_def)

lemma input_loop_more:
  "input_loop (with_inbound (s_inbound s @ b) s) =
     (case input_loop s of
        (s1, Inl e) \<Rightarrow> (with_inbound (s_inbound s1 @ b) s1, Inl e)
      | (s1, Inr _) \<Rightarrow> input_loop (with_inbound (s_inbound s1 @ b) s1))"
proof (induction s rule: input_loop.induct)
  case (1 s)
  obtain d buf r where step: "decode (s_decoder s) (s_inbound s) = ((d, buf), r)" by (metis prod.collapse)
  let ?s = "s\<lparr>s_decoder := d, s_inbound := buf\<rparr>" and ?sb = "with_inbound (s_inbound s @ b) s"
  have later: "?sb\<lparr>s_decoder := d, s_inbound := buf @ b\<rparr> = with_inbound (buf @ b) ?s"
    by (simp add: with_inbound_def)
  consider (err) e where "r = Inl e" | (none) "r = Inr None" | (frame) f where "r = Inr (Some f)"
    by (metis not_Some_eq sum.exhaust)
  then show ?case
  proof cases
    case err
    with step have e: "decode (s_decoder s) (s_inbound s @ b) = ((d, buf @ b), Inl e)"
      by (auto intro: beep_decoder.after_error)
    from input_loop_step [OF step] err have "input_loop s = (?s, Inl e)" by simp
    moreover have "input_loop ?sb = (with_inbound (buf @ b) ?s, Inl e)"
      using input_loop_step [of ?sb] e later by simp
    ultimately show ?thesis by simp
  next
    case none
    have res: "decode (s_decoder s) (s_inbound s @ b) = decode d (buf @ b)"
      by (rule beep_decoder.resume) (use step none in simp)
    obtain d2 buf2 r2 where step2: "decode d (buf @ b) = ((d2, buf2), r2)" by (metis prod.collapse)
    have same: "?sb\<lparr>s_decoder := d2, s_inbound := buf2\<rparr> = (with_inbound (buf @ b) ?s)\<lparr>s_decoder := d2, s_inbound := buf2\<rparr>"
      by (simp add: with_inbound_def)
    have "input_loop ?sb = input_loop (with_inbound (buf @ b) ?s)"
      using input_loop_step [of ?sb d2 buf2 r2, unfolded same] input_loop_step [of "with_inbound (buf @ b) ?s" d2 buf2 r2]
        step2 res by simp
    with input_loop_step [OF step] none show ?thesis by simp
  next
    case frame
    have after: "decode (s_decoder s) (s_inbound s @ b) = ((d, buf @ b), Inr (Some f))"
      by (rule beep_decoder.after_value) (use step frame in simp)
    obtain s2 r2 where h: "handle_frame f ?s = (s2, r2)" by fastforce
    have inb: "s_inbound s2 = buf" using same_input_frame [of ?s f] h by (simp add: same_input_def)
    have hb: "handle_frame f (with_inbound (buf @ b) ?s) = (with_inbound (buf @ b) s2, r2)"
      by (simp add: handle_frame_with_inbound h)
    have whole: "input_loop ?sb = bind_st (with_inbound (buf @ b) s2, r2) (\<lambda>s _. input_loop s)"
      using input_loop_step [of ?sb] after later hb by simp
    have part: "input_loop s = bind_st (s2, r2) (\<lambda>s _. input_loop s)"
      using input_loop_step [OF step] frame h by simp
    show ?thesis
    proof (cases r2)
      case (Inl e)
      with whole part inb show ?thesis by simp
    next
      case (Inr u)
      have IH: "input_loop (with_inbound (s_inbound s2 @ b) s2) =
        (case input_loop s2 of (s1, Inl e) \<Rightarrow> (with_inbound (s_inbound s1 @ b) s1, Inl e)
         | (s1, Inr _) \<Rightarrow> input_loop (with_inbound (s_inbound s1 @ b) s1))"
        using 1 [OF step [symmetric] refl refl] frame h Inr by auto
      with Inr whole part inb show ?thesis by simp
    qed
  qed
qed

text \<open>A transport hands over its chunks one by one and stops at the first error.\<close>

fun handle_chunks :: "bytes list \<Rightarrow> session \<Rightarrow> session \<times> unit result" where
  "handle_chunks [] s = (s, Inr ())"
| "handle_chunks (chunk # chunks) s = bind_st (handle_input chunk s) (\<lambda>s _. handle_chunks chunks s)"

lemma handle_input_append:
  "handle_input (a @ b) s =
     (case handle_input a s of
        (s1, Inl e) \<Rightarrow> (with_inbound (s_inbound s1 @ b) s1, Inl e)
      | (s1, Inr _) \<Rightarrow> handle_input b s1)"
proof -
  have input: "handle_input x s = input_loop (with_inbound (s_inbound s @ x) s)" for x s
    by (simp add: handle_input_def with_inbound_def)
  show ?thesis unfolding input using input_loop_more [of "with_inbound (s_inbound s @ a) s" b] by simp
qed

lemma input_loop_quiet:
  assumes "input_loop s = (s', Inr ())"
  shows "decode (s_decoder s') (s_inbound s') = ((s_decoder s', s_inbound s'), Inr None)"
  using assms
proof (induction s rule: input_loop.induct)
  case (1 s)
  obtain d buf r where step: "decode (s_decoder s) (s_inbound s) = ((d, buf), r)" by (metis prod.collapse)
  consider (err) e where "r = Inl e" | (none) "r = Inr None" | (frame) f where "r = Inr (Some f)"
    by (metis not_Some_eq sum.exhaust)
  then show ?case
  proof cases
    case err
    with input_loop_step [OF step] "1.prems" show ?thesis by simp
  next
    case none
    with input_loop_step [OF step] "1.prems" have s': "s' = s\<lparr>s_decoder := d, s_inbound := buf\<rparr>" by simp
    have "decode d buf = ((d, buf), Inr None)" by (rule beep_decoder.quiescent) (use step none in simp)
    with s' show ?thesis by simp
  next
    case frame
    with input_loop_step [OF step] "1.prems" have
      "bind_st (handle_frame f (s\<lparr>s_decoder := d, s_inbound := buf\<rparr>)) (\<lambda>s _. input_loop s) = (s', Inr ())" by simp
    then obtain s2 where
      h: "handle_frame f (s\<lparr>s_decoder := d, s_inbound := buf\<rparr>) = (s2, Inr ())" "input_loop s2 = (s', Inr ())"
      by (auto simp: bind_st_Inr_iff)
    with "1.IH" [OF step [symmetric] refl refl] frame show ?thesis by auto
  qed
qed

lemma handle_input_Nil:
  assumes "decode (s_decoder s) (s_inbound s) = ((s_decoder s, s_inbound s), Inr None)"
  shows "handle_input [] s = (s, Inr ())"
  using input_loop_step [of s] assms by (simp add: handle_input_def)

section \<open>Properties\<close>

text \<open>
  C4 (equivalence). The transport's chunking does not matter to a session. Once a first chunk
  has been handled, handing over the rest in any number of chunks gives the same result and
  the same session as handing it over whole, except that after an error, which ends the
  session, the octets not looked at are the undelivered chunks short.
\<close>

theorem chunking_irrelevant:
  assumes "handle_input first_chunk s0 = (s, Inr ())"
  shows "\<exists>undelivered. handle_input (concat chunks) s =
    (case handle_chunks chunks s of
       (s', r) \<Rightarrow> (with_inbound (s_inbound s' @ undelivered) s', r)) \<and>
    (snd (handle_chunks chunks s) = Inr () \<longrightarrow> undelivered = [])"
proof -
  have "decode (s_decoder s) (s_inbound s) = ((s_decoder s, s_inbound s), Inr None)"
    using assms unfolding handle_input_def by (rule input_loop_quiet)
  then show ?thesis
  proof (induction chunks arbitrary: s)
    case Nil
    then show ?case by (simp add: handle_input_Nil with_inbound_def)
  next
    case (Cons chunk chunks)
    obtain s1 r where h: "handle_input chunk s = (s1, r)" by fastforce
    show ?case
    proof (cases r)
      case (Inl e)
      with h show ?thesis by (simp add: handle_input_append) blast
    next
      case (Inr u)
      with h have "decode (s_decoder s1) (s_inbound s1) = ((s_decoder s1, s_inbound s1), Inr None)"
        unfolding handle_input_def using input_loop_quiet by simp
      from Cons.IH [OF this] h Inr show ?thesis by (simp add: handle_input_append)
    qed
  qed
qed

theorem chunking_irrelevant_witness:
  "\<exists>undelivered. handle_input (concat [''RPY 0 0'', ''garbage'']) (session_init (config_new Listener)) =
    (case handle_chunks [''RPY 0 0'', ''garbage''] (session_init (config_new Listener)) of
       (s', r) \<Rightarrow> (with_inbound (s_inbound s' @ undelivered) s', r))"
proof -
  let ?s = "session_init (config_new Listener)"
  have "decode (s_decoder ?s) (s_inbound ?s) = ((s_decoder ?s, s_inbound ?s), Inr None)"
    by (simp add: session_init_def decoder_new_def decode_def decode_header_def MAX_HEADER_LEN_def)
  then have "handle_input [] ?s = (?s, Inr ())" by (rule handle_input_Nil)
  from chunking_irrelevant [OF this, of "[''RPY 0 0'', ''garbage'']"] show ?thesis by blast
qed

end
