(* ===== verification/SessionInvariant.thy ===== *)
theory SessionInvariant
  imports SessionInput
begin

text \<open>
  What holds of a session at every moment of its life. The operations an application and a
  transport can perform are collected in one type, a session is reachable when a sequence of
  them leads to it from a new one, and the invariants are proved by rule induction. Most
  operations touch little of what the invariants speak about; that part of the state is its
  books, and an operation is handled by what it does to them.
\<close>

section \<open>The books of a session\<close>

record recv_side =
  rv_number :: u32
  rv_expected :: seq_no
  rv_base :: seq_no

record books =
  b_state :: state
  b_role :: role
  b_next :: u32
  b_pending :: "u32 \<rightharpoonup> pending"
  b_unacked :: "u32 \<rightharpoonup> u32"
  b_zero :: recv_side
  b_channels :: "u32 \<rightharpoonup> recv_side"

definition recv_of :: "channel \<Rightarrow> recv_side" where
  "recv_of c = \<lparr>rv_number = ch_number c, rv_expected = ch_expected_seqno c, rv_base = w_base (ch_recv_window c)\<rparr>"

definition books_of :: "session \<Rightarrow> books" where
  "books_of s = \<lparr>b_state = s_state s, b_role = cf_role (s_config s), b_next = s_next_channel s,
     b_pending = s_pending s, b_unacked = s_unacked s, b_zero = recv_of (s_zero s),
     b_channels = (\<lambda>n. map_option recv_of (s_channels s n))\<rparr>"

text \<open>Operations on a channel that only concern what it sends.\<close>

lemma recv_of_seqno: "only_seqno c c' \<Longrightarrow> recv_of c' = recv_of c"
  unfolding only_seqno_def recv_of_def by (metis channel.select_convs(1,8,9) channel.update_convs(4) channel.surjective)

lemma recv_of_allocate_loop: "recv_of (fst (allocate_loop n c)) = recv_of c"
proof (induction n arbitrary: c)
  case 0
  show ?case by (simp add: allocate_loop.simps [of 0])
next
  case (Suc n)
  have "recv_of (c\<lparr>ch_next_msgno := m\<rparr>) = recv_of c" "recv_of (c\<lparr>ch_next_msgno := m, ch_outstanding := os\<rparr>) = recv_of c" for m os
    by (simp_all add: recv_of_def)
  with Suc show ?case by (simp add: allocate_loop.simps [of "Suc n"] Let_def)
qed

lemma recv_of_outgoing [simp]:
  "recv_of (fst (allocate_msgno c)) = recv_of c" "recv_of (release_msgno c m) = recv_of c"
  "recv_of (fst (allocate_ansno c m)) = recv_of c" "recv_of (finish_answers c m) = recv_of c"
  "recv_of (apply_seq c seq) = recv_of c" "recv_of (replied c m) = recv_of c"
  "recv_of (set_recv_window_size c sz) = recv_of c"
  by (simp add: allocate_msgno_def recv_of_allocate_loop)
    (simp_all add: recv_of_def release_msgno_def allocate_ansno_def finish_answers_def apply_seq_def replied_def
      set_recv_window_size_def Let_def)

lemma recv_of_new: "recv_of (channel_with_window_size n u w) = \<lparr>rv_number = n, rv_expected = 0, rv_base = 0\<rparr>"
  by (simp add: recv_of_def channel_with_window_size_def)

lemma books_put_channel [simp]:
  "books_of (put_channel n c s) = (books_of s)\<lparr>b_channels := (b_channels (books_of s))(n \<mapsto> recv_of c)\<rparr>"
  by (auto simp: books_of_def put_channel_def)

lemma books_same_channel [simp]:
  "s_channels s n = Some c \<Longrightarrow> (b_channels (books_of s))(n \<mapsto> recv_of c) = b_channels (books_of s)"
  by (auto simp: books_of_def)

lemma books_flush [simp]: "books_of (fst (flush n s)) = books_of s"
proof -
  have c: "recv_of c' = recv_of c" if "flush_loop mfs c out q = ((c', out', q'), r)" for mfs c out q c' out' q' r
    using recv_of_seqno [OF flush_loop_only_seqno [of c mfs out q]] that by simp
  show ?thesis
    by (auto simp: flush_def books_of_def put_channel_def fun_eq_iff c split: option.split prod.split)
qed

lemma books_updates [simp]:
  "books_of (enqueue n k m a p s) = books_of s" "books_of (push_event e s) = books_of s"
  "books_of (enqueue_all n qs s) = books_of s" "books_of (pop_order n s) = books_of s"
  "books_of (hold_reply n q s) = books_of s" "books_of (s\<lparr>s_outbound := o1\<rparr>) = books_of s"
  "books_of (s\<lparr>s_events := es\<rparr>) = books_of s" "books_of (s\<lparr>s_held_replies := h\<rparr>) = books_of s"
  "books_of (s\<lparr>s_reply_order := ro\<rparr>) = books_of s" "books_of (s\<lparr>s_half_open := ho\<rparr>) = books_of s"
  "books_of (s\<lparr>s_decoder := d\<rparr>) = books_of s" "books_of (s\<lparr>s_inbound := i\<rparr>) = books_of s"
  "books_of (s\<lparr>s_server_name := sn\<rparr>) = books_of s" "books_of (s\<lparr>s_authenticated := au\<rparr>) = books_of s"
  "books_of (release_zero m s) = books_of s"
proof -
  show "books_of (enqueue_all n qs s) = books_of s"
    unfolding enqueue_all_def by (induction qs arbitrary: s) (simp_all add: enqueue_def books_of_def)
qed (auto simp: books_of_def enqueue_def push_event_def pop_order_def hold_reply_def release_zero_def Let_def
    split: option.split)

lemma books_release_loop [simp]: "books_of (fst (release_loop n s)) = books_of s"
proof (induction n s rule: release_loop.induct)
  case (1 n s)
  show ?case
    by (subst release_loop.simps)
      (auto simp: Let_def 1 intro!: bind_st_keeps [where P = "\<lambda>t. books_of t = books_of s"] split: list.split option.split)
qed

lemma books_reply_finished [simp]: "books_of (fst (reply_finished n m s)) = books_of s"
  by (auto simp: reply_finished_def Let_def split: option.split list.split)

lemma books_send [simp]: "books_of (fst (send n k m a p s)) = books_of s"
  by (auto simp: send_def Let_def case_prod_beta intro!: bind_st_keeps [where P = "\<lambda>t. books_of t = books_of s"]
      split: option.split)

lemma books_request:
  "books_of (fst (request mg p s)) =
     (case snd (allocate_msgno (s_zero s)) of
        Inl _ \<Rightarrow> books_of s
      | Inr msgno \<Rightarrow> (books_of s)\<lparr>b_pending := (b_pending (books_of s))(msgno \<mapsto> p)\<rparr>)"
proof -
  have "recv_of z = recv_of (s_zero s)" if "allocate_msgno (s_zero s) = (z, r)" for z r
    using recv_of_outgoing(1) [of "s_zero s"] that by simp
  then show ?thesis
    by (auto simp: request_def write_zero_def split: prod.split sum.split) (simp_all add: books_of_def)
qed

lemma books_reply [simp]: "books_of (fst (reply k m mg s)) = books_of s"
  by (simp add: reply_def write_zero_def) (simp add: books_of_def)

lemma books_open_channel:
  "books_of (open_channel n u s) =
     (books_of s)\<lparr>b_channels := (b_channels (books_of s))(n \<mapsto> \<lparr>rv_number = n, rv_expected = 0, rv_base = 0\<rparr>)\<rparr>"
  by (simp add: open_channel_def recv_of_new)

section \<open>The invariant\<close>

text \<open>
  Numbers this end allocates have its parity and stay below the next one; a number asked for
  is not open yet and is asked for once; each channel sits under its own number; and what a
  channel has received is what it has acknowledged plus what it still owes.
\<close>

definition own_parity :: "role \<Rightarrow> u32 \<Rightarrow> bool" where
  "own_parity r n \<longleftrightarrow> n mod 2 = first_channel r mod 2"

definition unacked_of :: "(u32 \<rightharpoonup> u32) \<Rightarrow> u32 \<Rightarrow> u32" where
  "unacked_of m n = (case m n of None \<Rightarrow> 0 | Some k \<Rightarrow> k)"

definition wf_numbers :: "books \<Rightarrow> bool" where
  "wf_numbers b \<longleftrightarrow>
     own_parity (b_role b) (b_next b) \<and> b_next b \<noteq> 0 \<and>
     (\<forall>n. own_parity (b_role b) n \<longrightarrow> b_channels b n \<noteq> None \<longrightarrow> n < b_next b) \<and>
     (\<forall>m n. b_pending b m = Some (PStart n) \<longrightarrow> own_parity (b_role b) n \<and> n \<noteq> 0 \<and> n < b_next b \<and> b_channels b n = None) \<and>
     (\<forall>m m' n. b_pending b m = Some (PStart n) \<longrightarrow> b_pending b m' = Some (PStart n) \<longrightarrow> m = m')"

definition settled :: "(u32 \<rightharpoonup> u32) \<Rightarrow> u32 \<Rightarrow> recv_side \<Rightarrow> bool" where
  "settled m n r \<longleftrightarrow> rv_number r = n \<and> distance_from (rv_expected r) (rv_base r) = unacked_of m n"

definition wf_receipts :: "books \<Rightarrow> bool" where
  "wf_receipts b \<longleftrightarrow>
     rv_number (b_zero b) = GREETING_CHANNEL \<and>
     (b_state b \<noteq> Closed \<longrightarrow> settled (b_unacked b) GREETING_CHANNEL (b_zero b)) \<and>
     b_channels b GREETING_CHANNEL = None \<and>
     (\<forall>n r. b_channels b n = Some r \<longrightarrow> settled (b_unacked b) n r) \<and>
     (\<forall>n. n \<noteq> GREETING_CHANNEL \<longrightarrow> b_channels b n = None \<longrightarrow> b_unacked b n = None)"

definition wf_books :: "books \<Rightarrow> bool" where
  "wf_books b \<longleftrightarrow> wf_numbers b \<and> wf_receipts b"

lemma wf_books_pending_removed:
  "wf_books b \<Longrightarrow> wf_books (b\<lparr>b_pending := (b_pending b)(m := None)\<rparr>)"
  by (auto simp: wf_books_def wf_numbers_def wf_receipts_def)

lemma wf_books_close:
  "wf_books b \<Longrightarrow> wf_books (b\<lparr>b_pending := (b_pending b)(m \<mapsto> PClose n)\<rparr>)"
  by (auto simp: wf_books_def wf_numbers_def wf_receipts_def)

lemma wf_books_start:
  assumes "wf_books b" and "unat (b_next b) + 2 < 2 ^ 32"
  shows "wf_books (b\<lparr>b_next := b_next b + 2\<rparr>)"
    and "wf_books (b\<lparr>b_next := b_next b + 2, b_pending := (b_pending b)(m \<mapsto> PStart (b_next b))\<rparr>)"
proof -
  let ?n = "b_next b"
  have u: "unat (?n + 2) = unat ?n + 2" using assms(2) by (simp add: unat_u32_add_lt)
  have lt: "x < ?n + 2" if "x < ?n" for x using that by (simp add: word_less_nat_alt u)
  have "?n < ?n + 2" by (simp add: word_less_nat_alt u)
  moreover have "unat (?n + 2) \<noteq> 0" using u by simp
  then have "?n + 2 \<noteq> 0" by (metis unat_0)
  moreover have "(?n + 2) mod 2 = ?n mod 2"
  proof -
    have "unat ((?n + 2) mod 2) = unat (?n mod 2)" using u by (simp add: unat_mod)
    then show ?thesis by (simp only: word_unat_eq_iff)
  qed
  moreover have "b_channels b ?n = None"
    using assms(1) by (auto simp: wf_books_def wf_numbers_def)
  ultimately show "wf_books (b\<lparr>b_next := b_next b + 2\<rparr>)"
    "wf_books (b\<lparr>b_next := b_next b + 2, b_pending := (b_pending b)(m \<mapsto> PStart (b_next b))\<rparr>)"
    using assms(1)
    unfolding wf_books_def wf_numbers_def wf_receipts_def own_parity_def
    by (auto intro!: lt)
qed

lemma wf_books_opened:
  assumes "wf_books b" and "b_channels b n = None" and "n \<noteq> GREETING_CHANNEL"
    and "own_parity (b_role b) n \<Longrightarrow> n < b_next b" and "\<And>m. b_pending b m \<noteq> Some (PStart n)"
  shows "wf_books (b\<lparr>b_channels := (b_channels b)(n \<mapsto> \<lparr>rv_number = n, rv_expected = 0, rv_base = 0\<rparr>)\<rparr>)"
  using assms
  unfolding wf_books_def wf_numbers_def wf_receipts_def
  by (auto simp: settled_def unacked_of_def distance_from_def)

lemma wf_books_closed:
  "wf_books b \<Longrightarrow> n \<noteq> GREETING_CHANNEL \<Longrightarrow>
     wf_books (b\<lparr>b_channels := (b_channels b)(n := None), b_unacked := (b_unacked b)(n := None)\<rparr>)"
  unfolding wf_books_def wf_numbers_def wf_receipts_def by (auto simp: settled_def unacked_of_def)

lemma wf_books_end:
  "wf_books b \<Longrightarrow> wf_books (b\<lparr>b_state := Closed, b_channels := Map.empty, b_unacked := Map.empty\<rparr>)"
  unfolding wf_books_def wf_numbers_def wf_receipts_def by (auto simp: settled_def)

lemma books_finish_close:
  "books_of (finish_close n s) =
     (if n = GREETING_CHANNEL
      then (books_of s)\<lparr>b_state := Closed, b_channels := Map.empty, b_unacked := Map.empty\<rparr>
      else (books_of s)\<lparr>b_channels := (b_channels (books_of s))(n := None),
                        b_unacked := (b_unacked (books_of s))(n := None)\<rparr>)"
  by (auto simp: finish_close_def) (auto simp: books_of_def fun_eq_iff)

lemma wf_finish_close: "wf_books (books_of s) \<Longrightarrow> wf_books (books_of (finish_close n s))"
  by (simp add: books_finish_close wf_books_end wf_books_closed)

section \<open>Input\<close>

definition with_recv :: "u32 \<Rightarrow> recv_side \<Rightarrow> books \<Rightarrow> books" where
  "with_recv n r b = (if n = GREETING_CHANNEL then b\<lparr>b_zero := r\<rparr> else b\<lparr>b_channels := (b_channels b)(n \<mapsto> r)\<rparr>)"

definition recv_at :: "books \<Rightarrow> u32 \<Rightarrow> recv_side option" where
  "recv_at b n = (if n = GREETING_CHANNEL then Some (b_zero b) else b_channels b n)"

lemma books_store_channel: "books_of (store_channel n c s) = with_recv n (recv_of c) (books_of s)"
  by (auto simp: store_channel_def with_recv_def) (simp add: books_of_def)

lemma recv_at_channel_of: "recv_at (books_of s) n = map_option recv_of (channel_of s n)"
  by (simp add: recv_at_def channel_of_def books_of_def)

text \<open>Accepting a frame moves the expected octet past it.\<close>

lemma accept_recv:
  assumes "accept c f = (c', Inr x)"
  shows "recv_of c' = (recv_of c)\<lparr>rv_expected := advance (ch_expected_seqno c) (df_size f)\<rparr> \<and>
    ch_recv_window c' = ch_recv_window c \<and>
    unat (distance_from (ch_expected_seqno c) (w_base (ch_recv_window c))) + unat (df_size f) \<le> unat (w_size (ch_recv_window c))"
  using assms by (auto simp: accept_def Let_def recv_of_def accepts_iff split: if_splits option.splits)

text \<open>Acknowledging either keeps the count of octets owed or pays all of them.\<close>

lemma acknowledge_cases:
  assumes "acknowledge n k s = (s', Inr ())" and "channel_of s n = Some c"
  obtains
    (later) "books_of s' = (books_of s)\<lparr>b_unacked := (s_unacked s)(n \<mapsto> saturating_add (unacked_of (s_unacked s) n) k)\<rparr>"
      and "saturating_add (unacked_of (s_unacked s) n) k <
        clamp_u32 (w_size (ch_recv_window c) div 2) 1 (INITIAL_WINDOW_SIZE div 2)"
      and "channel_of s' n = Some c"
  | (now) "books_of s' = (with_recv n ((recv_of c)\<lparr>rv_base := advance (w_base (ch_recv_window c))
          (saturating_add (unacked_of (s_unacked s) n) k)\<rparr>) (books_of s))\<lparr>b_unacked := (s_unacked s)(n \<mapsto> 0)\<rparr>"
      and "channel_of s' n = Some (c\<lparr>ch_recv_window := consumed (ch_recv_window c)
          (saturating_add (unacked_of (s_unacked s) n) k)\<rparr>)"
proof -
  let ?p = "saturating_add (unacked_of (s_unacked s) n) k"
  let ?t = "clamp_u32 (w_size (ch_recv_window c) div 2) 1 (INITIAL_WINDOW_SIZE div 2)"
  let ?s = "s\<lparr>s_unacked := (s_unacked s)(n \<mapsto> ?p)\<rparr>"
  have ack: "acknowledge n k s = (if ?p \<ge> ?t then
       (case consume c ?p of
          (c', Inl e) \<Rightarrow> (store_channel n c' ?s, Inl e)
        | (c', Inr seq) \<Rightarrow> ((store_channel n c' ?s)\<lparr>s_unacked := (s_unacked ?s)(n \<mapsto> 0),
             s_outbound := encode_seq seq (s_outbound ?s)\<rparr>, Inr ())) else (?s, Inr ()))"
    using assms(2) by (auto simp: acknowledge_def Let_def unacked_of_def split: prod.split sum.split)
  show ?thesis
  proof (cases "?p \<ge> ?t")
    case False
    with ack assms(1) have s': "s' = ?s" by simp
    have "books_of s' = (books_of s)\<lparr>b_unacked := (s_unacked s)(n \<mapsto> ?p)\<rparr>" by (simp add: s' books_of_def)
    moreover have "channel_of s' n = Some c" using assms(2) by (auto simp: s' channel_of_def)
    ultimately show ?thesis using False by (intro later) simp_all
  next
    case True
    obtain c' r where con: "consume c ?p = (c', r)" by fastforce
    with ack assms(1) True obtain seq where r: "r = Inr seq" by (cases r) auto
    with ack assms(1) True con have s': "s' = (store_channel n c' ?s)\<lparr>s_unacked := (s_unacked ?s)(n \<mapsto> 0),
             s_outbound := encode_seq seq (s_outbound ?s)\<rparr>" by simp
    have c': "c' = c\<lparr>ch_recv_window := consumed (ch_recv_window c) ?p\<rparr>"
      using con r by (simp add: consume_Inr)
    have "books_of s' = (with_recv n (recv_of c') (books_of s))\<lparr>b_unacked := (s_unacked s)(n \<mapsto> 0)\<rparr>"
      unfolding s' by (auto simp: books_of_def store_channel_def put_channel_def with_recv_def)
    moreover have "recv_of c' = (recv_of c)\<lparr>rv_base := advance (w_base (ch_recv_window c)) ?p\<rparr>"
      by (simp add: recv_of_def c')
    ultimately have "books_of s' = (with_recv n ((recv_of c)\<lparr>rv_base := advance (w_base (ch_recv_window c)) ?p\<rparr>)
        (books_of s))\<lparr>b_unacked := (s_unacked s)(n \<mapsto> 0)\<rparr>" by simp
    moreover have "channel_of s' n = Some c'"
      unfolding s' by (auto simp: channel_of_def store_channel_def put_channel_def)
    ultimately show ?thesis using c' by (intro now) simp_all
  qed
qed

lemma unat_saturating_add_exact:
  "unat a + unat b < 4294967296 \<Longrightarrow> saturating_add a b = a + b"
  by (simp add: saturating_add_def)

text \<open>
  One frame taken in: the books stay in order, nothing but the receiving side of its channel
  moves, and less than the threshold is left unacknowledged.
\<close>

definition ack_threshold :: "u32 \<Rightarrow> u32" where
  "ack_threshold sz = clamp_u32 (sz div 2) 1 (INITIAL_WINDOW_SIZE div 2)"

lemma ack_threshold_pos: "0 < ack_threshold sz"
  by (auto simp: ack_threshold_def clamp_u32_def INITIAL_WINDOW_SIZE_def word_less_nat_alt)

lemma channel_of_store [simp]: "channel_of (store_channel n c s) n = Some c"
  by (simp add: channel_of_def store_channel_def put_channel_def)

lemma unacked_store [simp]: "s_unacked (store_channel n c s) = s_unacked s"
  by (simp add: store_channel_def put_channel_def)

definition open_settled :: "books \<Rightarrow> u32 \<Rightarrow> bool" where
  "open_settled b n \<longleftrightarrow> n = GREETING_CHANNEL \<longrightarrow> b_state b \<noteq> Closed"

lemma receipt_settled:
  assumes "channel_of s n = Some c" and "open_settled (books_of s) n \<Longrightarrow> settled (s_unacked s) n (recv_of c)"
    and "accept_on n c f s = (s1, Inr x)" and "acknowledge n (df_size f) s1 = (s2, Inr ())"
  shows "\<exists>c2 u. books_of s2 = (with_recv n (recv_of c2) (books_of s))\<lparr>b_unacked := (s_unacked s)(n \<mapsto> u)\<rparr> \<and>
    channel_of s2 n = Some c2 \<and> ch_number c2 = ch_number c \<and>
    w_size (ch_recv_window c2) = w_size (ch_recv_window c) \<and> u < ack_threshold (w_size (ch_recv_window c)) \<and>
    (open_settled (books_of s) n \<longrightarrow> settled ((s_unacked s)(n \<mapsto> u)) n (recv_of c2))"
proof -
  from assms(3) obtain c1 where acc: "accept c f = (c1, Inr x)" and s1: "s1 = store_channel n c1 s"
    by (auto simp: accept_on_def split: prod.splits)
  note r = accept_recv [OF acc]
  let ?k = "saturating_add (unacked_of (s_unacked s) n) (df_size f)"
  let ?d = "distance_from (ch_expected_seqno c) (w_base (ch_recv_window c))"
  have rc1: "recv_of c1 = (recv_of c)\<lparr>rv_expected := advance (ch_expected_seqno c) (df_size f)\<rparr>"
    and win: "ch_recv_window c1 = ch_recv_window c" and num: "ch_number c1 = ch_number c"
    and ex: "ch_expected_seqno c1 = advance (ch_expected_seqno c) (df_size f)"
    using r by (simp_all add: recv_of_def)
  have exact: "distance_from (advance (ch_expected_seqno c) (df_size f)) (w_base (ch_recv_window c)) = ?k"
    if "open_settled (books_of s) n"
  proof -
    have d: "?d = unacked_of (s_unacked s) n" using assms(2) [OF that] by (simp add: settled_def recv_of_def)
    have "unat ?d + unat (df_size f) < 4294967296"
      using r unat_u32_lt [of "w_size (ch_recv_window c)"] by linarith
    then show ?thesis by (simp add: seq_counter.dist_adv_left d unat_saturating_add_exact)
  qed
  have cn: "ch_number c = n" if "open_settled (books_of s) n"
    using assms(2) [OF that] by (simp add: settled_def recv_of_def)
  have ch1: "channel_of s1 n = Some c1" by (simp add: s1)
  from assms(4) ch1 show ?thesis
  proof (cases rule: acknowledge_cases)
    case later
    have "books_of s2 = (with_recv n (recv_of c1) (books_of s))\<lparr>b_unacked := (s_unacked s)(n \<mapsto> ?k)\<rparr>"
      using later(1) by (simp add: s1 books_store_channel)
    moreover have "?k < ack_threshold (w_size (ch_recv_window c))"
      using later(2) by (simp add: s1 win ack_threshold_def)
    moreover have "open_settled (books_of s) n \<longrightarrow> settled ((s_unacked s)(n \<mapsto> ?k)) n (recv_of c1)"
      using exact cn by (simp add: settled_def rc1 unacked_of_def) (simp add: recv_of_def)
    ultimately show ?thesis using later(3) num win by (intro exI [of _ c1] exI [of _ ?k]) simp
  next
    case now
    let ?c2 = "c1\<lparr>ch_recv_window := consumed (ch_recv_window c1) ?k\<rparr>"
    have rc2: "recv_of ?c2 = (recv_of c1)\<lparr>rv_base := advance (w_base (ch_recv_window c1)) ?k\<rparr>"
      by (simp add: recv_of_def)
    have "books_of s2 = (with_recv n (recv_of ?c2) (books_of s))\<lparr>b_unacked := (s_unacked s)(n \<mapsto> 0)\<rparr>"
      using now(1) by (simp add: rc2 s1 books_store_channel) (simp add: with_recv_def)
    moreover have "channel_of s2 n = Some ?c2" using now(2) by (simp add: s1)
    moreover have "open_settled (books_of s) n \<longrightarrow> settled ((s_unacked s)(n \<mapsto> 0)) n (recv_of ?c2)"
    proof
      assume "open_settled (books_of s) n"
      note e = exact [OF this] and cn = cn [OF this]
      have "advance (w_base (ch_recv_window c)) ?k = advance (ch_expected_seqno c) (df_size f)"
        using seq_counter.adv_dist [of "w_base (ch_recv_window c)" "advance (ch_expected_seqno c) (df_size f)"] e by simp
      then show "settled ((s_unacked s)(n \<mapsto> 0)) n (recv_of ?c2)"
        using cn num ex by (simp add: settled_def recv_of_def win unacked_of_def seq_counter.dist_self)
    qed
    ultimately show ?thesis
      using num win ack_threshold_pos by (intro exI [of _ ?c2] exI [of _ 0]) simp
  qed
qed

lemma books_select:
  "b_unacked (books_of s) = s_unacked s" "b_state (books_of s) = s_state s" "b_pending (books_of s) = s_pending s"
  "b_next (books_of s) = s_next_channel s" "b_role (books_of s) = cf_role (s_config s)"
  by (simp_all add: books_of_def)

lemma wf_settled:
  "wf_books (books_of s) \<Longrightarrow> channel_of s n = Some c \<Longrightarrow> open_settled (books_of s) n \<Longrightarrow>
     settled (s_unacked s) n (recv_of c)"
  by (auto simp: wf_books_def wf_receipts_def channel_of_def books_of_def open_settled_def split: if_splits)

lemma wf_number: "wf_books (books_of s) \<Longrightarrow> channel_of s n = Some c \<Longrightarrow> ch_number c = n"
  by (fastforce simp: wf_books_def wf_receipts_def channel_of_def books_of_def settled_def recv_of_def split: if_splits)

lemma wf_receipt:
  assumes wf: "wf_books (books_of s)" and c: "channel_of s n = Some c"
    and "accept_on n c f s = (s1, Inr x)" and "acknowledge n (df_size f) s1 = (s2, Inr ())"
  shows "wf_books (books_of s2)"
proof -
  from receipt_settled [OF c wf_settled [OF wf c] assms(3,4)] obtain c2 u where
    b: "books_of s2 = (with_recv n (recv_of c2) (books_of s))\<lparr>b_unacked := (s_unacked s)(n \<mapsto> u)\<rparr>" and
    num: "ch_number c2 = n" and
    ok: "open_settled (books_of s) n \<longrightarrow> settled ((s_unacked s)(n \<mapsto> u)) n (recv_of c2)"
    using wf_number [OF wf c] by auto
  have opened: "b_channels (books_of s) n \<noteq> None" if "n \<noteq> GREETING_CHANNEL"
    using c that by (auto simp: channel_of_def books_of_def)
  have other: "settled ((s_unacked s)(n \<mapsto> u)) m r \<longleftrightarrow> settled (s_unacked s) m r" if "m \<noteq> n" for m r
    using that by (simp add: settled_def unacked_of_def)
  show ?thesis
  proof (cases "n = GREETING_CHANNEL")
    case True
    have "rv_number (recv_of c2) = GREETING_CHANNEL" using num True by (simp add: recv_of_def)
    moreover have "settled ((s_unacked s)(n \<mapsto> u)) m r" if "b_channels (books_of s) m = Some r" for m r
    proof -
      have "m \<noteq> n" "settled (s_unacked s) m r"
        using wf that True by (auto simp: wf_books_def wf_receipts_def books_select(1))
      then show ?thesis using other by simp
    qed
    ultimately show ?thesis
      using wf ok True unfolding b wf_books_def wf_numbers_def wf_receipts_def
      by (auto simp: with_recv_def books_select(1) open_settled_def)
  next
    case False
    with wf ok opened other show ?thesis
      unfolding b wf_books_def wf_numbers_def wf_receipts_def
      by (auto simp: with_recv_def books_select(1) open_settled_def)
  qed
qed

lemma wf_dispatch:
  assumes "wf_books (books_of s)"
  shows "wf_books (books_of (fst (dispatch_management k m mg s)))"
proof -
  let ?t = "fst (take_pending m s)"
  have t: "books_of ?t = (books_of s)\<lparr>b_pending := (b_pending (books_of s))(m := None)\<rparr>"
    by (simp add: take_pending_def books_of_def)
  have wft: "wf_books (books_of ?t)" unfolding t by (rule wf_books_pending_removed [OF assms])
  have opened: "wf_books (books_of (open_channel n u t'))"
    if "s_pending s m = Some (PStart n)" "books_of t' = books_of ?t" for n u t'
    unfolding books_open_channel that(2)
    by (rule wf_books_opened [OF wft])
      (use assms that(1) in \<open>auto simp: t wf_books_def wf_numbers_def books_select GREETING_CHANNEL_def split: if_splits\<close>)
  show ?thesis
    using assms wft opened [where t' = "(release_zero m ?t)\<lparr>s_half_open := _\<rparr>"]
    by (auto simp: dispatch_management_def take_pending_def Let_def wf_finish_close
        split: frame_kind.split mgmt_message.split option.split pending.split)
qed

lemma wf_handle_frame:
  assumes "wf_books (books_of s)" and "handle_frame f s = (s', Inr ())"
  shows "wf_books (books_of s')"
proof (cases f)
  case (SeqF seq)
  with assms(2) have seq: "handle_seq seq s = (s', Inr ())" by simp
  then obtain c where c: "channel_of s (sf_channel seq) = Some c"
    and s': "s' = fst (flush (sf_channel seq) (store_channel (sf_channel seq) (apply_seq c seq) s))"
    by (auto simp: handle_seq_def split: option.splits)
  have "with_recv (sf_channel seq) (recv_of c) (books_of s) = books_of s"
    using c by (auto simp: with_recv_def channel_of_def books_of_def fun_eq_iff split: if_splits)
  with s' assms(1) show ?thesis by (simp add: books_store_channel)
next
  case (DataF d)
  show ?thesis
  proof (cases "df_channel d = GREETING_CHANNEL")
    case True
    with DataF assms(2) have z: "handle_channel_zero d s = (s', Inr ())" by (simp add: handle_data_def)
    have zero: "channel_of s GREETING_CHANNEL = Some (s_zero s)" by (simp add: channel_of_def)
    obtain s1 x s2 where rc: "accept_on GREETING_CHANNEL (s_zero s) d s = (s1, Inr x)"
      "acknowledge GREETING_CHANNEL (df_size d) s1 = (s2, Inr ())"
      and cases: "(\<exists>g. s_state s = AwaitingGreeting \<and> s' = push_event (GreetingReceived g) (s2\<lparr>s_peer_greeting := Some g, s_state := Ready\<rparr>)) \<or>
        s' = s2 \<or> (\<exists>k m mg. s' = fst (dispatch_management k m mg s2))"
    proof (cases "s_state s = AwaitingGreeting")
      case True
      with z obtain g s1 x s2 where "accept_on GREETING_CHANNEL (s_zero s) d s = (s1, Inr x)"
        "acknowledge GREETING_CHANNEL (df_size d) s1 = (s2, Inr ())"
        "s' = push_event (GreetingReceived g) (s2\<lparr>s_peer_greeting := Some g, s_state := Ready\<rparr>)"
        by (auto simp: handle_channel_zero_def bind_st_Inr_iff split: sum.splits)
      with True that show ?thesis by blast
    next
      case False
      with z obtain s1 x s2 where h: "accept_on GREETING_CHANNEL (s_zero s) d s = (s1, Inr x)"
        "acknowledge GREETING_CHANNEL (df_size d) s1 = (s2, Inr ())"
        "(case x of None \<Rightarrow> (s2, Inr ()) | Some msg \<Rightarrow>
            (case from_payload (msg_payload msg) of Inl e \<Rightarrow> (s2, Inl e)
             | Inr mg \<Rightarrow> dispatch_management (msg_kind msg) (msg_msgno msg) mg s2)) = (s', Inr ())"
        by (auto simp: handle_channel_zero_def bind_st_Inr_iff)
      then have "s' = s2 \<or> (\<exists>k m mg. s' = fst (dispatch_management k m mg s2))"
        by (auto split: option.splits sum.splits) (metis fst_conv)
      with h that show ?thesis by blast
    qed
    have wf2: "wf_books (books_of s2)" by (rule wf_receipt [OF assms(1) zero rc])
    have "s_state s2 = s_state s"
      using rc by (auto simp: accept_on_def acknowledge_def Let_def store_channel_def put_channel_def channel_of_def
          split: prod.splits option.splits if_splits sum.splits)
    then have "wf_books (books_of (push_event (GreetingReceived g) (s2\<lparr>s_peer_greeting := Some g, s_state := Ready\<rparr>)))"
      if "s_state s = AwaitingGreeting" for g
      using wf2 that by (simp add: wf_books_def wf_numbers_def wf_receipts_def) (simp add: books_of_def)
    with cases wf2 show ?thesis by (auto simp: wf_dispatch)
  next
    case False
    with DataF assms(2) obtain c s1 x s2 where c: "channel_of s (df_channel d) = Some c"
      and rc: "accept_on (df_channel d) c d s = (s1, Inr x)" "acknowledge (df_channel d) (df_size d) s1 = (s2, Inr ())"
      and b: "books_of s' = books_of s2"
      by (auto simp: handle_data_def channel_of_def bind_st_Inr_iff Let_def split: option.splits if_splits)
    from wf_receipt [OF assms(1) c rc] b show ?thesis by simp
  qed
qed

lemma wf_input_loop:
  "wf_books (books_of s) \<Longrightarrow> input_loop s = (s', Inr ()) \<Longrightarrow> wf_books (books_of s')"
proof (induction s rule: input_loop.induct)
  case (1 s)
  obtain d buf r where step: "decode (s_decoder s) (s_inbound s) = ((d, buf), r)" by (metis prod.collapse)
  let ?s = "s\<lparr>s_decoder := d, s_inbound := buf\<rparr>"
  consider (err) e where "r = Inl e" | (none) "r = Inr None" | (frame) f where "r = Inr (Some f)"
    by (metis not_Some_eq sum.exhaust)
  then show ?case
  proof cases
    case err
    with input_loop_step [OF step] "1.prems" show ?thesis by simp
  next
    case none
    with input_loop_step [OF step] "1.prems" have "s' = ?s" by simp
    with "1.prems"(1) show ?thesis by simp
  next
    case frame
    with input_loop_step [OF step] "1.prems"(2) have
      "bind_st (handle_frame f ?s) (\<lambda>s _. input_loop s) = (s', Inr ())" by simp
    then obtain s2 where h: "handle_frame f ?s = (s2, Inr ())" "input_loop s2 = (s', Inr ())"
      by (auto simp: bind_st_Inr_iff)
    have "wf_books (books_of s2)" by (rule wf_handle_frame [OF _ h(1)]) (use "1.prems"(1) in simp)
    with "1.IH" [OF step [symmetric] refl refl] frame h show ?thesis by auto
  qed
qed

section \<open>The life of a session\<close>

datatype operation =
    Input bytes
  | Start profile
  | AcceptStart u32 u32 profile
  | RefuseStart u32 error_reply
  | Close u32
  | AcceptClose u32 u32
  | RefuseClose u32 error_reply
  | Send u32 frame_kind u32 "u32 option" bytes
  | SendMsg u32 bytes
  | SetWindowSize u32 u32
  | SetAuthenticated bytes
  | SetServerName bytes
  | PollTransmit
  | PollEvent

text \<open>The method each stands for, with the values it returns besides an error left out.\<close>

fun perform :: "operation \<Rightarrow> session \<Rightarrow> session \<times> unit result" where
  "perform (Input b) s = handle_input b s"
| "perform (Start p) s = bind_st (start_channel p s) (\<lambda>s _. (s, Inr ()))"
| "perform (AcceptStart n m p) s = accept_start n m p s"
| "perform (RefuseStart m e) s = refuse_start m e s"
| "perform (Close n) s = close_channel n s"
| "perform (AcceptClose n m) s = accept_close n m s"
| "perform (RefuseClose m e) s = refuse_close m e s"
| "perform (Send n k m a p) s = send n k m a p s"
| "perform (SendMsg n p) s = bind_st (send_msg n p s) (\<lambda>s _. (s, Inr ()))"
| "perform (SetWindowSize n sz) s = set_window_size n sz s"
| "perform (SetAuthenticated i) s = (set_authenticated i s, Inr ())"
| "perform (SetServerName n) s = (set_server_name n s, Inr ())"
| "perform PollTransmit s = (fst (poll_transmit s), Inr ())"
| "perform PollEvent s = (fst (poll_event s), Inr ())"

text \<open>
  An error while reading ends a session, so only input that was handled leads on; any other
  operation may fail and be followed by more. A channel is started while the numbers of this
  end's parity last.
\<close>

fun goes_on :: "operation \<Rightarrow> session \<Rightarrow> unit result \<Rightarrow> bool" where
  "goes_on (Input b) s r \<longleftrightarrow> r = Inr ()"
| "goes_on (Start p) s r \<longleftrightarrow> unat (s_next_channel s) + 2 < 2 ^ 32"
| "goes_on opn s r \<longleftrightarrow> True"

inductive reachable :: "config \<Rightarrow> session \<Rightarrow> bool" for cfg where
  created: "reachable cfg (session_new cfg)"
| performed: "reachable cfg s \<Longrightarrow> perform opn s = (s', r) \<Longrightarrow> goes_on opn s r \<Longrightarrow> reachable cfg s'"

lemma books_session_new: "books_of (session_new cfg) = books_of (session_init cfg)"
proof -
  have "books_of (advertise_window n s) = books_of s" for n s
    by (auto simp: advertise_window_def split: option.split sum.split)
  then show ?thesis by (simp add: session_new_def session_greet_def)
qed

lemma wf_session_new: "wf_books (books_of (session_new cfg))"
proof -
  have "first_channel (cf_role cfg) \<noteq> 0" by (cases "cf_role cfg") simp_all
  then show ?thesis
    unfolding books_session_new
    by (simp add: wf_books_def wf_numbers_def wf_receipts_def books_of_def session_init_def own_parity_def
        settled_def unacked_of_def recv_of_new distance_from_def)
qed

lemma wf_start_channel:
  assumes "wf_books (books_of s)" and "unat (s_next_channel s) + 2 < 2 ^ 32"
  shows "wf_books (books_of (fst (start_channel p s)))"
proof (cases "s_state s = Ready")
  case False
  with assms(1) show ?thesis by (simp add: start_channel_def require_ready_def)
next
  case True
  let ?n = "s_next_channel s"
  let ?s = "s\<lparr>s_next_channel := ?n + 2, s_half_open := (s_half_open s)(?n \<mapsto> p)\<rparr>"
  let ?r = "request (MStart (start_new ?n p)) (PStart ?n) ?s"
  have b: "books_of ?s = (books_of s)\<lparr>b_next := ?n + 2\<rparr>" by (simp add: books_of_def)
  have more: "wf_books ((books_of s)\<lparr>b_next := ?n + 2, b_pending := (b_pending (books_of s))(m \<mapsto> PStart ?n)\<rparr>)" for m
    using wf_books_start(2) [OF assms(1), of m] assms(2) by (simp add: books_select)
  have "wf_books ((books_of s)\<lparr>b_next := ?n + 2\<rparr>)"
    using wf_books_start(1) [OF assms(1)] assms(2) by (simp add: books_select)
  with more have "wf_books (books_of (fst ?r))"
    unfolding books_request b by (simp split: sum.split)
  moreover have "fst (start_channel p s) = fst ?r"
    using True by (cases ?r rule: bind_st_cases) (simp_all add: start_channel_def require_ready_def Let_def)
  ultimately show ?thesis by simp
qed

lemma fst_bind_unit [simp]: "fst (bind_st r (\<lambda>s x. (s, g x))) = fst r"
  by (cases r rule: bind_st_cases) simp_all

lemma wf_accept_start:
  assumes "wf_books (books_of s)" shows "wf_books (books_of (fst (accept_start n m p s)))"
proof -
  have "own_parity r n \<Longrightarrow> n \<noteq> 0 \<Longrightarrow> owns r n" for r
    by (cases r) (auto simp: own_parity_def)
  then have "wf_books (books_of (open_channel n u s))"
    if "n \<noteq> GREETING_CHANNEL" "\<not> owns (cf_role (s_config s)) n" "s_channels s n = None" for u
    unfolding books_open_channel
    by (intro wf_books_opened [OF assms])
      (use that assms in \<open>auto simp: books_of_def GREETING_CHANNEL_def wf_books_def wf_numbers_def\<close>)
  with assms show ?thesis by (simp add: accept_start_def)
qed

lemma wf_perform:
  assumes wf: "wf_books (books_of s)" and p: "perform opn s = (s', r)" and g: "goes_on opn s r"
  shows "wf_books (books_of s')"
proof -
  have close: "wf_books (books_of (fst (close_channel n s)))" for n
    using wf by (auto simp: close_channel_def books_request wf_books_close split: sum.split)
  have s': "s' = fst (perform opn s)" using p by simp
  show ?thesis
  proof (cases opn)
    case (Input b)
    with p g have "input_loop (s\<lparr>s_inbound := s_inbound s @ b\<rparr>) = (s', Inr ())" by (simp add: handle_input_def)
    with wf_input_loop [OF _ this] wf show ?thesis by simp
  next
    case (Start x)
    with g wf_start_channel [OF wf] s' show ?thesis by simp
  next
    case (AcceptClose n m)
    have "wf_books (books_of (fst (accept_close n m s)))"
      unfolding accept_close_def
      by (rule bind_st_keeps [where P = "\<lambda>t. wf_books (books_of t)"]) (simp_all add: wf wf_finish_close)
    with AcceptClose s' show ?thesis by simp
  next
    case (SendMsg n x)
    have "books_of (fst (send_msg n x s)) = books_of s"
    proof (cases "s_channels s n")
      case (Some c)
      obtain c' r where a: "allocate_msgno c = (c', r)" by fastforce
      have "recv_of c' = recv_of c" using recv_of_outgoing(1) [of c] a by simp
      with Some a show ?thesis by (cases r) (simp_all add: send_msg_def)
    qed (simp add: send_msg_def)
    with SendMsg s' wf show ?thesis by simp
  next
    case (SetWindowSize n sz)
    with s' wf show ?thesis by (auto simp: set_window_size_def split: option.split)
  qed (use s' wf wf_accept_start [OF wf] close in
        \<open>auto simp: refuse_start_def refuse_close_def poll_transmit_def poll_event_def set_authenticated_def
           set_server_name_def split: list.split\<close>)
qed

lemma reachable_wf: "reachable cfg s \<Longrightarrow> wf_books (books_of s)"
  by (induction rule: reachable.induct) (auto simp: wf_session_new intro: wf_perform)

section \<open>Properties\<close>

text \<open>
  C3 (invariant). At every moment of a session's life, on every open channel and on channel 0
  until the session ends, the octets received are exactly the octets acknowledged to the peer
  plus the octets the session still owes an acknowledgement for, modulo $2^{32}$, and every
  channel of the table sits under its own number.
\<close>

theorem receipts_accounted:
  assumes "reachable cfg s" and "channel_of s n = Some c" and "n = GREETING_CHANNEL \<longrightarrow> s_state s \<noteq> Closed"
  shows "ch_number c = n \<and>
    ch_expected_seqno c = advance (w_base (ch_recv_window c)) (case s_unacked s n of None \<Rightarrow> 0 | Some k \<Rightarrow> k)"
proof -
  have "settled (s_unacked s) n (recv_of c)"
    using wf_settled [OF reachable_wf [OF assms(1)] assms(2)] assms(3) by (simp add: open_settled_def books_select)
  then have "ch_number c = n"
    "distance_from (ch_expected_seqno c) (w_base (ch_recv_window c)) = unacked_of (s_unacked s) n"
    by (simp_all add: settled_def recv_of_def)
  then show ?thesis using seq_counter.adv_dist [of "w_base (ch_recv_window c)" "ch_expected_seqno c"]
    by (simp add: unacked_of_def)
qed

theorem receipts_accounted_witness:
  "ch_expected_seqno (s_zero (session_new (config_new Listener))) =
     advance (w_base (ch_recv_window (s_zero (session_new (config_new Listener)))))
       (case s_unacked (session_new (config_new Listener)) 0 of None \<Rightarrow> 0 | Some k \<Rightarrow> k)"
proof -
  let ?s = "session_new (config_new Listener)"
  have "channel_of ?s 0 = Some (s_zero ?s)" by (simp add: channel_of_def GREETING_CHANNEL_def)
  moreover have "b_state (books_of ?s) = AwaitingGreeting"
    unfolding books_session_new by (simp add: books_of_def session_init_def)
  then have "s_state ?s \<noteq> Closed" by (simp add: books_select)
  ultimately show ?thesis using receipts_accounted [OF reachable.created, of "config_new Listener" 0] by simp
qed

end
