(* ===== verification/SessionHistory.thy ===== *)
theory SessionHistory
  imports SessionInvariant
begin

text \<open>
  A session only moves forward: what it has written and reported is never taken back, and
  the greeting, the exchange and the end follow each other in that order.
\<close>

section \<open>Moving forward\<close>

fun phase :: "state \<Rightarrow> nat" where
  "phase AwaitingGreeting = 0"
| "phase Ready = 1"
| "phase Closed = 2"

definition moves_on :: "session \<Rightarrow> session \<Rightarrow> bool" where
  "moves_on s s' \<longleftrightarrow> (\<exists>octets. s_outbound s' = s_outbound s @ octets) \<and> (\<exists>es. s_events s' = s_events s @ es) \<and>
     phase (s_state s) \<le> phase (s_state s')"

lemma moves_on_refl [simp]: "moves_on s s"
  by (simp add: moves_on_def)

lemma moves_on_trans: "moves_on s s1 \<Longrightarrow> moves_on s1 s2 \<Longrightarrow> moves_on s s2"
  by (auto simp: moves_on_def)

lemma phase_le [simp]: "phase st \<le> 2"
  by (cases st) simp_all

lemma moves_on_same:
  "s_outbound s' = s_outbound s1 \<Longrightarrow> s_events s' = s_events s1 \<Longrightarrow> s_state s' = s_state s1 \<Longrightarrow>
     moves_on s s' = moves_on s s1"
  by (simp add: moves_on_def)

lemma moves_on_updates [simp]:
  "moves_on s (enqueue n k m a p s1) = moves_on s s1" "moves_on s (put_channel n c s1) = moves_on s s1"
  "moves_on s (store_channel n c s1) = moves_on s s1" "moves_on s (release_zero m s1) = moves_on s s1"
  "moves_on s (open_channel n u s1) = moves_on s s1" "moves_on s (pop_order n s1) = moves_on s s1"
  "moves_on s (hold_reply n q s1) = moves_on s s1" "moves_on s (s1\<lparr>s_held_replies := h\<rparr>) = moves_on s s1"
  "moves_on s (s1\<lparr>s_half_open := ho\<rparr>) = moves_on s s1" "moves_on s (s1\<lparr>s_reply_order := ro\<rparr>) = moves_on s s1"
  "moves_on s (s1\<lparr>s_decoder := d, s_inbound := i\<rparr>) = moves_on s s1" "moves_on s (s1\<lparr>s_zero := z\<rparr>) = moves_on s s1"
  "moves_on s (s1\<lparr>s_server_name := sn\<rparr>) = moves_on s s1" "moves_on s (s1\<lparr>s_inbound := i\<rparr>) = moves_on s s1"
  "moves_on s (s1\<lparr>s_pending := p1\<rparr>) = moves_on s s1" "moves_on s (s1\<lparr>s_unacked := un\<rparr>) = moves_on s s1"
  "moves_on s (s1\<lparr>s_zero := z, s_pending := p1\<rparr>) = moves_on s s1"
  "moves_on s (s1\<lparr>s_authenticated := au\<rparr>) = moves_on s s1"
  "moves_on s (s1\<lparr>s_next_channel := nc\<rparr>) = moves_on s s1" "moves_on s (s1\<lparr>s_decoder := d\<rparr>) = moves_on s s1"
  by (auto simp: moves_on_def enqueue_def put_channel_def store_channel_def release_zero_def open_channel_def pop_order_def
      hold_reply_def Let_def split: option.split)

lemma moves_on_push [simp]: "moves_on s s1 \<Longrightarrow> moves_on s (push_event e s1)"
  by (auto simp: moves_on_def push_event_def)

lemma flush_loop_appends: "\<exists>octets. fst (snd (fst (flush_loop mfs c out q))) = out @ octets"
proof (induction mfs c out q rule: flush_loop.induct)
  case (2 mfs c out front rest)
  then show ?case by (fastforce simp: foldl_encode Let_def split: prod.split sum.split)
qed simp

lemma moves_on_flush [simp]: "moves_on s s1 \<Longrightarrow> moves_on s (fst (flush n s1))"
proof -
  have out: "\<exists>octets. o' = out @ octets" if "flush_loop mfs c out q = ((c', o', q'), r)" for mfs c out q c' o' q' r
    using flush_loop_appends [of mfs c out q] that by simp
  assume "moves_on s s1"
  moreover have "moves_on s1 (fst (flush n s1))"
    by (auto simp: flush_def moves_on_def put_channel_def split: option.split prod.split dest!: out)
  ultimately show ?thesis by (rule moves_on_trans)
qed

lemma moves_on_enqueue_all [simp]: "moves_on s (enqueue_all n qs s1) = moves_on s s1"
  unfolding enqueue_all_def by (induction qs arbitrary: s1) simp_all

lemma moves_on_release_loop [simp]: "moves_on s s1 \<Longrightarrow> moves_on s (fst (release_loop n s1))"
proof (induction n s1 rule: release_loop.induct)
  case (1 n s1)
  show ?case
    by (subst release_loop.simps)
      (auto simp: Let_def 1 intro!: bind_st_keeps [where P = "moves_on s"] split: list.split option.split)
qed

lemma moves_on_reply_finished [simp]: "moves_on s s1 \<Longrightarrow> moves_on s (fst (reply_finished n m s1))"
  by (auto simp: reply_finished_def Let_def split: option.split list.split)

lemma moves_on_send [simp]: "moves_on s s1 \<Longrightarrow> moves_on s (fst (send n k m a p s1))"
  by (auto simp: send_def Let_def case_prod_beta intro!: bind_st_keeps [where P = "moves_on s"] split: option.split)

lemma moves_on_finish_close [simp]: "moves_on s s1 \<Longrightarrow> moves_on s (finish_close n s1)"
  by (auto simp: finish_close_def moves_on_def push_event_def)

lemma moves_on_acknowledge: "moves_on s s1 \<Longrightarrow> moves_on s (fst (acknowledge n k s1))"
  by (auto simp: acknowledge_def Let_def encode_seq_eq split: option.split prod.split sum.split)
    (auto simp: moves_on_def store_channel_def put_channel_def)

lemma moves_on_accept_on: "moves_on s s1 \<Longrightarrow> moves_on s (fst (accept_on n c f s1))"
  by (auto simp: accept_on_def split: prod.split)

lemma moves_on_dispatch: "moves_on s s1 \<Longrightarrow> moves_on s (fst (dispatch_management k m mg s1))"
  by (auto simp: dispatch_management_def take_pending_def Let_def
      split: option.split frame_kind.split mgmt_message.split pending.split)

lemma acknowledge_state: "s_state (fst (acknowledge n k s)) = s_state s"
  by (auto simp: acknowledge_def Let_def store_channel_def put_channel_def split: option.split prod.split sum.split)

lemma accept_on_state: "s_state (fst (accept_on n c f s)) = s_state s"
  by (auto simp: accept_on_def store_channel_def put_channel_def split: prod.split)

lemmas moves_on_parts = moves_on_acknowledge moves_on_accept_on moves_on_dispatch

lemma moves_on_frame: "moves_on s (fst (handle_frame f s))"
proof (cases f)
  case (SeqF seq)
  then show ?thesis by (auto simp: handle_seq_def split: option.split)
next
  case (DataF d)
  let ?P = "\<lambda>t. moves_on s t \<and> s_state t = s_state s"
  have greet: "moves_on s (fst (bind_st (accept_on GREETING_CHANNEL (s_zero s) d s) (\<lambda>s _.
             bind_st (acknowledge GREETING_CHANNEL (df_size d) s) (\<lambda>s _.
               (push_event (GreetingReceived g) (s\<lparr>s_peer_greeting := Some g, s_state := Ready\<rparr>), Inr ())))))"
    if "s_state s = AwaitingGreeting" for g
  proof (cases "bind_st (accept_on GREETING_CHANNEL (s_zero s) d s) (\<lambda>s _. acknowledge GREETING_CHANNEL (df_size d) s)"
      rule: bind_st_cases)
    case (err t e)
    have "?P (fst (bind_st (accept_on GREETING_CHANNEL (s_zero s) d s) (\<lambda>s _. acknowledge GREETING_CHANNEL (df_size d) s)))"
      by (rule bind_st_keeps [where P = ?P]) (auto simp: moves_on_parts acknowledge_state accept_on_state)
    with err show ?thesis by (simp add: bind_st_assoc [symmetric])
  next
    case (ok t x)
    have "?P (fst (bind_st (accept_on GREETING_CHANNEL (s_zero s) d s) (\<lambda>s _. acknowledge GREETING_CHANNEL (df_size d) s)))"
      by (rule bind_st_keeps [where P = ?P]) (auto simp: moves_on_parts acknowledge_state accept_on_state)
    with ok that show ?thesis by (simp add: bind_st_assoc [symmetric]) (auto simp: moves_on_def push_event_def)
  qed
  have z: "moves_on s (fst (handle_channel_zero d s))"
    unfolding handle_channel_zero_def using greet
    by (auto intro!: bind_st_keeps [where P = "moves_on s"] moves_on_parts split: sum.split option.split)
  have "moves_on s (fst (handle_data d s))"
    unfolding handle_data_def Let_def using z
    by (auto intro!: bind_st_keeps [where P = "moves_on s"] moves_on_parts split: option.split)
  with DataF show ?thesis by simp
qed

lemma moves_on_input_loop: "moves_on s (fst (input_loop s))"
proof (induction s rule: input_loop.induct)
  case (1 s)
  obtain d buf r where step: "decode (s_decoder s) (s_inbound s) = ((d, buf), r)" by (metis prod.collapse)
  let ?s = "s\<lparr>s_decoder := d, s_inbound := buf\<rparr>"
  have "moves_on s (fst (bind_st (handle_frame f ?s) (\<lambda>s _. input_loop s)))" if "r = Inr (Some f)" for f
  proof (rule bind_st_keeps [where P = "moves_on s"])
    show first: "moves_on s (fst (handle_frame f ?s))"
      using moves_on_frame [of ?s f] by (rule moves_on_trans [rotated]) simp
    fix t x assume h: "handle_frame f ?s = (t, Inr x)"
    have "moves_on t (fst (input_loop t))" using 1 [OF step [symmetric] refl refl] that h by auto
    with first h show "moves_on s (fst (input_loop t))" by (auto intro: moves_on_trans)
  qed
  then show ?case by (auto simp: input_loop_step [OF step] split: sum.split option.split)
qed

lemma moves_on_request: "moves_on s s1 \<Longrightarrow> moves_on s (fst (request mg p s1))"
  by (auto simp: request_def write_zero_def split: prod.split sum.split)

lemma moves_on_reply [simp]: "moves_on s s1 \<Longrightarrow> moves_on s (fst (reply k m mg s1))"
  by (simp add: reply_def write_zero_def)

lemma moves_on_accept_close: "moves_on s (fst (accept_close n m s))"
  unfolding accept_close_def by (rule bind_st_keeps [where P = "moves_on s"]) simp_all

lemma moves_on_start_channel: "moves_on s (fst (start_channel p s))"
  by (auto simp: start_channel_def require_ready_def Let_def intro!: moves_on_request)

lemma moves_on_close_channel: "moves_on s (fst (close_channel n s))"
  by (auto simp: close_channel_def require_ready_def intro!: moves_on_request)

lemma moves_on_send_msg: "moves_on s (fst (send_msg n p s))"
  by (auto simp: send_msg_def split: option.split prod.split sum.split)

lemma moves_on_input: "moves_on s (fst (handle_input b s))"
  unfolding handle_input_def by (rule moves_on_trans [OF _ moves_on_input_loop]) simp

section \<open>Properties\<close>

text \<open>
  C9 (safety). Nothing a session has said is taken back, and it never goes back a phase.
  Whatever operation is performed, failed or not, apart from the two by which the transport
  and the application collect their output, the octets waiting to be written and the events
  waiting to be reported are those from before with more at the end, and the phase (awaiting
  the greeting, ready, closed) is the same or a later one; collecting takes all the octets, or
  the oldest event, and nothing else.
\<close>

theorem session_moves_forward:
  "(opn \<noteq> PollTransmit \<and> opn \<noteq> PollEvent \<longrightarrow> moves_on s (fst (perform opn s))) \<and>
   (\<forall>octets. snd (poll_transmit s) = Some octets \<longrightarrow> octets = s_outbound s \<and> octets \<noteq> [] \<and>
      fst (poll_transmit s) = s\<lparr>s_outbound := []\<rparr>) \<and>
   (\<forall>e. snd (poll_event s) = Some e \<longrightarrow> s_events s = e # s_events (fst (poll_event s)))"
proof (intro conjI impI allI)
  assume other: "opn \<noteq> PollTransmit \<and> opn \<noteq> PollEvent"
  show "moves_on s (fst (perform opn s))"
    using other moves_on_accept_close moves_on_start_channel moves_on_close_channel moves_on_send_msg moves_on_input
    by (cases opn) (auto simp: accept_start_def refuse_start_def refuse_close_def set_window_size_def
        set_authenticated_def set_server_name_def split: option.split)
qed (auto simp: poll_transmit_def poll_event_def split: if_splits list.splits)

theorem session_moves_forward_witness:
  "moves_on sample_session (fst (perform (Send 1 Rpy 5 None ''first'') sample_session)) \<and>
   snd (poll_event (sample_session\<lparr>s_events := [ChannelClosed 3, SessionClosed]\<rparr>)) = Some (ChannelClosed 3)"
  using session_moves_forward [of "Send 1 Rpy 5 None ''first''" sample_session] by (simp add: poll_event_def)

end
