(* ===== verification/Tables.thy ===== *)
theory Tables
  imports "HOL-Library.Multiset"
begin

text \<open>
  A \<open>HashMap\<close> whose entries are drained, listed or counted: an association list with each key
  at most once (\<open>keyed\<close>). The order of the list stands for the order the map happens to yield.
  What the lemmas show is what the components above rest on: a lookup after each operation, and
  that no value is lost or made up by one.
\<close>

type_synonym ('k, 'v) table = "('k \<times> 'v) list"

definition keyed :: "('k, 'v) table \<Rightarrow> bool" where
  "keyed t \<longleftrightarrow> distinct (map fst t)"

definition table_delete :: "'k \<Rightarrow> ('k, 'v) table \<Rightarrow> ('k, 'v) table" where
  "table_delete k t = filter (\<lambda>p. fst p \<noteq> k) t"

definition table_insert :: "'k \<Rightarrow> 'v \<Rightarrow> ('k, 'v) table \<Rightarrow> ('k, 'v) table" where
  "table_insert k v t = (k, v) # table_delete k t"

lemma keyed_Nil [simp]: "keyed []"
  by (simp add: keyed_def)

lemma table_delete_simps [simp]:
  "table_delete k [] = []"
  "table_delete k (p # t) = (if fst p = k then table_delete k t else p # table_delete k t)"
  by (simp_all add: table_delete_def)

lemma keyed_Cons [simp]: "keyed (p # t) \<longleftrightarrow> fst p \<notin> fst ` set t \<and> keyed t"
  by (simp add: keyed_def)

lemma table_delete_keys: "fst ` set (table_delete k t) = fst ` set t - {k}"
  by (induction t) auto

lemma keyed_delete [simp]: "keyed t \<Longrightarrow> keyed (table_delete k t)"
  by (induction t) (auto simp: table_delete_keys)

lemma keyed_insert [simp]: "keyed t \<Longrightarrow> keyed (table_insert k v t)"
  by (auto simp: table_insert_def table_delete_keys)

lemma lookup_delete [simp]: "map_of (table_delete k t) = (map_of t)(k := None)"
  by (induction t) auto

lemma lookup_insert [simp]: "map_of (table_insert k v t) = (map_of t)(k \<mapsto> v)"
  by (auto simp: table_insert_def)

lemma table_delete_absent: "map_of t k = None \<Longrightarrow> table_delete k t = t"
  by (induction t) (auto split: if_splits)

text \<open>The values of a table, and what an operation does to them.\<close>

definition table_values :: "('k, 'v) table \<Rightarrow> 'v multiset" where
  "table_values t = image_mset snd (mset t)"

lemma table_values_simps [simp]: "table_values [] = {#}" "table_values (p # t) = add_mset (snd p) (table_values t)"
  by (simp_all add: table_values_def)

lemma table_values_delete:
  "keyed t \<Longrightarrow> map_of t k = Some v \<Longrightarrow> table_values t = add_mset v (table_values (table_delete k t))"
proof (induction t)
  case (Cons p t)
  show ?case
  proof (cases "fst p = k")
    case True
    then have "map_of t k = None" using Cons.prems by (auto simp: map_of_eq_None_iff)
    with True Cons.prems show ?thesis by (auto simp: table_delete_absent)
  next
    case False
    with Cons show ?thesis by (cases p) auto
  qed
qed simp

lemma table_values_insert: "table_values (table_insert k v t) = add_mset v (table_values (table_delete k t))"
  by (simp add: table_insert_def)

end
