(* ===== verification/Routing.thy ===== *)
theory Routing
  imports Sessions Management Tables "HOL-Library.List_Lexorder" "HOL-Library.Char_ord"
begin

text \<open>
  The parts of \<^verbatim>\<open>vortice/src\<close> around the driver: errors (\<^verbatim>\<open>error.rs\<close>), what a caller is told
  (\<^verbatim>\<open>channel.rs\<close>), handlers, the router and the responder (\<^verbatim>\<open>router.rs\<close>), services
  (\<^verbatim>\<open>service.rs\<close>) and the greeting a server makes (\<^verbatim>\<open>server.rs\<close>). Every method of a handle sends
  one command and waits for its answer, so a method is the command it sends, with the caller
  that waits as a number, and \<open>awaited\<close> is what the wait makes of the answer.

  A handler is the application's code and a parameter: \<open>'w\<close> is whatever state the handlers of a
  process share, which \<open>accept\<close> may read and change. What a handler does in its own task is not
  the driver's; it comes back to it as commands.
\<close>

section \<open>Errors and answers\<close>

datatype driver_error = Io | Protocol error | Refused error_reply | ClosedError

datatype reply_shape = ReplyRpy bytes | ReplyErr bytes | ReplyAnswers "bytes list"

fun reply_is_ok :: "reply_shape \<Rightarrow> bool" where
  "reply_is_ok (ReplyErr _) = False"
| "reply_is_ok _ = True"

fun reply_payload :: "reply_shape \<Rightarrow> bytes" where
  "reply_payload (ReplyRpy payload) = payload"
| "reply_payload (ReplyErr payload) = payload"
| "reply_payload (ReplyAnswers answers) = (case answers of [] \<Rightarrow> [] | first # _ \<Rightarrow> first)"

fun reply_answers :: "reply_shape \<Rightarrow> bytes list" where
  "reply_answers (ReplyAnswers answers) = answers"
| "reply_answers _ = []"

record delivered =
  dl_kind :: frame_kind
  dl_msgno :: u32
  dl_ansno :: "u32 option"
  dl_payload :: bytes

text \<open>
  What is sent through a caller's one-shot channel, and \<open>SenderDropped\<close>, which is what the
  caller sees when the other end goes away without sending.
\<close>

datatype answer =
    ChannelHandle u32 profile
  | Ok
  | Replied reply_shape
  | Told "bytes option"
  | Greeted greeting
  | Failure driver_error
  | SenderDropped

definition awaited :: "answer \<Rightarrow> answer" where
  "awaited a = (case a of SenderDropped \<Rightarrow> Failure ClosedError | _ \<Rightarrow> a)"

text \<open>\<open>Connection::close\<close> takes a driver that has gone for success.\<close>

definition close_awaited :: "answer \<Rightarrow> answer" where
  "close_awaited a = (case a of SenderDropped \<Rightarrow> Ok | _ \<Rightarrow> a)"

section \<open>Commands\<close>

type_synonym caller = nat

datatype command =
    OpenChannel profile caller
  | CloseChannel u32 caller
  | Request u32 bytes caller
  | Send u32 frame_kind u32 "u32 option" bytes caller
  | CloseSession caller
  | ServerName caller
  | Authenticated caller
  | Authenticate bytes caller
  | SetWindowSize u32 u32 caller
  | Upgrade "(u32 \<times> u32 \<times> bytes) option" config caller

fun asks :: "command \<Rightarrow> caller" where
  "asks (OpenChannel _ c) = c"
| "asks (CloseChannel _ c) = c"
| "asks (Request _ _ c) = c"
| "asks (Send _ _ _ _ _ c) = c"
| "asks (CloseSession c) = c"
| "asks (ServerName c) = c"
| "asks (Authenticated c) = c"
| "asks (Authenticate _ c) = c"
| "asks (SetWindowSize _ _ c) = c"
| "asks (Upgrade _ _ c) = c"

text \<open>The responder of one channel.\<close>

definition responder_reply :: "u32 \<Rightarrow> u32 \<Rightarrow> bytes \<Rightarrow> caller \<Rightarrow> command" where
  "responder_reply ch msgno payload = Send ch Rpy msgno None payload"

definition responder_error :: "u32 \<Rightarrow> u32 \<Rightarrow> bytes \<Rightarrow> caller \<Rightarrow> command" where
  "responder_error ch msgno payload = Send ch Err msgno None payload"

definition responder_answer :: "u32 \<Rightarrow> u32 \<Rightarrow> bytes \<Rightarrow> caller \<Rightarrow> command" where
  "responder_answer ch msgno payload = Send ch Ans msgno None payload"

definition responder_finish :: "u32 \<Rightarrow> u32 \<Rightarrow> caller \<Rightarrow> command" where
  "responder_finish ch msgno = Send ch Nul msgno None []"

definition responder_upgrade :: "config \<Rightarrow> caller \<Rightarrow> command" where
  "responder_upgrade cfg = Upgrade None cfg"

definition reply_then_upgrade :: "u32 \<Rightarrow> u32 \<Rightarrow> bytes \<Rightarrow> config \<Rightarrow> caller \<Rightarrow> command" where
  "reply_then_upgrade ch msgno payload cfg = Upgrade (Some (ch, msgno, payload)) cfg"

definition responder_authenticate :: "bytes \<Rightarrow> caller \<Rightarrow> command" where
  "responder_authenticate identity = Authenticate identity"

definition responder_authenticated :: "caller \<Rightarrow> command" where
  "responder_authenticated = Authenticated"

definition responder_server_name :: "caller \<Rightarrow> command" where
  "responder_server_name = ServerName"

definition responder_set_window_size :: "u32 \<Rightarrow> u32 \<Rightarrow> caller \<Rightarrow> command" where
  "responder_set_window_size ch sz = SetWindowSize ch sz"

definition responder_request :: "u32 \<Rightarrow> bytes \<Rightarrow> caller \<Rightarrow> command" where
  "responder_request ch payload = Request ch payload"

definition responder_close :: "u32 \<Rightarrow> caller \<Rightarrow> command" where
  "responder_close ch = CloseChannel ch"

text \<open>The handle of the session, and of one of its channels.\<close>

definition connection_open_channel :: "profile \<Rightarrow> caller \<Rightarrow> command" where
  "connection_open_channel prof = OpenChannel prof"

definition connection_close_channel :: "u32 \<Rightarrow> caller \<Rightarrow> command" where
  "connection_close_channel number = CloseChannel number"

definition connection_server_name :: "caller \<Rightarrow> command" where
  "connection_server_name = ServerName"

definition connection_authenticated :: "caller \<Rightarrow> command" where
  "connection_authenticated = Authenticated"

definition connection_close :: "caller \<Rightarrow> command" where
  "connection_close = CloseSession"

definition connection_upgrade :: "config \<Rightarrow> caller \<Rightarrow> command" where
  "connection_upgrade cfg = Upgrade None cfg"

definition channel_request :: "u32 \<Rightarrow> bytes \<Rightarrow> caller \<Rightarrow> command" where
  "channel_request number payload = Request number payload"

definition channel_send :: "u32 \<Rightarrow> frame_kind \<Rightarrow> u32 \<Rightarrow> u32 option \<Rightarrow> bytes \<Rightarrow> caller \<Rightarrow> command" where
  "channel_send number kind msgno ansno payload = Send number kind msgno ansno payload"

section \<open>Handlers and the router\<close>

definition TRANSACTION_FAILED :: u32 where "TRANSACTION_FAILED = 554"

record peer =
  pe_session :: nat
  pe_server_name :: "bytes option"

record 'w handler =
  ha_accept :: "peer \<Rightarrow> bytes \<Rightarrow> start \<Rightarrow> 'w \<Rightarrow> 'w \<times> (error_reply + profile)"
  ha_upgrades :: "'w \<Rightarrow> bool"

text \<open>The defaults of the trait: a function served as a handler has them.\<close>

definition default_handler :: "'w handler" where
  "default_handler = \<lparr>ha_accept = (\<lambda>peer uri st w. (w, Inr (profile_new uri))), ha_upgrades = (\<lambda>w. False)\<rparr>"

record always_refuse =
  ar_code :: u32
  ar_text :: "bytes option"

definition refusing_accept :: "always_refuse \<Rightarrow> peer \<Rightarrow> bytes \<Rightarrow> start \<Rightarrow> 'w \<Rightarrow> 'w \<times> (error_reply + profile)" where
  "refusing_accept r peer uri st w =
     (w, Inl (case ar_text r of
                Some t \<Rightarrow> error_reply_with_text (error_reply_new (ar_code r)) t None
              | None \<Rightarrow> error_reply_new (ar_code r)))"

definition refusing_handler :: "always_refuse \<Rightarrow> 'w handler" where
  "refusing_handler r = default_handler\<lparr>ha_accept := refusing_accept r\<rparr>"

type_synonym 'w router = "(bytes, 'w handler) table"

definition router_new :: "'w router" where "router_new = []"

definition router_profile :: "bytes \<Rightarrow> 'w handler \<Rightarrow> 'w router \<Rightarrow> 'w router" where
  "router_profile uri h r = table_insert uri h r"

definition serves :: "'w router \<Rightarrow> bytes \<Rightarrow> bool" where
  "serves r uri \<longleftrightarrow> map_of r uri \<noteq> None"

definition uris :: "'w router \<Rightarrow> bytes list" where
  "uris r = map fst r"

fun find_map :: "('a \<Rightarrow> 'b option) \<Rightarrow> 'a list \<Rightarrow> 'b option" where
  "find_map f [] = None"
| "find_map f (x # xs) = (case f x of Some y \<Rightarrow> Some y | None \<Rightarrow> find_map f xs)"

definition router_choose :: "'w router \<Rightarrow> start \<Rightarrow> (bytes \<times> 'w handler) option" where
  "router_choose r st = find_map (\<lambda>offered. map_option (Pair (pr_uri offered)) (map_of r (pr_uri offered))) (st_profiles st)"

section \<open>Services\<close>

datatype response = ResponseRpy bytes | ResponseErr bytes | ResponseAnswers "bytes list" | Deferred

text \<open>
  The sends of a task are one after the other: each is awaited, and \<open>sent\<close> says which succeed,
  counting from 0. What is left out of the list is never sent.
\<close>

fun service_answers :: "(nat \<Rightarrow> bool) \<Rightarrow> u32 \<Rightarrow> u32 \<Rightarrow> nat \<Rightarrow> bytes list \<Rightarrow> (caller \<Rightarrow> command) list" where
  "service_answers sent ch msgno i [] = [responder_finish ch msgno]"
| "service_answers sent ch msgno i (a # answers) =
     responder_answer ch msgno a # (if sent i then service_answers sent ch msgno (i + 1) answers else [])"

fun service_apply :: "(nat \<Rightarrow> bool) \<Rightarrow> u32 \<Rightarrow> u32 \<Rightarrow> response \<Rightarrow> (caller \<Rightarrow> command) list" where
  "service_apply sent ch msgno (ResponseRpy payload) = [responder_reply ch msgno payload]"
| "service_apply sent ch msgno (ResponseErr payload) = [responder_error ch msgno payload]"
| "service_apply sent ch msgno (ResponseAnswers answers) = service_answers sent ch msgno 0 answers"
| "service_apply sent ch msgno Deferred = []"

text \<open>
  A service is third-party or the application's code: \<open>ready\<close> is what its layers say, \<open>call\<close> what
  it makes of the message. Errors are the text they display as.
\<close>

definition service_handle ::
  "(nat \<Rightarrow> bool) \<Rightarrow> (bytes + unit) \<Rightarrow> (delivered \<Rightarrow> bytes + response) \<Rightarrow> u32 \<Rightarrow> delivered \<Rightarrow> (caller \<Rightarrow> command) list" where
  "service_handle sent ready call ch msg =
     (let outcome = (case ready of Inr _ \<Rightarrow> call msg | Inl e \<Rightarrow> Inl e) in
      case outcome of
        Inr response \<Rightarrow> service_apply sent ch (dl_msgno msg) response
      | Inl e \<Rightarrow> [responder_error ch (dl_msgno msg) e])"

section \<open>The server's greeting\<close>

definition advertise :: "bytes \<Rightarrow> config \<Rightarrow> config" where
  "advertise uri cfg = (if advertises (cf_greeting cfg) uri then cfg else config_with_profile cfg uri)"

definition bind_with :: "config \<Rightarrow> 'w router \<Rightarrow> config" where
  "bind_with cfg r = fold advertise (sort (uris r)) (cfg\<lparr>cf_role := Listener\<rparr>)"

section \<open>Lemmas\<close>

lemma find_map_Some:
  "find_map f xs = Some y \<longleftrightarrow> (\<exists>before x after. xs = before @ x # after \<and> f x = Some y \<and> (\<forall>z \<in> set before. f z = None))"
proof (induction xs)
  case (Cons a xs)
  show ?case
  proof (cases "f a")
    case None
    have "(\<exists>before x after. a # xs = before @ x # after \<and> f x = Some y \<and> (\<forall>z \<in> set before. f z = None)) \<longleftrightarrow>
        (\<exists>before x after. xs = before @ x # after \<and> f x = Some y \<and> (\<forall>z \<in> set before. f z = None))"
      (is "?l \<longleftrightarrow> ?r")
    proof
      assume ?l
      then obtain before x after where *: "a # xs = before @ x # after" "f x = Some y" "\<forall>z \<in> set before. f z = None" by blast
      with None obtain b where "before = a # b" by (cases before) auto
      with * show ?r by auto
    next
      assume ?r
      then obtain before x after where "xs = before @ x # after" "f x = Some y" "\<forall>z \<in> set before. f z = None" by blast
      with None show ?l by (intro exI [of _ "a # before"] exI [of _ x] exI [of _ after]) simp
    qed
    with None Cons.IH show ?thesis by simp
  next
    case (Some b)
    then show ?thesis by (force simp: Cons_eq_append_conv)
  qed
qed simp

lemma find_map_None: "find_map f xs = None \<longleftrightarrow> (\<forall>x \<in> set xs. f x = None)"
  by (induction xs) (auto split: option.split)

lemma advertise_role [simp]: "cf_role (advertise uri cfg) = cf_role cfg"
  by (simp add: advertise_def config_with_profile_def)

lemma advertises_advertise:
  "advertises (cf_greeting (advertise uri cfg)) u \<longleftrightarrow> u = uri \<or> advertises (cf_greeting cfg) u"
  by (auto simp: advertise_def config_with_profile_def advertises_def with_profile_def)

lemma advertises_fold:
  "advertises (cf_greeting (fold advertise us cfg)) u \<longleftrightarrow> u \<in> set us \<or> advertises (cf_greeting cfg) u"
  by (induction us arbitrary: cfg) (auto simp: advertises_advertise)

lemma bind_with_role: "cf_role (bind_with cfg r) = Listener"
proof -
  have "cf_role (fold advertise us c) = cf_role c" for us c by (induction us arbitrary: c) simp_all
  then show ?thesis by (simp add: bind_with_def)
qed

text \<open>The greeting names what was configured and what is served, and no more.\<close>

lemma bind_with_advertises:
  "advertises (cf_greeting (bind_with cfg r)) u \<longleftrightarrow> serves r u \<or> advertises (cf_greeting cfg) u"
  by (simp add: bind_with_def advertises_fold uris_def serves_def map_of_eq_None_iff)

text \<open>It does not depend on the order the router's map yields its keys in.\<close>

lemma bind_with_order: "mset (uris r) = mset (uris r') \<Longrightarrow> bind_with cfg r = bind_with cfg r'"
  unfolding bind_with_def by (metis properties_for_sort sort_key_id_if_sorted mset_sort sorted_sort)

text \<open>The profile chosen is the first offered that is served.\<close>

lemma router_choose_Some:
  "router_choose r st = Some (uri, h) \<longleftrightarrow>
     (\<exists>before p after. st_profiles st = before @ p # after \<and> pr_uri p = uri \<and> map_of r uri = Some h \<and>
        (\<forall>q \<in> set before. \<not> serves r (pr_uri q)))"
  by (auto simp: router_choose_def find_map_Some serves_def)

lemma router_choose_None: "router_choose r st = None \<longleftrightarrow> (\<forall>p \<in> set (st_profiles st). \<not> serves r (pr_uri p))"
  by (simp add: router_choose_def find_map_None serves_def)

end
