(* ===== verification/Driver.thy ===== *)
theory Driver
  imports Routing
begin

text \<open>
  \<^verbatim>\<open>vortice/src/connection.rs\<close>: the task that owns a session. What it does to the outside is a
  list of effects, oldest first: answers to callers, tasks started, messages put into a channel
  handle's queue, transports replaced. \<open>ready\<close>, which the code passes along by reference, is
  part of the state; \<open>dr_io\<close> is what the present transport has been given to write.

  Three things are decided outside and are arguments: which branch of a \<open>select!\<close> a turn takes
  and what the transport answers (\<open>turn\<close>), how a swap ends (\<open>swap_result\<close>), and whether a strong
  handle still stands behind the weak one when an event is handled (\<open>alive\<close>).
\<close>

section \<open>State\<close>

datatype 'w effect =
    Answered caller answer
  | OpenTask u32 "'w handler"               \<comment> \<open>\<open>on_open\<close> spawned\<close>
  | MessageTask u32 "'w handler" delivered  \<comment> \<open>\<open>handle\<close> spawned\<close>
  | Inbox u32 delivered
  | Discarded u32 delivered
  | Replaced bytes                          \<comment> \<open>what the old transport had been given\<close>

text \<open>The bounded queue of a channel handle, from the sending end.\<close>

record inbox =
  ib_open :: bool
  ib_waiting :: nat

definition INBOUND_QUEUE :: nat where "INBOUND_QUEUE = 64"

record pending_request =
  pq_reply :: caller
  pq_answers :: "bytes list"

record 'w driver =
  dr_session :: session
  dr_io :: bytes
  dr_out :: bytes
  dr_opens :: "(u32, caller) table"
  dr_closes :: "(u32, caller) table"
  dr_session_close :: "caller option"
  dr_requests :: "(u32 \<times> u32, pending_request) table"
  dr_inbound :: "(u32, inbox) table"
  dr_router :: "'w router"
  dr_served :: "(u32, 'w handler) table"
  dr_awaiting_upgrade :: bool
  dr_id :: nat
  dr_ready :: "caller option"
  dr_world :: 'w
  dr_effects :: "'w effect list"

definition driver_new :: "config \<Rightarrow> 'w router \<Rightarrow> nat \<Rightarrow> caller \<Rightarrow> 'w \<Rightarrow> 'w driver" where
  "driver_new cfg r sid c w =
     \<lparr>dr_session = session_new cfg, dr_io = [], dr_out = [], dr_opens = [], dr_closes = [], dr_session_close = None,
      dr_requests = [], dr_inbound = [], dr_router = r, dr_served = [], dr_awaiting_upgrade = False, dr_id = sid,
      dr_ready = Some c, dr_world = w, dr_effects = []\<rparr>"

definition with_session :: "session \<Rightarrow> 'w driver \<Rightarrow> 'w driver" where
  "with_session s d = d\<lparr>dr_session := s\<rparr>"

definition cause :: "'w effect \<Rightarrow> 'w driver \<Rightarrow> 'w driver" where
  "cause e d = d\<lparr>dr_effects := dr_effects d @ [e]\<rparr>"

definition tell :: "caller \<Rightarrow> answer \<Rightarrow> 'w driver \<Rightarrow> 'w driver" where
  "tell c a = cause (Answered c a)"

text \<open>A sender that is overwritten or goes out of scope unused.\<close>

definition drop_sender :: "caller option \<Rightarrow> 'w driver \<Rightarrow> 'w driver" where
  "drop_sender c d = (case c of None \<Rightarrow> d | Some c \<Rightarrow> tell c SenderDropped d)"

section \<open>Payloads\<close>

definition with_mime :: "bytes \<Rightarrow> bytes" where
  "with_mime payload = CRLF @ payload"

definition body_of :: "bytes \<Rightarrow> bytes" where
  "body_of payload = snd (split payload)"

section \<open>Commands\<close>

fun apply_command :: "command \<Rightarrow> 'w driver \<Rightarrow> 'w driver" where
  "apply_command (OpenChannel prof c) d =
     (case start_channel prof (dr_session d) of
        (s, Inr number) \<Rightarrow>
          (drop_sender (map_of (dr_opens d) number) (with_session s d))\<lparr>dr_opens := table_insert number c (dr_opens d)\<rparr>
      | (s, Inl e) \<Rightarrow> tell c (Failure (Protocol e)) (with_session s d))"
| "apply_command (CloseChannel number c) d =
     (case close_channel number (dr_session d) of
        (s, Inr _) \<Rightarrow>
          (drop_sender (map_of (dr_closes d) number) (with_session s d))\<lparr>dr_closes := table_insert number c (dr_closes d)\<rparr>
      | (s, Inl e) \<Rightarrow> tell c (Failure (Protocol e)) (with_session s d))"
| "apply_command (Request ch payload c) d =
     (case send_msg ch (with_mime payload) (dr_session d) of
        (s, Inr msgno) \<Rightarrow>
          (drop_sender (map_option pq_reply (map_of (dr_requests d) (ch, msgno))) (with_session s d))
            \<lparr>dr_requests := table_insert (ch, msgno) \<lparr>pq_reply = c, pq_answers = []\<rparr> (dr_requests d)\<rparr>
      | (s, Inl e) \<Rightarrow> tell c (Failure (Protocol e)) (with_session s d))"
| "apply_command (Send ch kind msgno ansno payload c) d =
     (case send ch kind msgno ansno (with_mime payload) (dr_session d) of
        (s, r) \<Rightarrow> tell c (case r of Inr _ \<Rightarrow> Ok | Inl e \<Rightarrow> Failure (Protocol e)) (with_session s d))"
| "apply_command (ServerName c) d = tell c (Told (s_server_name (dr_session d))) d"
| "apply_command (Authenticated c) d = tell c (Told (s_authenticated (dr_session d))) d"
| "apply_command (Authenticate identity c) d =
     tell c Ok (with_session (set_authenticated identity (dr_session d)) d)"
| "apply_command (SetWindowSize ch sz c) d =
     (case set_window_size ch sz (dr_session d) of
        (s, r) \<Rightarrow> tell c (case r of Inr _ \<Rightarrow> Ok | Inl e \<Rightarrow> Failure (Protocol e)) (with_session s d))"
| "apply_command (Upgrade _ _ c) d = tell c (Failure ClosedError) d"
| "apply_command (CloseSession c) d =
     (case close_channel GREETING_CHANNEL (dr_session d) of
        (s, Inr _) \<Rightarrow> (drop_sender (dr_session_close d) (with_session s d))\<lparr>dr_session_close := Some c\<rparr>
      | (s, Inl e) \<Rightarrow> tell c (Failure (Protocol e)) (with_session s d))"

section \<open>Events\<close>

definition start_requested :: "bool \<Rightarrow> u32 \<Rightarrow> u32 \<Rightarrow> start \<Rightarrow> 'w driver \<Rightarrow> 'w driver" where
  "start_requested alive ch msgno st d =
     (case router_choose (dr_router d) st of
        None \<Rightarrow>
          with_session (fst (refuse_start msgno
            (error_reply_with_text (error_reply_new TRANSACTION_FAILED) ''profile not supported'' None) (dr_session d))) d
      | Some (uri, h) \<Rightarrow>
          (case ha_accept h \<lparr>pe_session = dr_id d, pe_server_name = s_server_name (dr_session d)\<rparr> uri st (dr_world d) of
             (w, Inr prof) \<Rightarrow>
               (case accept_start ch msgno prof (dr_session d) of
                  (s, Inr _) \<Rightarrow>
                    let d = (with_session s d)\<lparr>dr_world := w, dr_served := table_insert ch h (dr_served d),
                              dr_awaiting_upgrade := dr_awaiting_upgrade d \<or> ha_upgrades h w\<rparr>
                    in if alive then cause (OpenTask ch h) d else d
                | (s, Inl _) \<Rightarrow> (with_session s d)\<lparr>dr_world := w\<rparr>)
           | (w, Inl e) \<Rightarrow> (with_session (fst (refuse_start msgno e (dr_session d))) d)\<lparr>dr_world := w\<rparr>))"

definition delivered_of :: "message \<Rightarrow> delivered" where
  "delivered_of m = \<lparr>dl_kind = msg_kind m, dl_msgno = msg_msgno m, dl_ansno = msg_ansno m, dl_payload = body_of (msg_payload m)\<rparr>"

definition to_inbox :: "u32 \<Rightarrow> delivered \<Rightarrow> 'w driver \<Rightarrow> 'w driver" where
  "to_inbox ch msg d =
     (case map_of (dr_inbound d) ch of
        None \<Rightarrow> d
      | Some ib \<Rightarrow>
          if ib_open ib \<and> ib_waiting ib < INBOUND_QUEUE
          then cause (Inbox ch msg) (d\<lparr>dr_inbound := table_insert ch (ib\<lparr>ib_waiting := ib_waiting ib + 1\<rparr>) (dr_inbound d)\<rparr>)
          else cause (Discarded ch msg) d)"

definition answer_request :: "u32 \<times> u32 \<Rightarrow> pending_request \<Rightarrow> frame_kind \<Rightarrow> bytes \<Rightarrow> 'w driver \<Rightarrow> 'w driver" where
  "answer_request key pq kind body d =
     (let d = d\<lparr>dr_requests := table_delete key (dr_requests d)\<rparr> in
      case kind of
        Rpy \<Rightarrow> tell (pq_reply pq) (Replied (ReplyRpy body)) d
      | Err \<Rightarrow> tell (pq_reply pq) (Replied (ReplyErr body)) d
      | Ans \<Rightarrow> d\<lparr>dr_requests := table_insert key (pq\<lparr>pq_answers := pq_answers pq @ [body]\<rparr>) (dr_requests d)\<rparr>
      | Nul \<Rightarrow> tell (pq_reply pq) (Replied (ReplyAnswers (pq_answers pq))) d
      | Msg \<Rightarrow> d)"

definition deliver :: "bool \<Rightarrow> u32 \<Rightarrow> message \<Rightarrow> 'w driver \<Rightarrow> 'w driver" where
  "deliver alive ch m d =
     (let key = (ch, msg_msgno m) in
      case (if msg_kind m \<noteq> Msg then map_of (dr_requests d) key else None) of
        Some pq \<Rightarrow> answer_request key pq (msg_kind m) (body_of (msg_payload m)) d
      | None \<Rightarrow>
          (case (if msg_kind m = Msg \<and> alive then map_of (dr_served d) ch else None) of
             Some h \<Rightarrow> cause (MessageTask ch h (delivered_of m)) d
           | None \<Rightarrow> to_inbox ch (delivered_of m) d))"

fun handle_event :: "bool \<Rightarrow> event \<Rightarrow> 'w driver \<Rightarrow> 'w driver" where
  "handle_event alive (GreetingReceived g) d =
     (case dr_ready d of None \<Rightarrow> d | Some c \<Rightarrow> tell c (Greeted g) (d\<lparr>dr_ready := None\<rparr>))"
| "handle_event alive (ChannelOpened ch prof) d =
     (case map_of (dr_opens d) ch of
        None \<Rightarrow> d\<lparr>dr_inbound := table_insert ch \<lparr>ib_open = False, ib_waiting = 0\<rparr> (dr_inbound d)\<rparr>
      | Some c \<Rightarrow>
          tell c (if alive then ChannelHandle ch prof else Failure ClosedError)
            (d\<lparr>dr_inbound := table_insert ch \<lparr>ib_open = alive, ib_waiting = 0\<rparr> (dr_inbound d),
               dr_opens := table_delete ch (dr_opens d)\<rparr>))"
| "handle_event alive (StartRefused ch err) d =
     (case map_of (dr_opens d) ch of
        None \<Rightarrow> d
      | Some c \<Rightarrow> tell c (Failure (Refused err)) (d\<lparr>dr_opens := table_delete ch (dr_opens d)\<rparr>))"
| "handle_event alive (ChannelClosed ch) d =
     (let d = d\<lparr>dr_inbound := table_delete ch (dr_inbound d), dr_served := table_delete ch (dr_served d)\<rparr> in
      case map_of (dr_closes d) ch of
        None \<Rightarrow> d
      | Some c \<Rightarrow> tell c Ok (d\<lparr>dr_closes := table_delete ch (dr_closes d)\<rparr>))"
| "handle_event alive (CloseRefused ch err) d =
     (case map_of (dr_closes d) ch of
        None \<Rightarrow> d
      | Some c \<Rightarrow> tell c (Failure (Refused err)) (d\<lparr>dr_closes := table_delete ch (dr_closes d)\<rparr>))"
| "handle_event alive (StartRequested ch msgno st) d = start_requested alive ch msgno st d"
| "handle_event alive (CloseRequested ch msgno cl) d = with_session (fst (accept_close ch msgno (dr_session d))) d"
| "handle_event alive SessionClosed d =
     (case dr_session_close d of None \<Rightarrow> d | Some c \<Rightarrow> tell c Ok (d\<lparr>dr_session_close := None\<rparr>))"
| "handle_event alive (MessageReceived ch m) d = deliver alive ch m d"

section \<open>Ending\<close>

text \<open>\<open>Routes::shutdown\<close>: everyone still waiting is told.\<close>

definition farewells :: "'w driver \<Rightarrow> 'w effect list" where
  "farewells d =
     map (\<lambda>(_, c). Answered c (Failure ClosedError)) (dr_opens d) @
     map (\<lambda>(_, c). Answered c (Failure ClosedError)) (dr_closes d) @
     (case dr_session_close d of None \<Rightarrow> [] | Some c \<Rightarrow> [Answered c Ok]) @
     map (\<lambda>(_, pq). Answered (pq_reply pq) (Failure ClosedError)) (dr_requests d)"

definition shutdown :: "'w driver \<Rightarrow> 'w driver" where
  "shutdown d =
     d\<lparr>dr_effects := dr_effects d @ farewells d, dr_opens := [], dr_closes := [], dr_session_close := None,
       dr_requests := [], dr_inbound := []\<rparr>"

text \<open>What \<open>run\<close> does once \<open>pump\<close> has returned.\<close>

definition finish_run :: "driver_error + unit \<Rightarrow> 'w driver \<Rightarrow> 'w driver" where
  "finish_run outcome d =
     shutdown (case dr_ready d of
       None \<Rightarrow> d
     | Some c \<Rightarrow> tell c (Failure (case outcome of Inl e \<Rightarrow> e | Inr _ \<Rightarrow> ClosedError)) (d\<lparr>dr_ready := None\<rparr>))"

section \<open>Replacing the transport\<close>

datatype swap_result = FlushFailed | SwapFailed driver_error | Swapped

text \<open>What \<open>pump\<close> returns, when a turn makes it return.\<close>

type_synonym verdict = "(driver_error + unit) option"

definition last_words :: "(u32 \<times> u32 \<times> bytes) option \<Rightarrow> session \<Rightarrow> session \<times> unit result" where
  "last_words lr s =
     (case lr of None \<Rightarrow> (s, Inr ()) | Some (ch, msgno, payload) \<Rightarrow> send ch Rpy msgno None (with_mime payload) s)"

definition fresh_session :: "config \<Rightarrow> bytes option \<Rightarrow> session" where
  "fresh_session cfg server_name =
     (case server_name of None \<Rightarrow> session_new cfg | Some nm \<Rightarrow> set_server_name nm (session_new cfg))"

definition transmit :: "'w driver \<Rightarrow> 'w driver" where
  "transmit d =
     (case poll_transmit (dr_session d) of
        (_, None) \<Rightarrow> d
      | (s, Some octets) \<Rightarrow> d\<lparr>dr_session := s, dr_out := dr_out d @ octets\<rparr>)"

text \<open>What is done once the new transport is there.\<close>

definition renew :: "config \<Rightarrow> caller \<Rightarrow> 'w driver \<Rightarrow> 'w driver" where
  "renew cfg c d =
     (let d = (cause (Replaced (dr_io d)) d)\<lparr>dr_io := [], dr_session := fresh_session cfg (s_server_name (dr_session d))\<rparr>;
          d = (shutdown d)\<lparr>dr_served := [], dr_awaiting_upgrade := False\<rparr>
      in (drop_sender (dr_ready d) d)\<lparr>dr_ready := Some c\<rparr>)"

text \<open>Everything queued is put on the wire.\<close>

definition write_out :: "'w driver \<Rightarrow> 'w driver" where
  "write_out d = d\<lparr>dr_io := dr_io d @ dr_out d, dr_out := []\<rparr>"

definition upgrade :: "(u32 \<times> u32 \<times> bytes) option \<Rightarrow> config \<Rightarrow> caller \<Rightarrow> swap_result \<Rightarrow> 'w driver \<Rightarrow> 'w driver \<times> verdict" where
  "upgrade lr cfg c sw d =
     (case last_words lr (dr_session d) of
        (s, Inl e) \<Rightarrow> (tell c SenderDropped (with_session s d), Some (Inl (Protocol e)))
      | (s, Inr _) \<Rightarrow>
          let d = transmit (with_session s d) in
          (case sw of
             FlushFailed \<Rightarrow> (tell c SenderDropped d, Some (Inl Io))
           | SwapFailed e \<Rightarrow> (tell c (Failure e) ((write_out d)\<lparr>dr_awaiting_upgrade := False\<rparr>), Some (Inl ClosedError))
           | Swapped \<Rightarrow> (renew cfg c (write_out d), None)))"

definition dispatch :: "command \<Rightarrow> swap_result \<Rightarrow> 'w driver \<Rightarrow> 'w driver \<times> verdict" where
  "dispatch cmd sw d =
     (case cmd of Upgrade lr cfg c \<Rightarrow> upgrade lr cfg c sw d | _ \<Rightarrow> (apply_command cmd d, None))"

section \<open>The inner loop\<close>

text \<open>
  Events handled may queue octets and further events. That the loop ends is because only a
  request of the peer's can lead to another event, and that one to none.
\<close>

fun event_weight :: "event \<Rightarrow> nat" where
  "event_weight (CloseRequested _ _ _) = 2"
| "event_weight _ = 1"

definition events_weight :: "session \<Rightarrow> nat" where
  "events_weight s = sum_list (map event_weight (s_events s))"

lemma flush_events [simp]: "s_events (fst (flush n s)) = s_events s"
  by (auto simp: flush_def put_channel_def split: option.split prod.split)

lemma reply_events [simp]: "s_events (fst (reply k m mg s)) = s_events s"
  by (simp add: reply_def write_zero_def enqueue_def)

lemma accept_start_events [simp]: "s_events (fst (accept_start ch m prof s)) = s_events s"
  by (simp add: accept_start_def open_channel_def put_channel_def)

lemma accept_start_result: "accept_start ch m prof s = (s', r) \<Longrightarrow> s_events s' = s_events s"
  using accept_start_events [of ch m prof s] by simp

lemma accept_close_events:
  "s_events (fst (accept_close ch m s)) = s_events s \<or> (\<exists>e. event_weight e = 1 \<and> s_events (fst (accept_close ch m s)) = s_events s @ [e])"
  using reply_events [of Rpy m MOk s]
  by (cases "reply Rpy m MOk s")
    (auto simp: accept_close_def bind_st_def finish_close_def push_event_def split: sum.splits)

lemma session_updates [simp]:
  "dr_session (cause e d) = dr_session d" "dr_session (tell c a d) = dr_session d"
  "dr_session (drop_sender o' d) = dr_session d" "dr_session (with_session s d) = s"
  "dr_session (to_inbox ch msg d) = dr_session d" "dr_session (answer_request key pq k b d) = dr_session d"
  "dr_session (deliver alive ch m d) = dr_session d"
  by (auto simp: cause_def tell_def drop_sender_def with_session_def to_inbox_def answer_request_def deliver_def Let_def
      split: option.split frame_kind.split)

lemma start_requested_events [simp]: "s_events (dr_session (start_requested alive ch m st d)) = s_events (dr_session d)"
  by (auto simp: start_requested_def refuse_start_def Let_def dest: accept_start_result split: option.split prod.split sum.split)

lemma handle_event_weight:
  "events_weight (dr_session (handle_event alive e d)) < events_weight (dr_session d) + event_weight e"
proof (cases e)
  case (CloseRequested ch m cl)
  then show ?thesis using accept_close_events [of ch m "dr_session d"] by (auto simp: events_weight_def)
qed (auto simp: events_weight_def Let_def split: option.split)

lemma handle_event_decreases:
  assumes "poll_event (dr_session d) = (s, Some e)"
  shows "events_weight (dr_session (handle_event alive e (with_session s d))) < events_weight (dr_session d)"
proof -
  have "events_weight (dr_session d) = events_weight s + event_weight e"
    using assms by (auto simp: poll_event_def events_weight_def split: list.splits)
  with handle_event_weight [of alive e "with_session s d"] show ?thesis by simp
qed

function handle_events :: "(event \<Rightarrow> bool) \<Rightarrow> 'w driver \<Rightarrow> 'w driver" where
  "handle_events alive d =
     (case poll_event (dr_session d) of
        (_, None) \<Rightarrow> d
      | (s, Some e) \<Rightarrow> handle_events alive (handle_event (alive e) e (with_session s d)))"
  by pat_completeness auto
termination
  by (relation "measure (\<lambda>(alive, d). events_weight (dr_session d))") (auto intro: handle_event_decreases [OF sym])

declare handle_events.simps [simp del]

lemma handle_events_done: "s_events (dr_session (handle_events alive d)) = []"
proof (induction alive d rule: handle_events.induct)
  case (1 alive d)
  show ?case
  proof (cases "s_events (dr_session d)")
    case Nil
    then show ?thesis by (subst handle_events.simps) (simp add: poll_event_def)
  next
    case (Cons e es)
    then have "poll_event (dr_session d) = ((dr_session d)\<lparr>s_events := es\<rparr>, Some e)" by (simp add: poll_event_def)
    with 1 show ?thesis by (subst handle_events.simps) simp
  qed
qed

definition at_rest :: "'w driver \<Rightarrow> bool" where
  "at_rest d \<longleftrightarrow> s_outbound (dr_session d) = [] \<and> s_events (dr_session d) = []"

function settle :: "(event \<Rightarrow> bool) \<Rightarrow> 'w driver \<Rightarrow> 'w driver" where
  "settle alive d = (if at_rest d then d else settle alive (handle_events alive (transmit d)))"
  by pat_completeness auto
termination
proof (relation "measure (\<lambda>(alive, d). (if s_events (dr_session d) = [] then 0 else 2) +
    (if s_outbound (dr_session d) = [] then 0 else (1::nat)))", goal_cases)
  case (2 alive d)
  show ?case
  proof (cases "s_events (dr_session d) = []")
    case True
    then have "s_events (dr_session (transmit d)) = []" "s_outbound (dr_session (transmit d)) = []"
      by (simp_all add: transmit_def poll_transmit_def)
    moreover from this(1) have "handle_events alive (transmit d) = transmit d"
      by (subst handle_events.simps) (simp add: poll_event_def)
    ultimately show ?thesis using 2 True by (simp add: at_rest_def)
  next
    case False
    then show ?thesis by (simp add: handle_events_done)
  qed
qed simp

declare settle.simps [simp del]

section \<open>Turns\<close>

text \<open>
  Which branch of the \<open>select!\<close> completes, and how. A read brings at least one octet, or none at
  the end of the stream; a write takes some of what is there, and when it took the last of it
  the transport is flushed.
\<close>

datatype turn =
    HandlesGone
  | Received command swap_result
  | Arrived bytes
  | AtEnd
  | ReadFailed
  | Wrote nat bool          \<comment> \<open>octets taken, and whether a flush now succeeds\<close>
  | WriteFailed

fun possible :: "'w driver \<Rightarrow> turn \<Rightarrow> bool" where
  "possible d HandlesGone = True"
| "possible d (Received _ _) = True"
| "possible d (Arrived octets) = (\<not> dr_awaiting_upgrade d \<and> octets \<noteq> [])"
| "possible d AtEnd = (\<not> dr_awaiting_upgrade d)"
| "possible d ReadFailed = (\<not> dr_awaiting_upgrade d)"
| "possible d (Wrote n _) = (\<not> dr_awaiting_upgrade d \<and> dr_out d \<noteq> [] \<and> n \<le> length (dr_out d))"
| "possible d WriteFailed = (\<not> dr_awaiting_upgrade d \<and> dr_out d \<noteq> [])"

fun take_turn :: "turn \<Rightarrow> 'w driver \<Rightarrow> 'w driver \<times> verdict" where
  "take_turn HandlesGone d = (d, Some (Inr ()))"
| "take_turn (Received cmd sw) d = dispatch cmd sw d"
| "take_turn (Arrived octets) d =
     (case handle_input octets (dr_session d) of
        (s, Inr _) \<Rightarrow> (with_session s d, None)
      | (s, Inl e) \<Rightarrow> (with_session s d, Some (Inl (Protocol e))))"
| "take_turn AtEnd d = (d, Some (Inr ()))"
| "take_turn ReadFailed d = (d, Some (Inl Io))"
| "take_turn (Wrote n flushed) d =
     (let d = d\<lparr>dr_io := dr_io d @ take n (dr_out d), dr_out := drop n (dr_out d)\<rparr>
      in if dr_out d = [] \<and> \<not> flushed then (d, Some (Inl Io)) else (d, None))"
| "take_turn WriteFailed d = (d, Some (Inl Io))"

text \<open>One turn of the loop of \<open>pump\<close>.\<close>

definition pump_turn :: "(event \<Rightarrow> bool) \<Rightarrow> turn \<Rightarrow> 'w driver \<Rightarrow> 'w driver \<times> verdict" where
  "pump_turn alive t d =
     (let d = settle alive d in
      if s_state (dr_session d) = Closed then (d, Some (Inr ())) else take_turn t d)"

text \<open>A channel handle takes a message out of its queue, or is dropped.\<close>

definition inbox_taken :: "u32 \<Rightarrow> 'w driver \<Rightarrow> 'w driver" where
  "inbox_taken ch d =
     (case map_of (dr_inbound d) ch of
        None \<Rightarrow> d
      | Some ib \<Rightarrow> d\<lparr>dr_inbound := table_insert ch (ib\<lparr>ib_waiting := ib_waiting ib - 1\<rparr>) (dr_inbound d)\<rparr>)"

definition inbox_dropped :: "u32 \<Rightarrow> 'w driver \<Rightarrow> 'w driver" where
  "inbox_dropped ch d =
     (case map_of (dr_inbound d) ch of
        None \<Rightarrow> d
      | Some ib \<Rightarrow> d\<lparr>dr_inbound := table_insert ch (ib\<lparr>ib_open := False\<rparr>) (dr_inbound d)\<rparr>)"

text \<open>
  The runs of a driver up to the top of the loop, with the commands it took, and
  the runs that ended.
\<close>

fun taken_in :: "turn \<Rightarrow> command list" where
  "taken_in (Received cmd _) = [cmd]"
| "taken_in _ = []"

inductive pumps :: "'w driver \<Rightarrow> command list \<Rightarrow> 'w driver \<Rightarrow> bool" for d0 where
  pumps_start: "pumps d0 [] d0"
| pumps_turn:
    "pumps d0 cmds d \<Longrightarrow> possible (settle alive d) t \<Longrightarrow> pump_turn alive t d = (d', None) \<Longrightarrow>
     pumps d0 (cmds @ taken_in t) d'"
| pumps_taken: "pumps d0 cmds d \<Longrightarrow> pumps d0 cmds (inbox_taken ch d)"
| pumps_dropped: "pumps d0 cmds d \<Longrightarrow> pumps d0 cmds (inbox_dropped ch d)"

inductive ends :: "'w driver \<Rightarrow> command list \<Rightarrow> 'w driver \<Rightarrow> bool" for d0 where
  ends_closed:
    "pumps d0 cmds d \<Longrightarrow> s_state (dr_session (settle alive d)) = Closed \<Longrightarrow>
     ends d0 cmds (finish_run (Inr ()) (settle alive d))"
| ends_turn:
    "pumps d0 cmds d \<Longrightarrow> s_state (dr_session (settle alive d)) \<noteq> Closed \<Longrightarrow> possible (settle alive d) t \<Longrightarrow>
     pump_turn alive t d = (d', Some outcome) \<Longrightarrow> ends d0 (cmds @ taken_in t) (finish_run outcome d')"

end
