(* ===== verification/DriverRuns.thy ===== *)
theory DriverRuns
  imports Driver
begin

text \<open>
  What every run of the driver keeps: each caller is either answered, once, or waiting in exactly
  one place. Answers and waiting places are counted as multisets of callers.
\<close>

section \<open>Callers\<close>

fun answered_callers :: "'w effect list \<Rightarrow> caller multiset" where
  "answered_callers [] = {#}"
| "answered_callers (Answered c _ # es) = add_mset c (answered_callers es)"
| "answered_callers (_ # es) = answered_callers es"

definition option_mset :: "'a option \<Rightarrow> 'a multiset" where
  "option_mset o' = (case o' of None \<Rightarrow> {#} | Some x \<Rightarrow> {#x#})"

definition waiting_callers :: "'w driver \<Rightarrow> caller multiset" where
  "waiting_callers d =
     table_values (dr_opens d) + table_values (dr_closes d) + option_mset (dr_session_close d) +
     image_mset pq_reply (table_values (dr_requests d)) + option_mset (dr_ready d)"

definition account :: "'w driver \<Rightarrow> caller multiset" where
  "account d = answered_callers (dr_effects d) + waiting_callers d"

definition tables_ok :: "'w driver \<Rightarrow> bool" where
  "tables_ok d \<longleftrightarrow> keyed (dr_opens d) \<and> keyed (dr_closes d) \<and> keyed (dr_requests d) \<and> keyed (dr_inbound d) \<and> keyed (dr_served d)"

lemma option_mset_simps [simp]: "option_mset None = {#}" "option_mset (Some x) = {#x#}"
  by (simp_all add: option_mset_def)

lemma answered_append [simp]: "answered_callers (es @ fs) = answered_callers es + answered_callers fs"
  by (induction es rule: answered_callers.induct) simp_all

lemma displaced:
  "keyed t \<Longrightarrow> option_mset (map_of t k) + table_values (table_insert k v t) = add_mset v (table_values t)"
  by (cases "map_of t k") (auto simp: table_values_insert table_delete_absent dest: table_values_delete)

lemma displaced_requests:
  "keyed t \<Longrightarrow> option_mset (map_option pq_reply (map_of t k)) + image_mset pq_reply (table_values (table_insert k v t)) =
     add_mset (pq_reply v) (image_mset pq_reply (table_values t))"
  by (cases "map_of t k") (auto simp: table_values_insert table_delete_absent dest: table_values_delete)

lemma account_simps [simp]:
  "account (with_session s d) = account d" "account (tell c a d) = add_mset c (account d)"
  "account (drop_sender o' d) = option_mset o' + account d"
  by (auto simp: account_def with_session_def tell_def cause_def drop_sender_def waiting_callers_def split: option.split)

lemma tables_ok_simps [simp]:
  "tables_ok (with_session s d) = tables_ok d" "tables_ok (tell c a d) = tables_ok d"
  "tables_ok (drop_sender o' d) = tables_ok d" "tables_ok (cause e d) = tables_ok d"
  by (auto simp: tables_ok_def with_session_def tell_def cause_def drop_sender_def split: option.split)

lemma select_kept [simp]:
  "dr_opens (with_session s d) = dr_opens d" "dr_closes (with_session s d) = dr_closes d"
  "dr_requests (with_session s d) = dr_requests d" "dr_session_close (with_session s d) = dr_session_close d"
  "dr_inbound (with_session s d) = dr_inbound d" "dr_served (with_session s d) = dr_served d"
  "dr_opens (drop_sender o' d) = dr_opens d" "dr_closes (drop_sender o' d) = dr_closes d"
  "dr_requests (drop_sender o' d) = dr_requests d" "dr_session_close (drop_sender o' d) = dr_session_close d"
  by (auto simp: with_session_def drop_sender_def tell_def cause_def split: option.split)

text \<open>A sender put into a table, and the one it displaces.\<close>

lemma account_put:
  "keyed (dr_opens d) \<Longrightarrow>
     account ((drop_sender (map_of (dr_opens d) k) d)\<lparr>dr_opens := table_insert k c (dr_opens d)\<rparr>) = add_mset c (account d)"
  "keyed (dr_closes d) \<Longrightarrow>
     account ((drop_sender (map_of (dr_closes d) k) d)\<lparr>dr_closes := table_insert k c (dr_closes d)\<rparr>) = add_mset c (account d)"
  "account ((drop_sender (dr_session_close d) d)\<lparr>dr_session_close := Some c\<rparr>) = add_mset c (account d)"
  "keyed (dr_requests d) \<Longrightarrow>
     account ((drop_sender (map_option pq_reply (map_of (dr_requests d) key)) d)
       \<lparr>dr_requests := table_insert key \<lparr>pq_reply = c, pq_answers = as\<rparr> (dr_requests d)\<rparr>) = add_mset c (account d)"
  using displaced [of "dr_opens d" k c] displaced [of "dr_closes d" k c]
    displaced_requests [of "dr_requests d" key "\<lparr>pq_reply = c, pq_answers = as\<rparr>"]
  by (auto simp: account_def waiting_callers_def drop_sender_def tell_def cause_def split: option.splits)

lemma apply_account: "tables_ok d \<Longrightarrow> account (apply_command cmd d) = add_mset (asks cmd) (account d)"
proof (cases cmd)
  case (OpenChannel prof c)
  then show "tables_ok d \<Longrightarrow> ?thesis"
    using account_put(1) [where d = "with_session _ d"] by (auto simp: tables_ok_def split: prod.split sum.split)
next
  case (CloseChannel number c)
  then show "tables_ok d \<Longrightarrow> ?thesis"
    using account_put(2) [where d = "with_session _ d"] by (auto simp: tables_ok_def split: prod.split sum.split)
next
  case (Request ch payload c)
  then show "tables_ok d \<Longrightarrow> ?thesis"
    using account_put(4) [where d = "with_session _ d"] by (auto simp: tables_ok_def split: prod.split sum.split)
next
  case (CloseSession c)
  then show "tables_ok d \<Longrightarrow> ?thesis"
    using account_put(3) [where d = "with_session _ d"] by (auto simp: tables_ok_def split: prod.split sum.split)
qed (auto split: prod.split)

lemma apply_tables: "tables_ok d \<Longrightarrow> tables_ok (apply_command cmd d)"
  by (cases cmd)
    (auto simp: tables_ok_def with_session_def drop_sender_def tell_def cause_def split: prod.split sum.split option.split)

lemma taken:
  "keyed (dr_opens d) \<Longrightarrow> map_of (dr_opens d) k = Some c \<Longrightarrow>
     add_mset c (account (d\<lparr>dr_opens := table_delete k (dr_opens d)\<rparr>)) = account d"
  "keyed (dr_closes d) \<Longrightarrow> map_of (dr_closes d) k = Some c \<Longrightarrow>
     add_mset c (account (d\<lparr>dr_closes := table_delete k (dr_closes d)\<rparr>)) = account d"
  "keyed (dr_requests d) \<Longrightarrow> map_of (dr_requests d) key = Some pq \<Longrightarrow>
     add_mset (pq_reply pq) (account (d\<lparr>dr_requests := table_delete key (dr_requests d)\<rparr>)) = account d"
  "dr_session_close d = Some c \<Longrightarrow> add_mset c (account (d\<lparr>dr_session_close := None\<rparr>)) = account d"
  "dr_ready d = Some c \<Longrightarrow> add_mset c (account (d\<lparr>dr_ready := None\<rparr>)) = account d"
  by (auto simp: account_def waiting_callers_def dest: table_values_delete)

text \<open>What the account does not depend on.\<close>

lemma account_same [simp]:
  "account (d\<lparr>dr_inbound := i\<rparr>) = account d" "account (d\<lparr>dr_served := sv\<rparr>) = account d"
  "account (d\<lparr>dr_world := w\<rparr>) = account d" "account (d\<lparr>dr_awaiting_upgrade := u\<rparr>) = account d"
  "account (d\<lparr>dr_io := io\<rparr>) = account d" "account (d\<lparr>dr_out := out\<rparr>) = account d"
  "account (d\<lparr>dr_session := s\<rparr>) = account d"
  "account (cause (OpenTask ch h) d) = account d" "account (cause (MessageTask ch h m) d) = account d"
  "account (cause (Inbox ch m) d) = account d" "account (cause (Discarded ch m) d) = account d"
  "account (cause (Replaced octets) d) = account d"
  by (simp_all add: account_def waiting_callers_def cause_def)

lemma start_requested_account [simp]: "account (start_requested alive ch m st d) = account d"
  by (auto simp: start_requested_def Let_def split: option.split prod.split sum.split)

lemma to_inbox_account [simp]: "account (to_inbox ch m d) = account d"
  by (auto simp: to_inbox_def split: option.split)

lemma answer_request_account:
  assumes "tables_ok d" and "map_of (dr_requests d) key = Some pq" and "k \<noteq> Msg"
  shows "account (answer_request key pq k body d) = account d"
proof -
  from assms(1) have keyed: "keyed (dr_requests d)" by (simp add: tables_ok_def)
  note gone = taken(3) [OF keyed assms(2)]
  have "account (d\<lparr>dr_requests := table_insert key (pq\<lparr>pq_answers := as\<rparr>) (table_delete key (dr_requests d))\<rparr>) = account d" for as
    using displaced_requests [of "table_delete key (dr_requests d)" key "pq\<lparr>pq_answers := as\<rparr>"] keyed gone
    by (simp add: account_def waiting_callers_def)
  with gone assms(3) show ?thesis by (cases k) (simp_all add: answer_request_def Let_def)
qed

lemma deliver_account: "tables_ok d \<Longrightarrow> account (deliver alive ch m d) = account d"
  by (auto simp: deliver_def Let_def answer_request_account split: option.split if_splits)

lemma handle_event_account:
  assumes "tables_ok d" shows "account (handle_event alive e d) = account d"
proof -
  from assms have keyed: "keyed (dr_opens d)" "keyed (dr_closes d)" by (simp_all add: tables_ok_def)
  then show ?thesis
  proof (cases e)
    case (ChannelOpened ch prof)
    then show ?thesis using taken(1) [OF keyed(1)] by (auto split: option.split simp del: account_same) (simp add: account_def waiting_callers_def)+
  next
    case (ChannelClosed ch)
    then show ?thesis using taken(2) [OF keyed(2)] by (auto simp: Let_def split: option.split simp del: account_same) (simp add: account_def waiting_callers_def)+
  qed (use taken assms keyed in \<open>auto simp: deliver_account split: option.split\<close>)
qed

lemma start_requested_tables: "tables_ok d \<Longrightarrow> tables_ok (start_requested alive ch m st d)"
  by (auto simp: start_requested_def tables_ok_def with_session_def cause_def Let_def split: option.split prod.split sum.split)

lemma handle_event_tables:
  "tables_ok d \<Longrightarrow> tables_ok (handle_event alive e d)"
  by (cases e)
    (auto simp: start_requested_tables, auto simp: tables_ok_def with_session_def tell_def cause_def deliver_def
      to_inbox_def answer_request_def Let_def split: option.split frame_kind.split)

text \<open>
  An invariant of the driver that no event disturbs holds after the inner loop.
\<close>

lemma handle_events_keeps:
  assumes session: "\<And>s d. P d \<Longrightarrow> P (with_session s d)"
    and event: "\<And>alive e d. P d \<Longrightarrow> P (handle_event alive e d)"
  shows "P d \<Longrightarrow> P (handle_events alive d)"
proof (induction alive d rule: handle_events.induct)
  case (1 alive d)
  show ?case
  proof (cases "poll_event (dr_session d)")
    case (Pair s o')
    with 1 session event show ?thesis by (subst handle_events.simps) (auto split: option.split)
  qed
qed

lemma settle_keeps:
  assumes "\<And>s d. P d \<Longrightarrow> P (with_session s d)" and "\<And>alive e d. P d \<Longrightarrow> P (handle_event alive e d)"
    and "\<And>s out d. P d \<Longrightarrow> P (d\<lparr>dr_session := s, dr_out := out\<rparr>)"
  shows "P d \<Longrightarrow> P (settle alive d)"
proof (induction alive d rule: settle.induct)
  case (1 alive d)
  have "P (transmit d)" using 1(2) assms(3) by (auto simp: transmit_def split: prod.split option.split)
  then have "P (handle_events alive (transmit d))" using handle_events_keeps [of P] assms(1,2) by blast
  with 1 show ?case by (subst settle.simps) simp
qed

lemma settle_account: "tables_ok d \<Longrightarrow> tables_ok (settle alive d) \<and> account (settle alive d) = account d"
  by (rule settle_keeps [where P = "\<lambda>d'. tables_ok d' \<and> account d' = account d"])
    (auto simp: handle_event_account handle_event_tables, simp add: tables_ok_def)

text \<open>After the shutdown nobody waits but for the greeting.\<close>

lemma answered_map [simp]:
  "answered_callers (map (\<lambda>(_, c). Answered c a) t) = table_values t"
  "answered_callers (map (\<lambda>(_, pq). Answered (pq_reply pq) a) r) = image_mset pq_reply (table_values r)"
  by (induction t) (auto, induction r, auto)

lemma shutdown_account [simp]: "account (shutdown d) = account d"
  by (auto simp: account_def shutdown_def farewells_def waiting_callers_def split: option.split)

lemma shutdown_waiting: "waiting_callers (shutdown d) = option_mset (dr_ready d)"
  by (simp add: waiting_callers_def shutdown_def)

lemma shutdown_tables [simp]: "tables_ok d \<Longrightarrow> tables_ok (shutdown d)"
  by (simp add: tables_ok_def shutdown_def)

lemma finish_run_account: "account (finish_run outcome d) = account d" "waiting_callers (finish_run outcome d) = {#}"
  by (auto simp: finish_run_def taken(5) shutdown_waiting split: option.split) (simp add: tell_def cause_def)

lemma transmit_account [simp]: "account (transmit d) = account d" "tables_ok (transmit d) = tables_ok d"
  "dr_ready (transmit d) = dr_ready d"
  by (auto simp: transmit_def account_def waiting_callers_def tables_ok_def split: prod.split option.split)

lemma ready_replaced: "account ((drop_sender (dr_ready d) d)\<lparr>dr_ready := Some c\<rparr>) = add_mset c (account d)"
  by (auto simp: account_def waiting_callers_def drop_sender_def tell_def cause_def split: option.split)

lemma tables_ok_ready: "tables_ok (d\<lparr>dr_ready := r\<rparr>) = tables_ok d"
  by (simp add: tables_ok_def)

lemma renew_account: "tables_ok d \<Longrightarrow> account (renew cfg c d) = add_mset c (account d) \<and> tables_ok (renew cfg c d)"
proof -
  let ?d = "(cause (Replaced (dr_io d)) d)\<lparr>dr_io := [], dr_session := fresh_session cfg (s_server_name (dr_session d))\<rparr>"
  let ?e = "(shutdown ?d)\<lparr>dr_served := [], dr_awaiting_upgrade := False\<rparr>"
  assume "tables_ok d"
  then have "tables_ok ?e" by (simp add: tables_ok_def shutdown_def)
  moreover have "account ?e = account d" by simp
  moreover have "renew cfg c d = (drop_sender (dr_ready ?e) ?e)\<lparr>dr_ready := Some c\<rparr>" by (simp add: renew_def Let_def)
  ultimately show ?thesis by (simp only: ready_replaced tables_ok_ready tables_ok_simps)
qed

lemma write_out_account [simp]: "account (write_out d) = account d" "tables_ok (write_out d) = tables_ok d"
  by (simp_all add: write_out_def tables_ok_def)

lemma tables_ok_awaiting [simp]: "tables_ok (d\<lparr>dr_awaiting_upgrade := u\<rparr>) = tables_ok d"
  by (simp add: tables_ok_def)

lemma upgrade_account:
  assumes "upgrade lr cfg c sw d = (d', v)" and "tables_ok d"
  shows "account d' = add_mset c (account d) \<and> tables_ok d'"
proof (cases "last_words lr (dr_session d)")
  case (Pair s r)
  have "tables_ok (write_out (transmit (with_session s d)))" using assms(2) by simp
  note renewed = renew_account [OF this, of cfg c]
  show ?thesis
  proof (cases "\<exists>e. r = Inl e")
    case False
    then have "r = Inr ()" by (cases r) simp_all
    with assms Pair renewed show ?thesis by (cases sw) (auto simp: upgrade_def Let_def)
  qed (use assms Pair in \<open>auto simp: upgrade_def\<close>)
qed

lemma dispatch_account:
  assumes "dispatch cmd sw d = (d', v)" and "tables_ok d"
  shows "account d' = add_mset (asks cmd) (account d) \<and> tables_ok d'"
proof (cases "\<exists>lr cfg c. cmd = Upgrade lr cfg c")
  case True
  with assms show ?thesis by (auto simp: dispatch_def dest: upgrade_account)
next
  case False
  then have "dispatch cmd sw d = (apply_command cmd d, None)" by (cases cmd) (simp_all add: dispatch_def)
  with assms show ?thesis using apply_account [of d cmd] apply_tables [of d cmd] by simp
qed

lemma take_turn_account:
  assumes "take_turn t d = (d', v)" and "tables_ok d"
  shows "account d' = account d + mset (map asks (taken_in t)) \<and> tables_ok d'"
  using assms
proof (cases t)
  case (Received cmd sw)
  with dispatch_account [of cmd sw d d' v] assms show ?thesis by simp
qed (auto simp: Let_def, (auto simp: tables_ok_def with_session_def split: prod.splits sum.splits if_splits)+)

lemma pump_turn_account:
  assumes "pump_turn alive t d = (d', v)" and "tables_ok d" and "s_state (dr_session (settle alive d)) \<noteq> Closed"
  shows "account d' = account d + mset (map asks (taken_in t)) \<and> tables_ok d'"
  using assms take_turn_account [of t "settle alive d" d' v] settle_account [of d alive] by (simp add: pump_turn_def Let_def)

lemma inbox_account [simp]:
  "account (inbox_taken ch d) = account d" "account (inbox_dropped ch d) = account d"
  "tables_ok d \<Longrightarrow> tables_ok (inbox_taken ch d)" "tables_ok d \<Longrightarrow> tables_ok (inbox_dropped ch d)"
  by (auto simp: inbox_taken_def inbox_dropped_def tables_ok_def split: option.split)

lemma pumps_account:
  "pumps d0 cmds d \<Longrightarrow> tables_ok d0 \<Longrightarrow> account d = account d0 + mset (map asks cmds) \<and> tables_ok d"
proof (induction rule: pumps.induct)
  case (pumps_turn cmds d alive t d')
  then have "s_state (dr_session (settle alive d)) \<noteq> Closed" by (auto simp: pump_turn_def Let_def)
  with pump_turn_account [OF pumps_turn(3)] pumps_turn show ?case by simp
qed simp_all

lemma ends_account:
  assumes "ends d0 cmds d" and "tables_ok d0"
  shows "answered_callers (dr_effects d) = account d0 + mset (map asks cmds)"
proof -
  have "account d = account d0 + mset (map asks cmds) \<and> waiting_callers d = {#}"
    using assms(1)
  proof cases
    case (ends_closed d1 alive)
    then show ?thesis
      using pumps_account [OF ends_closed(2) assms(2)] settle_account [of d1 alive] by (simp add: finish_run_account)
  next
    case (ends_turn cmds1 d1 alive t d' outcome)
    then show ?thesis
      using pumps_account [OF ends_turn(3) assms(2)] pump_turn_account [OF ends_turn(6)] by (simp add: finish_run_account)
  qed
  then have "account d = account d0 + mset (map asks cmds)" "waiting_callers d = {#}" by blast+
  then show ?thesis by (simp add: account_def [of d])
qed

end
