(* ===== verification/SessionFields.thy ===== *)
theory SessionFields
  imports SessionInput
begin

text \<open>
  What the operations of a session leave alone, once for every reading of it. A \<open>field\<close> that the
  assignments in the source do not touch is the same after every operation; the second locale
  adds the two assignments only reading makes. Interpreted for the input (what no operation but
  reading changes) and for the identity (which no operation at all sets but the one for it).
\<close>

locale untouched =
  fixes field :: "session \<Rightarrow> 'a"
  assumes untouched:
    "field (s\<lparr>s_zero := z\<rparr>) = field s" "field (s\<lparr>s_channels := cs\<rparr>) = field s" "field (s\<lparr>s_queues := qs\<rparr>) = field s"
    "field (s\<lparr>s_outbound := out\<rparr>) = field s" "field (s\<lparr>s_events := es\<rparr>) = field s" "field (s\<lparr>s_pending := pe\<rparr>) = field s"
    "field (s\<lparr>s_reply_order := ro\<rparr>) = field s" "field (s\<lparr>s_held_replies := hr\<rparr>) = field s"
    "field (s\<lparr>s_half_open := ho\<rparr>) = field s" "field (s\<lparr>s_unacked := un\<rparr>) = field s" "field (s\<lparr>s_state := st\<rparr>) = field s"
    "field (s\<lparr>s_peer_greeting := pg\<rparr>) = field s" "field (s\<lparr>s_next_channel := nc\<rparr>) = field s"
    "field (s\<lparr>s_server_name := sn\<rparr>) = field s"

locale untouched_by_input = untouched +
  assumes untouched_input: "field (s\<lparr>s_decoder := de\<rparr>) = field s" "field (s\<lparr>s_inbound := ib\<rparr>) = field s"

context untouched
begin

lemmas [simp] = untouched

lemma parts [simp]:
  "field (push_event e s) = field s" "field (put_channel n c s) = field s" "field (store_channel n c s) = field s"
  "field (release_zero m s) = field s" "field (open_channel n u s) = field s" "field (finish_close n s) = field s"
  "field (enqueue n k m a p s) = field s" "field (pop_order n s) = field s" "field (hold_reply n q s) = field s"
  by (simp_all add: push_event_def put_channel_def store_channel_def release_zero_def open_channel_def
      finish_close_def enqueue_def pop_order_def hold_reply_def Let_def split: option.split)

lemma flush [simp]: "field (fst (flush n s)) = field s"
  by (auto simp: flush_def split: option.split prod.split)

lemma acknowledge [simp]: "field (fst (acknowledge n k s)) = field s"
  by (auto simp: acknowledge_def Let_def split: option.split prod.split sum.split)

lemma accept_on [simp]: "field (fst (accept_on n c f s)) = field s"
  by (auto simp: accept_on_def split: prod.split)

lemma dispatch [simp]: "field (fst (dispatch_management k m mg s)) = field s"
  by (auto simp: dispatch_management_def take_pending_def Let_def
      split: option.split frame_kind.split mgmt_message.split pending.split)

lemma bound:
  "field (fst x) = v \<Longrightarrow> (\<And>s y. x = (s, Inr y) \<Longrightarrow> field s = v \<Longrightarrow> field (fst (g s y)) = v) \<Longrightarrow> field (fst (bind_st x g)) = v"
  by (rule bind_st_keeps [where P = "\<lambda>s. field s = v"]) auto

lemma frame [simp]: "field (fst (handle_frame f s)) = field s"
proof (cases f)
  case (DataF d)
  have z: "field (fst (handle_channel_zero d s)) = field s"
    unfolding handle_channel_zero_def by (auto intro!: bound split: sum.split option.split)
  then have "field (fst (handle_data d s)) = field s"
    unfolding handle_data_def Let_def by (auto intro!: bound split: option.split)
  with DataF show ?thesis by simp
qed (auto simp: handle_seq_def split: option.split)

lemma enqueue_all [simp]: "field (enqueue_all n qs s) = field s"
  unfolding enqueue_all_def by (induction qs arbitrary: s) simp_all

lemma release_loop [simp]: "field (fst (release_loop n s)) = field s"
proof (induction n s rule: release_loop.induct)
  case (1 n s)
  show ?case
    by (subst release_loop.simps) (auto simp: Let_def 1 intro!: bound split: list.split option.split)
qed

lemma reply_finished [simp]: "field (fst (reply_finished n m s)) = field s"
  by (auto simp: reply_finished_def Let_def split: option.split list.split)

lemma send [simp]: "field (fst (send n k m a p s)) = field s"
  by (auto simp: send_def Let_def case_prod_beta intro!: bound split: option.split)

lemma send_msg [simp]: "field (fst (send_msg n p s)) = field s"
  by (auto simp: send_msg_def intro!: bound split: option.split prod.split sum.split)

lemma set_window_size [simp]: "field (fst (set_window_size n sz s)) = field s"
  by (auto simp: set_window_size_def split: option.split)

lemma reply [simp]: "field (fst (reply k m mg s)) = field s"
  by (simp add: reply_def write_zero_def)

lemma request [simp]: "field (fst (request mg p s)) = field s"
  by (auto simp: request_def write_zero_def split: prod.split sum.split)

lemma management [simp]:
  "field (fst (start_channel prof s)) = field s" "field (fst (close_channel n s)) = field s"
  "field (fst (refuse_start m err s)) = field s" "field (fst (accept_start n m prof s)) = field s"
  "field (fst (accept_close n m s)) = field s"
  by (auto simp: start_channel_def close_channel_def refuse_start_def accept_start_def accept_close_def require_ready_def Let_def
      intro!: bound)

lemma transmitted [simp]: "field (fst (poll_transmit s)) = field s" "field (fst (poll_event s)) = field s"
  by (auto simp: poll_transmit_def poll_event_def split: list.split)

end

context untouched_by_input
begin

lemma input_loop [simp]: "field (fst (input_loop s)) = field s"
proof (induction s rule: input_loop.induct)
  case (1 s)
  obtain d buf r where step: "decode (s_decoder s) (s_inbound s) = ((d, buf), r)" by (metis prod.collapse)
  let ?s = "s\<lparr>s_decoder := d, s_inbound := buf\<rparr>"
  have same: "field ?s = field s" by (simp add: untouched_input)
  have "field (fst (bind_st (handle_frame f ?s) (\<lambda>s _. input_loop s))) = field s" if "r = Inr (Some f)" for f
  proof (rule bound)
    show "field (fst (handle_frame f ?s)) = field s" using same by simp
    fix t x assume h: "handle_frame f ?s = (t, Inr x)" and "field t = field s"
    have "field (fst (input_loop t)) = field t" using 1 [OF step [symmetric] refl refl] that h by auto
    with \<open>field t = field s\<close> show "field (fst (input_loop t)) = field s" by simp
  qed
  then show ?case by (auto simp: input_loop_step [OF step] same split: sum.split option.split)
qed

lemma input [simp]: "field (fst (handle_input b s)) = field s"
  by (simp add: handle_input_def untouched_input)

end

interpretation input: untouched "\<lambda>s. (s_decoder s, s_inbound s)"
  by unfold_locales simp_all

interpretation identity: untouched_by_input s_authenticated
  by unfold_locales simp_all

interpretation configuration: untouched_by_input s_config
  by unfold_locales simp_all

end
