(* ===== verification/Handshake.thy ===== *)
theory Handshake
  imports SessionInvariant
begin

text \<open>
  Two sessions talking to each other: what one writes, the other reads. The octets are the
  ones the session queues for its transport, so the statements go through rendering,
  incremental decoding, flow control and the management XML on both sides.
\<close>

section \<open>Frames through the wire\<close>

fun handle_frames :: "frame list \<Rightarrow> session \<Rightarrow> session \<times> unit result" where
  "handle_frames [] s = (s, Inr ())"
| "handle_frames (f # fs) s = bind_st (handle_frame f s) (\<lambda>s _. handle_frames fs s)"

text \<open>A session that has read everything so far and is between two frames.\<close>

definition at_boundary :: "session \<Rightarrow> bool" where
  "at_boundary s \<longleftrightarrow> s_decoder s = decoder_new \<and> s_inbound s = []"

definition on_wire :: "frame list \<Rightarrow> bytes" where
  "on_wire fs = concat (map (\<lambda>f. encode f []) fs)"

lemma on_wire_simps [simp]:
  "on_wire [] = []" "on_wire (f # fs) = encode f [] @ on_wire fs" "on_wire (fs @ gs) = on_wire fs @ on_wire gs"
  by (simp_all add: on_wire_def)

lemma decode_fresh:
  assumes "wf_frame f"
  shows "decode decoder_new (encode f [] @ rest) = ((decoder_new, rest), Inr (Some f))"
  by (rule decode_rendered [OF assms])
    (use assms in \<open>auto simp: decoder_new_def wf_data_def word_le_nat_alt wf_data_size\<close>)

lemma at_boundary_frame: "at_boundary s \<Longrightarrow> at_boundary (fst (handle_frame f s))"
  using same_input_frame [of s f] by (simp add: at_boundary_def same_input_def)

lemma handle_input_frames:
  "\<forall>f \<in> set fs. wf_frame f \<Longrightarrow> at_boundary s \<Longrightarrow> snd (handle_frames fs s) = Inr () \<Longrightarrow>
     handle_input (on_wire fs) s = handle_frames fs s"
proof (induction fs arbitrary: s)
  case Nil
  then show ?case
    by (simp add: at_boundary_def handle_input_Nil decode_nothing decoder_new_def)
next
  case (Cons f fs)
  let ?s = "with_inbound (on_wire (f # fs)) s"
  have step: "decode (s_decoder ?s) (s_inbound ?s) = ((decoder_new, on_wire fs), Inr (Some f))"
    using decode_fresh [of f "on_wire fs"] Cons.prems(1,2) by (simp add: at_boundary_def)
  obtain s1 where h: "handle_frame f s = (s1, Inr ())"
    using Cons.prems(3) by (cases "handle_frame f s" rule: bind_st_cases) simp_all
  have b1: "at_boundary s1" using at_boundary_frame [OF Cons.prems(2), of f] h by simp
  have "?s\<lparr>s_decoder := decoder_new, s_inbound := on_wire fs\<rparr> = with_inbound (on_wire fs) s"
    using Cons.prems(2) by (cases s) (simp add: with_inbound_def at_boundary_def)
  then have "input_loop ?s = input_loop (with_inbound (on_wire fs) s1)"
    using input_loop_step [OF step] h by (simp add: handle_frame_with_inbound)
  moreover have "handle_input (on_wire fs) s1 = handle_frames fs s1"
    using Cons.IH [OF _ b1] Cons.prems(1,3) h by simp
  ultimately show ?case
    using Cons.prems(2) b1 h by (simp add: handle_input_def at_boundary_def with_inbound_def)
qed

lemma handle_input_refused:
  assumes "wf_frame f" and "at_boundary s" and "handle_frame f s = (s1, Inl e)"
  shows "snd (handle_input (encode f [] @ rest) s) = Inl e"
proof -
  let ?s = "with_inbound (encode f [] @ rest) s"
  have step: "decode (s_decoder ?s) (s_inbound ?s) = ((decoder_new, rest), Inr (Some f))"
    using decode_fresh [OF assms(1), of rest] assms(2) by (simp add: at_boundary_def)
  have "?s\<lparr>s_decoder := decoder_new, s_inbound := rest\<rparr> = with_inbound rest s"
    using assms(2) by (cases s) (simp add: with_inbound_def at_boundary_def)
  then have "snd (input_loop ?s) = Inl e"
    using input_loop_step [OF step] assms(3) by (simp add: handle_frame_with_inbound)
  then show ?thesis using assms(2) by (simp add: handle_input_def at_boundary_def with_inbound_def)
qed

section \<open>One message in one frame\<close>

definition whole_frame :: "frame_kind \<Rightarrow> channel \<Rightarrow> u32 \<Rightarrow> bytes \<Rightarrow> data_frame" where
  "whole_frame k c m p = \<lparr>df_kind = k, df_channel = ch_number c, df_msgno = m, df_more = False,
     df_seqno = ch_next_seqno c, df_ansno = None, df_payload = p\<rparr>"

definition fits :: "session \<Rightarrow> bytes \<Rightarrow> bool" where
  "fits s p \<longleftrightarrow> p \<noteq> [] \<and> length p \<le> unat (writable (s_zero s)) \<and>
     length p \<le> unat (chunk_limit (cf_max_frame_size (s_config s)))"

lemma emit_whole:
  assumes "sendable c k m None" and "p \<noteq> []" and "length p \<le> unat (writable c)" and "length p \<le> unat (chunk_limit mfs)"
  shows "emit c k m None p mfs =
    (c\<lparr>ch_next_seqno := advance (ch_next_seqno c) (of_nat (length p))\<rparr>,
     Inr \<lparr>em_frames = [whole_frame k c m p], em_remaining = []\<rparr>)"
proof -
  have "writable c \<noteq> 0" using assms(2,3) by auto
  moreover have "cut_at c p = length p" using assms(3) by (simp add: cut_at_def)
  moreover have "0 < unat (chunk_limit mfs)" by (rule chunk_limit_pos)
  ultimately show ?thesis
    using assms by (simp add: emit_data fragments_Cons whole_frame_def)
qed

lemma flush_zero_whole:
  assumes "queue_of s GREETING_CHANNEL = []" and "fits s p" and "ch_number (s_zero s) = GREETING_CHANNEL"
    and "\<not> has_ansno k" and "m \<le> MAX_MSG_NO"
  shows "flush GREETING_CHANNEL (enqueue GREETING_CHANNEL k m None p s) =
    (s\<lparr>s_zero := (s_zero s)\<lparr>ch_next_seqno := advance (ch_next_seqno (s_zero s)) (of_nat (length p))\<rparr>,
       s_outbound := s_outbound s @ encode (DataF (whole_frame k (s_zero s) m p)) [],
       s_queues := (s_queues s)(GREETING_CHANNEL \<mapsto> [])\<rparr>, Inr ())"
proof -
  have s: "sendable (s_zero s) k m None"
    using assms(3-5) by (simp add: sendable_def GREETING_CHANNEL_def limit_defs)
  have f: "p \<noteq> []" "length p \<le> unat (writable (s_zero s))" "length p \<le> unat (chunk_limit (cf_max_frame_size (s_config s)))"
    using assms(2) by (simp_all add: fits_def)
  then have "\<not> is_stalled (s_zero s)" by (auto simp: is_stalled_def)
  then show ?thesis
    using assms(1) emit_whole [OF s f]
    by (simp add: flush_def enqueue_def queue_of_def is_complete_def) (simp add: encode_data_eq)
qed

section \<open>Taking a frame in\<close>

text \<open>
  Acknowledging writes at most one \<open>SEQ\<close> frame and moves only the receive window; it writes one
  when the octets received and not yet acknowledged have reached the threshold.
\<close>

definition due :: "session \<Rightarrow> u32 \<Rightarrow> channel \<Rightarrow> u32 \<Rightarrow> bool" where
  "due s n c k \<longleftrightarrow> ack_threshold (w_size (ch_recv_window c)) \<le> saturating_add (case s_unacked s n of None \<Rightarrow> 0 | Some k \<Rightarrow> k) k"

lemma acknowledge_ok:
  assumes "channel_of s n = Some c" and "ch_number c = n" and "n \<le> MAX_CHANNEL_NO"
    and "w_size (ch_recv_window c) \<le> MAX_FRAME_SIZE"
  shows "\<exists>w u seqs. acknowledge n k s =
      ((store_channel n (c\<lparr>ch_recv_window := w\<rparr>) s)\<lparr>s_unacked := (s_unacked s)(n \<mapsto> u),
         s_outbound := s_outbound s @ on_wire (map SeqF seqs)\<rparr>, Inr ()) \<and>
    w_size w = w_size (ch_recv_window c) \<and> length seqs \<le> 1 \<and> (\<forall>q \<in> set seqs. wf_seq q \<and> sf_channel q = n) \<and>
    (seqs = [] \<longleftrightarrow> \<not> due s n c k)"
proof -
  have due: "due s n c k \<longleftrightarrow> saturating_add (case s_unacked s n of None \<Rightarrow> 0 | Some k \<Rightarrow> k) k \<ge>
      clamp_u32 (w_size (ch_recv_window c) div 2) 1 (INITIAL_WINDOW_SIZE div 2)"
    by (simp add: due_def ack_threshold_def)
  let ?p = "saturating_add (case s_unacked s n of None \<Rightarrow> 0 | Some k \<Rightarrow> k) k"
  let ?t = "clamp_u32 (w_size (ch_recv_window c) div 2) 1 (INITIAL_WINDOW_SIZE div 2)"
  have same: "store_channel n (c\<lparr>ch_recv_window := ch_recv_window c\<rparr>) s = s"
    using assms(1) by (auto simp: store_channel_def channel_of_def put_channel_def map_upd_triv split: if_splits)
  show ?thesis
  proof (cases "?p \<ge> ?t")
    case False
    then have "acknowledge n k s = (s\<lparr>s_unacked := (s_unacked s)(n \<mapsto> ?p)\<rparr>, Inr ())"
      using assms(1) by (simp add: acknowledge_def Let_def)
    with same False show ?thesis unfolding due
      by (intro exI [of _ "ch_recv_window c"] exI [of _ ?p] exI [of _ "[]"]) simp
  next
    case True
    let ?w = "consumed (ch_recv_window c) ?p"
    let ?q = "\<lparr>sf_channel = n, sf_ackno = advance (w_base (ch_recv_window c)) ?p, sf_window = w_size (ch_recv_window c)\<rparr>"
    have con: "consume c ?p = (c\<lparr>ch_recv_window := ?w\<rparr>, Inr ?q)" using assms(2-4) by (simp add: consume_Inr)
    have "acknowledge n k s = ((store_channel n (c\<lparr>ch_recv_window := ?w\<rparr>) s)\<lparr>s_unacked := (s_unacked s)(n \<mapsto> 0),
         s_outbound := s_outbound s @ encode (SeqF ?q) []\<rparr>, Inr ())"
      using assms(1) True con
      by (simp add: acknowledge_def Let_def encode_seq_eq store_channel_def put_channel_def)
    with assms(3,4) True show ?thesis unfolding due
      by (intro exI [of _ ?w] exI [of _ 0] exI [of _ "[?q]"]) (simp add: wf_seq_def)
  qed
qed

text \<open>Channel 0 of the receiving end is ready for the next frame of the sending end.\<close>

definition listening :: "session \<Rightarrow> session \<Rightarrow> bool" where
  "listening a b \<longleftrightarrow> at_boundary b \<and> in_step (s_zero a) (s_zero b) \<and> ch_partial (s_zero b) = None \<and>
     ch_number (s_zero b) = GREETING_CHANNEL \<and> w_size (ch_recv_window (s_zero b)) \<le> MAX_FRAME_SIZE"

lemma accept_whole:
  assumes "in_step c r" and "ch_partial r = None" and "length p \<le> unat (writable c)"
  shows "accept r (whole_frame k c m p) =
    (received r k m None False (advance (ch_next_seqno c) (of_nat (length p))) p,
     Inr (Some \<lparr>msg_kind = k, msg_msgno = m, msg_ansno = None, msg_payload = p\<rparr>))"
proof -
  let ?f = "whole_frame k c m p"
  have lt: "length p < 4294967296" using assms(3) unat_u32_lt [of "writable c"] by linarith
  then have size: "unat (df_size ?f) = length p" by (simp add: df_size_def whole_frame_def unat_of_nat_u32)
  have "accepts (ch_recv_window r) (df_seqno ?f) (df_size ?f)"
    unfolding accepts_iff size using assms(1,3) by (simp add: in_step_def whole_frame_def)
  then show ?thesis
    using assms(1,2) by (subst accept_in_order [where acc = "[]"])
      (simp_all add: in_step_def whole_frame_def holding_def df_size_def)
qed

lemma zero_receipt:
  assumes "listening a b" and "length p \<le> unat (writable (s_zero a))"
  shows "\<exists>z u seqs b1. accept_on GREETING_CHANNEL (s_zero b) (whole_frame k (s_zero a) m p) b = (b1,
        Inr (Some \<lparr>msg_kind = k, msg_msgno = m, msg_ansno = None, msg_payload = p\<rparr>)) \<and>
      acknowledge GREETING_CHANNEL (df_size (whole_frame k (s_zero a) m p)) b1 =
        (b\<lparr>s_zero := z, s_unacked := (s_unacked b)(GREETING_CHANNEL \<mapsto> u),
           s_outbound := s_outbound b @ on_wire (map SeqF seqs)\<rparr>, Inr ()) \<and>
      (\<forall>q \<in> set seqs. wf_seq q \<and> sf_channel q = GREETING_CHANNEL) \<and>
      z = (s_zero b)\<lparr>ch_recv_window := ch_recv_window z, ch_expected_seqno := ch_expected_seqno z,
             ch_awaiting_reply := ch_awaiting_reply z\<rparr> \<and>
      w_size (ch_recv_window z) = w_size (ch_recv_window (s_zero b)) \<and>
      (seqs = [] \<longleftrightarrow> \<not> due b GREETING_CHANNEL (s_zero b) (of_nat (length p)))"
proof -
  let ?f = "whole_frame k (s_zero a) m p"
  let ?z = "received (s_zero b) k m None False (advance (ch_next_seqno (s_zero a)) (of_nat (length p))) p"
  let ?b = "b\<lparr>s_zero := ?z\<rparr>"
  have acc: "accept_on GREETING_CHANNEL (s_zero b) ?f b =
      (?b, Inr (Some \<lparr>msg_kind = k, msg_msgno = m, msg_ansno = None, msg_payload = p\<rparr>))"
    using accept_whole [of "s_zero a" "s_zero b" p k m] assms
    by (simp add: accept_on_def listening_def store_channel_def)
  have "channel_of ?b GREETING_CHANNEL = Some ?z" by (simp add: channel_of_def)
  moreover have "ch_number ?z = GREETING_CHANNEL" using assms(1) by (simp add: listening_def received_def)
  moreover have "GREETING_CHANNEL \<le> MAX_CHANNEL_NO" by (simp add: GREETING_CHANNEL_def limit_defs)
  moreover have "w_size (ch_recv_window ?z) \<le> MAX_FRAME_SIZE" using assms(1) by (simp add: listening_def)
  ultimately obtain w u seqs where ack: "acknowledge GREETING_CHANNEL (df_size ?f) ?b =
      ((store_channel GREETING_CHANNEL (?z\<lparr>ch_recv_window := w\<rparr>) ?b)\<lparr>s_unacked := (s_unacked ?b)(GREETING_CHANNEL \<mapsto> u),
         s_outbound := s_outbound ?b @ on_wire (map SeqF seqs)\<rparr>, Inr ())"
    "w_size w = w_size (ch_recv_window ?z)" "\<forall>q \<in> set seqs. wf_seq q \<and> sf_channel q = GREETING_CHANNEL"
    "seqs = [] \<longleftrightarrow> \<not> due ?b GREETING_CHANNEL ?z (df_size ?f)"
    using acknowledge_ok by blast
  have due: "due ?b GREETING_CHANNEL ?z (df_size ?f) = due b GREETING_CHANNEL (s_zero b) (of_nat (length p))"
    by (simp add: due_def received_def df_size_def whole_frame_def)
  have "ch_partial (s_zero b) = None" using assms(1) by (simp add: listening_def)
  then have "?z\<lparr>ch_recv_window := w\<rparr> = (s_zero b)\<lparr>ch_recv_window := w, ch_expected_seqno := ch_expected_seqno ?z,
             ch_awaiting_reply := ch_awaiting_reply ?z\<rparr>"
    by (cases "s_zero b") (simp add: received_def)
  with acc ack due show ?thesis
    by (intro exI [of _ "?z\<lparr>ch_recv_window := w\<rparr>"] exI [of _ u] exI [of _ seqs] exI [of _ ?b])
      (simp add: store_channel_def)
qed

section \<open>The greetings\<close>

definition short_greeting :: "config \<Rightarrow> bool" where
  "short_greeting cfg \<longleftrightarrow> length (greeting_to_payload (cf_greeting cfg)) \<le>
     min (unat INITIAL_WINDOW_SIZE) (unat (chunk_limit (cf_max_frame_size cfg)))"

definition greeting_frame :: "config \<Rightarrow> data_frame" where
  "greeting_frame cfg = \<lparr>df_kind = Rpy, df_channel = GREETING_CHANNEL, df_msgno = 0, df_more = False, df_seqno = 0,
     df_ansno = None, df_payload = greeting_to_payload (cf_greeting cfg)\<rparr>"

lemma greeting_to_payload_ne: "greeting_to_payload g \<noteq> []"
  by (auto simp: greeting_to_payload_def Let_def)

lemma zero_new:
  "ch_number (s_zero (session_init cfg)) = GREETING_CHANNEL" "ch_partial (s_zero (session_init cfg)) = None"
  "ch_next_seqno (s_zero (session_init cfg)) = 0" "ch_expected_seqno (s_zero (session_init cfg)) = 0"
  "ch_recv_window (s_zero (session_init cfg)) = window_new 0 (cf_window_size cfg)"
  "ch_send_window (s_zero (session_init cfg)) = window_new 0 INITIAL_WINDOW_SIZE"
  "s_config (session_init cfg) = cfg" "s_queues (session_init cfg) = Map.empty"
  "s_outbound (session_init cfg) = []" "s_state (session_init cfg) = AwaitingGreeting"
  "s_events (session_init cfg) = []"
  by (simp_all add: session_init_def channel_with_window_size_def)

lemma writable_new: "writable (s_zero (session_init cfg)) = INITIAL_WINDOW_SIZE"
  by (simp add: writable_def zero_new remaining_def saturating_sub_def distance_from_def)

text \<open>A new session has written its greeting and then, perhaps, a \<open>SEQ\<close>.\<close>

lemma advertised:
  "\<exists>seqs. advertise_window GREETING_CHANNEL s = s\<lparr>s_outbound := s_outbound s @ on_wire (map SeqF seqs)\<rparr> \<and>
     (\<forall>q \<in> set seqs. wf_seq q \<and> sf_channel q = GREETING_CHANNEL) \<and>
     (cf_window_size (s_config s) \<le> INITIAL_WINDOW_SIZE \<longrightarrow> seqs = [])"
proof (cases "cf_window_size (s_config s) \<le> INITIAL_WINDOW_SIZE")
  case True
  then show ?thesis by (intro exI [of _ "[]"]) (simp add: advertise_window_def)
next
  case False
  show ?thesis
  proof (cases "to_seq_frame (ch_recv_window (s_zero s)) GREETING_CHANNEL")
    case (Inl e)
    with False show ?thesis by (intro exI [of _ "[]"]) (simp add: advertise_window_def)
  next
    case (Inr q)
    then have "wf_seq q \<and> sf_channel q = GREETING_CHANNEL" by (auto simp: to_seq_frame_def new_seq_ok wf_seq_def)
    with False Inr show ?thesis
      by (intro exI [of _ "[q]"]) (simp add: advertise_window_def encode_seq_eq)
  qed
qed

lemma session_new_short:
  assumes "short_greeting cfg"
  shows "\<exists>seqs. session_new cfg = (session_init cfg)\<lparr>s_zero := (s_zero (session_init cfg))\<lparr>ch_next_seqno :=
        of_nat (length (greeting_to_payload (cf_greeting cfg)))\<rparr>,
      s_outbound := on_wire (DataF (greeting_frame cfg) # map SeqF seqs), s_queues := [GREETING_CHANNEL \<mapsto> []]\<rparr> \<and>
    (\<forall>q \<in> set seqs. wf_seq q \<and> sf_channel q = GREETING_CHANNEL) \<and>
    (cf_window_size cfg \<le> INITIAL_WINDOW_SIZE \<longrightarrow> seqs = [])"
proof -
  let ?i = "session_init cfg" and ?p = "greeting_to_payload (cf_greeting cfg)"
  have q: "queue_of ?i GREETING_CHANNEL = []" by (simp add: queue_of_def or_empty_def zero_new)
  have f: "fits ?i ?p" using assms by (simp add: fits_def short_greeting_def writable_new zero_new greeting_to_payload_ne)
  have fr: "whole_frame Rpy (s_zero ?i) 0 ?p = greeting_frame cfg"
    by (simp add: whole_frame_def greeting_frame_def zero_new)
  have "session_greet cfg = (?i\<lparr>s_zero := (s_zero ?i)\<lparr>ch_next_seqno := of_nat (length ?p)\<rparr>,
      s_outbound := encode (DataF (greeting_frame cfg)) [], s_queues := [GREETING_CHANNEL \<mapsto> []]\<rparr>, Inr ())"
    using flush_zero_whole [OF q f, of Rpy 0]
    by (simp add: session_greet_def fr zero_new advance_def has_ansno_def limit_defs)
  moreover obtain seqs where "advertise_window GREETING_CHANNEL (fst (session_greet cfg)) =
      (fst (session_greet cfg))\<lparr>s_outbound := s_outbound (fst (session_greet cfg)) @ on_wire (map SeqF seqs)\<rparr>"
    "\<forall>q \<in> set seqs. wf_seq q \<and> sf_channel q = GREETING_CHANNEL"
    "cf_window_size (s_config (fst (session_greet cfg))) \<le> INITIAL_WINDOW_SIZE \<longrightarrow> seqs = []" using advertised by blast
  ultimately show ?thesis by (intro exI [of _ seqs]) (simp add: session_new_def zero_new)
qed

text \<open>\<open>SEQ\<close> frames for channel 0 when nothing is queued there: only the send window moves.\<close>

lemma handle_zero_seqs:
  assumes "\<forall>q \<in> set seqs. sf_channel q = GREETING_CHANNEL" and "queue_of s GREETING_CHANNEL = []"
  shows "\<exists>w. handle_frames (map SeqF seqs) s = (s\<lparr>s_zero := (s_zero s)\<lparr>ch_send_window := w\<rparr>\<rparr>, Inr ())"
  using assms
proof (induction seqs arbitrary: s)
  case Nil
  then show ?case by (intro exI [of _ "ch_send_window (s_zero s)"]) simp
next
  case (Cons q seqs)
  let ?s = "s\<lparr>s_zero := apply_seq (s_zero s) q\<rparr>"
  have step: "handle_frame (SeqF q) s = (?s, Inr ())"
    using Cons.prems
    by (cases "s_queues s GREETING_CHANNEL")
      (simp_all add: handle_seq_def channel_of_def store_channel_def flush_def map_upd_triv queue_of_def or_empty_def)
  from Cons.IH [of ?s] Cons.prems obtain w where
    "handle_frames (map SeqF seqs) ?s = (?s\<lparr>s_zero := (s_zero ?s)\<lparr>ch_send_window := w\<rparr>\<rparr>, Inr ())"
    by (auto simp: queue_of_def)
  with step show ?case by (intro exI [of _ w]) (simp add: apply_seq_def)
qed

lemma wf_greeting_frame: "short_greeting cfg \<Longrightarrow> wf_data (greeting_frame cfg)"
  using chunk_limit_le [of "cf_max_frame_size cfg"]
  by (simp add: wf_data_def greeting_frame_def short_greeting_def GREETING_CHANNEL_def has_ansno_def limit_defs)

lemma greeting_frame_read: "greeting_ok (cf_greeting cfg) \<Longrightarrow> greeting_from_frame (greeting_frame cfg) = Inr (cf_greeting cfg)"
  using greeting_read_back by (simp add: greeting_from_frame_def greeting_frame_def)

lemma session_new_boundary: "at_boundary (session_new cfg)"
proof -
  have "same_input (session_init cfg) (fst (session_greet cfg))"
    unfolding session_greet_def by (rule same_input_flush) simp
  moreover have "same_input s (advertise_window n s)" for n s
    by (auto simp: advertise_window_def same_input_def split: option.split sum.split)
  ultimately show ?thesis
    unfolding session_new_def at_boundary_def same_input_def by (simp add: session_init_def)
qed

lemma greeting_received_after:
  fixes out nm
  assumes "short_greeting a" and "short_greeting b" and "greeting_ok (cf_greeting a)"
    and "length (greeting_to_payload (cf_greeting a)) \<le> unat (cf_window_size b)" and "cf_window_size b \<le> MAX_FRAME_SIZE"
  defines "s \<equiv> (session_new b)\<lparr>s_outbound := out, s_server_name := nm\<rparr>"
  shows "\<exists>z u seqs. handle_input (s_outbound (session_new a)) s =
      (s\<lparr>s_zero := z, s_unacked := [GREETING_CHANNEL \<mapsto> u], s_peer_greeting := Some (cf_greeting a),
         s_state := Ready, s_events := [GreetingReceived (cf_greeting a)], s_outbound := out @ on_wire (map SeqF seqs)\<rparr>, Inr ()) \<and>
    (\<forall>q \<in> set seqs. wf_seq q \<and> sf_channel q = GREETING_CHANNEL) \<and>
    (cf_window_size a \<le> INITIAL_WINDOW_SIZE \<longrightarrow> ch_send_window z = window_new 0 INITIAL_WINDOW_SIZE) \<and>
    ch_number z = GREETING_CHANNEL \<and> ch_next_msgno z = 0 \<and> ch_outstanding z = {} \<and>
    ch_next_seqno z = of_nat (length (greeting_to_payload (cf_greeting b)))"
proof -
  let ?b = "(session_new b)\<lparr>s_outbound := out, s_server_name := nm\<rparr>" and ?p = "greeting_to_payload (cf_greeting a)"
  obtain qa where a: "s_outbound (session_new a) = on_wire (DataF (greeting_frame a) # map SeqF qa)"
    "\<forall>q \<in> set qa. wf_seq q \<and> sf_channel q = GREETING_CHANNEL" "cf_window_size a \<le> INITIAL_WINDOW_SIZE \<longrightarrow> qa = []"
    using session_new_short [OF assms(1)] by force
  obtain qb where b: "session_new b = (session_init b)\<lparr>s_zero := (s_zero (session_init b))\<lparr>ch_next_seqno :=
        of_nat (length (greeting_to_payload (cf_greeting b)))\<rparr>,
      s_outbound := on_wire (DataF (greeting_frame b) # map SeqF qb), s_queues := [GREETING_CHANNEL \<mapsto> []]\<rparr>"
    using session_new_short [OF assms(2)] by blast
  have bb: "at_boundary ?b" using session_new_boundary [of b] by (simp add: at_boundary_def)
  text \<open>The peer as it was before it wrote its greeting is in step with this end.\<close>
  let ?a = "(session_init a)\<lparr>s_zero := (s_zero (session_init a))\<lparr>ch_send_window := window_new 0 (of_nat (length ?p))\<rparr>\<rparr>"
  have len: "length ?p < 4294967296" using assms(4) unat_u32_lt [of "cf_window_size b"] by linarith
  have wr: "unat (writable (s_zero ?a)) = length ?p"
    by (simp add: writable_def unat_remaining zero_new distance_from_def unat_of_nat_u32 len)
  have "in_step (s_zero ?a) (s_zero ?b)" "ch_partial (s_zero ?b) = None" "ch_number (s_zero ?b) = GREETING_CHANNEL"
    "w_size (ch_recv_window (s_zero ?b)) \<le> MAX_FRAME_SIZE"
    unfolding in_step_def wr using assms(4,5) by (simp_all add: b zero_new distance_from_def)
  with bb have "listening ?a ?b" by (simp add: listening_def)
  from zero_receipt [OF this, of ?p Rpy 0] wr obtain z u seqs b1 where r:
    "accept_on GREETING_CHANNEL (s_zero ?b) (greeting_frame a) ?b =
      (b1, Inr (Some \<lparr>msg_kind = Rpy, msg_msgno = 0, msg_ansno = None, msg_payload = ?p\<rparr>))"
    "acknowledge GREETING_CHANNEL (df_size (greeting_frame a)) b1 =
        (?b\<lparr>s_zero := z, s_unacked := (s_unacked ?b)(GREETING_CHANNEL \<mapsto> u),
           s_outbound := s_outbound ?b @ on_wire (map SeqF seqs)\<rparr>, Inr ())"
    "\<forall>q \<in> set seqs. wf_seq q \<and> sf_channel q = GREETING_CHANNEL"
    "z = (s_zero ?b)\<lparr>ch_recv_window := ch_recv_window z, ch_expected_seqno := ch_expected_seqno z,
             ch_awaiting_reply := ch_awaiting_reply z\<rparr>"
    by (auto simp: whole_frame_def greeting_frame_def zero_new)
  let ?r = "?b\<lparr>s_zero := z, s_unacked := [GREETING_CHANNEL \<mapsto> u], s_peer_greeting := Some (cf_greeting a), s_state := Ready,
      s_events := [GreetingReceived (cf_greeting a)], s_outbound := out @ on_wire (map SeqF seqs)\<rparr>"
  have st: "s_state ?b = AwaitingGreeting" "s_unacked ?b = Map.empty" "s_events ?b = []"
    by (simp_all add: b zero_new session_init_def)
  have step: "handle_frame (DataF (greeting_frame a)) ?b = (?r, Inr ())"
    using r st greeting_frame_read [OF assms(3)]
    by (simp add: handle_data_def handle_channel_zero_def push_event_def) (simp add: greeting_frame_def)
  obtain w where more: "handle_frames (map SeqF qa) ?r = (?r\<lparr>s_zero := z\<lparr>ch_send_window := w\<rparr>\<rparr>, Inr ())"
    using handle_zero_seqs [of qa ?r] a(2) by (auto simp: b queue_of_def or_empty_def)
  have fr: "handle_frames (DataF (greeting_frame a) # map SeqF qa) ?b = (?r\<lparr>s_zero := z\<lparr>ch_send_window := w\<rparr>\<rparr>, Inr ())"
    using step more by simp
  have "handle_input (s_outbound (session_new a)) ?b = (?r\<lparr>s_zero := z\<lparr>ch_send_window := w\<rparr>\<rparr>, Inr ())"
    unfolding a(1) by (subst handle_input_frames [OF _ bb])
      (use wf_greeting_frame [OF assms(1)] a(2) fr in auto)
  moreover have "ch_number z = GREETING_CHANNEL \<and> ch_next_msgno z = 0 \<and> ch_outstanding z = {} \<and>
      ch_next_seqno z = of_nat (length (greeting_to_payload (cf_greeting b))) \<and>
      ch_send_window z = window_new 0 INITIAL_WINDOW_SIZE"
    by (subst (1 2 3 4 5) r(4)) (simp add: b session_init_def channel_with_window_size_def)
  moreover have "w = ch_send_window z" if "cf_window_size a \<le> INITIAL_WINDOW_SIZE"
  proof -
    have "s_zero ?r = s_zero (?r\<lparr>s_zero := z\<lparr>ch_send_window := w\<rparr>\<rparr>)" using more a(3) that by simp
    then show ?thesis by (simp, metis channel.select_convs(3) channel.surjective channel.update_convs(3))
  qed
  ultimately show ?thesis unfolding s_def using r(3)
    by (intro exI [of _ "z\<lparr>ch_send_window := w\<rparr>"] exI [of _ u] exI [of _ seqs]) simp
qed

lemma greeting_received:
  assumes "short_greeting a" and "short_greeting b" and "greeting_ok (cf_greeting a)"
    and "length (greeting_to_payload (cf_greeting a)) \<le> unat (cf_window_size b)" and "cf_window_size b \<le> MAX_FRAME_SIZE"
  shows "\<exists>z u seqs. handle_input (s_outbound (session_new a)) (session_new b) =
      ((session_new b)\<lparr>s_zero := z, s_unacked := [GREETING_CHANNEL \<mapsto> u], s_peer_greeting := Some (cf_greeting a),
         s_state := Ready, s_events := [GreetingReceived (cf_greeting a)],
         s_outbound := s_outbound (session_new b) @ on_wire (map SeqF seqs)\<rparr>, Inr ()) \<and>
    (\<forall>q \<in> set seqs. wf_seq q \<and> sf_channel q = GREETING_CHANNEL) \<and>
    (cf_window_size a \<le> INITIAL_WINDOW_SIZE \<longrightarrow> ch_send_window z = window_new 0 INITIAL_WINDOW_SIZE) \<and>
    ch_number z = GREETING_CHANNEL \<and> ch_next_msgno z = 0 \<and> ch_outstanding z = {} \<and>
    ch_next_seqno z = of_nat (length (greeting_to_payload (cf_greeting b)))"
  using greeting_received_after [OF assms, where out = "s_outbound (session_new b)" and nm = "s_server_name (session_new b)"] by simp

section \<open>Management messages\<close>

lemma to_payload_ne: "to_payload m \<noteq> []"
  by (cases m) (auto simp: to_payload_eq beep_xml_headers_def)

lemma deliver_management:
  assumes "listening a b" and "s_state b \<noteq> AwaitingGreeting" and "mgmt_ok mg"
    and "length (to_payload mg) \<le> unat (writable (s_zero a))" and "ch_number (s_zero a) = GREETING_CHANNEL"
  shows "\<exists>z u seqs. handle_frame (DataF (whole_frame k (s_zero a) m (to_payload mg))) b =
      dispatch_management k m mg (b\<lparr>s_zero := z, s_unacked := (s_unacked b)(GREETING_CHANNEL \<mapsto> u),
         s_outbound := s_outbound b @ on_wire (map SeqF seqs)\<rparr>) \<and>
    (\<forall>q \<in> set seqs. wf_seq q \<and> sf_channel q = GREETING_CHANNEL) \<and>
    z = (s_zero b)\<lparr>ch_recv_window := ch_recv_window z, ch_expected_seqno := ch_expected_seqno z,
           ch_awaiting_reply := ch_awaiting_reply z\<rparr> \<and>
    (seqs = [] \<longleftrightarrow> \<not> due b GREETING_CHANNEL (s_zero b) (of_nat (length (to_payload mg))))"
proof -
  let ?f = "whole_frame k (s_zero a) m (to_payload mg)"
  from zero_receipt [OF assms(1,4), of k m] obtain z u seqs b1 where r:
    "accept_on GREETING_CHANNEL (s_zero b) ?f b = (b1,
        Inr (Some \<lparr>msg_kind = k, msg_msgno = m, msg_ansno = None, msg_payload = to_payload mg\<rparr>))"
    "acknowledge GREETING_CHANNEL (df_size ?f) b1 =
        (b\<lparr>s_zero := z, s_unacked := (s_unacked b)(GREETING_CHANNEL \<mapsto> u),
           s_outbound := s_outbound b @ on_wire (map SeqF seqs)\<rparr>, Inr ())"
    "\<forall>q \<in> set seqs. wf_seq q \<and> sf_channel q = GREETING_CHANNEL"
    "z = (s_zero b)\<lparr>ch_recv_window := ch_recv_window z, ch_expected_seqno := ch_expected_seqno z,
             ch_awaiting_reply := ch_awaiting_reply z\<rparr>"
    "seqs = [] \<longleftrightarrow> \<not> due b GREETING_CHANNEL (s_zero b) (of_nat (length (to_payload mg)))" by blast
  have "df_channel ?f = GREETING_CHANNEL" using assms(5) by (simp add: whole_frame_def)
  then have "handle_frame (DataF ?f) b = dispatch_management k m mg (b\<lparr>s_zero := z,
        s_unacked := (s_unacked b)(GREETING_CHANNEL \<mapsto> u), s_outbound := s_outbound b @ on_wire (map SeqF seqs)\<rparr>)"
    using assms(2) r(1,2) management_read_back [OF assms(3)]
    by (simp add: handle_data_def handle_channel_zero_def)
  with r(3-5) show ?thesis by blast
qed

lemma wf_whole_frame:
  assumes "fits s p" and "ch_number (s_zero s) = GREETING_CHANNEL" and "\<not> has_ansno k" and "m \<le> MAX_MSG_NO"
  shows "wf_data (whole_frame k (s_zero s) m p)"
proof -
  have "length p \<le> unat MAX_FRAME_SIZE"
    using assms(1) chunk_limit_le [of "cf_max_frame_size (s_config s)"] by (simp add: fits_def)
  then show ?thesis using assms(2-4) by (simp add: wf_data_def whole_frame_def GREETING_CHANNEL_def limit_defs)
qed

text \<open>Asking: one frame on channel 0, and the number it went out under remembered.\<close>

lemma request_whole:
  assumes "queue_of s GREETING_CHANNEL = []" and "fits s (to_payload mg)" and "ch_number (s_zero s) = GREETING_CHANNEL"
    and "ch_next_msgno (s_zero s) \<le> MAX_MSG_NO" and "\<not> {..MAX_MSG_NO} \<subseteq> ch_outstanding (s_zero s)"
  shows "\<exists>m. m \<le> MAX_MSG_NO \<and> m \<notin> ch_outstanding (s_zero s) \<and> request mg p s =
    (s\<lparr>s_zero := (s_zero s)\<lparr>ch_next_msgno := next_after m, ch_outstanding := insert m (ch_outstanding (s_zero s)),
         ch_next_seqno := advance (ch_next_seqno (s_zero s)) (of_nat (length (to_payload mg)))\<rparr>,
       s_pending := (s_pending s)(m \<mapsto> p),
       s_outbound := s_outbound s @ encode (DataF (whole_frame Msg (s_zero s) m (to_payload mg))) [],
       s_queues := (s_queues s)(GREETING_CHANNEL \<mapsto> [])\<rparr>, Inr ())"
proof -
  obtain z r where a: "allocate_msgno (s_zero s) = (z, r)" by fastforce
  from allocate_msgno_result [OF assms(4) a] assms(5) obtain m where m: "r = Inr m" "m \<notin> ch_outstanding (s_zero s)"
    "m \<le> MAX_MSG_NO" and
    z: "z = (s_zero s)\<lparr>ch_next_msgno := next_after m, ch_outstanding := insert m (ch_outstanding (s_zero s))\<rparr>" by blast
  let ?s = "s\<lparr>s_zero := z, s_pending := (s_pending s)(m \<mapsto> p)\<rparr>"
  have q: "queue_of ?s GREETING_CHANNEL = []" using assms(1) by (simp add: queue_of_def)
  have f: "fits ?s (to_payload mg)" using assms(2) by (simp add: fits_def z writable_def)
  have "request mg p s = flush GREETING_CHANNEL (enqueue GREETING_CHANNEL Msg m None (to_payload mg) ?s)"
    using a m(1) by (simp add: request_def write_zero_def)
  also have "\<dots> = (?s\<lparr>s_zero := z\<lparr>ch_next_seqno := advance (ch_next_seqno z) (of_nat (length (to_payload mg)))\<rparr>,
       s_outbound := s_outbound s @ encode (DataF (whole_frame Msg z m (to_payload mg))) [],
       s_queues := (s_queues s)(GREETING_CHANNEL \<mapsto> [])\<rparr>, Inr ())"
    using flush_zero_whole [OF q f, of Msg m] m(3) assms(3) by (simp add: z has_ansno_def)
  finally show ?thesis using m by (intro exI [of _ m]) (simp add: z whole_frame_def)
qed

lemma reply_whole:
  assumes "queue_of s GREETING_CHANNEL = []" and "fits s (to_payload mg)" and "ch_number (s_zero s) = GREETING_CHANNEL"
    and "k \<in> {Rpy, Err}" and "m \<le> MAX_MSG_NO"
  shows "reply k m mg s =
    (s\<lparr>s_zero := (replied (s_zero s) m)\<lparr>ch_next_seqno := advance (ch_next_seqno (s_zero s)) (of_nat (length (to_payload mg)))\<rparr>,
       s_outbound := s_outbound s @ encode (DataF (whole_frame k (s_zero s) m (to_payload mg))) [],
       s_queues := (s_queues s)(GREETING_CHANNEL \<mapsto> [])\<rparr>, Inr ())"
proof -
  let ?s = "s\<lparr>s_zero := replied (s_zero s) m\<rparr>"
  have q: "queue_of ?s GREETING_CHANNEL = []" using assms(1) by (simp add: queue_of_def)
  have f: "fits ?s (to_payload mg)" using assms(2) by (simp add: fits_def replied_def writable_def)
  have "\<not> has_ansno k" using assms(4) by (auto simp: has_ansno_def)
  with flush_zero_whole [OF q f _ this assms(5)] assms(3) show ?thesis
    by (simp add: reply_def write_zero_def) (simp add: replied_def whole_frame_def)
qed

section \<open>Opening a channel\<close>

text \<open>Between exchanges: greeted, nothing waiting to be written, a message number to spare.\<close>

definition idle :: "session \<Rightarrow> bool" where
  "idle s \<longleftrightarrow> s_state s = Ready \<and> queue_of s GREETING_CHANNEL = [] \<and> s_outbound s = [] \<and>
     ch_next_msgno (s_zero s) \<le> MAX_MSG_NO \<and> \<not> {..MAX_MSG_NO} \<subseteq> ch_outstanding (s_zero s)"

definition peers :: "session \<Rightarrow> session \<Rightarrow> bool" where
  "peers a b \<longleftrightarrow> idle a \<and> idle b \<and> listening a b \<and> listening b a"

lemma handle_frames_append:
  "handle_frames (fs @ gs) s = bind_st (handle_frames fs s) (\<lambda>s _. handle_frames gs s)"
  by (induction fs arbitrary: s) (simp_all add: bind_st_assoc)

lemma start_asked:
  assumes "peers a b" and "n = s_next_channel a" and "fits a (to_payload (MStart (start_new n p)))"
    and "mgmt_ok (MStart (start_new n p))"
  shows "\<exists>m a1 b1 z u seqs. start_channel p a = (a1, Inr n) \<and> m \<le> MAX_MSG_NO \<and>
      handle_input (s_outbound a1) b = (b1, Inr ()) \<and>
      b1 = b\<lparr>s_zero := z, s_unacked := u, s_outbound := on_wire (map SeqF seqs),
             s_events := s_events b @ [StartRequested n m (start_new n p)]\<rparr> \<and>
      z = (s_zero b)\<lparr>ch_recv_window := ch_recv_window z, ch_expected_seqno := ch_expected_seqno z,
             ch_awaiting_reply := ch_awaiting_reply z\<rparr> \<and>
      (\<forall>q \<in> set seqs. wf_seq q \<and> sf_channel q = GREETING_CHANNEL) \<and>
      idle (fst (poll_transmit a1)\<lparr>s_zero := s_zero a\<rparr>) \<and> listening b (fst (poll_transmit a1)) \<and>
      s_pending a1 = (s_pending a)(m \<mapsto> PStart n) \<and> s_events a1 = s_events a \<and> s_channels a1 = s_channels a \<and>
      s_config a1 = s_config a \<and> s_server_name a1 = s_server_name a \<and> s_unacked a1 = s_unacked a \<and>
      ch_recv_window (s_zero a1) = ch_recv_window (s_zero a) \<and> s_outbound a1 \<noteq> []"
proof -
  let ?mg = "MStart (start_new n p)"
  let ?a0 = "a\<lparr>s_next_channel := n + 2, s_half_open := (s_half_open a)(n \<mapsto> p)\<rparr>"
  have idle: "s_state a = Ready" "queue_of ?a0 GREETING_CHANNEL = []" "s_outbound a = []"
    "ch_next_msgno (s_zero ?a0) \<le> MAX_MSG_NO" "\<not> {..MAX_MSG_NO} \<subseteq> ch_outstanding (s_zero ?a0)"
    "ch_number (s_zero ?a0) = GREETING_CHANNEL" "fits ?a0 (to_payload ?mg)"
    using assms(1,3) by (simp_all add: peers_def idle_def queue_of_def listening_def fits_def)
  from request_whole [OF idle(2,7,6,4,5), of "PStart n"] obtain m where m: "m \<le> MAX_MSG_NO" and
    req: "request ?mg (PStart n) ?a0 =
    (?a0\<lparr>s_zero := (s_zero a)\<lparr>ch_next_msgno := next_after m, ch_outstanding := insert m (ch_outstanding (s_zero a)),
         ch_next_seqno := advance (ch_next_seqno (s_zero a)) (of_nat (length (to_payload ?mg)))\<rparr>,
       s_pending := (s_pending a)(m \<mapsto> PStart n),
       s_outbound := encode (DataF (whole_frame Msg (s_zero a) m (to_payload ?mg))) [],
       s_queues := (s_queues a)(GREETING_CHANNEL \<mapsto> [])\<rparr>, Inr ())" (is "_ = (?a1, _)")
    using idle(3) by auto
  let ?f = "whole_frame Msg (s_zero a) m (to_payload ?mg)"
  have start: "start_channel p a = (?a1, Inr n)"
    using idle(1) req by (simp add: start_channel_def require_ready_def assms(2) Let_def)
  have l: "listening a b" "listening b a" and sb: "s_state b \<noteq> AwaitingGreeting" "s_outbound b = []"
    using assms(1) by (simp_all add: peers_def idle_def)
  have len: "length (to_payload ?mg) \<le> unat (writable (s_zero a))" using assms(3) by (simp add: fits_def)
  from deliver_management [OF l(1) sb(1) assms(4) len, of Msg m] idle(6) sb(2) obtain z u seqs where d:
    "handle_frame (DataF ?f) b = dispatch_management Msg m ?mg (b\<lparr>s_zero := z,
        s_unacked := (s_unacked b)(GREETING_CHANNEL \<mapsto> u), s_outbound := on_wire (map SeqF seqs)\<rparr>)"
    "\<forall>q \<in> set seqs. wf_seq q \<and> sf_channel q = GREETING_CHANNEL"
    "z = (s_zero b)\<lparr>ch_recv_window := ch_recv_window z, ch_expected_seqno := ch_expected_seqno z,
           ch_awaiting_reply := ch_awaiting_reply z\<rparr>" by auto
  let ?b1 = "b\<lparr>s_zero := z, s_unacked := (s_unacked b)(GREETING_CHANNEL \<mapsto> u), s_outbound := on_wire (map SeqF seqs),
      s_events := s_events b @ [StartRequested n m (start_new n p)]\<rparr>"
  have "handle_frame (DataF ?f) b = (?b1, Inr ())"
    using d(1) by (simp add: dispatch_management_def start_new_def push_event_def Let_def split: option.split)
  moreover have "wf_data ?f" using wf_whole_frame [OF assms(3), of Msg m] m idle(6) by (simp add: has_ansno_def)
  ultimately have "handle_input (s_outbound ?a1) b = (?b1, Inr ())"
    using handle_input_frames [of "[DataF ?f]" b] l(1) by (simp add: listening_def)
  moreover have ne: "s_outbound ?a1 \<noteq> []" by (simp add: encode_data_eq)
  then have poll: "fst (poll_transmit ?a1) = ?a1\<lparr>s_outbound := []\<rparr>" by (simp add: poll_transmit_def)
  have "listening b (fst (poll_transmit ?a1))"
    using l(2) unfolding poll by (simp add: listening_def at_boundary_def in_step_def)
  moreover have "idle (fst (poll_transmit ?a1)\<lparr>s_zero := s_zero a\<rparr>)"
    using assms(1) unfolding poll by (simp add: idle_def peers_def queue_of_def or_empty_def)
  ultimately show ?thesis
    using start m d(2,3) ne
    by (intro exI [of _ m] exI [of _ ?a1] exI [of _ ?b1] exI [of _ z] exI
        [of _ "(s_unacked b)(GREETING_CHANNEL \<mapsto> u)"] exI [of _ seqs]) simp
qed

lemma start_answered:
  assumes "listening b a" and "queue_of a GREETING_CHANNEL = []" and "s_state a = Ready"
    and "s_pending a m = Some (PStart n)" and "mgmt_ok (MProfile p)" and "fits b (to_payload (MProfile p))"
    and "ch_number (s_zero b) = GREETING_CHANNEL" and "m \<le> MAX_MSG_NO"
    and "\<forall>q \<in> set seqs. wf_seq q \<and> sf_channel q = GREETING_CHANNEL"
  shows "\<exists>a'. handle_input (on_wire (map SeqF seqs @ [DataF (whole_frame Rpy (s_zero b) m (to_payload (MProfile p)))])) a =
        (a', Inr ()) \<and>
      s_events a' = s_events a @ [ChannelOpened n p] \<and> s_pending a' = (s_pending a)(m := None) \<and>
      s_channels a' = (s_channels a)(n \<mapsto> channel_with_window_size n (pr_uri p) (cf_window_size (s_config a))) \<and>
      s_server_name a' = s_server_name a \<and>
      (\<exists>sq. s_outbound a' = s_outbound a @ on_wire (map SeqF sq) \<and>
         (sq = [] \<longleftrightarrow> \<not> due a GREETING_CHANNEL (s_zero a) (of_nat (length (to_payload (MProfile p))))))"
proof -
  let ?f = "whole_frame Rpy (s_zero b) m (to_payload (MProfile p))"
  obtain w where w: "handle_frames (map SeqF seqs) a = (a\<lparr>s_zero := (s_zero a)\<lparr>ch_send_window := w\<rparr>\<rparr>, Inr ())"
    using handle_zero_seqs [OF _ assms(2), of seqs] assms(9) by auto
  let ?a = "a\<lparr>s_zero := (s_zero a)\<lparr>ch_send_window := w\<rparr>\<rparr>"
  have l: "listening b ?a" using assms(1) by (simp add: listening_def at_boundary_def in_step_def)
  have len: "length (to_payload (MProfile p)) \<le> unat (writable (s_zero b))" using assms(6) by (simp add: fits_def)
  from deliver_management [OF l _ assms(5) len assms(7), of Rpy m] assms(3) obtain z u s2 where d:
    "handle_frame (DataF ?f) ?a = dispatch_management Rpy m (MProfile p) (?a\<lparr>s_zero := z,
        s_unacked := (s_unacked ?a)(GREETING_CHANNEL \<mapsto> u), s_outbound := s_outbound ?a @ on_wire (map SeqF s2)\<rparr>)"
    "s2 = [] \<longleftrightarrow> \<not> due ?a GREETING_CHANNEL (s_zero ?a) (of_nat (length (to_payload (MProfile p))))" by auto
  have due: "due ?a GREETING_CHANNEL (s_zero ?a) k = due a GREETING_CHANNEL (s_zero a) k" for k by (simp add: due_def)
  let ?P = "\<lambda>a'. s_events a' = s_events a @ [ChannelOpened n p] \<and> s_pending a' = (s_pending a)(m := None) \<and>
      s_channels a' = (s_channels a)(n \<mapsto> channel_with_window_size n (pr_uri p) (cf_window_size (s_config a))) \<and>
      s_server_name a' = s_server_name a \<and>
      (\<exists>sq. s_outbound a' = s_outbound a @ on_wire (map SeqF sq) \<and>
         (sq = [] \<longleftrightarrow> \<not> due a GREETING_CHANNEL (s_zero a) (of_nat (length (to_payload (MProfile p))))))"
  have "\<exists>a'. handle_frame (DataF ?f) ?a = (a', Inr ()) \<and> ?P a'"
    unfolding d(1) using assms(4) d(2) due
    by (auto simp: dispatch_management_def take_pending_def Let_def push_event_def open_channel_def put_channel_def
        release_zero_def intro!: exI [of _ s2])
  then obtain a' where a': "handle_frame (DataF ?f) ?a = (a', Inr ())" "?P a'" by blast
  have wf: "wf_data ?f" using wf_whole_frame [OF assms(6,7), of Rpy m] assms(8) by (simp add: has_ansno_def)
  have "handle_frames (map SeqF seqs @ [DataF ?f]) a = (a', Inr ())"
    using a'(1) by (simp add: handle_frames_append w del: handle_frame.simps)
  then have "handle_input (on_wire (map SeqF seqs @ [DataF ?f])) a = (a', Inr ())"
    using handle_input_frames [of "map SeqF seqs @ [DataF ?f]" a] assms(1,9) wf by (auto simp: listening_def)
  with a'(2) show ?thesis by blast
qed

lemma channels_in_step:
  "INITIAL_WINDOW_SIZE \<le> wb \<Longrightarrow> in_step (channel_with_window_size n u wa) (channel_with_window_size n u' wb)"
  by (simp add: in_step_def writable_def channel_with_window_size_def remaining_def saturating_sub_def distance_from_def
      word_le_nat_alt)

section \<open>Properties\<close>

text \<open>
  Greetings: when each end's greeting fits one frame and the other end's
  window, feeding the first octets of one new session to another makes the second ready, with
  exactly the peer's greeting recorded and reported, whatever window the peer advertised with
  it, and the greeting is the only event.
\<close>

lemma greetings_exchanged:
  assumes "short_greeting a" and "short_greeting b" and "greeting_ok (cf_greeting a)"
    and "length (greeting_to_payload (cf_greeting a)) \<le> unat (cf_window_size b)" and "cf_window_size b \<le> MAX_FRAME_SIZE"
  shows "\<exists>s. handle_input (s_outbound (session_new a)) (session_new b) = (s, Inr ()) \<and>
    s_state s = Ready \<and> s_peer_greeting s = Some (cf_greeting a) \<and>
    s_events s = [GreetingReceived (cf_greeting a)] \<and> s_channels s = Map.empty"
proof -
  have "s_channels (session_new b) = Map.empty"
    using session_new_short [OF assms(2)] by (auto simp: session_init_def)
  then show ?thesis using greeting_received [OF assms] by auto
qed

lemma sample_greeting_short: "short_greeting (config_new r)"
  by (simp add: short_greeting_def config_new_def chunk_limit_def greeting_to_payload_def greeting_new_def
      INITIAL_WINDOW_SIZE_def CONTENT_TYPE_def BEEP_XML_def limit_defs Let_def clamp_u32_def)

lemma sample_greeting_ok: "greeting_ok (cf_greeting (config_new r))"
  by (simp add: config_new_def greeting_ok_def greeting_new_def)

lemma sample_windows:
  "length (greeting_to_payload (cf_greeting (config_new r))) \<le> unat (cf_window_size (config_new r'))"
  "cf_window_size (config_new r') \<le> MAX_FRAME_SIZE"
  by (simp_all add: config_new_def greeting_to_payload_def greeting_new_def DEFAULT_WINDOW_SIZE_def CONTENT_TYPE_def
      BEEP_XML_def limit_defs Let_def)

text \<open>
  A greeting that does not fit the initial window or the configured frame size is
  written in more than one frame, and a session refuses a greeting that is not one complete
  frame: the peer's first read fails, whatever its configuration.
\<close>

lemma large_greeting_refused:
  assumes "min (unat INITIAL_WINDOW_SIZE) (unat (chunk_limit (cf_max_frame_size a))) <
    length (greeting_to_payload (cf_greeting a))"
  shows "snd (handle_input (s_outbound (session_new a)) (session_new b)) =
    Inl (NotAGreeting ''expected a complete frame'')"
proof -
  let ?i = "session_init a" and ?p = "greeting_to_payload (cf_greeting a)" and ?mfs = "cf_max_frame_size a"
  let ?n = "min (unat (chunk_limit ?mfs)) (unat INITIAL_WINDOW_SIZE)"
  have s: "sendable (s_zero ?i) Rpy 0 None"
    by (simp add: sendable_def zero_new GREETING_CHANNEL_def limit_defs has_ansno_def)
  have w: "writable (s_zero ?i) \<noteq> 0" by (simp add: writable_new INITIAL_WINDOW_SIZE_def)
  let ?cut = "cut_at (s_zero ?i) ?p"
  have cut: "?cut = min (unat INITIAL_WINDOW_SIZE) (length ?p)" by (simp add: cut_at_def writable_new)
  have ne: "take ?cut ?p \<noteq> []" using greeting_to_payload_ne by (simp add: cut INITIAL_WINDOW_SIZE_def)
  let ?f = "\<lparr>df_kind = Rpy, df_channel = GREETING_CHANNEL, df_msgno = 0, df_more = True, df_seqno = 0, df_ansno = None,
      df_payload = take (unat (chunk_limit ?mfs)) (take ?cut ?p)\<rparr>"
  have more: "drop (unat (chunk_limit ?mfs)) (take ?cut ?p) \<noteq> [] \<or> drop ?cut ?p \<noteq> []"
    using assms by (auto simp: cut min_def not_less split: if_splits)
  obtain c em fs where em: "emit (s_zero ?i) Rpy 0 None ?p ?mfs = (c, Inr em)" and fs: "em_frames em = ?f # fs"
    using emit_data [OF s greeting_to_payload_ne w, where mfs = ?mfs] more
    by (simp add: fragments_Cons [OF ne chunk_limit_pos] zero_new del: drop_eq_Nil)
  let ?q = "\<lparr>q_kind = Rpy, q_msgno = 0, q_ansno = None, q_payload = ?p\<rparr>"
  have out: "\<exists>rest. fst (snd (fst (flush_loop ?mfs (s_zero ?i) [] [?q]))) = encode_data ?f [] @ rest"
    using em fs w by (auto simp: is_stalled_def Let_def foldl_encode)
  obtain c' out' q' r where l: "flush_loop ?mfs (s_zero ?i) [] [?q] = ((c', out', q'), r)" by (metis prod.collapse)
  from out l obtain rest where "out' = encode_data ?f [] @ rest" by auto
  with l have "s_outbound (fst (session_greet a)) = encode_data ?f [] @ rest"
    by (simp add: session_greet_def flush_def enqueue_def zero_new or_empty_def del: flush_loop.simps)
  then obtain rest' where o: "s_outbound (session_new a) = encode (DataF ?f) [] @ rest'"
    using advertised [of "fst (session_greet a)"] by (auto simp: session_new_def)
  have "wf_data ?f"
    using chunk_limit_le [of ?mfs] by (simp add: wf_data_def GREETING_CHANNEL_def has_ansno_def limit_defs)
  moreover have "s_state (session_new b) = AwaitingGreeting"
    using books_session_new [of b] by (metis books_select(2) zero_new(10))
  then have "handle_frame (DataF ?f) (session_new b) =
      (session_new b, Inl (NotAGreeting ''expected a complete frame''))"
    by (simp add: handle_data_def handle_channel_zero_def greeting_from_frame_def)
  ultimately show ?thesis
    unfolding o by (intro handle_input_refused [OF _ session_new_boundary]) simp_all
qed

text \<open>
  C1 (functional). Opening a channel, end to end. Between two greeted sessions with nothing in
  flight, a start that the other end accepts goes through in one round trip: the octets the
  first writes make the second report exactly that request under the number it was sent with,
  the octets of its acceptance make the first report the channel open with the profile chosen,
  the request is settled, and both ends then hold the channel under the same number and
  profile with each end in step to send to the other.
\<close>

theorem channel_opened:
  assumes "peers a b" and "n = s_next_channel a"
    and "fits a (to_payload (MStart (start_new n p)))" and "mgmt_ok (MStart (start_new n p))"
    and "fits b (to_payload (MProfile chosen))" and "mgmt_ok (MProfile chosen)"
    and "n \<noteq> GREETING_CHANNEL" and "\<not> owns (cf_role (s_config b)) n" and "s_channels b n = None"
    and "INITIAL_WINDOW_SIZE \<le> cf_window_size (s_config a)" and "INITIAL_WINDOW_SIZE \<le> cf_window_size (s_config b)"
  shows "\<exists>a1 b1 b2 a2 m ca cb. start_channel p a = (a1, Inr n) \<and>
      handle_input (s_outbound a1) b = (b1, Inr ()) \<and>
      s_events b1 = s_events b @ [StartRequested n m (start_new n p)] \<and>
      accept_start n m chosen b1 = (b2, Inr ()) \<and>
      handle_input (s_outbound b2) (fst (poll_transmit a1)) = (a2, Inr ()) \<and>
      s_events a2 = s_events a @ [ChannelOpened n chosen] \<and> s_pending a2 = (s_pending a)(m := None) \<and>
      s_channels a2 = (s_channels a)(n \<mapsto> ca) \<and> s_channels b2 = (s_channels b)(n \<mapsto> cb) \<and>
      ch_profile ca = pr_uri chosen \<and> ch_profile cb = pr_uri chosen \<and> in_step ca cb \<and> in_step cb ca"
proof -
  let ?ca = "channel_with_window_size n (pr_uri chosen) (cf_window_size (s_config a))"
  let ?cb = "channel_with_window_size n (pr_uri chosen) (cf_window_size (s_config b))"
  from start_asked [OF assms(1-4)] obtain m a1 b1 z u seqs where st: "start_channel p a = (a1, Inr n)" "m \<le> MAX_MSG_NO"
    "handle_input (s_outbound a1) b = (b1, Inr ())" and
    b1: "b1 = b\<lparr>s_zero := z, s_unacked := u, s_outbound := on_wire (map SeqF seqs),
             s_events := s_events b @ [StartRequested n m (start_new n p)]\<rparr>" and
    z: "z = (s_zero b)\<lparr>ch_recv_window := ch_recv_window z, ch_expected_seqno := ch_expected_seqno z,
             ch_awaiting_reply := ch_awaiting_reply z\<rparr>" and
    seqs: "\<forall>q \<in> set seqs. wf_seq q \<and> sf_channel q = GREETING_CHANNEL" and
    a1: "idle (fst (poll_transmit a1)\<lparr>s_zero := s_zero a\<rparr>)" "listening b (fst (poll_transmit a1))"
      "s_pending a1 = (s_pending a)(m \<mapsto> PStart n)" "s_events a1 = s_events a" "s_channels a1 = s_channels a"
      "s_config a1 = s_config a" by metis
  let ?a1 = "fst (poll_transmit a1)" and ?b1 = "open_channel n (pr_uri chosen) b1"
  have nb: "ch_number (s_zero b) = GREETING_CHANNEL" using assms(1) by (simp add: peers_def listening_def)
  have zs: "ch_number z = ch_number (s_zero b)" "ch_next_seqno z = ch_next_seqno (s_zero b)"
    "ch_send_window z = ch_send_window (s_zero b)" by (subst z, simp)+
  have b1o: "s_zero ?b1 = z" "s_outbound ?b1 = on_wire (map SeqF seqs)" "s_queues ?b1 = s_queues b" "s_config ?b1 = s_config b"
    "s_channels ?b1 = (s_channels b)(n \<mapsto> ?cb)"
    by (simp_all add: b1 open_channel_def put_channel_def)
  have "queue_of ?b1 GREETING_CHANNEL = []" "fits ?b1 (to_payload (MProfile chosen))"
    using assms(1,5) by (simp_all add: peers_def idle_def queue_of_def fits_def writable_def b1o zs)
  from reply_whole [OF this, of Rpy m] st(2) nb obtain b2 where rep: "reply Rpy m (MProfile chosen) ?b1 = (b2, Inr ())"
    "s_outbound b2 = on_wire (map SeqF seqs) @ encode (DataF (whole_frame Rpy z m (to_payload (MProfile chosen)))) []"
    "s_channels b2 = (s_channels b)(n \<mapsto> ?cb)" by (simp add: b1o zs)
  have wz: "whole_frame Rpy z m x = whole_frame Rpy (s_zero b) m x" for x by (simp add: whole_frame_def zs)
  have acc: "accept_start n m chosen b1 = (b2, Inr ())"
    using assms(7-9) rep(1) by (simp add: accept_start_def b1)
  have po: "queue_of ?a1 GREETING_CHANNEL = []" "s_state ?a1 = Ready" "s_pending ?a1 m = Some (PStart n)"
    "s_pending ?a1 = s_pending a1" "s_events ?a1 = s_events a1" "s_channels ?a1 = s_channels a1" "s_config ?a1 = s_config a1"
    using a1(1,3) by (simp_all add: idle_def poll_transmit_def queue_of_def)
  from start_answered [OF a1(2) po(1-3) assms(6,5) nb st(2) seqs] obtain a2 where a2:
    "handle_input (s_outbound b2) ?a1 = (a2, Inr ())" "s_events a2 = s_events ?a1 @ [ChannelOpened n chosen]"
    "s_pending a2 = (s_pending ?a1)(m := None)"
    "s_channels a2 = (s_channels ?a1)(n \<mapsto> channel_with_window_size n (pr_uri chosen) (cf_window_size (s_config ?a1)))"
    by (auto simp: rep(2) wz)
  have pr: "ch_profile ?ca = pr_uri chosen" "ch_profile ?cb = pr_uri chosen" by (simp_all add: channel_with_window_size_def)
  show ?thesis
    using st(1,3) acc a2 po a1(3-6) rep(3) pr channels_in_step [OF assms(11)] channels_in_step [OF assms(10)]
    by (intro exI [of _ a1] exI [of _ b1] exI [of _ b2] exI [of _ a2] exI [of _ m] exI [of _ ?ca] exI [of _ ?cb])
      (simp add: b1)
qed

definition ready_session :: "role \<Rightarrow> session" where
  "ready_session r = (session_init (config_new r))\<lparr>s_state := Ready\<rparr>"

lemma ready_sessions_peers: "peers (ready_session r) (ready_session r')"
proof -
  have "\<not> {..MAX_MSG_NO} \<subseteq> ({} :: u32 set)" by (auto simp: limit_defs)
  then have "idle (ready_session r)" for r
    by (simp add: idle_def ready_session_def session_init_def channel_with_window_size_def queue_of_def or_empty_def limit_defs)
  moreover have "listening (ready_session r) (ready_session r')" for r r'
    by (simp add: listening_def ready_session_def at_boundary_def session_init_def in_step_def writable_def remaining_def
        channel_with_window_size_def saturating_sub_def distance_from_def config_new_def INITIAL_WINDOW_SIZE_def
        DEFAULT_WINDOW_SIZE_def limit_defs)
  ultimately show ?thesis by (simp add: peers_def)
qed

lemma sample_lengths:
  "length (to_payload (MStart (start_new 1 (profile_new ''p'')))) \<le> 300"
  "length (to_payload (MProfile (profile_new ''p''))) \<le> 300"
  by code_simp+

lemma sample_fits:
  "fits (ready_session r) (to_payload (MStart (start_new 1 (profile_new ''p''))))"
  "fits (ready_session r) (to_payload (MProfile (profile_new ''p'')))"
  using sample_lengths
  by (simp_all add: fits_def ready_session_def writable_new to_payload_ne INITIAL_WINDOW_SIZE_def zero_new config_new_def
      chunk_limit_def clamp_u32_def limit_defs)

theorem channel_opened_witness:
  "\<exists>a1 b1 b2 a2 m. start_channel (profile_new ''p'') (ready_session Initiator) = (a1, Inr 1) \<and>
      handle_input (s_outbound a1) (ready_session Listener) = (b1, Inr ()) \<and>
      accept_start 1 m (profile_new ''p'') b1 = (b2, Inr ()) \<and>
      handle_input (s_outbound b2) (fst (poll_transmit a1)) = (a2, Inr ()) \<and>
      s_events a2 = s_events (ready_session Initiator) @ [ChannelOpened 1 (profile_new ''p'')]"
proof -
  have n: "1 = s_next_channel (ready_session Initiator)"
    by (simp add: ready_session_def session_init_def config_new_def)
  have ok: "mgmt_ok (MStart (start_new 1 (profile_new ''p'')))" "mgmt_ok (MProfile (profile_new ''p''))"
    by (simp_all add: start_new_def profile_new_def profile_ok_def octet_in_def)
  have r: "(1 :: u32) \<noteq> GREETING_CHANNEL" "\<not> owns (cf_role (s_config (ready_session Listener))) 1"
    "s_channels (ready_session Listener) 1 = None"
    "INITIAL_WINDOW_SIZE \<le> cf_window_size (s_config (ready_session r))" for r
    by (simp_all add: GREETING_CHANNEL_def ready_session_def session_init_def config_new_def INITIAL_WINDOW_SIZE_def
        DEFAULT_WINDOW_SIZE_def)
  show ?thesis
    using channel_opened [OF ready_sessions_peers n sample_fits(1) ok(1) sample_fits(2) ok(2) r(1-3) r(4) r(4)] by blast
qed

text \<open>
  What acknowledging writes: nothing or one SEQ frame for the channel, and a peer that knew the
  receive window before it knows the one after it once it has applied what was written.
\<close>

lemma acknowledge_expected:
  assumes "acknowledge n k s = (s', Inr ())" and "channel_of s n = Some c" and "channel_of s' n = Some c'"
  shows "ch_expected_seqno c' = ch_expected_seqno c"
  using acknowledge_cases [OF assms(1,2)] assms(3) by cases auto

lemma acknowledge_written:
  assumes "acknowledge n k s = (s', Inr ())" and "channel_of s n = Some c"
    and "ch_send_window p = ch_recv_window c"
  shows "\<exists>c' sq. channel_of s' n = Some c' \<and> length sq \<le> 1 \<and> (\<forall>q \<in> set sq. sf_channel q = ch_number c) \<and>
    s_outbound s' = s_outbound s @ concat (map (\<lambda>q. encode_seq q []) sq) \<and>
    ch_send_window (foldl apply_seq p sq) = ch_recv_window c' \<and>
    ch_next_seqno (foldl apply_seq p sq) = ch_next_seqno p"
proof -
  let ?k = "saturating_add (case s_unacked s n of None \<Rightarrow> 0 | Some n \<Rightarrow> n) k"
  let ?t = "clamp_u32 (w_size (ch_recv_window c) div 2) 1 (INITIAL_WINDOW_SIZE div 2)"
  show ?thesis
  proof (cases "?k \<ge> ?t")
    case False
    with assms(1,2) have "s' = s\<lparr>s_unacked := (s_unacked s)(n \<mapsto> ?k)\<rparr>"
      by (simp add: acknowledge_def Let_def)
    with assms(2,3) show ?thesis
      by (intro exI [of _ c] exI [of _ "[]"]) (auto simp: channel_of_def split: if_splits)
  next
    case True
    with assms(1,2) obtain c1 seq where cons: "consume c ?k = (c1, Inr seq)"
      and s': "channel_of s' n = Some c1" "s_outbound s' = encode_seq seq (s_outbound s)"
      by (auto simp: acknowledge_def Let_def channel_of_def store_channel_def put_channel_def GREETING_CHANNEL_def
          split: prod.splits sum.splits if_splits)
    from cons have "c1 = c\<lparr>ch_recv_window := consumed (ch_recv_window c) ?k\<rparr>"
      "seq = \<lparr>sf_channel = ch_number c, sf_ackno = advance (w_base (ch_recv_window c)) ?k,
          sf_window = w_size (ch_recv_window c)\<rparr>" by (simp_all add: consume_Inr)
    with s' show ?thesis
      by (intro exI [of _ c1] exI [of _ "[seq]"])
        (simp add: encode_seq_eq apply_seq_def updated_def consumed_def)
  qed
qed


definition open_session :: session where
  "open_session = fst (accept_start 1 0 (profile_new ''p'') (session_new (config_new Listener)))"

lemma open_session_simps:
  "reachable (config_new Listener) open_session"
  "s_channels open_session 1 = Some (channel_with_window_size 1 ''p'' 32768)" "s_unacked open_session = Map.empty"
proof -
  have flush0: "s_channels (fst (flush GREETING_CHANNEL s)) = s_channels s" "s_unacked (fst (flush GREETING_CHANNEL s)) = s_unacked s" for s
    by (auto simp: flush_def split: option.split prod.split)
  have b: "s_channels (session_new (config_new Listener)) = Map.empty" "s_unacked (session_new (config_new Listener)) = Map.empty"
    "s_config (session_new (config_new Listener)) = config_new Listener"
    using session_new_short [OF sample_greeting_short, of Listener] by (auto simp: session_init_def)
  have cfg: "cf_role (config_new Listener) = Listener" "cf_window_size (config_new Listener) = 32768"
    by (simp_all add: config_new_def DEFAULT_WINDOW_SIZE_def)
  have one: "(1 :: u32) \<noteq> GREETING_CHANNEL" by (simp add: GREETING_CHANNEL_def)
  obtain r where "accept_start 1 0 (profile_new ''p'') (session_new (config_new Listener)) = (open_session, r)"
    unfolding open_session_def by (metis prod.collapse)
  then show "reachable (config_new Listener) open_session"
    using reachable.performed [OF reachable.created, of "AcceptStart 1 0 (profile_new ''p'')" "config_new Listener" open_session r] by simp
  show "s_channels open_session 1 = Some (channel_with_window_size 1 ''p'' 32768)" "s_unacked open_session = Map.empty"
    using cfg one
    by (simp_all add: open_session_def accept_start_def b reply_def write_zero_def flush0 enqueue_def open_channel_def
        put_channel_def profile_new_def)
qed


text \<open>
  C7 (safety). A channel number is never given out twice. While the numbers of its parity
  last, the number \<open>start_channel\<close> returns belongs to this end's role, is not open and is not
  the subject of a start still unanswered, so it can collide neither with a channel of this
  end nor with one the peer started.
\<close>

theorem start_channel_fresh:
  assumes "reachable cfg s" and "unat (s_next_channel s) + 2 < 2 ^ 32" and "start_channel p s = (s', Inr n)"
  shows "owns (cf_role (s_config s)) n \<and> s_channels s n = None \<and>
    (\<forall>m. s_pending s m \<noteq> Some (PStart n)) \<and> (\<exists>m. s_pending s' m = Some (PStart n)) \<and>
    s_next_channel s' = n + 2 \<and> s_half_open s' n = Some p"
proof -
  have wf: "wf_numbers (books_of s)" using reachable_wf [OF assms(1)] by (simp add: wf_books_def)
  let ?s = "s\<lparr>s_next_channel := s_next_channel s + 2, s_half_open := (s_half_open s)(s_next_channel s \<mapsto> p)\<rparr>"
  from assms(3) have n: "n = s_next_channel s"
    and req: "request (MStart (start_new n p)) (PStart n) ?s = (s', Inr ())"
    by (auto simp: start_channel_def Let_def bind_st_Inr_iff split: sum.splits)
  have "own_parity (cf_role (s_config s)) n \<and> n \<noteq> 0" using wf n by (simp add: wf_numbers_def books_select)
  then have "owns (cf_role (s_config s)) n" by (cases "cf_role (s_config s)") (simp_all add: own_parity_def)
  moreover have "s_channels s n = None" "\<forall>m. s_pending s m \<noteq> Some (PStart n)"
    using wf n by (auto simp: wf_numbers_def books_of_def)
  moreover obtain m where "snd (allocate_msgno (s_zero ?s)) = Inr m"
    using req by (auto simp: request_def split: prod.splits sum.splits)
  with req have "books_of s' = (books_of ?s)\<lparr>b_pending := (b_pending (books_of ?s))(m \<mapsto> PStart n)\<rparr>"
    using books_request [of "MStart (start_new n p)" "PStart n" ?s] by simp
  then have "s_pending s' = (s_pending s)(m \<mapsto> PStart n)" "s_next_channel s' = n + 2"
    using n by (simp_all add: books_of_def)
  then have "s_pending s' m = Some (PStart n)" "s_next_channel s' = n + 2" by simp_all
  moreover have "s_half_open s' = s_half_open ?s"
    using req by (auto simp: request_def write_zero_def flush_def enqueue_def put_channel_def
        split: prod.splits sum.splits option.splits if_splits)
  ultimately show ?thesis using n by auto
qed

text \<open>A listener that has read an initiator's greeting, both with the initial window.\<close>

definition small_config :: "role \<Rightarrow> config" where
  "small_config r = config_with_window_size (config_new r) 4096"

lemma small_config_simps:
  "cf_greeting (small_config r) = greeting_new" "cf_window_size (small_config r) = 4096"
  "cf_max_frame_size (small_config r) = 4096" "cf_role (small_config r) = r"
  by (simp_all add: small_config_def config_with_window_size_def config_new_def INITIAL_WINDOW_SIZE_def)

lemma length_greeting_new: "length (greeting_to_payload greeting_new) \<le> 300"
  by code_simp

lemma greeted_listener:
  "\<exists>s. reachable (small_config Listener) s \<and> s_state s = Ready \<and> s_next_channel s = 2 \<and>
     (\<exists>s'. start_channel (profile_new ''p'') s = (s', Inr 2))"
proof -
  let ?a = "small_config Initiator" and ?b = "small_config Listener"
  have short: "short_greeting (small_config r)" for r
    using length_greeting_new
    by (simp add: short_greeting_def small_config_simps chunk_limit_def clamp_u32_def INITIAL_WINDOW_SIZE_def limit_defs)
  have ok: "greeting_ok (cf_greeting ?a)" by (simp add: small_config_simps greeting_ok_def greeting_new_def)
  have win: "length (greeting_to_payload (cf_greeting ?a)) \<le> unat (cf_window_size ?b)" "cf_window_size ?b \<le> MAX_FRAME_SIZE"
    using length_greeting_new by (simp_all add: small_config_simps limit_defs)
  from greeting_received [OF short short ok win] obtain z u seqs s where
    s: "handle_input (s_outbound (session_new ?a)) (session_new ?b) = (s, Inr ())" and
    sz: "s = (session_new ?b)\<lparr>s_zero := z, s_unacked := [GREETING_CHANNEL \<mapsto> u], s_peer_greeting := Some (cf_greeting ?a),
         s_state := Ready, s_events := [GreetingReceived (cf_greeting ?a)],
         s_outbound := s_outbound (session_new ?b) @ on_wire (map SeqF seqs)\<rparr>" and
    z: "ch_send_window z = window_new 0 INITIAL_WINDOW_SIZE" "ch_number z = GREETING_CHANNEL" "ch_next_msgno z = 0"
      "ch_outstanding z = {}" "ch_next_seqno z = of_nat (length (greeting_to_payload greeting_new))"
    by (auto simp: small_config_simps INITIAL_WINDOW_SIZE_def)
  have reach: "reachable ?b s"
    by (rule reachable.performed [OF reachable.created, where opn = "Input (s_outbound (session_new ?a))"]) (use s in simp_all)
  have nb: "s_next_channel (session_new ?b) = 2" "s_config (session_new ?b) = ?b" "queue_of (session_new ?b) GREETING_CHANNEL = []"
    using session_new_short [OF short, of Listener]
    by (auto simp: session_init_def small_config_simps queue_of_def or_empty_def)
  let ?mg = "MStart (start_new 2 (profile_new ''p''))"
  let ?s = "s\<lparr>s_next_channel := 4, s_half_open := (s_half_open s)(2 \<mapsto> profile_new ''p'')\<rparr>"
  have len: "length (to_payload ?mg) \<le> 300" by code_simp
  have "unat (writable z) = 4096 - length (greeting_to_payload greeting_new)"
    using length_greeting_new
    by (simp add: writable_def unat_remaining z distance_from_def unat_of_nat_u32 INITIAL_WINDOW_SIZE_def)
  then have "fits ?s (to_payload ?mg)"
    using len length_greeting_new
    by (simp add: fits_def sz nb small_config_simps chunk_limit_def clamp_u32_def limit_defs to_payload_ne)
  moreover have "queue_of ?s GREETING_CHANNEL = []" using nb(3) by (simp add: sz queue_of_def)
  moreover have "\<not> {..MAX_MSG_NO} \<subseteq> ({} :: u32 set)" by (auto simp: limit_defs)
  ultimately obtain m s' where "request ?mg (PStart 2) ?s = (s', Inr ())"
    using request_whole [of ?s ?mg "PStart 2"] z by (auto simp: sz limit_defs)
  then have "start_channel (profile_new ''p'') s = (s', Inr 2)"
    using nb(1) by (simp add: start_channel_def require_ready_def sz Let_def)
  with reach nb(1) show ?thesis by (intro exI [of _ s]) (auto simp: sz)
qed

theorem start_channel_fresh_witness:
  "\<exists>s s'. reachable (small_config Listener) s \<and> start_channel (profile_new ''p'') s = (s', Inr 2) \<and>
     owns (cf_role (s_config s)) 2 \<and> s_channels s 2 = None \<and> s_half_open s' 2 = Some (profile_new ''p'')"
proof -
  obtain s s' where s: "reachable (small_config Listener) s" "s_next_channel s = 2"
    "start_channel (profile_new ''p'') s = (s', Inr 2)" using greeted_listener by blast
  have "unat (s_next_channel s) + 2 < 2 ^ 32" by (simp add: s(2))
  from start_channel_fresh [OF s(1) this s(3)] s show ?thesis by blast
qed

end
