(* ===== verification/DriverWire.thy ===== *)
theory DriverWire
  imports DriverRuns SessionHistory SessionFields Handshake "HOL-Library.Sublist"
begin

text \<open>
  What a driver's transport gets: the octets its session yields, in order, and nothing at all
  between accepting an upgrade and carrying it out.
\<close>

section \<open>Sessions between inputs\<close>

text \<open>What every operation but reading keeps: the input, and the output so far.\<close>

definition calm :: "session \<Rightarrow> session \<Rightarrow> bool" where
  "calm s s' \<longleftrightarrow> s_inbound s' = s_inbound s \<and> prefix (s_outbound s) (s_outbound s')"

lemma calmI: "(s_decoder s', s_inbound s') = (s_decoder s, s_inbound s) \<Longrightarrow> moves_on s s' \<Longrightarrow> calm s s'"
  by (auto simp: calm_def moves_on_def prefix_def)

lemma calm_operations:
  "calm s (fst (start_channel prof s))" "calm s (fst (close_channel n s))" "calm s (fst (send_msg n p s))"
  "calm s (fst (send n k m a p s))" "calm s (fst (set_window_size n sz s))" "calm s (set_authenticated i s)"
  "calm s (fst (refuse_start m err s))" "calm s (fst (accept_start n m prof s))" "calm s (fst (accept_close n m s))"
proof -
  have moves: "moves_on s (fst (set_window_size n sz s))" "moves_on s (set_authenticated i s)"
    "moves_on s (fst (refuse_start m err s))" "moves_on s (fst (accept_start n m prof s))"
    by (auto simp: set_window_size_def set_authenticated_def refuse_start_def accept_start_def split: option.split)
  show "calm s (fst (start_channel prof s))" by (rule calmI [OF input.management(1) moves_on_start_channel])
  show "calm s (fst (close_channel n s))" by (rule calmI [OF input.management(2) moves_on_close_channel])
  show "calm s (fst (send_msg n p s))" by (rule calmI [OF input.send_msg moves_on_send_msg])
  show "calm s (fst (send n k m a p s))" by (rule calmI [OF input.send]) simp
  show "calm s (fst (set_window_size n sz s))" by (rule calmI [OF input.set_window_size moves(1)])
  show "calm s (set_authenticated i s)" by (rule calmI [OF _ moves(2)]) (simp add: set_authenticated_def)
  show "calm s (fst (refuse_start m err s))" by (rule calmI [OF input.management(3) moves(3)])
  show "calm s (fst (accept_start n m prof s))" by (rule calmI [OF input.management(4) moves(4)])
  show "calm s (fst (accept_close n m s))" by (rule calmI [OF input.management(5) moves_on_accept_close])
qed

lemma calm_results:
  "start_channel prof s = (s', r) \<Longrightarrow> calm s s'" "close_channel n s = (s', q) \<Longrightarrow> calm s s'"
  "send_msg n p s = (s', r) \<Longrightarrow> calm s s'" "send n k m a p s = (s', q) \<Longrightarrow> calm s s'"
  "set_window_size n sz s = (s', q) \<Longrightarrow> calm s s'" "accept_start n m prof s = (s', q) \<Longrightarrow> calm s s'"
  using calm_operations [of s] by (metis fst_conv)+

section \<open>The driver between upgrades\<close>

definition wire :: "'w driver \<Rightarrow> bytes" where
  "wire d = dr_io d @ dr_out d @ s_outbound (dr_session d)"

fun replaced_in :: "'w effect list \<Rightarrow> bytes list" where
  "replaced_in [] = []"
| "replaced_in (Replaced octets # es) = octets # replaced_in es"
| "replaced_in (_ # es) = replaced_in es"

lemma replaced_append [simp]: "replaced_in (es @ fs) = replaced_in es @ replaced_in fs"
  by (induction es rule: replaced_in.induct) simp_all

definition onward :: "'w driver \<Rightarrow> 'w driver \<Rightarrow> bool" where
  "onward d d' \<longleftrightarrow> replaced_in (dr_effects d') = replaced_in (dr_effects d) \<and> prefix (wire d) (wire d') \<and>
     (dr_awaiting_upgrade d \<longrightarrow> dr_awaiting_upgrade d' \<and> dr_io d' = dr_io d \<and>
        s_inbound (dr_session d') = s_inbound (dr_session d))"

lemma onward_refl [simp]: "onward d d"
  by (simp add: onward_def)

lemma onward_trans: "onward d1 d2 \<Longrightarrow> onward d2 d3 \<Longrightarrow> onward d1 d3"
  by (auto simp: onward_def intro: prefix_order.trans)

text \<open>A change of the session that is calm, and changes of what the wire does not depend on.\<close>

lemma onward_session: "onward d d' \<Longrightarrow> calm (dr_session d') s \<Longrightarrow> onward d (with_session s d')"
  by (auto simp: onward_def with_session_def wire_def calm_def intro: prefix_order.trans)

lemma onward_tell [simp]:
  "onward d (tell c a d') = onward d d'" "onward d (drop_sender o' d') = onward d d'"
  "onward d (cause (OpenTask ch h) d') = onward d d'" "onward d (cause (MessageTask ch h m) d') = onward d d'"
  "onward d (cause (Inbox ch m) d') = onward d d'" "onward d (cause (Discarded ch m) d') = onward d d'"
  by (auto simp: onward_def tell_def cause_def drop_sender_def wire_def split: option.split)

lemma onward_fields [simp]:
  "onward d (d'\<lparr>dr_opens := os\<rparr>) = onward d d'" "onward d (d'\<lparr>dr_closes := cs\<rparr>) = onward d d'"
  "onward d (d'\<lparr>dr_session_close := sc\<rparr>) = onward d d'" "onward d (d'\<lparr>dr_requests := rs\<rparr>) = onward d d'"
  "onward d (d'\<lparr>dr_inbound := ib\<rparr>) = onward d d'" "onward d (d'\<lparr>dr_served := sv\<rparr>) = onward d d'"
  "onward d (d'\<lparr>dr_world := w\<rparr>) = onward d d'" "onward d (d'\<lparr>dr_ready := rd\<rparr>) = onward d d'"
  by (simp_all add: onward_def wire_def)

lemma onward_awaiting:
  "onward d d' \<Longrightarrow> dr_awaiting_upgrade d \<longrightarrow> u \<Longrightarrow> onward d (d'\<lparr>dr_awaiting_upgrade := u\<rparr>)"
  by (auto simp: onward_def wire_def)

lemma onward_calm: "calm (dr_session d) s \<Longrightarrow> onward d (with_session s d)"
  by (rule onward_session) simp_all

lemma onward_apply: "onward d (apply_command cmd d)"
  by (cases cmd) (auto simp: calm_operations dest: calm_results intro!: onward_calm split: prod.split sum.split)

lemma onward_start_requested: "onward d (start_requested alive ch m st d)"
  by (auto simp: start_requested_def Let_def calm_operations dest: calm_results intro!: onward_calm onward_awaiting
      split: option.split prod.split sum.split)

lemma onward_deliver: "onward d (deliver alive ch m d)"
  by (auto simp: deliver_def to_inbox_def answer_request_def Let_def split: option.split frame_kind.split)

lemma onward_handle_event: "onward d (handle_event alive e d)"
  by (cases e) (auto simp: calm_operations onward_start_requested onward_deliver Let_def intro!: onward_calm split: option.split)

lemma onward_handle_events: "onward d (handle_events alive d)"
proof (induction alive d rule: handle_events.induct)
  case (1 alive d)
  show ?case
  proof (cases "s_events (dr_session d)")
    case Nil
    then show ?thesis by (subst handle_events.simps) (simp add: poll_event_def)
  next
    case (Cons e es)
    let ?d = "with_session ((dr_session d)\<lparr>s_events := es\<rparr>) d"
    have p: "poll_event (dr_session d) = ((dr_session d)\<lparr>s_events := es\<rparr>, Some e)" using Cons by (simp add: poll_event_def)
    have "onward d ?d" by (rule onward_calm) (simp add: calm_def)
    also have "onward ?d (handle_event (alive e) e ?d)" by (rule onward_handle_event)
    finally (onward_trans) have "onward d (handle_event (alive e) e ?d)" .
    with 1 [OF p [symmetric] refl] p show ?thesis by (subst handle_events.simps) (auto intro: onward_trans)
  qed
qed

lemma onward_transmit: "onward d (transmit d)"
  by (auto simp: transmit_def poll_transmit_def onward_def wire_def)

lemma onward_settle: "onward d (settle alive d)"
proof (induction alive d rule: settle.induct)
  case (1 alive d)
  have "onward d (handle_events alive (transmit d))"
    using onward_transmit onward_handle_events by (rule onward_trans)
  with 1 show ?case by (subst settle.simps) (auto intro: onward_trans)
qed

lemma onward_inbox: "onward d (inbox_taken ch d)" "onward d (inbox_dropped ch d)"
  by (auto simp: inbox_taken_def inbox_dropped_def split: option.split)

section \<open>The swap\<close>

definition written_out :: "'w driver \<Rightarrow> session \<Rightarrow> bytes" where
  "written_out d s = dr_io d @ dr_out d @ s_outbound s"

lemma transmit_out:
  "dr_io (transmit d) = dr_io d" "dr_out (transmit d) = dr_out d @ s_outbound (dr_session d)"
  "dr_effects (transmit d) = dr_effects d" "s_server_name (dr_session (transmit d)) = s_server_name (dr_session d)"
  "s_outbound (dr_session (transmit d)) = []"
  by (auto simp: transmit_def poll_transmit_def)

lemma replaced_map [simp]:
  "replaced_in (map (\<lambda>(_, c). Answered c a) t) = []" "replaced_in (map (\<lambda>(_, pq). Answered (pq_reply pq) a) r) = []"
  by (induction t) (auto, induction r, auto)

lemma replaced_farewells [simp]: "replaced_in (farewells d) = []"
  by (simp add: farewells_def split: option.split)

lemma renewed_effects:
  "replaced_in (dr_effects (renew cfg c d)) = replaced_in (dr_effects d) @ [dr_io d]"
  "answered_callers (dr_effects (renew cfg c d)) = answered_callers (dr_effects d) + waiting_callers d"
  by (auto simp: renew_def Let_def shutdown_def farewells_def drop_sender_def tell_def cause_def waiting_callers_def split: option.split)

lemma upgrade_swapped:
  "last_words lr (dr_session d) = (s, Inr ()) \<Longrightarrow>
     upgrade lr cfg c Swapped d = (renew cfg c (write_out (transmit (with_session s d))), None)"
  by (simp add: upgrade_def)

lemma upgrade_succeeds:
  assumes "upgrade lr cfg c sw d = (d', None)"
  shows "\<exists>s. last_words lr (dr_session d) = (s, Inr ()) \<and> sw = Swapped"
  using assms by (auto simp: upgrade_def Let_def split: prod.splits sum.splits swap_result.splits)

lemma with_session_out [simp]:
  "dr_io (with_session s d) = dr_io d" "dr_out (with_session s d) = dr_out d" "dr_effects (with_session s d) = dr_effects d"
  by (simp_all add: with_session_def)

lemma upgrade_replaces:
  assumes "upgrade lr cfg c sw d = (d', None)"
  shows "\<exists>s. last_words lr (dr_session d) = (s, Inr ()) \<and>
    replaced_in (dr_effects d') = replaced_in (dr_effects d) @ [written_out d s]"
proof -
  from upgrade_succeeds [OF assms] obtain s where s: "last_words lr (dr_session d) = (s, Inr ())" and sw: "sw = Swapped" by blast
  from assms have "d' = renew cfg c (write_out (transmit (with_session s d)))" unfolding sw by (simp add: upgrade_swapped [OF s])
  with s show ?thesis by (auto simp: renewed_effects write_out_def transmit_out written_out_def)
qed

lemma last_words_calm: "last_words lr s = (s', r) \<Longrightarrow> calm s s'"
  by (auto simp: last_words_def calm_def split: option.splits dest: calm_results)

lemma take_turn_onward:
  assumes "possible d t" and "take_turn t d = (d', None)"
  shows "onward d d' \<or> (\<exists>octets. replaced_in (dr_effects d') = replaced_in (dr_effects d) @ [octets] \<and> prefix (wire d) octets)"
proof (cases t)
  case (Received cmd sw)
  show ?thesis
  proof (cases "\<exists>lr cfg c. cmd = Upgrade lr cfg c")
    case True
    then obtain lr cfg c where "upgrade lr cfg c sw d = (d', None)" using assms(2) Received by (auto simp: dispatch_def)
    from upgrade_replaces [OF this] obtain s where "last_words lr (dr_session d) = (s, Inr ())"
      "replaced_in (dr_effects d') = replaced_in (dr_effects d) @ [written_out d s]" by blast
    moreover from this(1) have "prefix (wire d) (written_out d s)"
      by (auto simp: written_out_def wire_def calm_def dest: last_words_calm)
    ultimately show ?thesis by blast
  next
    case False
    then have "d' = apply_command cmd d" using assms(2) Received by (cases cmd) (auto simp: dispatch_def simp del: apply_command.simps)
    then show ?thesis using onward_apply by blast
  qed
next
  case (Arrived octets)
  then obtain s where "d' = with_session s d" "handle_input octets (dr_session d) = (s, Inr ())"
    using assms(2) by (auto split: prod.splits sum.splits)
  moreover from this(2) moves_on_input [of "dr_session d" octets] have "prefix (s_outbound (dr_session d)) (s_outbound s)"
    by (auto simp: moves_on_def)
  ultimately show ?thesis using assms(1) Arrived by (auto simp: onward_def wire_def with_session_def)
next
  case (Wrote n flushed)
  then have "d' = d\<lparr>dr_io := dr_io d @ take n (dr_out d), dr_out := drop n (dr_out d)\<rparr>" "\<not> dr_awaiting_upgrade d"
    using assms by (auto simp: Let_def split: if_splits)
  moreover have "wire d' = dr_io d @ (take n (dr_out d) @ drop n (dr_out d)) @ s_outbound (dr_session d)"
    unfolding calculation(1) wire_def by simp
  moreover have "\<dots> = wire d" by (simp only: append_take_drop_id wire_def)
  ultimately show ?thesis by (simp add: onward_def)
qed (use assms(2) in auto)

lemma pumps_onward:
  "pumps d0 cmds d \<Longrightarrow> onward d0 d \<or>
     (\<exists>octets later. replaced_in (dr_effects d) = replaced_in (dr_effects d0) @ octets # later \<and> prefix (wire d0) octets)"
proof (induction rule: pumps.induct)
  case (pumps_turn cmds d alive t d')
  have "take_turn t (settle alive d) = (d', None)" using pumps_turn(3) by (auto simp: pump_turn_def Let_def split: if_splits)
  from take_turn_onward [OF pumps_turn(2) this] show ?case
  proof
    assume "onward (settle alive d) d'"
    with onward_settle have "onward d d'" by (rule onward_trans)
    with pumps_turn.IH show ?thesis by (auto simp: onward_def intro: prefix_order.trans)
  next
    assume "\<exists>octets. replaced_in (dr_effects d') = replaced_in (dr_effects (settle alive d)) @ [octets] \<and> prefix (wire (settle alive d)) octets"
    with onward_settle [of d alive] pumps_turn.IH show ?thesis
      by (auto simp: onward_def intro: prefix_order.trans)
  qed
next
  case (pumps_taken cmds d ch)
  with onward_inbox(1) [of d ch] show ?case by (auto simp: onward_def intro: prefix_order.trans)
next
  case (pumps_dropped cmds d ch)
  with onward_inbox(2) [of d ch] show ?case by (auto simp: onward_def intro: prefix_order.trans)
qed simp

lemma settle_at_rest: "at_rest (settle alive d)"
proof (induction alive d rule: settle.induct)
  case (1 alive d)
  then show ?case by (subst settle.simps) simp
qed

lemma handle_event_io: "dr_io (handle_event alive e d) = dr_io d"
  by (cases e) (auto simp: start_requested_def with_session_def tell_def cause_def deliver_def to_inbox_def answer_request_def Let_def
      split: option.split prod.split sum.split frame_kind.split)

lemma settle_io [simp]: "dr_io (settle alive d) = dr_io d"
  by (rule settle_keeps [where P = "\<lambda>d'. dr_io d' = dr_io d"]) (simp_all add: handle_event_io with_session_def)

lemma session_new_fields:
  "s_authenticated (session_new cfg) = None" "s_server_name (session_new cfg) = None"
  "s_channels (session_new cfg) = Map.empty" "s_events (session_new cfg) = []" "s_inbound (session_new cfg) = []"
  "s_state (session_new cfg) = AwaitingGreeting"
  by (auto simp: session_new_def advertise_window_def session_greet_def flush_def enqueue_def session_init_def GREETING_CHANNEL_def
      split: option.split prod.split sum.split)

lemma settle_quiet:
  assumes "s_events (dr_session d) = []" shows "settle alive d = transmit d"
proof (cases "at_rest d")
  case True
  then show ?thesis by (subst settle.simps) (simp add: transmit_def poll_transmit_def at_rest_def)
next
  case False
  from assms have "s_events (dr_session (transmit d)) = []" by (simp add: transmit_def poll_transmit_def)
  then have quiet: "handle_events alive (transmit d) = transmit d"
    by (subst handle_events.simps) (simp add: poll_event_def)
  have "at_rest (transmit d)" using assms by (simp add: at_rest_def transmit_def poll_transmit_def)
  with quiet have "settle alive (handle_events alive (transmit d)) = transmit d" by (subst settle.simps) simp
  with False show ?thesis by (subst settle.simps) simp
qed

lemma fresh_fields:
  "s_server_name (fresh_session cfg nm) = nm" "s_authenticated (fresh_session cfg nm) = None"
  "s_channels (fresh_session cfg nm) = Map.empty"
  by (auto simp: fresh_session_def set_server_name_def session_new_fields split: option.split)

lemma renewed_state:
  "dr_session (renew cfg c d) = fresh_session cfg (s_server_name (dr_session d))"
  "dr_io (renew cfg c d) = []" "dr_out (renew cfg c d) = dr_out d" "dr_served (renew cfg c d) = []"
  "dr_inbound (renew cfg c d) = []" "\<not> dr_awaiting_upgrade (renew cfg c d)"
  "dr_ready (renew cfg c d) = Some c" "waiting_callers (renew cfg c d) = {#c#}"
  by (auto simp: renew_def Let_def shutdown_def drop_sender_def tell_def cause_def waiting_callers_def split: option.split)

lemma write_out_transmit:
  "dr_session (write_out d) = dr_session d" "dr_out (write_out d) = []" "waiting_callers (write_out d) = waiting_callers d"
  "dr_effects (write_out d) = dr_effects d" "waiting_callers (transmit d) = waiting_callers d"
  "waiting_callers (with_session s d) = waiting_callers d"
  by (auto simp: write_out_def waiting_callers_def transmit_def with_session_def split: prod.split option.split)

section \<open>Properties\<close>

text \<open>
  C29 (termination). The inner loop of the driver ends on every state, whatever the handlers
  answer and although answering an event may queue octets and events of its own. It leaves
  nothing to transmit and no event unreported, touches the transport not at all, and what it
  puts behind the octets waiting to be written starts with all the session had to transmit.
\<close>

theorem inner_loop_settles:
  "s_outbound (dr_session (settle alive d)) = [] \<and> s_events (dr_session (settle alive d)) = [] \<and>
   dr_io (settle alive d) = dr_io d \<and>
   prefix (dr_out d @ s_outbound (dr_session d)) (dr_out (settle alive d))"
  using settle_at_rest [of alive d] onward_settle [of d alive] by (simp add: at_rest_def onward_def wire_def)

text \<open>
  The events handled while the inner loop runs, each with the driver it was handled on, and
  the one that agrees to an upgrade: a start whose handler accepts it and then says that it
  takes over the transport.
\<close>

inductive handled :: "(event \<Rightarrow> bool) \<Rightarrow> 'w driver \<Rightarrow> event \<Rightarrow> 'w driver \<Rightarrow> bool" for alive where
  handled_next: "poll_event (dr_session d) = (s, Some e) \<Longrightarrow> handled alive d e (with_session s d)"
| handled_later: "poll_event (dr_session d) = (s, Some e) \<Longrightarrow>
    handled alive (handle_event (alive e) e (with_session s d)) e' x \<Longrightarrow> handled alive d e' x"

definition agrees_to_upgrade :: "u32 \<Rightarrow> u32 \<Rightarrow> start \<Rightarrow> 'w driver \<Rightarrow> bool" where
  "agrees_to_upgrade ch msgno st d \<longleftrightarrow>
     (\<exists>uri h w prof s. router_choose (dr_router d) st = Some (uri, h) \<and>
        ha_accept h \<lparr>pe_session = dr_id d, pe_server_name = s_server_name (dr_session d)\<rparr> uri st (dr_world d) = (w, Inr prof) \<and>
        accept_start ch msgno prof (dr_session d) = (s, Inr ()) \<and> ha_upgrades h w)"

lemma agreed_start: "agrees_to_upgrade ch m st d \<Longrightarrow> dr_awaiting_upgrade (start_requested al ch m st d)"
  by (auto simp: agrees_to_upgrade_def start_requested_def Let_def cause_def)

lemma agreed_events:
  "handled alive d e x \<Longrightarrow> e = StartRequested ch m st \<Longrightarrow> agrees_to_upgrade ch m st x \<Longrightarrow>
     s_events (dr_session d) \<noteq> [] \<and> dr_awaiting_upgrade (handle_events alive d)"
proof (induction rule: handled.induct)
  case (handled_next d s e)
  let ?d = "handle_event (alive e) e (with_session s d)"
  have "dr_awaiting_upgrade ?d" using handled_next(2,3) by (simp add: agreed_start)
  then have "dr_awaiting_upgrade (handle_events alive ?d)"
    using onward_handle_events [of ?d alive] by (simp add: onward_def)
  with handled_next(1) show ?case by (subst handle_events.simps) (auto simp: poll_event_def split: list.splits)
next
  case (handled_later d s e e' x)
  then show ?case by (subst handle_events.simps) (auto simp: poll_event_def split: list.splits)
qed

lemma agreed_settle:
  assumes "handled alive (transmit d) (StartRequested ch m st) x" and "agrees_to_upgrade ch m st x"
  shows "dr_awaiting_upgrade (settle alive d)"
proof -
  from agreed_events [OF assms(1) refl assms(2)] have ev: "s_events (dr_session d) \<noteq> []"
    and aw: "dr_awaiting_upgrade (handle_events alive (transmit d))" by (simp_all add: transmit_def poll_transmit_def split: if_splits)
  from ev have "settle alive d = settle alive (handle_events alive (transmit d))"
    by (subst settle.simps) (simp add: at_rest_def)
  with aw onward_settle [of "handle_events alive (transmit d)" alive] show ?thesis by (simp add: onward_def)
qed

lemma settle_settled [simp]: "settle alive (settle alive d) = settle alive d"
  using settle_at_rest [of alive d] by (subst settle.simps) simp

lemma pumps_trans: "pumps d1 cmds' d2 \<Longrightarrow> pumps d0 cmds d1 \<Longrightarrow> pumps d0 (cmds @ cmds') d2"
proof (induction rule: pumps.induct)
  case (pumps_turn cmds' d alive t d')
  from pumps.pumps_turn [OF pumps_turn.IH [OF pumps_turn.prems] pumps_turn.hyps(2,3)] show ?case by simp
qed (simp_all add: pumps_taken pumps_dropped)


text \<open>
  A listener asked to start a channel whose handler takes over the transport, the peer's window
  being closed; the turn that follows carries out the upgrade.
\<close>

definition upgrading_handler :: "unit handler" where
  "upgrading_handler = default_handler\<lparr>ha_upgrades := (\<lambda>w. True)\<rparr>"

definition asked_start :: start where
  "asked_start = start_new 1 (profile_new ''p'')"

definition asked_driver :: "unit driver" where
  "asked_driver = (driver_new (config_new Listener) [(''p'', upgrading_handler)] 1 0 ())\<lparr>dr_session :=
     (session_init (config_new Listener))\<lparr>s_events := [StartRequested 1 0 asked_start],
       s_zero := (channel_new 0 [])\<lparr>ch_send_window := window_new 0 0\<rparr>\<rparr>\<rparr>"


text \<open>
  C28 (functional). Once the transport has been replaced nothing of the old session is left but
  the name of the virtual host: the session is a new one, unauthenticated and without channels,
  no octet of the old one is waiting to be written, no handler serves and no caller waits but
  the one that asked for the upgrade, who waits for the new greeting. Everyone who waited was
  told, once, and every octet queued was written before the swap.
\<close>

theorem upgrade_starts_over:
  assumes "last_words lr (dr_session d) = (s, Inr ())"
  shows "\<exists>d'. upgrade lr cfg c Swapped d = (d', None) \<and>
    dr_session d' = fresh_session cfg (s_server_name s) \<and> s_server_name (dr_session d') = s_server_name s \<and>
    s_authenticated (dr_session d') = None \<and> s_channels (dr_session d') = Map.empty \<and>
    dr_io d' = [] \<and> dr_out d' = [] \<and> dr_served d' = [] \<and> dr_inbound d' = [] \<and> \<not> dr_awaiting_upgrade d' \<and>
    dr_ready d' = Some c \<and> waiting_callers d' = {#c#} \<and>
    answered_callers (dr_effects d') = answered_callers (dr_effects d) + waiting_callers d \<and>
    replaced_in (dr_effects d') = replaced_in (dr_effects d) @ [dr_io d @ dr_out d @ s_outbound s]"
proof -
  let ?d = "write_out (transmit (with_session s d))"
  have "upgrade lr cfg c Swapped d = (renew cfg c ?d, None)" using assms by (rule upgrade_swapped)
  moreover have "dr_io ?d = dr_io d @ dr_out d @ s_outbound s" by (simp add: write_out_def transmit_out)
  ultimately show ?thesis
    by (intro exI [of _ "renew cfg c ?d"])
      (simp add: renewed_state renewed_effects fresh_fields write_out_transmit transmit_out)
qed

theorem upgrade_starts_over_witness:
  "\<exists>d'. upgrade None (config_new Initiator) 7 Swapped (driver_new (config_new Initiator) router_new 1 0 ()) = (d', None) \<and>
     dr_ready d' = Some 7 \<and> answered_callers (dr_effects d') = {#0#}"
proof -
  let ?d0 = "driver_new (config_new Initiator) router_new 1 0 () :: unit driver"
  have "last_words None (dr_session ?d0) = (dr_session ?d0, Inr ())" by (simp add: last_words_def)
  from upgrade_starts_over [OF this, of "config_new Initiator" 7] obtain d' where
    "upgrade None (config_new Initiator) 7 Swapped ?d0 = (d', None)" "dr_ready d' = Some 7"
    "answered_callers (dr_effects d') = answered_callers (dr_effects ?d0) + waiting_callers ?d0" by blast
  then show ?thesis by (simp add: driver_new_def waiting_callers_def)
qed

text \<open>
  C24 (liveness). No caller is forgotten and none is answered twice. At any point of any run
  those who were answered and those who wait are exactly those who asked, the one waiting for
  the greeting included; and when the driver ends, however it ends, every one of them has been
  answered. Losing the sender unused counts as an answer: the caller sees the session closed.
\<close>

theorem every_caller_answered:
  "(pumps (driver_new cfg r sid c w) cmds d \<longrightarrow>
     answered_callers (dr_effects d) + waiting_callers d = mset (c # map asks cmds)) \<and>
   (ends (driver_new cfg r sid c w) cmds d \<longrightarrow> answered_callers (dr_effects d) = mset (c # map asks cmds))"
proof -
  have ok: "tables_ok (driver_new cfg r sid c w)" and start: "account (driver_new cfg r sid c w) = {#c#}"
    by (simp_all add: driver_new_def tables_ok_def account_def waiting_callers_def)
  show ?thesis
    using pumps_account [OF _ ok, of cmds d] ends_account [OF _ ok, of cmds d]
    by (auto simp: start account_def [of d])
qed

text \<open>A client that asks for the server name and goes away before the greeting.\<close>

theorem every_caller_answered_witness:
  "\<exists>d. ends (driver_new (config_new Initiator) router_new 1 0 ()) [ServerName 7] d \<and> answered_callers (dr_effects d) = {#0, 7#}"
proof -
  let ?d0 = "driver_new (config_new Initiator) router_new 1 0 () :: unit driver"
  let ?d1 = "apply_command (ServerName 7) (transmit ?d0)"
  have new: "s_events (dr_session ?d0) = []" "s_state (dr_session ?d0) = AwaitingGreeting"
    by (simp_all add: driver_new_def session_new_fields)
  then have s0: "settle (\<lambda>_. True) ?d0 = transmit ?d0" "s_state (dr_session (transmit ?d0)) \<noteq> Closed"
    "s_events (dr_session (transmit ?d0)) = []"
    by (simp_all add: settle_quiet transmit_def poll_transmit_def)
  then have "pump_turn (\<lambda>_. True) (Received (ServerName 7) Swapped) ?d0 = (?d1, None)"
    by (simp add: pump_turn_def dispatch_def Let_def)
  from pumps_turn [OF pumps_start _ this] have run: "pumps ?d0 [ServerName 7] ?d1" by simp
  have s1: "settle (\<lambda>_. True) ?d1 = transmit ?d1" using s0 by (simp add: settle_quiet)
  then have "s_state (dr_session (settle (\<lambda>_. True) ?d1)) \<noteq> Closed"
    using s0 by (simp add: transmit_def poll_transmit_def)
  moreover from this have "pump_turn (\<lambda>_. True) HandlesGone ?d1 = (settle (\<lambda>_. True) ?d1, Some (Inr ()))"
    by (simp add: pump_turn_def Let_def)
  ultimately have "ends ?d0 ([ServerName 7] @ taken_in HandlesGone) (finish_run (Inr ()) (settle (\<lambda>_. True) ?d1))"
    by (intro ends_turn [OF run]) simp_all
  then have e: "ends ?d0 [ServerName 7] (finish_run (Inr ()) (settle (\<lambda>_. True) ?d1))" by simp
  from every_caller_answered [THEN conjunct2, THEN mp, OF e]
  have "answered_callers (dr_effects (finish_run (Inr ()) (settle (\<lambda>_. True) ?d1))) = {#0, 7#}" by simp
  with e show ?thesis by auto
qed

end
