(* ===== verification/ChannelExchange.thy ===== *)
theory ChannelExchange
  imports Handshake
begin

text \<open>
  One message and its reply on an open channel, each small enough for one frame: what the
  sending session writes and what the receiving one makes of it, state for state.
\<close>

definition speaking :: "u32 \<Rightarrow> session \<Rightarrow> channel \<Rightarrow> bool" where
  "speaking n s c \<longleftrightarrow> n \<noteq> GREETING_CHANNEL \<and> n \<le> MAX_CHANNEL_NO \<and> s_channels s n = Some c \<and> ch_number c = n \<and>
     queue_of s n = []"

definition hearing :: "channel \<Rightarrow> channel \<Rightarrow> bool" where
  "hearing c r \<longleftrightarrow> in_step c r \<and> ch_partial r = None \<and> w_size (ch_recv_window r) \<le> MAX_FRAME_SIZE"

definition has_room :: "session \<Rightarrow> channel \<Rightarrow> bytes \<Rightarrow> bool" where
  "has_room s c p \<longleftrightarrow> p \<noteq> [] \<and> length p \<le> unat (writable c) \<and>
     length p \<le> unat (chunk_limit (cf_max_frame_size (s_config s)))"

definition spoken :: "channel \<Rightarrow> bytes \<Rightarrow> channel" where
  "spoken c p = c\<lparr>ch_next_seqno := advance (ch_next_seqno c) (of_nat (length p))\<rparr>"

section \<open>Sending\<close>

lemma flush_whole:
  assumes "speaking n s c" and "has_room s c p" and "\<not> has_ansno k" and "m \<le> MAX_MSG_NO"
  shows "flush n (enqueue n k m None p s) =
    (s\<lparr>s_channels := (s_channels s)(n \<mapsto> spoken c p),
       s_outbound := s_outbound s @ encode (DataF (whole_frame k c m p)) [], s_queues := (s_queues s)(n \<mapsto> [])\<rparr>, Inr ())"
proof -
  have s: "sendable c k m None" using assms by (simp add: sendable_def speaking_def)
  have f: "p \<noteq> []" "length p \<le> unat (writable c)" "length p \<le> unat (chunk_limit (cf_max_frame_size (s_config s)))"
    using assms(2) by (simp_all add: has_room_def)
  then have "\<not> is_stalled c" by (auto simp: is_stalled_def)
  then show ?thesis
    using assms(1) emit_whole [OF s f]
    by (simp add: flush_def enqueue_def queue_of_def is_complete_def speaking_def spoken_def put_channel_def)
      (simp add: encode_data_eq)
qed

lemma wf_whole: "speaking n s c \<Longrightarrow> has_room s c p \<Longrightarrow> \<not> has_ansno k \<Longrightarrow> m \<le> MAX_MSG_NO \<Longrightarrow> wf_data (whole_frame k c m p)"
proof -
  assume a: "speaking n s c" "has_room s c p" "\<not> has_ansno k" "m \<le> MAX_MSG_NO"
  have "length p \<le> unat MAX_FRAME_SIZE"
    using a(2) chunk_limit_le [of "cf_max_frame_size (s_config s)"] by (simp add: has_room_def)
  with a show ?thesis by (simp add: wf_data_def whole_frame_def speaking_def limit_defs)
qed

text \<open>A message of this end's own gets a number that is not outstanding.\<close>

lemma send_msg_whole:
  assumes "speaking n s c" and "has_room s c p" and "ch_next_msgno c \<le> MAX_MSG_NO" and "\<not> {..MAX_MSG_NO} \<subseteq> ch_outstanding c"
  shows "\<exists>m c1. m \<le> MAX_MSG_NO \<and> c1 = c\<lparr>ch_next_msgno := next_after m, ch_outstanding := insert m (ch_outstanding c)\<rparr> \<and>
    send_msg n p s =
      (s\<lparr>s_channels := (s_channels s)(n \<mapsto> spoken c1 p),
         s_outbound := s_outbound s @ encode (DataF (whole_frame Msg c m p)) [], s_queues := (s_queues s)(n \<mapsto> [])\<rparr>, Inr m)"
proof -
  obtain z r where a: "allocate_msgno c = (z, r)" by fastforce
  from allocate_msgno_result [OF assms(3) a] assms(4) obtain m where m: "r = Inr m" "m \<le> MAX_MSG_NO" and
    z: "z = c\<lparr>ch_next_msgno := next_after m, ch_outstanding := insert m (ch_outstanding c)\<rparr>" by blast
  let ?s = "put_channel n z s"
  have "speaking n ?s z" using assms(1) by (simp add: speaking_def put_channel_def queue_of_def z)
  moreover have "has_room ?s z p" using assms(2) by (simp add: has_room_def put_channel_def z writable_def)
  moreover have "\<not> has_ansno Msg" by (simp add: has_ansno_def)
  ultimately have f: "flush n (enqueue n Msg m None p ?s) =
    (?s\<lparr>s_channels := (s_channels ?s)(n \<mapsto> spoken z p),
       s_outbound := s_outbound ?s @ encode (DataF (whole_frame Msg z m p)) [], s_queues := (s_queues ?s)(n \<mapsto> [])\<rparr>, Inr ())"
    using m(2) by (rule flush_whole)
  have w: "whole_frame Msg z m p = whole_frame Msg c m p" by (simp add: whole_frame_def z)
  have "send n Msg m None p ?s = flush n (enqueue n Msg m None p ?s)"
    by (simp add: send_def put_channel_def map_upd_triv Let_def) (cases "flush n (enqueue n Msg m None p (s\<lparr>s_channels := (s_channels s)(n \<mapsto> z)\<rparr>))" rule: bind_st_cases; simp)
  with f assms(1) a m w show ?thesis
    by (intro exI [of _ m] exI [of _ z]) (simp add: send_msg_def speaking_def z put_channel_def)
qed

text \<open>A reply to the one message waiting for one goes out at once.\<close>

lemma reply_whole_turn:
  assumes "speaking n s c" and "has_room s c p" and "k \<in> {Rpy, Err}" and "m \<le> MAX_MSG_NO" and "s_reply_order s n = Some [m]"
  shows "send n k m None p s =
      (s\<lparr>s_channels := (s_channels s)(n \<mapsto> spoken c p),
         s_outbound := s_outbound s @ encode (DataF (whole_frame k c m p)) [], s_queues := (s_queues s)(n \<mapsto> []),
         s_reply_order := (s_reply_order s)(n \<mapsto> [])\<rparr>, Inr ())"
proof -
  have k: "\<not> has_ansno k" "k \<noteq> Ans" "k \<noteq> Nul" "completes_reply k" using assms(3) by (auto simp: has_ansno_def)
  have same: "put_channel n c s = s" using assms(1) by (simp add: put_channel_def speaking_def map_upd_triv)
  have "is_next_reply s n m" using assms(5) by (simp add: is_next_reply_def or_empty_def)
  with k same assms(1) have "send n k m None p s =
      bind_st (flush n (enqueue n k m None p s)) (\<lambda>s _. reply_finished n m s)"
    by (simp add: send_def speaking_def)
  also have "\<dots> = reply_finished n m (s\<lparr>s_channels := (s_channels s)(n \<mapsto> spoken c p),
         s_outbound := s_outbound s @ encode (DataF (whole_frame k c m p)) [], s_queues := (s_queues s)(n \<mapsto> [])\<rparr>)"
    using flush_whole [OF assms(1,2) k(1) assms(4)] by simp
  finally show ?thesis
    using assms(5) by (simp add: reply_finished_def pop_order_def) (subst release_loop.simps, simp add: or_empty_def)
qed

section \<open>Receiving\<close>

definition heard :: "frame_kind \<Rightarrow> u32 \<Rightarrow> bytes \<Rightarrow> message" where
  "heard k m p = \<lparr>msg_kind = k, msg_msgno = m, msg_ansno = None, msg_payload = p\<rparr>"

lemma whole_received:
  assumes "speaking n b r" and "hearing c r" and "length p \<le> unat (writable c)"
  shows "\<exists>r1 u seqs. handle_frame (DataF (whole_frame k c m p)) b =
      (b\<lparr>s_channels := (s_channels b)(n \<mapsto> r1), s_unacked := (s_unacked b)(n \<mapsto> u),
         s_outbound := s_outbound b @ on_wire (map SeqF seqs),
         s_reply_order := (if k = Msg then (s_reply_order b)(n \<mapsto> or_empty (s_reply_order b n) @ [m]) else s_reply_order b),
         s_events := s_events b @ [MessageReceived n (heard k m p)]\<rparr>, Inr ()) \<and>
    (\<forall>q \<in> set seqs. wf_seq q \<and> sf_channel q = n) \<and>
    r1 = r\<lparr>ch_recv_window := ch_recv_window r1, ch_expected_seqno := ch_expected_seqno r1, ch_awaiting_reply := ch_awaiting_reply r1\<rparr>"
proof -
  let ?f = "whole_frame k c m p"
  let ?r = "received r k m None False (advance (ch_next_seqno c) (of_nat (length p))) p"
  let ?b = "put_channel n ?r b"
  have n: "n \<noteq> GREETING_CHANNEL" "s_channels b n = Some r" "ch_number r = n" "ch_number c = n" "n \<le> MAX_CHANNEL_NO"
    using assms(1,2) by (auto simp: speaking_def hearing_def in_step_def)
  have acc: "accept_on n r ?f b = (?b, Inr (Some (heard k m p)))"
    using accept_whole [of c r p k m] assms(2,3) n(1) by (simp add: accept_on_def hearing_def store_channel_def heard_def)
  have "channel_of ?b n = Some ?r" using n(1) by (simp add: channel_of_def put_channel_def)
  moreover have "ch_number ?r = n" using n(3) by (simp add: received_def)
  moreover have "w_size (ch_recv_window ?r) \<le> MAX_FRAME_SIZE" using assms(2) by (simp add: hearing_def)
  ultimately obtain w u seqs where ack: "acknowledge n (df_size ?f) ?b =
      ((store_channel n (?r\<lparr>ch_recv_window := w\<rparr>) ?b)\<lparr>s_unacked := (s_unacked ?b)(n \<mapsto> u),
         s_outbound := s_outbound ?b @ on_wire (map SeqF seqs)\<rparr>, Inr ())"
    "\<forall>q \<in> set seqs. wf_seq q \<and> sf_channel q = n"
    using acknowledge_ok [OF _ _ n(5)] by blast
  have "ch_partial r = None" using assms(2) by (simp add: hearing_def)
  then have r1: "?r\<lparr>ch_recv_window := w\<rparr> = r\<lparr>ch_recv_window := w, ch_expected_seqno := ch_expected_seqno ?r,
             ch_awaiting_reply := ch_awaiting_reply ?r\<rparr>"
    by (cases r) (simp add: received_def)
  have "df_channel ?f = n" using n(4) by (simp add: whole_frame_def)
  then have "handle_frame (DataF ?f) b = bind_st (acknowledge n (df_size ?f) ?b) (\<lambda>s _.
      let s = (if k = Msg then s\<lparr>s_reply_order := (s_reply_order s)(n \<mapsto> or_empty (s_reply_order s n) @ [m])\<rparr> else s)
      in (push_event (MessageReceived n (heard k m p)) s, Inr ()))"
    using n(1,2) acc by (simp add: handle_data_def heard_def cong: if_cong)
  with ack n(1) r1 show ?thesis
    by (intro exI [of _ "?r\<lparr>ch_recv_window := w\<rparr>"] exI [of _ u] exI [of _ seqs])
      (simp add: store_channel_def put_channel_def push_event_def Let_def)
qed

lemma seqs_received:
  assumes "\<forall>q \<in> set seqs. sf_channel q = n" and "speaking n s c"
  shows "\<exists>w. handle_frames (map SeqF seqs) s = (s\<lparr>s_channels := (s_channels s)(n \<mapsto> c\<lparr>ch_send_window := w\<rparr>)\<rparr>, Inr ())"
  using assms
proof (induction seqs arbitrary: s c)
  case Nil
  then show ?case by (intro exI [of _ "ch_send_window c"]) (simp add: speaking_def map_upd_triv)
next
  case (Cons q seqs)
  let ?c = "apply_seq c q"
  let ?s = "put_channel n ?c s"
  have sp: "speaking n ?s ?c" using Cons.prems(2) by (simp add: speaking_def put_channel_def queue_of_def apply_seq_def)
  have step: "handle_frame (SeqF q) s = (?s, Inr ())"
    using Cons.prems
    by (cases "s_queues s n")
      (simp_all add: handle_seq_def channel_of_def store_channel_def flush_def map_upd_triv queue_of_def or_empty_def
        speaking_def put_channel_def)
  have "\<forall>q \<in> set seqs. sf_channel q = n" using Cons.prems(1) by simp
  from Cons.IH [OF this sp] obtain w where
    "handle_frames (map SeqF seqs) ?s = (?s\<lparr>s_channels := (s_channels ?s)(n \<mapsto> ?c\<lparr>ch_send_window := w\<rparr>)\<rparr>, Inr ())"
    by blast
  with step show ?case by (intro exI [of _ w]) (simp add: apply_seq_def put_channel_def del: fun_upd_apply)
qed

end
