(* ===== verification/DriverReplies.thy ===== *)
theory DriverReplies
  imports DriverWire ChannelExchange
begin

text \<open>
  Where a reply ends up: at the caller whose request it answers, stripped of what the sending
  end put in front of it. And the places where a caller, or the peer, is left without one.
\<close>

section \<open>Payloads\<close>

lemma body_with_mime [simp]: "body_of (with_mime p) = p"
  by (simp add: body_of_def with_mime_def split_def strip_prefix_append)

section \<open>One event\<close>

lemma transmit_eq:
  "transmit d = d\<lparr>dr_session := (dr_session d)\<lparr>s_outbound := []\<rparr>, dr_out := dr_out d @ s_outbound (dr_session d)\<rparr>"
  by (auto simp: transmit_def poll_transmit_def)

lemma settle_received:
  assumes "s_events (dr_session d) = [MessageReceived n m]"
  shows "settle alive d = deliver (alive (MessageReceived n m)) n m
    (d\<lparr>dr_out := dr_out d @ s_outbound (dr_session d), dr_session := (dr_session d)\<lparr>s_outbound := [], s_events := []\<rparr>\<rparr>)"
    (is "_ = ?e")
proof -
  have quiet: "s_events (dr_session ?e) = []" "s_outbound (dr_session ?e) = []" by simp_all
  then have "handle_events alive ?e = ?e" by (subst handle_events.simps) (simp add: poll_event_def)
  moreover have "poll_event (dr_session (transmit d)) =
      ((dr_session d)\<lparr>s_outbound := [], s_events := []\<rparr>, Some (MessageReceived n m))"
    using assms by (simp add: transmit_eq poll_event_def)
  ultimately have "handle_events alive (transmit d) = ?e"
    by (subst handle_events.simps) (simp add: transmit_eq with_session_def)
  moreover have "settle alive ?e = ?e" using quiet by (subst settle.simps) (simp add: at_rest_def)
  ultimately show ?thesis using assms by (subst settle.simps) (simp add: at_rest_def)
qed

section \<open>Answers\<close>

definition answer_message :: "frame_kind \<Rightarrow> u32 \<Rightarrow> u32 option \<Rightarrow> bytes \<Rightarrow> message" where
  "answer_message k m a p = \<lparr>msg_kind = k, msg_msgno = m, msg_ansno = a, msg_payload = p\<rparr>"

text \<open>Answers pile up until the message that ends them.\<close>

lemma answers_pile_up:
  assumes "map_of (dr_requests d) (ch, m) = Some \<lparr>pq_reply = c, pq_answers = old\<rparr>"
  shows "\<exists>d'. fold (\<lambda>(a, p). deliver alive ch (answer_message Ans m a p)) answers d = d' \<and> dr_effects d' = dr_effects d \<and>
    map_of (dr_requests d') (ch, m) = Some \<lparr>pq_reply = c, pq_answers = old @ map (body_of \<circ> snd) answers\<rparr> \<and>
    dr_session d' = dr_session d"
  using assms
proof (induction answers arbitrary: d old)
  case (Cons x answers)
  obtain a p where x: "x = (a, p)" by (cases x)
  let ?d = "deliver alive ch (answer_message Ans m a p) d"
  have "map_of (dr_requests ?d) (ch, m) = Some \<lparr>pq_reply = c, pq_answers = old @ [body_of p]\<rparr>" "dr_effects ?d = dr_effects d"
    using Cons.prems by (simp_all add: deliver_def answer_message_def answer_request_def Let_def)
  from Cons.IH [OF this(1)] this(2) show ?case by (simp add: x)
qed simp

section \<open>An exchange between two drivers\<close>

definition conversing :: "u32 \<Rightarrow> 'w driver \<Rightarrow> channel \<Rightarrow> 'v driver \<Rightarrow> channel \<Rightarrow> bool" where
  "conversing n da ca db cb \<longleftrightarrow>
     speaking n (dr_session da) ca \<and> speaking n (dr_session db) cb \<and> hearing ca cb \<and> hearing cb ca \<and>
     at_boundary (dr_session da) \<and> at_boundary (dr_session db) \<and> at_rest da \<and> at_rest db \<and> dr_out da = [] \<and> dr_out db = []"

text \<open>Everything the other driver has written arrives, and is dealt with.\<close>

definition hears :: "'w driver \<Rightarrow> 'v driver \<Rightarrow> 'v driver" where
  "hears sender d = settle (\<lambda>_. True) (fst (take_turn (Arrived (dr_out sender)) d))"

definition carries_out :: "command \<Rightarrow> 'w driver \<Rightarrow> 'w driver" where
  "carries_out cmd d = settle (\<lambda>_. True) (apply_command cmd d)"

lemma settle_transmits: "s_events (dr_session d) = [] \<Longrightarrow> settle alive d =
    d\<lparr>dr_session := (dr_session d)\<lparr>s_outbound := []\<rparr>, dr_out := dr_out d @ s_outbound (dr_session d)\<rparr>"
  by (simp add: settle_quiet transmit_eq)

text \<open>The client writes its message and remembers who asked.\<close>

lemma request_written:
  fixes c :: caller
  assumes "conversing n da ca db cb" and "has_room (dr_session da) ca (with_mime p)"
    and "ch_next_msgno ca \<le> MAX_MSG_NO" and "\<not> {..MAX_MSG_NO} \<subseteq> ch_outstanding ca"
  defines "d1 \<equiv> carries_out (Request n p c) da"
  shows "\<exists>m c1. m \<le> MAX_MSG_NO \<and> dr_out d1 = encode (DataF (whole_frame Msg ca m (with_mime p))) [] \<and>
    map_of (dr_requests d1) (n, m) = Some \<lparr>pq_reply = c, pq_answers = []\<rparr> \<and>
    at_boundary (dr_session d1) \<and> at_rest d1 \<and> speaking n (dr_session d1) c1 \<and> hearing cb c1"
proof -
  have a: "speaking n (dr_session da) ca" "hearing cb ca" "at_boundary (dr_session da)" "dr_out da = []"
    "s_outbound (dr_session da) = []" "s_events (dr_session da) = []"
    using assms(1) by (simp_all add: conversing_def at_rest_def)
  from send_msg_whole [OF a(1) assms(2-4)] obtain m c1 where m: "m \<le> MAX_MSG_NO"
    "c1 = ca\<lparr>ch_next_msgno := next_after m, ch_outstanding := insert m (ch_outstanding ca)\<rparr>" and
    sent: "send_msg n (with_mime p) (dr_session da) =
      ((dr_session da)\<lparr>s_channels := (s_channels (dr_session da))(n \<mapsto> spoken c1 (with_mime p)),
         s_outbound := encode (DataF (whole_frame Msg ca m (with_mime p))) [],
         s_queues := (s_queues (dr_session da))(n \<mapsto> [])\<rparr>, Inr m)" (is "_ = (?s, _)")
    using a(5) by auto
  let ?d = "apply_command (Request n p c) da"
  have d: "dr_session ?d = ?s" "dr_out ?d = []" "map_of (dr_requests ?d) (n, m) = Some \<lparr>pq_reply = c, pq_answers = []\<rparr>"
    using sent a(4) by (simp_all add: drop_sender_def with_session_def tell_def cause_def split: option.split)
  have "d1 = ?d\<lparr>dr_session := ?s\<lparr>s_outbound := []\<rparr>, dr_out := s_outbound ?s\<rparr>"
    unfolding d1_def carries_out_def using d a(6) by (simp add: settle_transmits del: apply_command.simps)
  moreover have "at_boundary (?s\<lparr>s_outbound := []\<rparr>)" using a(3) by (simp add: at_boundary_def)
  moreover have "speaking n (?s\<lparr>s_outbound := []\<rparr>) (spoken c1 (with_mime p))"
    using a(1) m(2) by (simp add: speaking_def queue_of_def or_empty_def spoken_def)
  moreover have "hearing cb (spoken c1 (with_mime p))" using a(2) m(2) by (simp add: hearing_def in_step_def spoken_def)
  ultimately show ?thesis
    using m(1) d(3) a(6)
    by (intro exI [of _ m] exI [of _ "spoken c1 (with_mime p)"]) (simp add: at_rest_def del: apply_command.simps)
qed

text \<open>The server reads it, perhaps acknowledging octets, and starts its handler.\<close>

lemma request_heard:
  assumes "conversing n da ca db cb" and "has_room (dr_session da) ca (with_mime p)" and "m \<le> MAX_MSG_NO"
    and "dr_out d1 = encode (DataF (whole_frame Msg ca m (with_mime p))) []"
    and "map_of (dr_served db) n = Some h" and "or_empty (s_reply_order (dr_session db) n) = []"
  defines "d2 \<equiv> hears d1 db"
  shows "\<exists>c2 seqs. dr_effects d2 = dr_effects db @
      [MessageTask n h \<lparr>dl_kind = Msg, dl_msgno = m, dl_ansno = None, dl_payload = p\<rparr>] \<and>
    dr_out d2 = on_wire (map SeqF seqs) \<and> (\<forall>q \<in> set seqs. wf_seq q \<and> sf_channel q = n) \<and>
    c2 = cb\<lparr>ch_recv_window := ch_recv_window c2, ch_expected_seqno := ch_expected_seqno c2, ch_awaiting_reply := ch_awaiting_reply c2\<rparr> \<and>
    speaking n (dr_session d2) c2 \<and> at_rest d2 \<and> s_reply_order (dr_session d2) n = Some [m] \<and>
    s_config (dr_session d2) = s_config (dr_session db)"
proof -
  let ?f = "whole_frame Msg ca m (with_mime p)"
  have b: "speaking n (dr_session da) ca" "speaking n (dr_session db) cb" "hearing ca cb" "at_boundary (dr_session db)" "dr_out db = []"
    "s_outbound (dr_session db) = []" "s_events (dr_session db) = []"
    using assms(1) by (simp_all add: conversing_def at_rest_def)
  have len: "length (with_mime p) \<le> unat (writable ca)" using assms(2) by (simp add: has_room_def)
  from whole_received [OF b(2,3) len, of Msg m] obtain c2 u seqs where r:
    "handle_frame (DataF ?f) (dr_session db) =
      ((dr_session db)\<lparr>s_channels := (s_channels (dr_session db))(n \<mapsto> c2), s_unacked := (s_unacked (dr_session db))(n \<mapsto> u),
         s_outbound := on_wire (map SeqF seqs),
         s_reply_order := (s_reply_order (dr_session db))(n \<mapsto> [m]),
         s_events := [MessageReceived n (heard Msg m (with_mime p))]\<rparr>, Inr ())" (is "_ = (?s, _)")
    "\<forall>q \<in> set seqs. wf_seq q \<and> sf_channel q = n"
    "c2 = cb\<lparr>ch_recv_window := ch_recv_window c2, ch_expected_seqno := ch_expected_seqno c2, ch_awaiting_reply := ch_awaiting_reply c2\<rparr>"
    using b(6,7) assms(6) by auto
  have "wf_data ?f" by (rule wf_whole [OF b(1) assms(2) _ assms(3)]) (simp add: has_ansno_def)
  then have "handle_input (dr_out d1) (dr_session db) = (?s, Inr ())"
    using handle_input_frames [of "[DataF ?f]" "dr_session db"] b(4) r(1) assms(4) by simp
  then have t: "fst (take_turn (Arrived (dr_out d1)) db) = with_session ?s db" by simp
  have d2: "d2 = deliver True n (heard Msg m (with_mime p))
      (db\<lparr>dr_out := on_wire (map SeqF seqs), dr_session := ?s\<lparr>s_outbound := [], s_events := []\<rparr>\<rparr>)"
    unfolding d2_def hears_def t using b(5)
    by (subst settle_received [where n = n and m = "heard Msg m (with_mime p)"]) (simp_all add: with_session_def)
  have "d2 = cause (MessageTask n h \<lparr>dl_kind = Msg, dl_msgno = m, dl_ansno = None, dl_payload = p\<rparr>)
      (db\<lparr>dr_out := on_wire (map SeqF seqs), dr_session := ?s\<lparr>s_outbound := [], s_events := []\<rparr>\<rparr>)"
    unfolding d2 using assms(5) by (simp add: deliver_def heard_def delivered_of_def)
  moreover have "ch_number c2 = n" using b(2) by (subst r(3)) (simp add: speaking_def)
  ultimately show ?thesis
    using r(2,3) b(2) by (intro exI [of _ c2] exI [of _ seqs]) (simp add: cause_def at_rest_def speaking_def queue_of_def)
qed

text \<open>The handler's reply goes out behind the acknowledgement, and the handler is told.\<close>

lemma reply_written:
  fixes c' :: caller
  assumes "speaking n (dr_session d2) c2" and "at_rest d2" and "s_reply_order (dr_session d2) n = Some [m]" and "m \<le> MAX_MSG_NO"
    and "has_room (dr_session d2) c2 (with_mime q)" and "k \<in> {Rpy, Err}"
  defines "d3 \<equiv> carries_out (command.Send n k m None q c') d2"
  shows "dr_out d3 = dr_out d2 @ encode (DataF (whole_frame k c2 m (with_mime q))) [] \<and>
    dr_effects d3 = dr_effects d2 @ [Answered c' Ok]"
proof -
  have s: "s_outbound (dr_session d2) = []" "s_events (dr_session d2) = []" using assms(2) by (simp_all add: at_rest_def)
  have "d3 = settle (\<lambda>_. True) (tell c' Ok (with_session (fst (send n k m None (with_mime q) (dr_session d2))) d2))"
    using reply_whole_turn [OF assms(1,5,6,4,3)] by (simp add: d3_def carries_out_def)
  then show ?thesis
    using reply_whole_turn [OF assms(1,5,6,4,3)] s
    by (simp add: settle_transmits with_session_def tell_def cause_def)
qed

text \<open>The client reads it and tells whoever asked.\<close>

lemma reply_heard:
  assumes "at_boundary (dr_session d1)" and "at_rest d1" and "speaking n (dr_session d1) c1" and "hearing cb c1"
    and "map_of (dr_requests d1) (n, m) = Some \<lparr>pq_reply = c, pq_answers = []\<rparr>"
    and "\<forall>q \<in> set seqs. wf_seq q \<and> sf_channel q = n" and "k \<in> {Rpy, Err}"
    and "wf_data (whole_frame k cb m (with_mime q))" and "length q + 2 \<le> unat (writable cb)"
    and "dr_out d3 = on_wire (map SeqF seqs @ [DataF (whole_frame k cb m (with_mime q))])"
  shows "dr_effects (hears d3 d1) = dr_effects d1 @ [Answered c (Replied (if k = Rpy then ReplyRpy q else ReplyErr q))]"
proof -
  let ?f = "whole_frame k cb m (with_mime q)" and ?s = "dr_session d1"
  have s: "s_outbound ?s = []" "s_events ?s = []" using assms(2) by (simp_all add: at_rest_def)
  from seqs_received [OF _ assms(3), of seqs] assms(6) obtain w where w: "handle_frames (map SeqF seqs) ?s =
      (?s\<lparr>s_channels := (s_channels ?s)(n \<mapsto> c1\<lparr>ch_send_window := w\<rparr>)\<rparr>, Inr ())" (is "_ = (?s1, _)") by auto
  have "speaking n ?s1 (c1\<lparr>ch_send_window := w\<rparr>)" using assms(3) by (simp add: speaking_def queue_of_def)
  moreover have "hearing cb (c1\<lparr>ch_send_window := w\<rparr>)" using assms(4) by (simp add: hearing_def in_step_def)
  moreover have "length (with_mime q) \<le> unat (writable cb)" using assms(9) by (simp add: with_mime_def)
  ultimately obtain c2 u seqs2 where r: "handle_frame (DataF ?f) ?s1 =
      (?s1\<lparr>s_channels := (s_channels ?s1)(n \<mapsto> c2), s_unacked := (s_unacked ?s1)(n \<mapsto> u),
         s_outbound := s_outbound ?s1 @ on_wire (map SeqF seqs2),
         s_reply_order := (if k = Msg then (s_reply_order ?s1)(n \<mapsto> or_empty (s_reply_order ?s1 n) @ [m]) else s_reply_order ?s1),
         s_events := s_events ?s1 @ [MessageReceived n (heard k m (with_mime q))]\<rparr>, Inr ())" (is "_ = (?s2, _)")
    using whole_received by blast
  have "handle_frames (map SeqF seqs @ [DataF ?f]) ?s = (?s2, Inr ())"
    using r by (simp add: handle_frames_append w del: handle_frame.simps)
  then have "handle_input (dr_out d3) ?s = (?s2, Inr ())"
    using handle_input_frames [of "map SeqF seqs @ [DataF ?f]" ?s] assms(1,6,8,10) by auto
  then have t: "fst (take_turn (Arrived (dr_out d3)) d1) = with_session ?s2 d1" by simp
  have "s_events (dr_session (with_session ?s2 d1)) = [MessageReceived n (heard k m (with_mime q))]" using s(2) by simp
  from settle_received [OF this] show ?thesis
    unfolding hears_def t using assms(5,7)
    by (auto simp: deliver_def heard_def answer_request_def Let_def tell_def cause_def with_session_def)
qed

section \<open>A sample\<close>

definition sample_end :: "role \<Rightarrow> unit driver" where
  "sample_end r = (driver_new (config_new r) router_new 1 0 ())
     \<lparr>dr_session := (session_init (config_new r))\<lparr>s_state := Ready, s_channels := [1 \<mapsto> channel_new 1 ''p'']\<rparr>,
      dr_served := [(1, default_handler)]\<rparr>"

lemma sample_conversing: "conversing 1 (sample_end r) (channel_new 1 ''p'') (sample_end r') (channel_new 1 ''p'')"
  using channel_new_in_step [of 1 "''p''"]
  by (simp add: conversing_def speaking_def hearing_def at_boundary_def at_rest_def sample_end_def
      driver_new_def session_init_def queue_of_def or_empty_def GREETING_CHANNEL_def limit_defs channel_new_def
      channel_with_window_size_def INITIAL_WINDOW_SIZE_def)

lemma sample_room: "length p \<le> 100 \<Longrightarrow> has_room (dr_session (sample_end r)) (channel_new 1 ''p'') (with_mime p)"
  by (simp add: has_room_def with_mime_def sample_end_def session_init_def config_new_def writable_def channel_new_def
      channel_with_window_size_def remaining_def saturating_sub_def distance_from_def INITIAL_WINDOW_SIZE_def chunk_limit_def
      limit_defs clamp_u32_def)

lemma sample_numbers: "ch_next_msgno (channel_new 1 ''p'') \<le> MAX_MSG_NO" "\<not> {..MAX_MSG_NO} \<subseteq> ch_outstanding (channel_new 1 ''p'')"
  by (simp_all add: channel_new_def channel_with_window_size_def)

section \<open>Properties\<close>

text \<open>
  C23 (functional). A request is answered. On a channel two drivers have open between them, with
  a handler serving it at one end, whatever a caller sends at the other end reaches the handler
  unchanged, as one message, and whatever the handler replies to it, positively or negatively,
  reaches that caller unchanged; the handler is told that its reply went out. The octets go
  through both sessions: framing, windows, acknowledgements and message numbers included. Both
  payloads fit one frame and the windows.
\<close>

theorem request_answered:
  fixes c c' :: caller
  assumes "conversing n da ca db cb" and "has_room (dr_session da) ca (with_mime p)" and "has_room (dr_session db) cb (with_mime q)"
    and "ch_next_msgno ca \<le> MAX_MSG_NO" and "\<not> {..MAX_MSG_NO} \<subseteq> ch_outstanding ca"
    and "map_of (dr_served db) n = Some h" and "or_empty (s_reply_order (dr_session db) n) = []" and "k \<in> {Rpy, Err}"
  shows "\<exists>m d1 d2 d3 d4. d1 = carries_out (Request n p c) da \<and>
    d2 = hears d1 db \<and>
    dr_effects d2 = dr_effects db @ [MessageTask n h \<lparr>dl_kind = Msg, dl_msgno = m, dl_ansno = None, dl_payload = p\<rparr>] \<and>
    d3 = carries_out (command.Send n k m None q c') d2 \<and> dr_effects d3 = dr_effects d2 @ [Answered c' Ok] \<and>
    d4 = hears d3 d1 \<and>
    dr_effects d4 = dr_effects d1 @ [Answered c (Replied (if k = Rpy then ReplyRpy q else ReplyErr q))]"
proof -
  let ?d1 = "carries_out (Request n p c) da"
  let ?d2 = "hears ?d1 db"
  from request_written [OF assms(1,2,4,5), of c] obtain m c1 where 1: "m \<le> MAX_MSG_NO"
    "dr_out ?d1 = encode (DataF (whole_frame Msg ca m (with_mime p))) []"
    "map_of (dr_requests ?d1) (n, m) = Some \<lparr>pq_reply = c, pq_answers = []\<rparr>"
    "at_boundary (dr_session ?d1)" "at_rest ?d1" "speaking n (dr_session ?d1) c1" "hearing cb c1" by blast
  from request_heard [OF assms(1,2) 1(1,2) assms(6,7)] obtain c2 seqs where 2:
    "dr_effects ?d2 = dr_effects db @ [MessageTask n h \<lparr>dl_kind = Msg, dl_msgno = m, dl_ansno = None, dl_payload = p\<rparr>]"
    "dr_out ?d2 = on_wire (map SeqF seqs)" "\<forall>q \<in> set seqs. wf_seq q \<and> sf_channel q = n"
    "speaking n (dr_session ?d2) c2" "at_rest ?d2" "s_reply_order (dr_session ?d2) n = Some [m]"
    "s_config (dr_session ?d2) = s_config (dr_session db)" and
    c2: "c2 = cb\<lparr>ch_recv_window := ch_recv_window c2, ch_expected_seqno := ch_expected_seqno c2, ch_awaiting_reply := ch_awaiting_reply c2\<rparr>"
    by blast
  let ?d3 = "carries_out (command.Send n k m None q c') ?d2"
  have room: "has_room (dr_session ?d2) c2 (with_mime q)"
    using assms(3) 2(7) by (subst c2) (simp add: has_room_def writable_def)
  have same: "whole_frame k c2 m (with_mime q) = whole_frame k cb m (with_mime q)" by (subst c2) (simp add: whole_frame_def)
  from reply_written [OF 2(4,5,6) 1(1) room assms(8), of c'] have 3: "dr_effects ?d3 = dr_effects ?d2 @ [Answered c' Ok]"
    "dr_out ?d3 = on_wire (map SeqF seqs @ [DataF (whole_frame k cb m (with_mime q))])"
    by (simp_all add: 2(2) same)
  have k: "\<not> has_ansno k" using assms(8) by (auto simp: has_ansno_def)
  have "speaking n (dr_session db) cb" using assms(1) by (simp add: conversing_def)
  from wf_whole [OF this assms(3) k 1(1)] have wf: "wf_data (whole_frame k cb m (with_mime q))" .
  have len: "length q + 2 \<le> unat (writable cb)" using assms(3) by (simp add: has_room_def with_mime_def)
  from reply_heard [OF 1(4-7,3) 2(3) assms(8) wf len 3(2)] 2(1) 3(1) show ?thesis by blast
qed

theorem request_answered_witness:
  "\<exists>m d1 d2 d3 d4. d1 = carries_out (Request 1 ''ping'' 7) (sample_end Initiator) \<and> d2 = hears d1 (sample_end Listener) \<and>
     dr_effects d2 = [MessageTask 1 default_handler \<lparr>dl_kind = Msg, dl_msgno = m, dl_ansno = None, dl_payload = ''ping''\<rparr>] \<and>
     d3 = carries_out (command.Send 1 Rpy m None ''pong'' 9) d2 \<and> d4 = hears d3 d1 \<and>
     dr_effects d4 = dr_effects d1 @ [Answered 7 (Replied (ReplyRpy ''pong''))]"
proof -
  have "map_of (dr_served (sample_end Listener)) 1 = Some default_handler" "dr_effects (sample_end Listener) = []"
    "or_empty (s_reply_order (dr_session (sample_end Listener)) 1) = []"
    by (simp_all add: sample_end_def driver_new_def session_init_def or_empty_def)
  moreover have "length ''ping'' \<le> 100" "length ''pong'' \<le> 100" by simp_all
  ultimately show ?thesis
    using request_answered [OF sample_conversing sample_room sample_room sample_numbers, where k = Rpy and c = 7 and c' = 9
        and h = default_handler and p = "''ping''" and q = "''pong''"] by fastforce
qed

text \<open>
  C27 (functional). A caller waiting for a reply is told exactly what the peer answered. A
  positive or a negative reply resolves it with the body; any number of answers is held back,
  telling nobody anything, and the message that ends them resolves the caller with the bodies
  of all of them in the order they came. Either way the caller no longer waits, and messages of
  other exchanges are not taken for its reply.
\<close>

theorem replies_routed:
  assumes "map_of (dr_requests d) (ch, m) = Some \<lparr>pq_reply = c, pq_answers = []\<rparr>"
  shows "(\<exists>d'. deliver alive ch (answer_message Rpy m a p) d = d' \<and>
      dr_effects d' = dr_effects d @ [Answered c (Replied (ReplyRpy (body_of p)))] \<and> map_of (dr_requests d') (ch, m) = None) \<and>
    (\<exists>d'. deliver alive ch (answer_message Err m a p) d = d' \<and>
      dr_effects d' = dr_effects d @ [Answered c (Replied (ReplyErr (body_of p)))] \<and> map_of (dr_requests d') (ch, m) = None) \<and>
    (\<exists>d'. deliver alive ch (answer_message Nul m a p)
        (fold (\<lambda>(a, p). deliver alive ch (answer_message Ans m a p)) answers d) = d' \<and>
      dr_effects d' = dr_effects d @ [Answered c (Replied (ReplyAnswers (map (body_of \<circ> snd) answers)))] \<and>
      map_of (dr_requests d') (ch, m) = None) \<and>
    (\<forall>ch' k m'. (ch', m') \<noteq> (ch, m) \<longrightarrow>
      map_of (dr_requests (deliver alive ch' (answer_message k m' a p) d)) (ch, m) = map_of (dr_requests d) (ch, m))"
proof (intro conjI)
  show "\<forall>ch' k m'. (ch', m') \<noteq> (ch, m) \<longrightarrow>
      map_of (dr_requests (deliver alive ch' (answer_message k m' a p) d)) (ch, m) = map_of (dr_requests d) (ch, m)"
    by (auto simp: deliver_def answer_message_def answer_request_def to_inbox_def tell_def cause_def Let_def
        split: option.split frame_kind.split)
  from answers_pile_up [OF assms, of alive answers]
  show "\<exists>d'. deliver alive ch (answer_message Nul m a p)
        (fold (\<lambda>(a, p). deliver alive ch (answer_message Ans m a p)) answers d) = d' \<and>
      dr_effects d' = dr_effects d @ [Answered c (Replied (ReplyAnswers (map (body_of \<circ> snd) answers)))] \<and>
      map_of (dr_requests d') (ch, m) = None"
    by (auto simp: deliver_def answer_message_def answer_request_def tell_def cause_def Let_def)
qed (use assms in \<open>simp_all add: deliver_def answer_message_def answer_request_def tell_def cause_def Let_def\<close>)

theorem replies_routed_witness:
  "\<exists>d'. deliver True 1 (answer_message Nul 4 None CRLF)
       (fold (\<lambda>(a, p). deliver True 1 (answer_message Ans 4 a p)) [(Some 0, with_mime ''x''), (Some 1, with_mime ''y'')]
         ((sample_end Initiator)\<lparr>dr_requests := [((1, 4), \<lparr>pq_reply = 7, pq_answers = []\<rparr>)]\<rparr>)) = d' \<and>
     dr_effects d' = [Answered 7 (Replied (ReplyAnswers [''x'', ''y'']))]"
proof -
  let ?d = "(sample_end Initiator)\<lparr>dr_requests := [((1, 4), \<lparr>pq_reply = 7, pq_answers = []\<rparr>)]\<rparr>"
  have "map_of (dr_requests ?d) (1, 4) = Some \<lparr>pq_reply = 7, pq_answers = []\<rparr>" "dr_effects ?d = []"
    by (simp_all add: sample_end_def driver_new_def)
  from replies_routed [OF this(1), of True None CRLF "[(Some 0, with_mime ''x''), (Some 1, with_mime ''y'')]"] this(2)
  show ?thesis by simp
qed

section \<open>Callers and peers left waiting\<close>

text \<open>
  A refusal to end the session is not passed on: the caller of \<open>Connection::close\<close> keeps waiting,
  although its documentation promises the refusal.
\<close>

lemma close_refusal_unheard:
  "map_of (dr_closes d) GREETING_CHANNEL = None \<Longrightarrow> handle_event alive (CloseRefused GREETING_CHANNEL err) d = d"
  by simp

text \<open>
  When a channel closes, requests still unanswered on it stay: their callers wait until the
  session itself ends, although no reply can come any more.
\<close>

lemma closed_channel_keeps_requests: "dr_requests (handle_event alive (ChannelClosed ch) d) = dr_requests d"
  by (simp add: Let_def tell_def cause_def split: option.split)

text \<open>
  A start the router would serve but whose number the peer may not use, or has open already, is
  not answered at all: not a word goes to the peer, which waits for its reply. A handler that
  kept something for the channel when it agreed is not told either.
\<close>

lemma bad_start_unanswered:
  assumes "router_choose (dr_router d) st = Some (uri, h)"
    and "ha_accept h \<lparr>pe_session = dr_id d, pe_server_name = s_server_name (dr_session d)\<rparr> uri st (dr_world d) = (w, Inr prof)"
    and "ch = GREETING_CHANNEL \<or> owns (cf_role (s_config (dr_session d))) ch \<or> s_channels (dr_session d) ch \<noteq> None"
  shows "handle_event alive (StartRequested ch msgno st) d = d\<lparr>dr_world := w\<rparr>"
proof -
  have "\<exists>e. accept_start ch msgno prof (dr_session d) = (dr_session d, Inl e)"
    using assms(3) by (auto simp: accept_start_def)
  then obtain e where "accept_start ch msgno prof (dr_session d) = (dr_session d, Inl e)" by blast
  with assms(1,2) show ?thesis by (simp add: start_requested_def with_session_def)
qed

end
