(* ===== verification/Base64.thy ===== *)
theory Base64
  imports Prelude
begin

text \<open>
  \<^verbatim>\<open>vortice-proto/src/base64.rs\<close>: Base64 with padding, strict on decoding.
\<close>

unbundle bit_operations_syntax

section \<open>Operations\<close>

datatype not_base64 = NotBase64

definition ALPHABET :: bytes where
  "ALPHABET = ''ABCDEFGHIJKLMNOPQRSTUVWXYZabcdefghijklmnopqrstuvwxyz0123456789+/''"

text \<open>\<open>slice::chunks\<close>.\<close>

function chunks :: "nat \<Rightarrow> 'a list \<Rightarrow> 'a list list" where
  "chunks n xs = (if xs = [] \<or> n = 0 then [] else take n xs # chunks n (drop n xs))"
  by pat_completeness auto
termination
  by (relation "measure (\<lambda>(n, xs). length xs)") auto

declare chunks.simps [simp del]

definition u32_of :: "byte \<Rightarrow> u32" where
  "u32_of b = of_nat (of_char b)"

text \<open>\<open>(w as usize) & 0x3f\<close>, the index into the alphabet.\<close>

definition alphabet_at :: "u32 \<Rightarrow> byte" where
  "alphabet_at w = ALPHABET ! unat (w AND 0x3f)"

definition encode_chunk :: "bytes \<Rightarrow> bytes" where
  "encode_chunk chunk =
     (let bits = push_bit 16 (u32_of (chunk ! 0))
                 OR push_bit 8 (if 1 < length chunk then u32_of (chunk ! 1) else 0)
                 OR (if 2 < length chunk then u32_of (chunk ! 2) else 0)
      in [alphabet_at (drop_bit 18 bits), alphabet_at (drop_bit 12 bits),
          if length chunk > 1 then alphabet_at (drop_bit 6 bits) else CHR ''='',
          if length chunk > 2 then alphabet_at bits else CHR ''=''])"

definition b64_encode :: "bytes \<Rightarrow> bytes" where
  "b64_encode data = concat (map encode_chunk (chunks 3 data))"

definition b64_value :: "byte \<Rightarrow> not_base64 + u8" where
  "b64_value b =
     (let n = of_char b :: nat in
      if 65 \<le> n \<and> n \<le> 90 then Inr (of_nat (n - 65))
      else if 97 \<le> n \<and> n \<le> 122 then Inr (of_nat (n - 97 + 26))
      else if 48 \<le> n \<and> n \<le> 57 then Inr (of_nat (n - 48 + 52))
      else if b = CHR ''+'' then Inr 62
      else if b = CHR ''/'' then Inr 63
      else Inl NotBase64)"

text \<open>The inner loop over the four characters: \<open>at\<close> is the position of the next one.\<close>

fun quad_bits :: "bool \<Rightarrow> nat \<Rightarrow> nat \<Rightarrow> u32 \<Rightarrow> bytes \<Rightarrow> not_base64 + u32" where
  "quad_bits is_last padding at bits [] = Inr bits"
| "quad_bits is_last padding at bits (b # bs) =
     bind_res (if is_last \<and> at \<ge> 4 - padding then Inr 0 else bind_res (b64_value b) (\<lambda>v. Inr (ucast v)))
       (\<lambda>six. quad_bits is_last padding (at + 1) (push_bit 6 bits OR six) bs)"

declare quad_bits.simps [simp del]

definition low_octet :: "u32 \<Rightarrow> byte" where
  "low_octet w = char_of (unat (ucast w :: u8))"

definition decode_quad :: "bool \<Rightarrow> bytes \<Rightarrow> not_base64 + bytes" where
  "decode_quad is_last quad =
     (let padding = (if is_last then (if quad ! 3 = CHR ''='' then 1 else 0) + (if quad ! 2 = CHR ''='' then 1 else 0) else 0)
      in if padding = 2 \<and> quad ! 2 \<noteq> CHR ''='' then Inl NotBase64
         else bind_res (quad_bits is_last padding 0 0 quad) (\<lambda>bits.
           let out = [low_octet (drop_bit 16 bits)];
               out = (if padding < 2 then out @ [low_octet (drop_bit 8 bits)] else out);
               out = (if padding < 1 then out @ [low_octet bits] else out)
           in if padding > 0 \<and> bits AND (push_bit (padding * 8) 1 - 1) \<noteq> 0 then Inl NotBase64 else Inr out))"

fun decode_quads :: "nat \<Rightarrow> nat \<Rightarrow> bytes list \<Rightarrow> bytes \<Rightarrow> not_base64 + bytes" where
  "decode_quads count index [] decoded = Inr decoded"
| "decode_quads count index (quad # quads) decoded =
     bind_res (decode_quad (index = count - 1) quad) (\<lambda>out.
       decode_quads count (index + 1) quads (decoded @ out))"

definition b64_decode :: "bytes \<Rightarrow> not_base64 + bytes" where
  "b64_decode txt =
     (let packed = filter (\<lambda>b. \<not> is_ascii_whitespace b) txt
      in if length packed mod 4 \<noteq> 0 then Inl NotBase64
         else decode_quads (length packed div 4) 0 (chunks 4 packed) [])"

section \<open>Bits as numbers\<close>

lemma or_disjoint: "take_bit n y = y \<Longrightarrow> push_bit n x OR y = push_bit n x + (y :: 'a :: len word)"
proof -
  assume y: "take_bit n y = y"
  have "\<not> bit (push_bit n x) m \<or> \<not> bit y m" for m
    using y by (metis bit_push_bit_iff bit_take_bit_iff linorder_not_less)
  then show ?thesis by (simp add: disjunctive_add)
qed

lemma take_bit_small: "unat (y :: u32) < 2 ^ n \<Longrightarrow> take_bit n y = y"
  by (simp add: word_unat_eq_iff unsigned_take_bit_eq take_bit_nat_eq_self)

lemma unat_push_or:
  assumes "unat (y :: u32) < 2 ^ n" and "unat x * 2 ^ n + unat y < 2 ^ 32"
  shows "unat (push_bit n x OR y) = unat x * 2 ^ n + unat y"
proof -
  have "push_bit n x OR y = push_bit n x + y" using assms(1) by (simp add: or_disjoint take_bit_small)
  also have "\<dots> = of_nat (unat x * 2 ^ n + unat y)" by (simp add: push_bit_eq_mult)
  finally show ?thesis by (simp only: unat_of_nat_u32 [OF assms(2)])
qed

lemma unat_and_63: "unat (w AND 0x3f :: u32) = unat w mod 64"
proof -
  have "(0x3f :: u32) = mask 6" by (simp add: mask_eq_exp_minus_1)
  then have "w AND 0x3f = take_bit 6 w" by (simp only: take_bit_eq_mask)
  then show ?thesis by (simp add: unsigned_take_bit_eq take_bit_eq_mod [of 6 "unat w"])
qed

lemma unat_drop_bit_u32: "unat (drop_bit n w :: u32) = unat w div 2 ^ n"
  by (subst unsigned_drop_bit_eq) (simp add: drop_bit_eq_div take_bit_nat_eq_self)

lemma low_octet_eq: "low_octet w = char_of (unat w mod 256)"
  by (simp add: low_octet_def unsigned_ucast_eq take_bit_eq_mod)

lemma unat_u32_of: "unat (u32_of b) = of_char b"
proof -
  have "(of_char b :: nat) < 4294967296" using of_char_lt [of b] by linarith
  then show ?thesis by (simp add: u32_of_def unat_of_nat_u32)
qed

section \<open>The alphabet\<close>

lemma alphabet_octets:
  "list_all (\<lambda>i. of_char (ALPHABET ! i) = 65 + i) [0..<26]"
  "list_all (\<lambda>i. of_char (ALPHABET ! (26 + i)) = 97 + i) [0..<26]"
  "list_all (\<lambda>i. of_char (ALPHABET ! (52 + i)) = 48 + i) [0..<10]"
  by code_simp+

lemma b64_value_at: "i < 64 \<Longrightarrow> b64_value (ALPHABET ! i) = Inr (of_nat i)"
proof -
  assume i: "i < 64"
  consider (upper) "i < 26" | (lower) "26 \<le> i" "i < 52" | (digit) "52 \<le> i" "i < 62" | "i = 62" | "i = 63"
    using i by linarith
  then show ?thesis
  proof cases
    case upper
    then have "of_char (ALPHABET ! i) = 65 + i" using alphabet_octets(1) by (simp add: list_all_iff)
    with upper show ?thesis by (simp add: b64_value_def)
  next
    case lower
    then have "of_char (ALPHABET ! (26 + (i - 26))) = 97 + (i - 26)"
      using alphabet_octets(2) unfolding list_all_iff by (intro bspec [where x = "i - 26"]) auto
    then have "of_char (ALPHABET ! i) = 71 + i" using lower by simp
    with lower show ?thesis by (simp add: b64_value_def)
  next
    case digit
    then obtain k where k: "i = 52 + k" "k < 10" using le_Suc_ex by force
    then have "of_char (ALPHABET ! i) = 48 + k" using alphabet_octets(3) by (simp add: list_all_iff)
    with k show ?thesis by (simp add: b64_value_def add.commute)
  qed (simp_all add: b64_value_def ALPHABET_def)
qed

lemma b64_value_special: "b64_value (CHR ''='') = Inl NotBase64"
  by (simp add: b64_value_def)

lemma alphabet_plain: "i < 64 \<Longrightarrow> ALPHABET ! i \<noteq> CHR ''='' \<and> \<not> is_ascii_whitespace (ALPHABET ! i)"
proof -
  assume i: "i < 64"
  have "b64_value b = Inl NotBase64" if "is_ascii_whitespace b" for b
    using that by (auto simp: is_ascii_whitespace_def b64_value_def)
  with b64_value_at [OF i] b64_value_special show ?thesis by force
qed

lemma b64_value_Inr:
  assumes "b64_value b = Inr v" shows "unat v < 64 \<and> ALPHABET ! unat v = b"
proof -
  let ?n = "of_char b :: nat"
  have u: "unat (of_nat k :: u8) = k" if "k < 64" for k
    using that by (simp add: unat_of_nat take_bit_nat_eq_self)
  from assms consider
    (upper) "65 \<le> ?n" "?n \<le> 90" "v = of_nat (?n - 65)"
  | (lower) "97 \<le> ?n" "?n \<le> 122" "v = of_nat (?n - 97 + 26)"
  | (digit) "48 \<le> ?n" "?n \<le> 57" "v = of_nat (?n - 48 + 52)"
  | (plus) "b = CHR ''+''" "v = 62" | (slash) "b = CHR ''/''" "v = 63"
    by (auto simp: b64_value_def Let_def split: if_splits)
  then show ?thesis
  proof cases
    case upper
    then have "of_char (ALPHABET ! (?n - 65)) = 65 + (?n - 65)" using alphabet_octets(1) by (simp add: list_all_iff)
    with upper have "ALPHABET ! (?n - 65) = b" by simp
    with upper u [of "?n - 65"] show ?thesis by simp
  next
    case lower
    then have "of_char (ALPHABET ! (26 + (?n - 97))) = 97 + (?n - 97)"
      using alphabet_octets(2) unfolding list_all_iff by (intro bspec [where x = "?n - 97"]) auto
    with lower have "ALPHABET ! (26 + (?n - 97)) = b" by (simp del: diff_add_assoc)
    moreover have "unat v = 26 + (?n - 97)" using lower u [of "?n - 97 + 26"] by simp
    ultimately show ?thesis using lower by simp
  next
    case digit
    then have "of_char (ALPHABET ! (52 + (?n - 48))) = 48 + (?n - 48)"
      using alphabet_octets(3) unfolding list_all_iff by (intro bspec [where x = "?n - 48"]) auto
    with digit have "ALPHABET ! (52 + (?n - 48)) = b" by (simp del: diff_add_assoc)
    moreover have "unat v = 52 + (?n - 48)" using digit u [of "?n - 48 + 52"] by simp
    ultimately show ?thesis using digit by simp
  next
    case plus
    then show ?thesis by (simp add: ALPHABET_def)
  next
    case slash
    then show ?thesis by (simp add: ALPHABET_def)
  qed
qed

lemma alphabet_at_eq: "alphabet_at w = ALPHABET ! (unat w mod 64)"
  by (simp add: alphabet_at_def unat_and_63)

section \<open>One group\<close>

text \<open>The 24 bits of a group, as a number.\<close>

lemma encode_chunk_bits:
  fixes a b c :: byte
  shows "unat (push_bit 16 (u32_of a) OR push_bit 8 (u32_of b) OR u32_of c) =
    of_char a * 65536 + of_char b * 256 + of_char c"
proof -
  have lt: "(of_char a :: nat) < 256" "(of_char b :: nat) < 256" "(of_char c :: nat) < 256" by (rule of_char_lt)+
  have sum2: "of_char b * 256 + of_char c < (65536 :: nat)"
    and sum3: "of_char a * 65536 + (of_char b * 256 + of_char c) < (4294967296 :: nat)"
    using lt by linarith+
  have c: "unat (u32_of c) < 2 ^ 8" and bc: "unat (u32_of b) * 2 ^ 8 + unat (u32_of c) < 2 ^ 16"
    using lt sum2 by (simp_all add: unat_u32_of)
  then have low: "unat (push_bit 8 (u32_of b) OR u32_of c) = unat (u32_of b) * 2 ^ 8 + unat (u32_of c)"
    by (intro unat_push_or) simp_all
  have "unat (u32_of a) * 2 ^ 16 + unat (push_bit 8 (u32_of b) OR u32_of c) < 2 ^ 32"
    using sum3 unfolding low by (simp add: unat_u32_of)
  with bc have "unat (push_bit 16 (u32_of a) OR (push_bit 8 (u32_of b) OR u32_of c)) =
      unat (u32_of a) * 2 ^ 16 + unat (push_bit 8 (u32_of b) OR u32_of c)"
    by (intro unat_push_or) (simp_all add: low)
  then show ?thesis unfolding low by (simp add: unat_u32_of or.assoc)
qed

lemma six_bits:
  assumes "unat bits < 2 ^ 26" and "unat v < 64"
  shows "unat (push_bit 6 bits OR ucast (v :: u8) :: u32) = unat bits * 64 + unat v"
proof -
  have "unat (ucast v :: u32) = unat v"
    using assms(2) by (simp add: unsigned_ucast_eq take_bit_nat_eq_self)
  with assms show ?thesis by (subst unat_push_or) simp_all
qed

lemma quad_bits_alphabet:
  "unat bits < 64 ^ k \<Longrightarrow> k + length vs \<le> 4 \<Longrightarrow> \<forall>v \<in> set vs. v < 64 \<Longrightarrow> \<not> l \<or> at + length vs \<le> 4 - p \<Longrightarrow>
     \<exists>bits'. quad_bits l p at bits (map ((!) ALPHABET) vs @ rest) = quad_bits l p (at + length vs) bits' rest \<and>
       unat bits' = foldl (\<lambda>n v. n * 64 + v) (unat bits) vs"
proof (induction vs arbitrary: at bits k)
  case (Cons v vs)
  have "64 ^ k \<le> (64 :: nat) ^ 3" using Cons.prems(2) by (intro power_increasing) auto
  then have small: "unat bits < 2 ^ 26" using Cons.prems(1) by simp
  let ?b = "push_bit 6 bits OR ucast (of_nat v :: u8) :: u32"
  have "unat (of_nat v :: u8) = v" using Cons.prems(3) by (simp add: unat_of_nat take_bit_nat_eq_self)
  then have b: "unat ?b = unat bits * 64 + v" using six_bits [OF small, of "of_nat v"] Cons.prems(3) by simp
  have "unat ?b < 64 ^ Suc k"
  proof -
    have "unat bits * 64 + v < (unat bits + 1) * 64" using Cons.prems(3) by simp
    also have "\<dots> \<le> 64 ^ k * 64" using Cons.prems(1) by simp
    finally show ?thesis by (simp add: b mult.commute)
  qed
  moreover have "quad_bits l p at bits (map ((!) ALPHABET) (v # vs) @ rest) =
      quad_bits l p (at + 1) ?b (map ((!) ALPHABET) vs @ rest)"
    using Cons.prems(3,4) by (auto simp: quad_bits.simps b64_value_at)
  ultimately show ?case
    using Cons.IH [of ?b "Suc k" "at + 1"] Cons.prems by (simp add: b)
qed (auto intro: exI)

lemma quad_bits_pad:
  assumes "unat bits < 2 ^ 26" and "at \<ge> 4 - p"
  shows "\<exists>bits'. quad_bits True p at bits (b # bs) = quad_bits True p (at + 1) bits' bs \<and> unat bits' = unat bits * 64"
  using six_bits [OF assms(1), of 0] assms(2)
  by (intro exI [of _ "push_bit 6 bits OR 0"]) (auto simp: quad_bits.simps)

text \<open>What a quad of characters from the alphabet decodes to, with no, one or two paddings.\<close>

lemma decode_quad_full:
  assumes "p < 64" "q < 64" "r < 64" "s < 64"
  shows "decode_quad l [ALPHABET ! p, ALPHABET ! q, ALPHABET ! r, ALPHABET ! s] =
    (let n = ((p * 64 + q) * 64 + r) * 64 + s
     in Inr [char_of (n div 65536), char_of (n div 256 mod 256), char_of (n mod 256)])"
proof -
  obtain b where b: "quad_bits l 0 0 0 [ALPHABET ! p, ALPHABET ! q, ALPHABET ! r, ALPHABET ! s] = Inr b"
    "unat b = ((p * 64 + q) * 64 + r) * 64 + s"
    using quad_bits_alphabet [of 0 0 "[p, q, r, s]" l 0 0 "[]"] assms by (auto simp: quad_bits.simps(1))
  show ?thesis
    using alphabet_plain [OF assms(3)] alphabet_plain [OF assms(4)] assms b
    by (cases l) (simp_all add: decode_quad_def low_octet_eq unat_drop_bit_u32 Let_def)
qed

lemma decode_quad_pad1:
  assumes "p < 64" "q < 64" "r < 64"
  shows "decode_quad True [ALPHABET ! p, ALPHABET ! q, ALPHABET ! r, CHR ''=''] =
    (let n = (p * 64 + q) * 64 + r
     in if n mod 4 \<noteq> 0 then Inl NotBase64 else Inr [char_of (n div 1024), char_of (n div 4 mod 256)])"
proof -
  obtain b3 where b3: "quad_bits True 1 0 0 [ALPHABET ! p, ALPHABET ! q, ALPHABET ! r, CHR ''=''] = quad_bits True 1 3 b3 ''=''"
    "unat b3 = (p * 64 + q) * 64 + r"
    using quad_bits_alphabet [of 0 0 "[p, q, r]" True 0 1 "''=''"] assms by (auto simp: numeral_3_eq_3)
  obtain b where b: "quad_bits True 1 3 b3 ''='' = Inr b" "unat b = ((p * 64 + q) * 64 + r) * 64"
    using quad_bits_pad [of b3 1 3 "CHR ''=''" "[]"] assms b3(2) by (auto simp: quad_bits.simps(1))
  have "b AND 255 = 0 \<longleftrightarrow> unat b mod 256 = 0"
  proof -
    have "(255 :: u32) = mask 8" by (simp add: mask_eq_exp_minus_1)
    then have "b AND 255 = take_bit 8 b" by (simp only: take_bit_eq_mask)
    then have "unat (b AND 255) = unat b mod 256" by (simp add: unsigned_take_bit_eq take_bit_eq_mod [of 8 "unat b"])
    then show ?thesis by (metis unat_eq_zero)
  qed
  also have "\<dots> \<longleftrightarrow> ((p * 64 + q) * 64 + r) mod 4 = 0"
    unfolding b(2) using mod_mult_mult2 [of "(p * 64 + q) * 64 + r" 64 4] by simp
  finally have low: "b AND 255 = 0 \<longleftrightarrow> ((p * 64 + q) * 64 + r) mod 4 = 0" .
  have "unat b div 65536 = ((p * 64 + q) * 64 + r) div 1024" "unat b div 256 = ((p * 64 + q) * 64 + r) div 4"
    unfolding b(2) using div_mult_mult2 [of 64 "(p * 64 + q) * 64 + r" 1024]
      div_mult_mult2 [of 64 "(p * 64 + q) * 64 + r" 4] by simp_all
  then show ?thesis
    using alphabet_plain [OF assms(3)] b3 b low
    by (simp add: decode_quad_def low_octet_eq unat_drop_bit_u32 Let_def)
qed

lemma decode_quad_pad2:
  assumes "p < 64" "q < 64"
  shows "decode_quad True [ALPHABET ! p, ALPHABET ! q, CHR ''='', CHR ''=''] =
    (let n = p * 64 + q in if n mod 16 \<noteq> 0 then Inl NotBase64 else Inr [char_of (n div 16)])"
proof -
  let ?two = "Suc (Suc 0)"
  obtain b2 where b2: "quad_bits True ?two 0 0 [ALPHABET ! p, ALPHABET ! q, CHR ''='', CHR ''=''] = quad_bits True ?two 2 b2 ''==''"
    "unat b2 = p * 64 + q"
    using quad_bits_alphabet [of 0 0 "[p, q]" True 0 ?two "''==''"] assms by (auto simp: numeral_2_eq_2)
  obtain b3 where b3: "quad_bits True ?two 2 b2 ''=='' = quad_bits True ?two 3 b3 ''=''" "unat b3 = (p * 64 + q) * 64"
    using quad_bits_pad [of b2 ?two 2 "CHR ''=''" "''=''"] assms b2(2) by auto
  obtain b where b: "quad_bits True ?two 3 b3 ''='' = Inr b" "unat b = (p * 64 + q) * 4096"
    using quad_bits_pad [of b3 ?two 3 "CHR ''=''" "[]"] assms b3(2) by (auto simp: quad_bits.simps(1))
  have "b AND 65535 = 0 \<longleftrightarrow> unat b mod 65536 = 0"
  proof -
    have "(65535 :: u32) = mask 16" by (simp add: mask_eq_exp_minus_1)
    then have "b AND 65535 = take_bit 16 b" by (simp only: take_bit_eq_mask)
    then have "unat (b AND 65535) = unat b mod 65536"
      by (simp add: unsigned_take_bit_eq take_bit_eq_mod [of 16 "unat b"])
    then show ?thesis by (metis unat_eq_zero)
  qed
  also have "\<dots> \<longleftrightarrow> (p * 64 + q) mod 16 = 0"
    unfolding b(2) using mod_mult_mult2 [of "p * 64 + q" 4096 16] by simp
  finally have low: "b AND 65535 = 0 \<longleftrightarrow> (p * 64 + q) mod 16 = 0" .
  have "unat b div 65536 = (p * 64 + q) div 16"
    unfolding b(2) using div_mult_mult2 [of 4096 "p * 64 + q" 16] by simp
  then show ?thesis
    using b2 b3 b low by (simp add: decode_quad_def low_octet_eq unat_drop_bit_u32 Let_def)
qed

lemma encode_chunk_cases:
  fixes a b c :: byte
  defines "n3 \<equiv> of_char a * 65536 + of_char b * 256 + of_char c :: nat"
    and "n2 \<equiv> of_char a * 65536 + of_char b * 256 :: nat" and "n1 \<equiv> of_char a * 65536 :: nat"
  shows "encode_chunk [a, b, c] = [ALPHABET ! (n3 div 262144 mod 64), ALPHABET ! (n3 div 4096 mod 64),
           ALPHABET ! (n3 div 64 mod 64), ALPHABET ! (n3 mod 64)]"
    and "encode_chunk [a, b] = [ALPHABET ! (n2 div 262144 mod 64), ALPHABET ! (n2 div 4096 mod 64),
           ALPHABET ! (n2 div 64 mod 64), CHR ''='']"
    and "encode_chunk [a] = [ALPHABET ! (n1 div 262144 mod 64), ALPHABET ! (n1 div 4096 mod 64), CHR ''='', CHR ''='']"
proof -
  have z: "u32_of (char_of (0 :: nat)) = 0" by (simp add: u32_of_def)
  have n3: "unat (push_bit 16 (u32_of a) OR push_bit 8 (u32_of b) OR u32_of c) = n3"
    and n2: "unat (push_bit 16 (u32_of a) OR push_bit 8 (u32_of b) OR 0) = n2"
    and n1: "unat (push_bit 16 (u32_of a) OR push_bit 8 0 OR 0) = n1"
    using encode_chunk_bits [of a b c] encode_chunk_bits [of a b "char_of (0 :: nat)"]
      encode_chunk_bits [of a "char_of (0 :: nat)" "char_of (0 :: nat)"]
    unfolding z n3_def n2_def n1_def by simp_all
  show "encode_chunk [a, b, c] = [ALPHABET ! (n3 div 262144 mod 64), ALPHABET ! (n3 div 4096 mod 64),
           ALPHABET ! (n3 div 64 mod 64), ALPHABET ! (n3 mod 64)]"
    using n3 by (simp add: encode_chunk_def alphabet_at_eq unat_drop_bit_u32 Let_def)
  show "encode_chunk [a, b] = [ALPHABET ! (n2 div 262144 mod 64), ALPHABET ! (n2 div 4096 mod 64),
           ALPHABET ! (n2 div 64 mod 64), CHR ''='']"
    using n2 by (simp add: encode_chunk_def alphabet_at_eq unat_drop_bit_u32 Let_def)
  show "encode_chunk [a] = [ALPHABET ! (n1 div 262144 mod 64), ALPHABET ! (n1 div 4096 mod 64), CHR ''='', CHR ''='']"
    using n1 by (simp add: encode_chunk_def alphabet_at_eq unat_drop_bit_u32 Let_def)
qed

text \<open>A group of octets, in the shape its position allows.\<close>

definition group_ok :: "bool \<Rightarrow> bytes \<Rightarrow> bool" where
  "group_ok l ch \<longleftrightarrow> length ch = 3 \<or> l \<and> length ch \<in> {1, 2}"

lemma group_cases:
  assumes "group_ok l ch"
  obtains a b c where "ch = [a, b, c]" | a b where "ch = [a, b]" "l" | a where "ch = [a]" "l"
  using assms by (auto simp: group_ok_def length_Suc_conv numeral_3_eq_3 numeral_2_eq_2)

text \<open>Six bits at a time, and eight bits at a time.\<close>

lemma sextets:
  fixes n :: nat assumes "n < 16777216"
  shows "((n div 262144 mod 64 * 64 + n div 4096 mod 64) * 64 + n div 64 mod 64) * 64 + n mod 64 = n"
proof -
  have "n div 4096 = n div 64 div 64" "n div 262144 = n div 64 div 64 div 64"
    by (simp_all add: div_mult2_eq [symmetric])
  moreover have "n div 262144 mod 64 = n div 262144" using assms by simp
  ultimately show ?thesis by (simp add: div_mult_mod_eq)
qed

lemma step_256: "z < 256 \<Longrightarrow> (k * 256 + z) div 256 = k \<and> (k * 256 + z) mod 256 = (z :: nat)"
  by simp

lemma step_64: "z < 64 \<Longrightarrow> (k * 64 + z) div 64 = k \<and> (k * 64 + z) mod 64 = (z :: nat)"
  by simp

lemma cancel_64: "m * 64 = k * 64 \<Longrightarrow> m = (k :: nat)"
  by simp

lemma octets:
  fixes x y z :: nat assumes "x < 256" "y < 256" "z < 256"
  shows "(x * 65536 + y * 256 + z) div 65536 = x" "(x * 65536 + y * 256 + z) div 256 mod 256 = y"
    "(x * 65536 + y * 256 + z) mod 256 = z" "x * 65536 + y * 256 + z < 16777216"
proof -
  have "x * 65536 + y * 256 + z = x * 65536 + (y * 256 + z)" "y * 256 + z < 65536" using assms by linarith+
  then show "(x * 65536 + y * 256 + z) div 65536 = x" by simp
  have e: "x * 65536 + y * 256 + z = (x * 256 + y) * 256 + z" by simp
  show "(x * 65536 + y * 256 + z) div 256 mod 256 = y" "(x * 65536 + y * 256 + z) mod 256 = z"
    unfolding e using step_256 [OF assms(3), of "x * 256 + y"] step_256 [OF assms(2), of x] by simp_all
  show "x * 65536 + y * 256 + z < 16777216" using assms by linarith
qed

lemma octets_of:
  fixes n :: nat
  shows "n div 65536 * 65536 + n div 256 mod 256 * 256 + n mod 256 = n"
proof -
  have "n div 65536 = n div 256 div 256" by (simp add: div_mult2_eq [symmetric])
  then have "n div 65536 * 256 + n div 256 mod 256 = n div 256" by (simp add: div_mult_mod_eq)
  then have "(n div 65536 * 256 + n div 256 mod 256) * 256 + n mod 256 = n" by (simp only: div_mult_mod_eq)
  then show ?thesis by (simp add: algebra_simps)
qed

lemma sextets_of:
  fixes a b c d :: nat assumes "a < 64" "b < 64" "c < 64" "d < 64"
  defines "n \<equiv> ((a * 64 + b) * 64 + c) * 64 + d"
  shows "n div 262144 mod 64 = a" "n div 4096 mod 64 = b" "n div 64 mod 64 = c" "n mod 64 = d" "n < 16777216"
proof -
  have d1: "n div 64 = (a * 64 + b) * 64 + c" "n mod 64 = d"
    unfolding n_def by (rule step_64 [OF assms(4), THEN conjunct1], rule step_64 [OF assms(4), THEN conjunct2])
  have "n div 4096 = n div 64 div 64" by (simp add: div_mult2_eq [symmetric])
  then have d2: "n div 4096 = a * 64 + b" unfolding d1 by (simp only: step_64 [OF assms(3)])
  have "n div 262144 = n div 4096 div 64" by (simp add: div_mult2_eq [symmetric])
  then have d3: "n div 262144 = a" unfolding d2 by (simp only: step_64 [OF assms(2)])
  show "n div 262144 mod 64 = a" "n mod 64 = d" using d3 d1 assms by simp_all
  show "n div 4096 mod 64 = b" unfolding d2 by (simp only: step_64 [OF assms(2)])
  show "n div 64 mod 64 = c" unfolding d1 by (simp only: step_64 [OF assms(3)])
  have "n \<le> ((63 * 64 + 63) * 64 + 63) * 64 + 63"
    unfolding n_def using assms(1-4) by (intro add_mono mult_right_mono) auto
  then show "n < 16777216" by simp
qed

lemma decode_encode_chunk:
  assumes "group_ok l ch" shows "decode_quad l (encode_chunk ch) = Inr ch"
  using assms
proof (cases rule: group_cases)
  case (1 a b c)
  note lt = of_char_lt [of a] of_char_lt [of b] of_char_lt [of c]
  show ?thesis
    unfolding 1 encode_chunk_cases(1)
    by (subst decode_quad_full) (simp_all only: Let_def sextets [OF octets(4) [OF lt]] octets [OF lt] char_of_char
        mod_less_divisor zero_less_numeral)
next
  case (2 a b)
  have lt: "of_char a < (256 :: nat)" "of_char b < (256 :: nat)" "(0 :: nat) < 256" by (simp_all only: of_char_lt zero_less_numeral)
  let ?n = "of_char a * 65536 + of_char b * 256 :: nat"
  let ?m = "(?n div 262144 mod 64 * 64 + ?n div 4096 mod 64) * 64 + ?n div 64 mod 64"
  have n: "?n = (of_char a * 1024 + of_char b * 4) * 64" by simp
  have "?n mod 64 = 0" unfolding n by (rule mod_mult_self2_is_0)
  then have "?m * 64 = ?n" using sextets [OF octets(4) [OF lt]] by (simp only: add_0_right)
  from trans [OF this n] have m: "?m = of_char a * 1024 + of_char b * 4" by (rule cancel_64)
  have "(of_char a * 1024 + of_char b * 4) div 1024 = (of_char a :: nat)" using lt by simp
  moreover have "(of_char a * 1024 + of_char b * 4) div 4 mod 256 = (of_char b :: nat)"
  proof -
    have "(of_char a * 1024 + of_char b * 4) div 4 = (of_char a * 256 + of_char b :: nat)" by simp
    then show ?thesis by simp
  qed
  moreover have "(of_char a * 1024 + of_char b * 4) mod 4 = (0 :: nat)"
  proof -
    have "(of_char a * 1024 + of_char b * 4 :: nat) = (of_char a * 256 + of_char b) * 4" by simp
    then show ?thesis by (simp only: mod_mult_self2_is_0)
  qed
  ultimately show ?thesis
    using 2(2) unfolding 2(1) encode_chunk_cases(2)
    by (simp only: ) (subst decode_quad_pad1; simp only: m Let_def mod_less_divisor zero_less_numeral if_False simp_thms char_of_char)
next
  case (3 a)
  have lt: "of_char a < (256 :: nat)" "(0 :: nat) < 256" "(0 :: nat) < 256" by (simp_all only: of_char_lt zero_less_numeral)
  let ?n = "of_char a * 65536 :: nat"
  let ?m = "?n div 262144 mod 64 * 64 + ?n div 4096 mod 64"
  have n: "?n = (of_char a * 1024) * 64" "of_char a * 1024 = of_char a * 16 * (64 :: nat)" by simp_all
  have z: "?n mod 64 = 0" "?n div 64 mod 64 = 0" unfolding n by simp_all
  have "?m * 64 * 64 = ?n" using sextets [of ?n] octets(4) [OF lt] by (simp only: z add_0_right mult_zero_left)
  also have e: "?n = of_char a * 16 * 64 * 64" by simp
  finally have m: "?m = of_char a * 16" by (rule cancel_64 [OF cancel_64])
  have "(of_char a * 16) mod 16 = (0 :: nat)" "(of_char a * 16) div 16 = (of_char a :: nat)" by simp_all
  then show ?thesis
    using 3(2) unfolding 3(1) encode_chunk_cases(3)
    by (simp only: ) (subst decode_quad_pad2; simp only: m Let_def mod_less_divisor zero_less_numeral if_False simp_thms char_of_char)
qed

text \<open>Conversely, whatever a quad decodes to is encoded as that quad again.\<close>

lemma quad_bits_values:
  "quad_bits l p at bits bs = Inr x \<Longrightarrow> i < length bs \<Longrightarrow> \<not> (l \<and> at + i \<ge> 4 - p) \<Longrightarrow>
     \<exists>v < 64. bs ! i = ALPHABET ! v"
proof (induction bs arbitrary: at bits i)
  case (Cons b bs)
  show ?case
  proof (cases i)
    case 0
    with Cons.prems obtain v where "b64_value b = Inr v" by (auto simp: quad_bits.simps bind_res_Inr_iff)
    with b64_value_Inr 0 show ?thesis by (metis nth_Cons_0)
  next
    case (Suc j)
    with Cons.prems Cons.IH [of "at + 1" _ j] show ?thesis by (auto simp: quad_bits.simps bind_res_Inr_iff)
  qed
qed simp

lemma nth_4: "length q = 4 \<Longrightarrow> q = [q ! 0, q ! 1, q ! 2, q ! 3]"
  by (auto simp: list_eq_iff_nth_eq less_Suc_eq numeral_eq_Suc)

lemma encode_decode_quad:
  assumes "decode_quad l quad = Inr out" and "length quad = 4"
  shows "group_ok l out \<and> encode_chunk out = quad"
proof -
  define p where "p = (if l then (if quad ! 3 = CHR ''='' then 1 else 0) + (if quad ! 2 = CHR ''='' then 1 else 0) else (0::nat))"
  obtain x where x: "quad_bits l p 0 0 quad = Inr x"
    using assms(1) by (auto simp: decode_quad_def Let_def bind_res_Inr_iff p_def [symmetric] split: if_splits)
  have p_le: "p \<le> 2" and p_l: "p \<noteq> 0 \<Longrightarrow> l" by (simp_all add: p_def split: if_splits)
  have val: "\<exists>v < 64. quad ! i = ALPHABET ! v" if "i < 4 - p" for i
    using quad_bits_values [OF x, of i] assms(2) that by simp
  obtain a where a: "a < 64" "quad ! 0 = ALPHABET ! a" using val [of 0] p_le by auto
  obtain b where b: "b < 64" "quad ! 1 = ALPHABET ! b" using val [of 1] p_le by force
  consider (full) "p = 0" | (one) "p = 1" | (two) "p = 2" using p_le by linarith
  then show ?thesis
  proof cases
    case full
    obtain c where c: "c < 64" "quad ! 2 = ALPHABET ! c" using val [of 2] full by auto
    obtain d where d: "d < 64" "quad ! 3 = ALPHABET ! d" using val [of 3] full by auto
    have q: "quad = [ALPHABET ! a, ALPHABET ! b, ALPHABET ! c, ALPHABET ! d]"
      using nth_4 [OF assms(2)] a b c d by simp
    define n where "n = ((a * 64 + b) * 64 + c) * 64 + d"
    note six = sextets_of [OF a(1) b(1) c(1) d(1), folded n_def]
    have out: "out = [char_of (n div 65536), char_of (n div 256 mod 256), char_of (n mod 256)]"
      using assms(1) decode_quad_full [OF a(1) b(1) c(1) d(1)] unfolding q n_def by (simp add: Let_def)
    have "n div 65536 < 256" using six(5) by (simp add: less_mult_imp_div_less)
    then have enc: "encode_chunk out = [ALPHABET ! (n div 262144 mod 64), ALPHABET ! (n div 4096 mod 64),
           ALPHABET ! (n div 64 mod 64), ALPHABET ! (n mod 64)]"
      unfolding out encode_chunk_cases(1) by (simp only: of_char_of mod_less mod_mod_trivial octets_of)
    show ?thesis unfolding enc six q by (simp add: out group_ok_def)
  next
    case one
    have l: "l" using p_l one by simp
    obtain c where c: "c < 64" "quad ! 2 = ALPHABET ! c" using val [of 2] one by auto
    have "quad ! 3 = CHR ''=''"
      using one l c(2) alphabet_plain [OF c(1)] by (auto simp: p_def split: if_splits)
    then have q: "quad = [ALPHABET ! a, ALPHABET ! b, ALPHABET ! c, CHR ''='']"
      using nth_4 [OF assms(2)] a b c by simp
    define m where "m = (a * 64 + b) * 64 + c"
    define n where "n = ((a * 64 + b) * 64 + c) * 64 + 0"
    note six = sextets_of [OF a(1) b(1) c(1) zero_less_numeral, folded n_def]
    have n: "n = m * 64" by (simp add: n_def m_def)
    have out: "m mod 4 = 0" "out = [char_of (m div 1024), char_of (m div 4 mod 256)]"
      using assms(1) l decode_quad_pad1 [OF a(1) b(1) c(1)] unfolding q m_def by (auto simp: Let_def split: if_splits)
    have parts: "n div 65536 = m div 1024" "n div 256 = m div 4" "n mod 256 = 0"
      unfolding n using out(1) div_mult_mult2 [of 64 m 1024] div_mult_mult2 [of 64 m 4] mod_mult_mult2 [of m 64 4] by simp_all
    have "n div 65536 < 256" using six(5) by (simp add: less_mult_imp_div_less)
    then have enc: "encode_chunk out = [ALPHABET ! (n div 262144 mod 64), ALPHABET ! (n div 4096 mod 64),
           ALPHABET ! (n div 64 mod 64), CHR ''='']"
      using octets_of [of n]
      unfolding out(2) encode_chunk_cases(2) parts [symmetric]
      by (simp only: of_char_of mod_less mod_mod_trivial parts(3) add_0_right)
    show ?thesis unfolding enc six q by (simp add: out group_ok_def l)
  next
    case two
    have l: "l" using p_l two by simp
    have "quad ! 2 = CHR ''=''" "quad ! 3 = CHR ''=''" using two l by (auto simp: p_def split: if_splits)
    then have q: "quad = [ALPHABET ! a, ALPHABET ! b, CHR ''='', CHR ''='']"
      using nth_4 [OF assms(2)] a b by simp
    define m where "m = a * 64 + b"
    define n where "n = ((a * 64 + b) * 64 + 0) * 64 + 0"
    note six = sextets_of [OF a(1) b(1) zero_less_numeral zero_less_numeral, folded n_def]
    have n: "n = m * 4096" by (simp add: n_def m_def)
    have out: "m mod 16 = 0" "out = [char_of (m div 16)]"
      using assms(1) l decode_quad_pad2 [OF a(1) b(1)] unfolding q m_def by (auto simp: Let_def split: if_splits)
    have n256: "n = m * 16 * 256" by (simp add: n)
    have d: "n div 256 = m * 16" and z: "n mod 256 = 0" unfolding n256 by simp_all
    have parts: "n div 65536 = m div 16" "n div 256 mod 256 = 0" "n mod 256 = 0"
      using out(1) z div_mult_mult2 [of 4096 m 16] mod_mult_mult2 [of m 16 16] unfolding d by (simp_all add: n)
    have "n div 65536 < 256" using six(5) by (simp add: less_mult_imp_div_less)
    then have enc: "encode_chunk out = [ALPHABET ! (n div 262144 mod 64), ALPHABET ! (n div 4096 mod 64), CHR ''='', CHR ''='']"
      using octets_of [of n]
      unfolding out(2) encode_chunk_cases(3) parts(1) [symmetric]
      by (simp only: of_char_of mod_less parts(2,3) add_0_right mult_zero_left)
    show ?thesis unfolding enc six q by (simp add: out group_ok_def l)
  qed
qed

section \<open>Whole texts\<close>

lemma chunks_Nil [simp]: "chunks n [] = []"
  by (simp add: chunks.simps)

lemma chunks_Cons: "xs \<noteq> [] \<Longrightarrow> 0 < n \<Longrightarrow> chunks n xs = take n xs # chunks n (drop n xs)"
  by (simp add: chunks.simps)

lemma length_encode_chunk [simp]: "length (encode_chunk ch) = 4"
  by (simp add: encode_chunk_def Let_def)

lemma chunks_4_append: "length q = 4 \<Longrightarrow> chunks 4 (q @ r) = q # chunks 4 r"
  by (cases q) (simp_all add: chunks_Cons)

text \<open>The data in groups of three, only the last one possibly shorter.\<close>

fun groups_ok :: "bytes list \<Rightarrow> bool" where
  "groups_ok [] = True"
| "groups_ok (g # gs) \<longleftrightarrow> group_ok (gs = []) g \<and> groups_ok gs"

lemma groups_chunks: "groups_ok (chunks 3 data) \<and> concat (chunks 3 data) = data"
proof (induction data rule: length_induct)
  case (1 data)
  show ?case
  proof (cases "data = []")
    case False
    then have "length (drop 3 data) < length data" by simp
    with 1 have IH: "groups_ok (chunks 3 (drop 3 data)) \<and> concat (chunks 3 (drop 3 data)) = drop 3 data" by blast
    have empty: "chunks 3 (drop 3 data) = [] \<longleftrightarrow> length data \<le> 3" by (subst chunks.simps) simp
    have "group_ok (chunks 3 (drop 3 data) = []) (take 3 data)"
      using False unfolding empty group_ok_def by (cases "length data") auto
    with False IH show ?thesis by (simp add: chunks_Cons)
  qed simp
qed

lemma chunks_groups: "groups_ok gs \<Longrightarrow> chunks 3 (concat gs) = gs"
proof (induction gs)
  case (Cons g gs)
  show ?case
  proof (cases "gs = []")
    case True
    with Cons.prems have "g \<noteq> [] \<and> length g \<le> 3" by (auto simp: group_ok_def)
    with True show ?thesis by (simp add: chunks_Cons)
  next
    case False
    with Cons.prems have "length g = 3" by (simp add: group_ok_def)
    moreover from this have "g \<noteq> []" by auto
    ultimately show ?thesis using Cons by (simp add: chunks_Cons)
  qed
qed simp

lemma decode_quads_encode:
  "groups_ok gs \<Longrightarrow> count = index + length gs \<Longrightarrow>
     decode_quads count index (map encode_chunk gs) decoded = Inr (decoded @ concat gs)"
proof (induction gs arbitrary: index decoded)
  case (Cons g gs)
  have "(index = count - 1) = (gs = [])" using Cons.prems(2) by (cases gs) auto
  then have "decode_quad (index = count - 1) (encode_chunk g) = Inr g"
    using Cons.prems(1) decode_encode_chunk [of "gs = []" g] by simp
  with Cons show ?case by simp
qed simp

lemma decode_quads_decoded:
  "decode_quads count index quads decoded = Inr out \<Longrightarrow> count = index + length quads \<Longrightarrow>
   \<forall>q \<in> set quads. length q = 4 \<Longrightarrow>
     \<exists>gs. groups_ok gs \<and> quads = map encode_chunk gs \<and> out = decoded @ concat gs"
proof (induction quads arbitrary: index decoded)
  case (Cons q quads)
  from Cons.prems(1) obtain g where g: "decode_quad (index = count - 1) q = Inr g"
    and rest: "decode_quads count (index + 1) quads (decoded @ g) = Inr out"
    by (auto simp: bind_res_Inr_iff)
  have l: "(index = count - 1) = (quads = [])" using Cons.prems(2) by (cases quads) auto
  from Cons.IH [OF rest] Cons.prems obtain gs where
    gs: "groups_ok gs" "quads = map encode_chunk gs" "out = (decoded @ g) @ concat gs" by auto
  from encode_decode_quad [OF g] Cons.prems(3) l gs show ?case
    by (intro exI [of _ "g # gs"]) auto
qed simp

lemma chunks_4_map: "chunks 4 (concat (map encode_chunk gs)) = map encode_chunk gs"
  by (induction gs) (simp_all add: chunks_4_append)

lemma chunks_4_all:
  "length xs mod 4 = 0 \<Longrightarrow> (\<forall>q \<in> set (chunks 4 xs). length q = 4) \<and> length (chunks 4 xs) = length xs div 4 \<and>
     concat (chunks 4 xs) = xs"
proof (induction xs rule: length_induct)
  case (1 xs)
  show ?case
  proof (cases "xs = []")
    case False
    then have len: "4 \<le> length xs" using "1.prems" by (cases "length xs < 4") auto
    then have lt: "length (drop 4 xs) < length xs" and m: "length (drop 4 xs) mod 4 = 0"
      using "1.prems" by (simp_all add: le_mod_geq)
    note ih = "1.IH" [THEN spec, THEN mp, THEN mp, OF lt m]
    have IH: "\<forall>q \<in> set (chunks 4 (drop 4 xs)). length q = 4" "concat (chunks 4 (drop 4 xs)) = drop 4 xs"
      "length (chunks 4 (drop 4 xs)) = length (drop 4 xs) div 4"
      by (rule ih [THEN conjunct1] ih [THEN conjunct2, THEN conjunct2] ih [THEN conjunct2, THEN conjunct1])+
    have c: "chunks 4 xs = take 4 xs # chunks 4 (drop 4 xs)" using False by (rule chunks_Cons) simp
    have "length (chunks 4 xs) = Suc (length (drop 4 xs) div 4)" unfolding c list.size IH(3) by simp
    also have "\<dots> = length xs div 4" using len by (simp add: le_div_geq)
    finally have "length (chunks 4 xs) = length xs div 4" .
    moreover have "concat (chunks 4 xs) = xs" unfolding c concat.simps IH(2) by (rule append_take_drop_id)
    moreover have "\<forall>q \<in> set (chunks 4 xs). length q = 4"
      unfolding c list.set ball_simps using IH(1) len by (auto simp only: length_take min_def split: if_splits)
    ultimately show ?thesis by blast
  qed simp
qed

lemma alphabet_at_plain: "\<not> is_ascii_whitespace (alphabet_at w)"
  unfolding alphabet_at_eq by (rule alphabet_plain [THEN conjunct2]) simp

lemma encode_no_ws: "groups_ok gs \<Longrightarrow> \<forall>b \<in> set (concat (map encode_chunk gs)). \<not> is_ascii_whitespace b"
proof (induction gs)
  case (Cons g gs)
  have "\<not> is_ascii_whitespace b" if "b \<in> set (encode_chunk g)" for b
    using that alphabet_at_plain by (auto simp: encode_chunk_def Let_def split: if_splits) (simp_all add: is_ascii_whitespace_def)
  with Cons show ?case by auto
qed simp

lemma b64_decode_iff:
  "b64_decode txt = Inr data \<longleftrightarrow> filter (\<lambda>b. \<not> is_ascii_whitespace b) txt = b64_encode data"
proof
  let ?p = "filter (\<lambda>b. \<not> is_ascii_whitespace b) txt"
  assume "b64_decode txt = Inr data"
  then have len: "length ?p mod 4 = 0" and d: "decode_quads (length ?p div 4) 0 (chunks 4 ?p) [] = Inr data"
    by (auto simp: b64_decode_def Let_def split: if_splits)
  note all = chunks_4_all [OF len]
  from decode_quads_decoded [OF d] all obtain gs where
    gs: "groups_ok gs" "chunks 4 ?p = map encode_chunk gs" "data = concat gs" by auto
  have "?p = concat (map encode_chunk gs)" using all gs(2) by metis
  then show "?p = b64_encode data" unfolding b64_encode_def gs(3) chunks_groups [OF gs(1)] .
next
  let ?p = "filter (\<lambda>b. \<not> is_ascii_whitespace b) txt" and ?gs = "chunks 3 data"
  assume p: "?p = b64_encode data"
  have gs: "groups_ok ?gs" "concat ?gs = data" using groups_chunks by blast+
  have len: "length (b64_encode data) = 4 * length ?gs"
    by (simp add: b64_encode_def length_concat comp_def sum_list_triv)
  have "decode_quads (length ?gs) 0 (map encode_chunk ?gs) [] = Inr ([] @ concat ?gs)"
    by (rule decode_quads_encode [OF gs(1)]) simp
  with gs(2) show "b64_decode txt = Inr data"
    unfolding b64_decode_def p Let_def len by (simp add: b64_encode_def chunks_4_map)
qed

lemma b64_decode_encode: "b64_decode (b64_encode data) = Inr data"
  using encode_no_ws [of "chunks 3 data"] groups_chunks by (simp add: b64_decode_iff b64_encode_def filter_id_conv)

section \<open>Properties\<close>

text \<open>
  C18 (roundtrip). Decoding is exactly the inverse of encoding, white space aside: every octet
  string is decoded from its encoding, and a text is accepted only if, white space removed, it
  is the encoding of the result. In particular there is one accepted spelling for each octet
  string: no stray padding and no bits set under the padding.
\<close>

theorem base64_exact:
  "b64_decode (b64_encode data) = Inr data \<and>
   (b64_decode txt = Inr data \<longleftrightarrow> filter (\<lambda>b. \<not> is_ascii_whitespace b) txt = b64_encode data)"
  by (simp add: b64_decode_encode) (simp add: b64_decode_iff)

end
