(* ===== verification/Text.thy ===== *)
theory Text
  imports Utf8 Mime Base64
begin

text \<open>
  More of Rust's \<open>str\<close> for the handshake of the WebSocket binding and the SASL mechanisms:
  trimming one end, splitting, replacing, decimal and hexadecimal numbers. A \<open>str\<close> is its
  UTF-8 octets, and white space is the Unicode property \<open>white_space\<close> of \<^verbatim>\<open>Utf8\<close>.
\<close>

section \<open>White space\<close>

definition trim_start :: "bytes \<Rightarrow> bytes" where
  "trim_start s = strip_all white_space s"

definition trim_end :: "bytes \<Rightarrow> bytes" where
  "trim_end s = rev (strip_all (map rev white_space) (rev s))"

lemma str_trim_ends: "str_trim s = trim_end (trim_start s)"
  by (simp add: str_trim_def trim_start_def trim_end_def)

text \<open>The octets of the white-space character at the front, if there is one there.\<close>

definition space_at :: "bytes \<Rightarrow> nat" where
  "space_at s = (case find (\<lambda>sp. starts_with s sp) white_space of None \<Rightarrow> 0 | Some sp \<Rightarrow> length sp)"

section \<open>Splitting\<close>

text \<open>\<open>split_whitespace\<close>: the runs between white space; \<open>acc\<close> is the run being read.\<close>

function words_loop :: "bytes \<Rightarrow> bytes \<Rightarrow> bytes list" where
  "words_loop acc s =
     (case s of
        [] \<Rightarrow> (if acc = [] then [] else [acc])
      | c # cs \<Rightarrow>
          if space_at s = 0 then words_loop (acc @ [c]) cs
          else (if acc = [] then [] else [acc]) @ words_loop [] (drop (space_at s) s))"
  by pat_completeness auto
termination
  by (relation "measure (\<lambda>(acc, s). length s)") auto

declare words_loop.simps [simp del]

definition split_whitespace :: "bytes \<Rightarrow> bytes list" where
  "split_whitespace s = words_loop [] s"

text \<open>\<open>split\<close> on a separator that is a string.\<close>

function split_str :: "bytes \<Rightarrow> bytes \<Rightarrow> bytes \<Rightarrow> bytes list" where
  "split_str sep acc s =
     (case s of
        [] \<Rightarrow> [acc]
      | c # cs \<Rightarrow>
          if sep \<noteq> [] \<and> starts_with s sep then acc # split_str sep [] (drop (length sep) s)
          else split_str sep (acc @ [c]) cs)"
  by pat_completeness auto
termination
  by (relation "measure (\<lambda>(sep, acc, s). length s)") auto

declare split_str.simps [simp del]

definition split_once :: "bytes \<Rightarrow> byte \<Rightarrow> (bytes \<times> bytes) option" where
  "split_once s c = (case find_byte s c of None \<Rightarrow> None | Some i \<Rightarrow> Some (take i s, drop (i + 1) s))"

text \<open>\<open>parse::<u16>\<close>: an optional plus sign and digits.\<close>

definition parse_u16 :: "bytes \<Rightarrow> nat option" where
  "parse_u16 s =
     (let ds = (case s of c # cs \<Rightarrow> if c = CHR ''+'' then cs else s | [] \<Rightarrow> s)
      in if ds \<noteq> [] \<and> (\<forall>d \<in> set ds. is_ascii_digit d) \<and> dec_val 0 ds < 65536 then Some (dec_val 0 ds) else None)"

section \<open>Octets that may not be text\<close>

text \<open>
  \<open>String::from_utf8_lossy\<close>: every character is kept, and every maximal beginning of a character
  that goes wrong is one U+FFFD.
\<close>

definition bad_length :: "bytes \<Rightarrow> nat" where
  "bad_length s =
     (case s of
        b # c # r \<Rightarrow>
          if utf8_lead3 b c then 2
          else if utf8_lead4 b c then (case r of d # _ \<Rightarrow> if utf8_cont d then 3 else 2 | [] \<Rightarrow> 2)
          else 1
      | _ \<Rightarrow> 1)"

function from_utf8_lossy :: "bytes \<Rightarrow> bytes" where
  "from_utf8_lossy s =
     (if s = [] then []
      else case utf8_step s of
        Some r \<Rightarrow> take (length s - length r) s @ from_utf8_lossy r
      | None \<Rightarrow> utf8_encode 0xFFFD @ from_utf8_lossy (drop (bad_length s) s))"
  by pat_completeness auto
termination
  by (relation "measure length") (auto simp: bad_length_def dest: utf8_step_shrinks split: list.split)

declare from_utf8_lossy.simps [simp del]

lemma lossy_id: "utf8_valid s \<Longrightarrow> from_utf8_lossy s = s"
proof (induction s rule: from_utf8_lossy.induct)
  case (1 s)
  show ?case
  proof (cases "s = []")
    case False
    then obtain r where r: "utf8_step s = Some r" "utf8_valid r"
      using 1(3) by (subst (asm) utf8_valid.simps) (auto split: option.splits)
    obtain p where "s = p @ r" using r(1) by (rule utf8_stepE)
    with 1(2) [OF False r(1) r(2)] r False show ?thesis by (subst from_utf8_lossy.simps) simp
  qed (simp add: from_utf8_lossy.simps)
qed

section \<open>Graphic octets\<close>

definition graphic :: "byte \<Rightarrow> bool" where
  "graphic c \<longleftrightarrow> (33 :: nat) \<le> of_char c \<and> of_char c \<le> (126 :: nat)"

lemma white_space_octets:
  "white_space = map (map (char_of :: nat \<Rightarrow> char))
     [[9], [10], [11], [12], [13], [32], [0xC2, 0x85], [0xC2, 0xA0], [0xE1, 0x9A, 0x80],
      [0xE2, 0x80, 0x80], [0xE2, 0x80, 0x81], [0xE2, 0x80, 0x82], [0xE2, 0x80, 0x83], [0xE2, 0x80, 0x84], [0xE2, 0x80, 0x85],
      [0xE2, 0x80, 0x86], [0xE2, 0x80, 0x87], [0xE2, 0x80, 0x88], [0xE2, 0x80, 0x89], [0xE2, 0x80, 0x8A],
      [0xE2, 0x80, 0xA8], [0xE2, 0x80, 0xA9], [0xE2, 0x80, 0xAF], [0xE2, 0x81, 0x9F], [0xE3, 0x80, 0x80]]"
  unfolding white_space_def utf8_encode_def by simp

lemma spaces_not_graphic: "\<forall>sp \<in> set white_space. sp \<noteq> [] \<and> \<not> graphic (hd sp) \<and> \<not> graphic (last sp)"
  unfolding white_space_octets by code_simp

lemma find_none: "(\<And>x. x \<in> set xs \<Longrightarrow> \<not> P x) \<Longrightarrow> find P xs = None"
  by (simp add: find_None_iff)

lemma find_skip: "ys = xs @ x # zs \<Longrightarrow> \<forall>y \<in> set xs. \<not> P y \<Longrightarrow> P x \<Longrightarrow> find P ys = Some x"
  by (induction xs arbitrary: ys) auto

lemma space_at_graphic: "graphic c \<Longrightarrow> space_at (c # s) = 0"
proof -
  assume g: "graphic c"
  have "\<not> starts_with (c # s) sp" if "sp \<in> set white_space" for sp
    using spaces_not_graphic that g by (cases sp) (auto simp: starts_with_def)
  then have "find (\<lambda>sp. starts_with (c # s) sp) white_space = None" by (rule find_none)
  then show ?thesis by (simp add: space_at_def)
qed

lemma space_at_blank: "space_at (CHR '' '' # s) = 1"
proof -
  have "white_space = [TAB] # [LF] # [CHR 0x0B] # [CHR 0x0C] # [CR] # '' '' # drop 6 white_space"
    unfolding white_space_octets by code_simp
  then have "white_space = [[TAB], [LF], [CHR 0x0B], [CHR 0x0C], [CR]] @ '' '' # drop 6 white_space" by simp
  then have "find (\<lambda>sp. starts_with (CHR '' '' # s) sp) white_space = Some '' ''"
    by (rule find_skip) (simp_all add: starts_with_def)
  then show ?thesis by (simp add: space_at_def)
qed

lemma trim_start_step: "trim_start s = (if space_at s = 0 then s else trim_start (drop (space_at s) s))"
proof -
  have eq: "find (\<lambda>w. w \<noteq> [] \<and> starts_with s w) white_space = find (starts_with s) white_space"
    by (rule find_cong) (auto simp: white_space_not_Nil)
  show ?thesis
  proof (cases "find (starts_with s) white_space")
    case None
    then show ?thesis unfolding trim_start_def by (subst strip_all.simps) (simp add: eq space_at_def)
  next
    case (Some w)
    then have "w \<noteq> []" by (auto simp: find_Some_iff intro!: white_space_not_Nil)
    with Some show ?thesis unfolding trim_start_def by (subst strip_all.simps) (simp add: eq space_at_def)
  qed
qed

text \<open>Text that begins, or ends, with a graphic octet has nothing to trim there.\<close>

lemma trim_start_graphic: "graphic c \<Longrightarrow> trim_start (c # s) = c # s"
  by (subst trim_start_step) (simp add: space_at_graphic)

lemma trim_end_graphic: "graphic c \<Longrightarrow> trim_end (s @ [c]) = s @ [c]"
proof -
  assume g: "graphic c"
  have "\<not> starts_with (rev (s @ [c])) (rev sp)" if "sp \<in> set white_space" for sp
    using spaces_not_graphic that g by (cases sp rule: rev_cases) (auto simp: starts_with_def)
  then have "find (\<lambda>w. w \<noteq> [] \<and> starts_with (rev (s @ [c])) w) (map rev white_space) = None"
    by (auto simp: find_None_iff)
  then show ?thesis unfolding trim_end_def by (subst strip_all.simps) simp
qed

lemma trim_start_id: "v \<noteq> [] \<Longrightarrow> graphic (hd v) \<Longrightarrow> trim_start v = v"
  by (cases v) (simp_all add: trim_start_graphic)

lemma trim_end_id: "v \<noteq> [] \<Longrightarrow> graphic (last v) \<Longrightarrow> trim_end v = v"
  by (cases v rule: rev_cases) (simp_all add: trim_end_graphic)

lemma trim_Nil [simp]: "trim_start [] = []" "trim_end [] = []" "str_trim [] = []"
proof -
  have "strip_all ws [] = []" for ws by (subst strip_all.simps) (auto simp: starts_with_def find_Some_iff split: option.split)
  then show "trim_start [] = []" "trim_end [] = []" "str_trim [] = []"
    by (simp_all add: trim_start_def trim_end_def str_trim_def)
qed

lemma trim_graphic:
  assumes "graphic (hd v)" and "graphic (last v)" and "v \<noteq> []"
  shows "str_trim v = v" "str_trim (CHR '' '' # v) = v"
proof -
  have "trim_start (CHR '' '' # v) = trim_start v"
    by (subst trim_start_step) (simp add: space_at_blank)
  with assms show "str_trim v = v" "str_trim (CHR '' '' # v) = v" by (simp_all add: str_trim_ends trim_start_id trim_end_id)
qed

lemma graphic_ends: "\<forall>c \<in> set v. graphic c \<Longrightarrow> v \<noteq> [] \<Longrightarrow> graphic (hd v) \<and> graphic (last v)"
  by simp

lemma graphic_no_CR: "\<forall>c \<in> set v. graphic c \<Longrightarrow> CR \<notin> set v"
  by (auto simp: graphic_def)

lemma words_graphic: "\<forall>c \<in> set w. graphic c \<Longrightarrow> words_loop acc (w @ s) = words_loop (acc @ w) s"
proof (induction w arbitrary: acc)
  case (Cons c w)
  then show ?case by (subst words_loop.simps) (simp add: space_at_graphic)
qed simp

lemma split_whitespace_first:
  assumes "\<forall>c \<in> set w. graphic c" and "w \<noteq> []"
  shows "split_whitespace (w @ CHR '' '' # s) = w # split_whitespace s"
proof -
  have "words_loop w (CHR '' '' # s) = w # words_loop [] s"
    using assms(2) by (subst words_loop.simps) (simp add: space_at_blank)
  then show ?thesis using words_graphic [OF assms(1), of "[]"] by (simp add: split_whitespace_def)
qed

lemma split_str_line: "CR \<notin> set l \<Longrightarrow> split_str CRLF acc (l @ CRLF @ rest) = (acc @ l) # split_str CRLF [] rest"
proof (induction l arbitrary: acc)
  case Nil
  show ?case by (subst split_str.simps) (simp add: starts_with_def)
next
  case (Cons c l)
  then have "\<not> starts_with (c # l @ CRLF @ rest) CRLF" by (auto simp: starts_with_def)
  with Cons show ?case by (subst split_str.simps) simp
qed

lemma split_str_end: "split_str sep acc [] = [acc]"
  by (simp add: split_str.simps)

lemma split_str_none: "CHR '','' \<notin> set s \<Longrightarrow> split_str '','' acc s = [acc @ s]"
proof (induction s arbitrary: acc)
  case (Cons c s)
  then show ?case by (subst split_str.simps) (auto simp: starts_with_def)
qed (simp add: split_str_end)

lemma split_str_comma: "CHR '','' \<notin> set a \<Longrightarrow> split_str '','' acc (a @ CHR '','' # rest) = (acc @ a) # split_str '','' [] rest"
proof (induction a arbitrary: acc)
  case Nil
  show ?case by (subst split_str.simps) (simp add: starts_with_def)
next
  case (Cons c a)
  then show ?case by (subst split_str.simps) (auto simp: starts_with_def)
qed

lemma split_once_first: "c \<notin> set a \<Longrightarrow> split_once (a @ c # b) c = Some (a, b)"
  by (simp add: split_once_def find_byte_first)

lemma map_filter_Cons: "List.map_filter f (x # xs) = (case f x of None \<Rightarrow> List.map_filter f xs | Some y \<Rightarrow> y # List.map_filter f xs)"
  by (auto simp: List.map_filter_def)

lemma map_filter_Nil: "List.map_filter f [] = []"
  by (simp add: List.map_filter_def)

text \<open>Base64 is graphic.\<close>

lemma alphabet_graphic: "\<forall>c \<in> set ALPHABET. graphic c"
  by code_simp

lemma b64_graphic: "\<forall>c \<in> set (b64_encode data). graphic c"
proof -
  have "length ALPHABET = 64" by code_simp
  then have at: "graphic (alphabet_at w)" for w
    using alphabet_graphic nth_mem [of "unat w mod 64" ALPHABET] unfolding alphabet_at_eq by simp
  have "graphic (CHR ''='')" by (simp add: graphic_def)
  with at have "\<forall>c \<in> set (encode_chunk ch). graphic c" for ch by (simp add: encode_chunk_def Let_def)
  then show ?thesis by (auto simp: b64_encode_def)
qed

lemma b64_not_Nil: "data \<noteq> [] \<Longrightarrow> b64_encode data \<noteq> []"
  by (simp add: b64_encode_def chunks_Cons encode_chunk_def Let_def)

lemma graphic_utf8: "\<forall>c \<in> set s. graphic c \<Longrightarrow> utf8_valid s"
  by (rule utf8_valid_ascii) (auto simp: graphic_def octet_in_def)

section \<open>Searching from the end, replacing, hexadecimal\<close>

text \<open>\<open>rsplit_once\<close>: at the last place where the separator stands.\<close>

definition rsplit_once :: "bytes \<Rightarrow> bytes \<Rightarrow> (bytes \<times> bytes) option" where
  "rsplit_once s sep =
     map_option (\<lambda>i. (take i s, drop (i + length sep) s))
       (find (\<lambda>i. starts_with (drop i s) sep) (rev [0 ..< Suc (length s)]))"

function replace_str :: "bytes \<Rightarrow> bytes \<Rightarrow> bytes \<Rightarrow> bytes" where
  "replace_str pat rep s =
     (case s of
        [] \<Rightarrow> []
      | c # cs \<Rightarrow>
          if pat \<noteq> [] \<and> starts_with s pat then rep @ replace_str pat rep (drop (length pat) s)
          else c # replace_str pat rep cs)"
  by pat_completeness auto
termination
  by (relation "measure (\<lambda>(pat, rep, s). length s)") auto

declare replace_str.simps [simp del]

definition hex_digit :: "nat \<Rightarrow> byte" where
  "hex_digit n = ''0123456789abcdef'' ! n"

definition hex :: "bytes \<Rightarrow> bytes" where
  "hex bs = concat (map (\<lambda>b. [hex_digit (of_char b div 16), hex_digit (of_char b mod 16)]) bs)"

lemma replace_Nil [simp]: "replace_str pat rep [] = []"
  by (simp add: replace_str.simps)

lemma replace_skip: "\<not> starts_with (c # cs) pat \<Longrightarrow> replace_str pat rep (c # cs) = c # replace_str pat rep cs"
  by (subst replace_str.simps) simp

lemma replace_hit: "pat \<noteq> [] \<Longrightarrow> replace_str pat rep (pat @ s) = rep @ replace_str pat rep s"
proof -
  assume "pat \<noteq> []"
  then obtain c cs where c: "pat @ s = c # cs" by (cases pat) auto
  have "starts_with (pat @ s) pat" "drop (length pat) (pat @ s) = s" by (simp_all add: starts_with_def)
  with \<open>pat \<noteq> []\<close> show ?thesis by (subst replace_str.simps) (simp only: c list.case, simp)
qed

lemma rsplit_once_last:
  assumes "sep \<noteq> []" and "hd sep \<notin> set b" and "hd sep \<notin> set (tl sep)"
  shows "rsplit_once (a @ sep @ b) sep = Some (a, b)"
proof -
  let ?s = "a @ sep @ b" and ?n = "length a"
  obtain c cs where sep: "sep = c # cs" using assms(1) by (cases sep) auto
  have no: "\<not> starts_with (drop i ?s) sep" if "?n < i" for i
  proof
    assume "starts_with (drop i ?s) sep"
    then obtain r where r: "drop i ?s = c # r" by (auto simp: starts_with_iff sep)
    have "drop i ?s = drop (i - ?n - 1) (cs @ b)" using that by (simp add: sep drop_Cons')
    then have "c \<in> set (drop (i - ?n - 1) (cs @ b))" using r by simp
    with assms(2,3) sep show False by (auto dest: in_set_dropD)
  qed
  have "rev [0 ..< Suc (length ?s)] = rev [Suc ?n ..< Suc (length ?s)] @ ?n # rev [0 ..< ?n]"
    using upt_add_eq_append [of 0 ?n "Suc (length sep + length b)"] by (simp add: upt_conv_Cons del: upt_Suc)
  then have "find (\<lambda>i. starts_with (drop i ?s) sep) (rev [0 ..< Suc (length ?s)]) = Some ?n"
  proof (rule find_skip)
    show "\<forall>i \<in> set (rev [Suc ?n ..< Suc (length ?s)]). \<not> starts_with (drop i ?s) sep" using no by (simp del: upt_Suc)
  qed (simp add: starts_with_def)
  then show ?thesis by (simp add: rsplit_once_def)
qed

lemma rsplit_once_Some: "rsplit_once s sep = Some (a, b) \<Longrightarrow> s = a @ sep @ b"
proof -
  assume "rsplit_once s sep = Some (a, b)"
  then obtain i where i: "a = take i s" "b = drop (i + length sep) s" "starts_with (drop i s) sep"
    unfolding rsplit_once_def find_Some_iff map_option_eq_Some by blast
  from i(3) obtain r where r: "drop i s = sep @ r" by (auto simp: starts_with_iff)
  then have "b = r" using i(2) by (metis add.commute append_eq_conv_conj drop_drop)
  with i(1) r show ?thesis by (metis append_take_drop_id)
qed

lemma hex_Cons: "hex (b # bs) = hex_digit (of_char b div 16) # hex_digit (of_char b mod 16) # hex bs"
  by (simp add: hex_def)

lemma hex_digits_plain: "n < 16 \<Longrightarrow> hex_digit n \<in> set ''0123456789abcdef''"
  unfolding hex_digit_def by (rule nth_mem) simp

lemma hex_digit_graphic: "n < 16 \<Longrightarrow> graphic (hex_digit n) \<and> hex_digit n \<noteq> CHR '',''"
proof -
  have "\<forall>c \<in> set ''0123456789abcdef''. graphic c \<and> c \<noteq> CHR '',''" by (simp add: graphic_def)
  moreover assume "n < 16"
  ultimately show ?thesis using hex_digits_plain by blast
qed

lemma hex_graphic: "\<forall>c \<in> set (hex bs). graphic c \<and> c \<noteq> CHR '',''"
proof (induction bs)
  case (Cons b bs)
  have "of_char b div 16 < (16 :: nat)" using of_char_lt [of b] by linarith
  with Cons hex_digit_graphic [of "of_char b div 16"] hex_digit_graphic [of "of_char b mod 16"] show ?case
    by (simp add: hex_Cons)
qed (simp add: hex_def)

end
