(* ===== verification/SaslBlobs.thy ===== *)
theory SaslBlobs
  imports Text
begin

text \<open>
  \<^verbatim>\<open>vortice-sasl/src/blob.rs\<close>: the \<open><blob>\<close> element that carries every round of a SASL exchange, written
  and read by hand, with its data in Base64.
\<close>

section \<open>Blobs\<close>

datatype status = NoStatus | StatusContinue | StatusComplete | StatusAbort

fun status_attribute :: "status \<Rightarrow> bytes option" where
  "status_attribute NoStatus = None"
| "status_attribute StatusContinue = Some ''continue''"
| "status_attribute StatusComplete = Some ''complete''"
| "status_attribute StatusAbort = Some ''abort''"

definition status_parse :: "bytes \<Rightarrow> status option" where
  "status_parse v =
     (if v = ''continue'' then Some StatusContinue
      else if v = ''complete'' then Some StatusComplete
      else if v = ''abort'' then Some StatusAbort
      else None)"

record blob =
  bl_status :: status
  bl_data :: bytes

definition blob_new :: "bytes \<Rightarrow> blob" where
  "blob_new data = \<lparr>bl_status = NoStatus, bl_data = data\<rparr>"

definition blob_status :: "status \<Rightarrow> blob" where
  "blob_status st = \<lparr>bl_status = st, bl_data = []\<rparr>"

definition blob_with_status :: "status \<Rightarrow> bytes \<Rightarrow> blob" where
  "blob_with_status st data = \<lparr>bl_status = st, bl_data = data\<rparr>"

datatype not_a_blob = NotABlob

definition blob_to_xml :: "blob \<Rightarrow> bytes" where
  "blob_to_xml b =
     (let out = ''<blob'';
          out = (case status_attribute (bl_status b) of
                   Some st \<Rightarrow> out @ '' status='' @ [CHR 0x27] @ st @ [CHR 0x27]
                 | None \<Rightarrow> out)
      in if bl_data b = [] then out @ '' />''
         else out @ ''>'' @ b64_encode (bl_data b) @ ''</blob>'')"

text \<open>The value of an attribute in an open tag, in either kind of quote.\<close>

definition tag_attribute :: "bytes \<Rightarrow> bytes \<Rightarrow> bytes option" where
  "tag_attribute head nm =
     Option.bind (find_subslice head nm) (\<lambda>at.
     let rest = trim_start (drop (at + length nm) head) in
     Option.bind (strip_prefix ''='' rest) (\<lambda>rest.
     case trim_start rest of
       [] \<Rightarrow> None
     | quote # rest \<Rightarrow>
         if quote \<noteq> CHR 0x27 \<and> quote \<noteq> CHR 0x22 then None
         else map_option (\<lambda>fin. take fin rest) (find_byte rest quote)))"

definition strip_suffix :: "bytes \<Rightarrow> bytes \<Rightarrow> bytes option" where
  "strip_suffix suffix s = map_option rev (strip_prefix (rev suffix) (rev s))"

definition trim_end_matches :: "byte \<Rightarrow> bytes \<Rightarrow> bytes" where
  "trim_end_matches c s = rev (dropWhile (\<lambda>x. x = c) (rev s))"

definition ends_with :: "bytes \<Rightarrow> byte \<Rightarrow> bool" where
  "ends_with s c \<longleftrightarrow> s \<noteq> [] \<and> last s = c"

definition blob_from_xml :: "bytes \<Rightarrow> not_a_blob + blob" where
  "blob_from_xml t =
     bind_res (ok_or (strip_prefix ''<blob'' (str_trim t)) NotABlob) (\<lambda>rest.
     case find_byte rest (CHR ''>'') of
       None \<Rightarrow> Inl NotABlob
     | Some at \<Rightarrow>
         let head = take at rest; body = drop (at + 1) rest;
             self_closing = ends_with (trim_end head) (CHR ''/'');
             head = trim_end_matches (CHR ''/'') (trim_end head) in
         bind_res (case tag_attribute head ''status'' of
                     Some v \<Rightarrow> ok_or (status_parse v) NotABlob
                   | None \<Rightarrow> Inr NoStatus) (\<lambda>st.
         if self_closing then
           (if str_trim body \<noteq> [] then Inl NotABlob else Inr \<lparr>bl_status = st, bl_data = []\<rparr>)
         else
           bind_res (ok_or (strip_suffix ''</blob>'' body) NotABlob) (\<lambda>content.
             case b64_decode (str_trim content) of
               Inl _ \<Rightarrow> Inl NotABlob
             | Inr data \<Rightarrow> Inr \<lparr>bl_status = st, bl_data = data\<rparr>)))"

section \<open>Reading back\<close>

definition blob_head :: "status \<Rightarrow> bytes" where
  "blob_head st = (case status_attribute st of Some v \<Rightarrow> '' status='' @ [CHR 0x27] @ v @ [CHR 0x27] | None \<Rightarrow> [])"

lemma blob_to_xml_head:
  "blob_to_xml b = ''<blob'' @ blob_head (bl_status b) @
     (if bl_data b = [] then '' />'' else ''>'' @ b64_encode (bl_data b) @ ''</blob>'')"
  by (simp add: blob_to_xml_def blob_head_def split: option.split)

lemma blob_head_plain: "CHR ''>'' \<notin> set (blob_head st)" "ends_with (blob_head st) (CHR ''/'') = False"
  by (cases st; simp add: blob_head_def ends_with_def)+

lemma attribute_read:
  assumes "find_subslice h nm = Some i" and "drop (i + length nm) h = CHR ''='' # q # v @ q # rest"
    and "q = CHR 0x27 \<or> q = CHR 0x22" and "q \<notin> set v"
  shows "tag_attribute h nm = Some v"
proof -
  have "graphic (CHR ''='')" "graphic q" using assms(3) by (auto simp: graphic_def)
  with assms show ?thesis by (auto simp: tag_attribute_def trim_start_graphic find_byte_first)
qed

lemma attribute_of_head:
  "(case tag_attribute (blob_head st @ sp) ''status'' of Some v \<Rightarrow> ok_or (status_parse v) NotABlob | None \<Rightarrow> Inr NoStatus) =
     Inr st" if "sp = [] \<or> sp = '' ''"
proof (cases "st = NoStatus")
  case True
  have "find_subslice sp ''status'' = None" using that by (auto simp: find_subslice_def)
  with True show ?thesis by (simp add: blob_head_def tag_attribute_def)
next
  case False
  then obtain v where v: "status_attribute st = Some v" "status_parse v = Some st" "CHR 0x27 \<notin> set v"
    by (cases st) (simp_all add: status_parse_def)
  have "blob_head st @ sp = '' '' @ ''status'' @ (CHR ''='' # CHR 0x27 # v @ CHR 0x27 # sp)" using v(1) by (simp add: blob_head_def)
  moreover have "find_subslice ('' '' @ ''status'' @ x) ''status'' = Some 1" for x
    by (simp add: find_subslice_def range_find_Some_iff)
  ultimately have "tag_attribute (blob_head st @ sp) ''status'' = Some v"
    using v(3) by (intro attribute_read [where i = 1 and q = "CHR 0x27" and rest = sp]) simp_all
  with v(2) show ?thesis by simp
qed

lemma strip_suffix_append: "strip_suffix suffix (s @ suffix) = Some s"
  by (simp add: strip_suffix_def)

lemma blob_body_read:
  assumes "blob_to_xml b = ''<blob'' @ h @ CHR ''>'' # body" and "CHR ''>'' \<notin> set h" and "body = [] \<or> last body = CHR ''>''"
  shows "strip_prefix ''<blob'' (str_trim (blob_to_xml b)) = Some (h @ CHR ''>'' # body)"
proof -
  have "last (blob_to_xml b) = CHR ''>''" using assms(1,3) by auto
  then have "str_trim (blob_to_xml b) = blob_to_xml b"
    using assms(1) by (intro trim_graphic) (simp_all add: graphic_def)
  with assms(1) show ?thesis by simp
qed

text \<open>
  Every blob is read back from the element it is written as: its status and its data, whatever
  octets the data holds.
\<close>

lemma blob_read_back: "blob_from_xml (blob_to_xml b) = Inr b"
proof (cases "bl_data b = []")
  case True
  let ?h = "blob_head (bl_status b) @ '' /''"
  have "blob_to_xml b = ''<blob'' @ ?h @ CHR ''>'' # []" using True by (simp add: blob_to_xml_head)
  from blob_body_read [OF this] blob_head_plain
  have r: "strip_prefix ''<blob'' (str_trim (blob_to_xml b)) = Some (?h @ CHR ''>'' # [])" by simp
  have f: "find_byte (?h @ CHR ''>'' # []) (CHR ''>'') = Some (length ?h)"
    by (rule find_byte_first) (simp add: blob_head_plain)
  have te: "trim_end ?h = ?h" by (rule trim_end_id) (simp_all add: graphic_def)
  have tm: "trim_end_matches (CHR ''/'') ?h = blob_head (bl_status b) @ '' ''" by (simp add: trim_end_matches_def)
  have "ends_with ?h (CHR ''/'')" by (simp add: ends_with_def)
  with r f te tm attribute_of_head [of "'' ''" "bl_status b"] True show ?thesis
    by (simp add: blob_from_xml_def Let_def)
next
  case False
  let ?h = "blob_head (bl_status b)" and ?e = "b64_encode (bl_data b)"
  have "blob_to_xml b = ''<blob'' @ ?h @ CHR ''>'' # ?e @ ''</blob>''" using False by (simp add: blob_to_xml_head)
  from blob_body_read [OF this] blob_head_plain
  have r: "strip_prefix ''<blob'' (str_trim (blob_to_xml b)) = Some (?h @ CHR ''>'' # ?e @ ''</blob>'')" by simp
  have f: "find_byte (?h @ CHR ''>'' # ?e @ ''</blob>'') (CHR ''>'') = Some (length ?h)"
    by (rule find_byte_first) (simp add: blob_head_plain)
  have te: "trim_end ?h = ?h" by (cases "bl_status b") (auto simp: blob_head_def graphic_def intro!: trim_end_id)
  have tm: "trim_end_matches (CHR ''/'') ?h = ?h"
    by (cases "bl_status b") (simp_all add: blob_head_def trim_end_matches_def)
  have "str_trim ?e = ?e" using graphic_ends [OF b64_graphic] b64_not_Nil [OF False] by (auto intro!: trim_graphic)
  moreover have "b64_decode ?e = Inr (bl_data b)" by (rule b64_decode_encode)
  ultimately show ?thesis using r f te tm attribute_of_head [of "[]" "bl_status b"] strip_suffix_append [of "''</blob>''" ?e]
    by (simp add: blob_from_xml_def Let_def blob_head_plain)
qed

text \<open>The name is not read to its end: an element with a longer name is taken for a blob.\<close>

lemma blob_longer_name:
  "\<exists>b. blob_from_xml ''<blobs>Zm9v</blob>'' = Inr b"
proof -
  have t: "str_trim ''<blobs>Zm9v</blob>'' = ''<blobs>Zm9v</blob>''" "trim_end ''s'' = ''s''" "str_trim ''Zm9v'' = ''Zm9v''"
    by (auto simp: graphic_def intro!: trim_graphic trim_end_id)
  have "tag_attribute ''s'' ''status'' = None" by (simp add: tag_attribute_def find_subslice_def)
  moreover have "b64_decode ''Zm9v'' = Inr ''foo''" by code_simp
  ultimately show ?thesis
    using strip_suffix_append [of "''</blob>''" "''Zm9v''"] by (simp add: blob_from_xml_def t ends_with_def trim_end_matches_def)
qed

end
