(* ===== verification/SaslMechanisms.thy ===== *)
theory SaslMechanisms
  imports SaslBlobs
begin

text \<open>
  \<^verbatim>\<open>vortice-sasl/src/mechanism.rs\<close>, \<^verbatim>\<open>mechanisms.rs\<close> and \<^verbatim>\<open>cram_md5.rs\<close>: what a mechanism is, and the
  ones that need no state of their own beyond a challenge. The application's \<open>Authenticator\<close> is
  a record of its answers. The hash functions are third-party code and are parameters, as are
  the system's randomness and clock: \<open>env\<close> is what they answer during one call. A mechanism
  that is denied randomness panics, which is None.
\<close>

section \<open>What a mechanism is\<close>

record identity =
  id_authentication :: bytes
  id_authorization :: "bytes option"

definition identity_new :: "bytes \<Rightarrow> identity" where
  "identity_new a = \<lparr>id_authentication = a, id_authorization = None\<rparr>"

definition effective :: "identity \<Rightarrow> bytes" where
  "effective i = (case id_authorization i of Some a \<Rightarrow> a | None \<Rightarrow> id_authentication i)"

datatype sasl_step =
    Continue bytes
  | Completed identity
  | CompletedWith identity bytes
  | Failed bytes

definition denied :: sasl_step where
  "denied = Failed ''authentication failed''"

record sasl_context =
  cx_server_name :: "bytes option"

record scram_credentials =
  sc_salt :: bytes
  sc_iterations :: u32
  sc_stored_key :: bytes
  sc_server_key :: bytes

record authenticator =
  au_anonymous :: "sasl_context \<Rightarrow> bytes \<Rightarrow> bool"
  au_external :: "sasl_context \<Rightarrow> bytes option \<Rightarrow> bool"
  au_plain :: "sasl_context \<Rightarrow> bytes \<Rightarrow> bytes option \<Rightarrow> bytes \<Rightarrow> bool"
  au_secret :: "sasl_context \<Rightarrow> bytes \<Rightarrow> bytes option \<Rightarrow> bytes option"
  au_scram :: "sasl_context \<Rightarrow> bytes \<Rightarrow> scram_credentials option"

text \<open>The defaults of the trait, which refuse everything.\<close>

definition refuse_all :: authenticator where
  "refuse_all = \<lparr>au_anonymous = (\<lambda>_ _. False), au_external = (\<lambda>_ _. False), au_plain = (\<lambda>_ _ _ _. False),
     au_secret = (\<lambda>_ _ _. None), au_scram = (\<lambda>_ _. None)\<rparr>"

record env =
  ev_random :: "nat \<Rightarrow> bytes option"    \<comment> \<open>so many octets of randomness, when the system has them\<close>
  ev_seconds :: nat                      \<comment> \<open>since the epoch, 0 when the clock is before it\<close>

record exchange =
  ex_authenticator :: authenticator
  ex_context :: sasl_context

type_synonym 'x stepper = "env \<Rightarrow> 'x \<Rightarrow> bytes \<Rightarrow> ('x \<times> sasl_step) option"

section \<open>One round\<close>

definition simple_begin :: "authenticator \<Rightarrow> sasl_context \<Rightarrow> exchange" where
  "simple_begin auth cx = \<lparr>ex_authenticator = auth, ex_context = cx\<rparr>"

definition anonymous_step :: "exchange stepper" where
  "anonymous_step en x message =
     Some (x, if \<not> utf8_valid message then denied
              else if au_anonymous (ex_authenticator x) (ex_context x) message then Completed (identity_new message)
              else denied)"

definition non_empty :: "bytes \<Rightarrow> bytes option" where
  "non_empty s = (if s = [] then None else Some s)"

definition external_step :: "exchange stepper" where
  "external_step en x message =
     Some (x, if \<not> utf8_valid message then denied
              else let asked_for = non_empty message in
                   if au_external (ex_authenticator x) (ex_context x) asked_for
                   then Completed \<lparr>id_authentication = message, id_authorization = asked_for\<rparr>
                   else denied)"

definition NUL :: byte where "NUL = CHR 0x00"

definition plain_step :: "exchange stepper" where
  "plain_step en x message =
     Some (x, case split_on NUL message of
                [authorization, authentication, password] \<Rightarrow>
                  if \<not> (utf8_valid authorization \<and> utf8_valid authentication \<and> utf8_valid password) then denied
                  else let asked_for = non_empty authorization in
                       if au_plain (ex_authenticator x) (ex_context x) authentication asked_for password
                       then Completed \<lparr>id_authentication = authentication, id_authorization = asked_for\<rparr>
                       else denied
              | _ \<Rightarrow> denied)"

section \<open>CRAM-MD5\<close>

record cram_exchange = exchange +
  ce_host :: bytes
  ce_challenge :: "bytes option"

definition cram_begin :: "authenticator \<Rightarrow> bytes \<Rightarrow> sasl_context \<Rightarrow> cram_exchange" where
  "cram_begin auth host cx = \<lparr>ex_authenticator = auth, ex_context = cx, ce_host = host, ce_challenge = None\<rparr>"

definition challenge :: "env \<Rightarrow> bytes \<Rightarrow> bytes option" where
  "challenge en host =
     map_option (\<lambda>random. ''<'' @ hex random @ ''.'' @ dec (ev_seconds en) @ ''@'' @ host @ ''>'') (ev_random en 16)"

text \<open>\<open>mac\<close> is HMAC-MD5. The digests are compared in constant time, which is equality.\<close>

definition cram_verify :: "(bytes \<Rightarrow> bytes \<Rightarrow> bytes) \<Rightarrow> cram_exchange \<Rightarrow> bytes \<Rightarrow> bytes \<Rightarrow> sasl_step" where
  "cram_verify mac x chal response =
     (if \<not> utf8_valid response then denied
      else case rsplit_once (trim_end response) '' '' of
        None \<Rightarrow> denied
      | Some (user, digest) \<Rightarrow>
          (case au_secret (ex_authenticator x) (ex_context x) user None of
             None \<Rightarrow> denied
           | Some secret \<Rightarrow>
               if hex (mac secret chal) = digest then Completed (identity_new user) else denied))"

definition cram_step :: "(bytes \<Rightarrow> bytes \<Rightarrow> bytes) \<Rightarrow> cram_exchange stepper" where
  "cram_step mac en x message =
     (case ce_challenge x of
        None \<Rightarrow> map_option (\<lambda>chal. (x\<lparr>ce_challenge := Some chal\<rparr>, Continue chal)) (challenge en (ce_host x))
      | Some chal \<Rightarrow> let x = x\<lparr>ce_challenge := None\<rparr> in Some (x, cram_verify mac x chal message))"

section \<open>The contract\<close>

text \<open>
  What the profile relies on: a mechanism that says who the peer is has had that proved. The
  rounds of an exchange that goes on are kept as what the mechanism was asked with: the
  randomness and clock of the call, the message, and the challenge it was answered with.
  \<open>ok cx h\<close> is the mechanism's own invariant for an exchange begun in the context \<open>cx\<close> after
  the rounds \<open>h\<close>; \<open>proved cx h m i\<close> says that \<open>h\<close> followed by the message \<open>m\<close> is evidence that
  the peer is \<open>i\<close>.
\<close>

type_synonym rounds = "(env \<times> bytes \<times> bytes) list"

fun accepted_as :: "sasl_step \<Rightarrow> identity option" where
  "accepted_as (Completed i) = Some i"
| "accepted_as (CompletedWith i _) = Some i"
| "accepted_as _ = None"

lemma completes_denied [simp]: "accepted_as denied = None"
  by (simp add: denied_def)

lemma denied_not_Continue [simp]: "denied \<noteq> Continue c" "Continue c \<noteq> denied"
  by (simp_all add: denied_def)

locale sasl_mechanism =
  fixes start :: "sasl_context \<Rightarrow> 'x"
    and step :: "'x stepper"
    and ok :: "sasl_context \<Rightarrow> rounds \<Rightarrow> 'x \<Rightarrow> bool"
    and proved :: "sasl_context \<Rightarrow> rounds \<Rightarrow> bytes \<Rightarrow> identity \<Rightarrow> bool"
  assumes start_ok: "ok cx [] (start cx)"
    and step_ok: "ok cx h x \<Longrightarrow> step en x message = Some (x', Continue chal) \<Longrightarrow> ok cx (h @ [(en, message, chal)]) x'"
    and completes_proved:
      "ok cx h x \<Longrightarrow> step en x message = Some (x', r) \<Longrightarrow> accepted_as r = Some i \<Longrightarrow> proved cx h message i"

definition begun :: "authenticator \<Rightarrow> sasl_context \<Rightarrow> ('a exchange_scheme) \<Rightarrow> bool" where
  "begun auth cx x \<longleftrightarrow> ex_authenticator x = auth \<and> ex_context x = cx"

text \<open>The mechanisms of one message.\<close>

definition simple_ok :: "authenticator \<Rightarrow> sasl_context \<Rightarrow> rounds \<Rightarrow> exchange \<Rightarrow> bool" where
  "simple_ok auth cx h x \<longleftrightarrow> begun auth cx x \<and> h = []"

definition anonymous_proved :: "authenticator \<Rightarrow> sasl_context \<Rightarrow> rounds \<Rightarrow> bytes \<Rightarrow> identity \<Rightarrow> bool" where
  "anonymous_proved auth cx h m i \<longleftrightarrow>
     h = [] \<and> id_authentication i = m \<and> id_authorization i = None \<and> au_anonymous auth cx m"

definition external_proved :: "authenticator \<Rightarrow> sasl_context \<Rightarrow> rounds \<Rightarrow> bytes \<Rightarrow> identity \<Rightarrow> bool" where
  "external_proved auth cx h m i \<longleftrightarrow>
     h = [] \<and> id_authentication i = m \<and> id_authorization i = non_empty m \<and> au_external auth cx (non_empty m)"

definition plain_proved :: "authenticator \<Rightarrow> sasl_context \<Rightarrow> rounds \<Rightarrow> bytes \<Rightarrow> identity \<Rightarrow> bool" where
  "plain_proved auth cx h m i \<longleftrightarrow>
     h = [] \<and> (\<exists>authz password. m = authz @ [NUL] @ id_authentication i @ [NUL] @ password \<and>
       NUL \<notin> set authz \<union> set (id_authentication i) \<union> set password \<and> id_authorization i = non_empty authz \<and>
       au_plain auth cx (id_authentication i) (id_authorization i) password)"

lemma split_on_parts: "\<exists>l ls. split_on c xs = l # ls \<and> xs = l @ concat (map ((#) c) ls)"
  by (induction xs) (auto split: list.splits)

lemma split_on_joined: "split_on c xs = l # ls \<Longrightarrow> xs = l @ concat (map ((#) c) ls)"
  using split_on_parts [of c xs] by auto

lemma split_on_free: "l \<in> set (split_on c xs) \<Longrightarrow> c \<notin> set l"
  by (induction xs arbitrary: l) (auto split: if_splits list.splits)

lemma split_on_three:
  assumes "split_on NUL m = [a, u, pw]"
  shows "m = a @ [NUL] @ u @ [NUL] @ pw \<and> NUL \<notin> set a \<union> set u \<union> set pw"
  using split_on_joined [OF assms] split_on_free [of _ NUL m] assms by auto

interpretation anonymous: sasl_mechanism "simple_begin auth" anonymous_step "simple_ok auth" "anonymous_proved auth" for auth
  by unfold_locales
    (auto simp: simple_begin_def anonymous_step_def begun_def simple_ok_def anonymous_proved_def identity_new_def split: if_splits)

interpretation external: sasl_mechanism "simple_begin auth" external_step "simple_ok auth" "external_proved auth" for auth
  by unfold_locales
    (auto simp: simple_begin_def external_step_def begun_def simple_ok_def external_proved_def Let_def split: if_splits)

lemma plain_completes:
  assumes "plain_step en x m = Some (x', r)"
  shows "(\<forall>c. r \<noteq> Continue c) \<and> (\<forall>i. accepted_as r = Some i \<longrightarrow> plain_proved (ex_authenticator x) (ex_context x) [] m i)"
proof (cases "\<exists>a u pw. split_on NUL m = [a, u, pw]")
  case True
  then obtain a u pw where sp: "split_on NUL m = [a, u, pw]" by blast
  from split_on_three [OF sp] have m: "m = a @ [NUL] @ u @ [NUL] @ pw" "NUL \<notin> set a \<union> set u \<union> set pw" by simp_all
  have "plain_proved (ex_authenticator x) (ex_context x) [] m \<lparr>id_authentication = u, id_authorization = non_empty a\<rparr>"
    if "au_plain (ex_authenticator x) (ex_context x) u (non_empty a) pw"
    unfolding plain_proved_def using m that by (intro conjI exI [of _ a] exI [of _ pw]) simp_all
  with assms sp show ?thesis by (auto simp: plain_step_def Let_def split: if_splits)
next
  case False
  with assms show ?thesis by (auto simp: plain_step_def Let_def split: if_splits list.splits)
qed

interpretation plain: sasl_mechanism "simple_begin auth" plain_step "simple_ok auth" "plain_proved auth" for auth
  by unfold_locales
    (use plain_completes in \<open>fastforce simp: simple_begin_def begun_def simple_ok_def\<close>)+

text \<open>
  CRAM-MD5: one challenge made from fresh randomness, answered with the user and the digest of
  that very challenge under the secret the authenticator holds for that user.
\<close>

definition cram_ok :: "authenticator \<Rightarrow> bytes \<Rightarrow> sasl_context \<Rightarrow> rounds \<Rightarrow> cram_exchange \<Rightarrow> bool" where
  "cram_ok auth host cx h x \<longleftrightarrow> begun auth cx x \<and> ce_host x = host \<and>
     (case ce_challenge x of None \<Rightarrow> h = []
      | Some chal \<Rightarrow> \<exists>en first. h = [(en, first, chal)] \<and> challenge en host = Some chal)"

definition cram_proved ::
  "(bytes \<Rightarrow> bytes \<Rightarrow> bytes) \<Rightarrow> authenticator \<Rightarrow> bytes \<Rightarrow> sasl_context \<Rightarrow> rounds \<Rightarrow> bytes \<Rightarrow> identity \<Rightarrow> bool" where
  "cram_proved mac auth host cx h m i \<longleftrightarrow>
     (\<exists>en first chal secret. h = [(en, first, chal)] \<and> challenge en host = Some chal \<and>
        au_secret auth cx (id_authentication i) None = Some secret \<and>
        trim_end m = id_authentication i @ '' '' @ hex (mac secret chal) \<and> id_authorization i = None)"

lemma cram_verify_iff:
  "cram_verify mac x chal response = Completed i \<longleftrightarrow>
     (\<exists>user secret. utf8_valid response \<and> trim_end response = user @ '' '' @ hex (mac secret chal) \<and>
        au_secret (ex_authenticator x) (ex_context x) user None = Some secret \<and> i = identity_new user)"
  (is "?l \<longleftrightarrow> ?r")
proof
  assume ?l
  then obtain user digest secret where 1: "utf8_valid response" "rsplit_once (trim_end response) '' '' = Some (user, digest)"
    "au_secret (ex_authenticator x) (ex_context x) user None = Some secret" "digest = hex (mac secret chal)" "i = identity_new user"
    by (auto simp: cram_verify_def denied_def split: if_splits option.splits)
  from 1(2) have "trim_end response = user @ '' '' @ digest" by (rule rsplit_once_Some)
  with 1 show ?r by blast
next
  assume ?r
  then obtain user secret where 1: "utf8_valid response" "trim_end response = user @ '' '' @ hex (mac secret chal)"
    "au_secret (ex_authenticator x) (ex_context x) user None = Some secret" "i = identity_new user" by blast
  have "rsplit_once (trim_end response) '' '' = Some (user, hex (mac secret chal))"
    unfolding 1(2)
  proof (rule rsplit_once_last)
    have "\<not> graphic (CHR '' '')" by (simp add: graphic_def)
    then show "hd '' '' \<notin> set (hex (mac secret chal))" using hex_graphic [of "mac secret chal"] by auto
  qed simp_all
  then show ?l unfolding cram_verify_def by (simp add: 1(1,3,4))
qed

lemma cram_verify_result: "cram_verify mac x chal response = denied \<or> (\<exists>i. cram_verify mac x chal response = Completed i)"
  by (simp add: cram_verify_def split: option.split)

lemma cram_verify_proved:
  assumes "accepted_as (cram_verify mac x chal response) = Some i"
  shows "\<exists>secret. au_secret (ex_authenticator x) (ex_context x) (id_authentication i) None = Some secret \<and>
    trim_end response = id_authentication i @ '' '' @ hex (mac secret chal) \<and> id_authorization i = None"
proof -
  from assms cram_verify_result [of mac x chal response] have "cram_verify mac x chal response = Completed i" by auto
  then show ?thesis unfolding cram_verify_iff by (auto simp: identity_new_def)
qed

interpretation cram: sasl_mechanism "cram_begin auth host" "cram_step mac" "cram_ok auth host" "cram_proved mac auth host"
  for auth host mac
proof unfold_locales
  fix cx :: sasl_context and x x' :: cram_exchange and h en message r i chal
  show "cram_ok auth host cx [] (cram_begin auth host cx)" by (simp add: cram_begin_def cram_ok_def begun_def)
  assume ok: "cram_ok auth host cx h x"
  show "cram_ok auth host cx (h @ [(en, message, chal)]) x'" if "cram_step mac en x message = Some (x', Continue chal)"
    using ok that cram_verify_result [of mac "x\<lparr>ce_challenge := None\<rparr>" _ message]
    by (auto simp: cram_step_def cram_ok_def begun_def Let_def split: option.splits) (metis denied_not_Continue(1) sasl_step.distinct(1))
  show "cram_proved mac auth host cx h message i" if st: "cram_step mac en x message = Some (x', r)" and i: "accepted_as r = Some i"
  proof (cases "ce_challenge x")
    case None
    with st i show ?thesis by (auto simp: cram_step_def)
  next
    case (Some chal)
    with st have "r = cram_verify mac (x\<lparr>ce_challenge := None\<rparr>) chal message" by (auto simp: cram_step_def Let_def)
    with i cram_verify_proved [of mac "x\<lparr>ce_challenge := None\<rparr>" chal message i] ok Some show ?thesis
      by (auto simp: cram_ok_def cram_proved_def begun_def)
  qed
qed

section \<open>Properties\<close>

text \<open>
  \<open>CRAM-MD5\<close> is exact. The second blob of an exchange is accepted as a user
  exactly when, trailing white space aside, it is the user, a space and the hexadecimal digest
  of the challenge under the secret the authenticator holds for that user; the challenge is the
  one the first blob was answered with, and it is good for one attempt.
\<close>

lemma cram_exact:
  fixes host :: bytes
  assumes "ev_random en 16 = Some random"
  defines "chal \<equiv> ''<'' @ hex random @ ''.'' @ dec (ev_seconds en) @ ''@'' @ host @ ''>''"
  shows "\<exists>x. cram_step mac en (cram_begin auth host cx) first = Some (x, Continue chal) \<and>
    (\<forall>en' response. \<exists>x' r. cram_step mac en' x response = Some (x', r) \<and> ce_challenge x' = None \<and>
       (r = denied \<or> (\<exists>i. r = Completed i)) \<and>
       (\<forall>i. r = Completed i \<longleftrightarrow>
          (\<exists>user secret. utf8_valid response \<and> trim_end response = user @ '' '' @ hex (mac secret chal) \<and>
             au_secret auth cx user None = Some secret \<and> i = identity_new user)))"
proof -
  let ?x = "cram_begin auth host cx\<lparr>ce_challenge := Some chal\<rparr>"
  let ?y = "cram_begin auth host cx\<lparr>ce_challenge := None\<rparr>"
  have "cram_step mac en (cram_begin auth host cx) first = Some (?x, Continue chal)"
    using assms(1) by (simp add: cram_step_def cram_begin_def challenge_def chal_def)
  moreover have "cram_step mac en' ?x response = Some (?y, cram_verify mac ?y chal response)" for en' response
    by (simp add: cram_step_def cram_begin_def Let_def)
  moreover have "cram_verify mac ?y chal response = denied \<or> (\<exists>i. cram_verify mac ?y chal response = Completed i)" for response
    by (simp add: cram_verify_def split: option.split)
  moreover have "ce_challenge ?y = None" "ex_authenticator ?y = auth" "ex_context ?y = cx" by (simp_all add: cram_begin_def)
  ultimately show ?thesis using cram_verify_iff [of mac ?y chal] by auto
qed

end
