(* ===== verification/WsFrames.thy ===== *)
theory WsFrames
  imports Incremental
begin

unbundle bit_operations_syntax

text \<open>
  \<^verbatim>\<open>vortice-ws/src/frame.rs\<close> and \<^verbatim>\<open>codec.rs\<close>: WebSocket frame headers, masking and the
  decoder that turns received octets into events. Bit tests are on the octet as a
  \<^typ>\<open>u8\<close>; a length is a \<^typ>\<open>nat\<close>, read from big-endian octets. A masking key is the four
  octets it consists of.
\<close>

section \<open>Octets and numbers\<close>

definition octet :: "byte \<Rightarrow> u8" where
  "octet c = of_nat (of_char c)"

definition from_octet :: "u8 \<Rightarrow> byte" where
  "from_octet w = char_of (unat w)"

fun to_be :: "nat \<Rightarrow> nat \<Rightarrow> bytes" where
  "to_be 0 n = []"
| "to_be (Suc k) n = to_be k (n div 256) @ [char_of (n mod 256)]"

definition from_be :: "bytes \<Rightarrow> nat" where
  "from_be bs = foldl (\<lambda>v b. v * 256 + of_char b) 0 bs"

text \<open>\<open>buffer.get(a..b)\<close>.\<close>

definition get_range :: "bytes \<Rightarrow> nat \<Rightarrow> nat \<Rightarrow> bytes option" where
  "get_range buf a b = (if a \<le> b \<and> b \<le> length buf then Some (take (b - a) (drop a buf)) else None)"

section \<open>Frame headers\<close>

definition MAX_PAYLOAD :: nat where "MAX_PAYLOAD = 16 * 1024 * 1024"
definition MAX_SEND_BATCH :: nat where "MAX_SEND_BATCH = 64 * 1024"

datatype op_code = Continuation | TextOp | BinaryOp | CloseOp | PingOp | PongOp

definition from_bits :: "u8 \<Rightarrow> op_code option" where
  "from_bits v =
     (if v = 0x0 then Some Continuation else if v = 0x1 then Some TextOp else if v = 0x2 then Some BinaryOp
      else if v = 0x8 then Some CloseOp else if v = 0x9 then Some PingOp else if v = 0xa then Some PongOp else None)"

fun bits :: "op_code \<Rightarrow> u8" where
  "bits Continuation = 0x0"
| "bits TextOp = 0x1"
| "bits BinaryOp = 0x2"
| "bits CloseOp = 0x8"
| "bits PingOp = 0x9"
| "bits PongOp = 0xa"

fun is_control :: "op_code \<Rightarrow> bool" where
  "is_control c \<longleftrightarrow> c \<in> {CloseOp, PingOp, PongOp}"

record ws_header =
  wh_fin :: bool
  wh_opcode :: op_code
  wh_mask :: "bytes option"
  wh_payload_len :: nat
  wh_header_len :: nat

datatype protocol_error =
    ReservedBits
  | UnknownOpCode u8
  | ControlFrameTooLarge nat
  | FragmentedControlFrame
  | PayloadTooLarge nat
  | NonMinimalLength

text \<open>The length field: the length and the octets it took beyond the first, if they are all here.\<close>

definition decode_length :: "u8 \<Rightarrow> bytes \<Rightarrow> protocol_error + (nat \<times> nat) option" where
  "decode_length second buffer =
     (let short = second AND 0x7f in
      if short = 126 then
        (case get_range buffer 2 4 of
           None \<Rightarrow> Inr None
         | Some octets \<Rightarrow>
             let len = from_be octets in
             if len < 126 then Inl NonMinimalLength else Inr (Some (len, 2)))
      else if short = 127 then
        (case get_range buffer 2 10 of
           None \<Rightarrow> Inr None
         | Some octets \<Rightarrow>
             let len = from_be octets in
             if len \<le> 0xffff then Inl NonMinimalLength else Inr (Some (len, 8)))
      else Inr (Some (unat short, 0)))"

definition ws_decode_header :: "bytes \<Rightarrow> protocol_error + ws_header option" where
  "ws_decode_header buffer =
     (case buffer of
        b1 # b2 # _ \<Rightarrow>
          let first = octet b1; second = octet b2 in
          if first AND 0x70 \<noteq> 0 then Inl ReservedBits
          else let fin = (first AND 0x80 \<noteq> 0) in
            bind_res (ok_or (from_bits (first AND 0x0f)) (UnknownOpCode (first AND 0x0f))) (\<lambda>opcode.
            let masked = (second AND 0x80 \<noteq> 0) in
            case decode_length second buffer of
              Inl e \<Rightarrow> Inl e
            | Inr None \<Rightarrow> Inr None
            | Inr (Some (payload_len, len_octets)) \<Rightarrow>
                if payload_len > MAX_PAYLOAD then Inl (PayloadTooLarge payload_len)
                else if is_control opcode \<and> payload_len > 125 then Inl (ControlFrameTooLarge payload_len)
                else if is_control opcode \<and> \<not> fin then Inl FragmentedControlFrame
                else let mask_at = 2 + len_octets in
                  if masked then
                    (case get_range buffer mask_at (mask_at + 4) of
                       None \<Rightarrow> Inr None
                     | Some octets \<Rightarrow>
                         Inr (Some \<lparr>wh_fin = fin, wh_opcode = opcode, wh_mask = Some octets,
                                    wh_payload_len = payload_len, wh_header_len = mask_at + 4\<rparr>))
                  else Inr (Some \<lparr>wh_fin = fin, wh_opcode = opcode, wh_mask = None,
                                  wh_payload_len = payload_len, wh_header_len = mask_at\<rparr>))
      | _ \<Rightarrow> Inr None)"

definition ws_encode_header :: "bytes \<Rightarrow> op_code \<Rightarrow> bool \<Rightarrow> nat \<Rightarrow> bytes option \<Rightarrow> bytes" where
  "ws_encode_header out opcode fin payload_len key =
     (let out = out @ [from_octet ((if fin then 0x80 else 0) OR bits opcode)];
          masked = (if key \<noteq> None then 0x80 else 0);
          out = (if payload_len < 126 then out @ [from_octet (masked OR of_nat payload_len)]
                 else if payload_len < 2 ^ 16 then out @ [from_octet (masked OR 126)] @ to_be 2 payload_len
                 else out @ [from_octet (masked OR 127)] @ to_be 8 payload_len)
      in case key of Some m \<Rightarrow> out @ m | None \<Rightarrow> out)"

definition xor_byte :: "byte \<Rightarrow> byte \<Rightarrow> byte" where
  "xor_byte a b = from_octet (octet a XOR octet b)"

definition apply_mask :: "bytes \<Rightarrow> bytes \<Rightarrow> nat \<Rightarrow> bytes" where
  "apply_mask payload key offset =
     map (\<lambda>(index, o1). xor_byte o1 (key ! ((index + offset) mod 4))) (enumerate 0 payload)"

section \<open>The decoder\<close>

datatype ws_event =
    WsData bytes
  | WsPing bytes
  | WsPong bytes
  | WsClose "nat option" bytes

definition event_of :: "op_code \<Rightarrow> bytes \<Rightarrow> ws_event" where
  "event_of opcode payload =
     (case opcode of
        PingOp \<Rightarrow> WsPing payload
      | PongOp \<Rightarrow> WsPong payload
      | CloseOp \<Rightarrow>
          if length payload \<ge> 2 then WsClose (Some (from_be (take 2 payload))) (drop 2 payload) else WsClose None []
      | _ \<Rightarrow> WsData payload)"

definition ws_poll :: "unit \<Rightarrow> bytes \<Rightarrow> (unit \<times> bytes) \<times> (protocol_error + ws_event option)" where
  "ws_poll d buffer =
     (case ws_decode_header buffer of
        Inl e \<Rightarrow> ((d, buffer), Inl e)
      | Inr None \<Rightarrow> ((d, buffer), Inr None)
      | Inr (Some header) \<Rightarrow>
          if length buffer < wh_header_len header + wh_payload_len header then ((d, buffer), Inr None)
          else let buffer = drop (wh_header_len header) buffer;
                   payload = take (wh_payload_len header) buffer;
                   buffer = drop (wh_payload_len header) buffer;
                   payload = (case wh_mask header of Some m \<Rightarrow> apply_mask payload m 0 | None \<Rightarrow> payload)
               in ((d, buffer), Inr (Some (event_of (wh_opcode header) payload))))"

section \<open>Masking\<close>

lemma octet_from_octet [simp]: "octet (from_octet w) = w"
proof -
  have "unat w < 256" using unsigned_less [of w, where 'a = nat] by simp
  then show ?thesis by (simp add: octet_def from_octet_def)
qed

lemma from_octet_octet [simp]: "from_octet (octet c) = c"
  using of_char_lt [of c] by (simp add: octet_def from_octet_def unat_of_nat take_bit_nat_eq_self)

lemma length_apply_mask [simp]: "length (apply_mask p m off) = length p"
  by (simp add: apply_mask_def)

lemma nth_apply_mask: "i < length p \<Longrightarrow> apply_mask p m off ! i = xor_byte (p ! i) (m ! ((i + off) mod 4))"
  by (simp add: apply_mask_def nth_enumerate_eq)

text \<open>Masking twice is not masking, and masking in pieces is masking at once.\<close>

lemma apply_mask_twice [simp]: "apply_mask (apply_mask p m off) m off = p"
proof (rule nth_equalityI)
  fix i assume "i < length (apply_mask (apply_mask p m off) m off)"
  then show "apply_mask (apply_mask p m off) m off ! i = p ! i"
    by (simp add: nth_apply_mask xor_byte_def xor.assoc)
qed simp

lemma apply_mask_append: "apply_mask (p @ q) m off = apply_mask p m off @ apply_mask q m (off + length p)"
proof (rule nth_equalityI)
  fix i assume "i < length (apply_mask (p @ q) m off)"
  then show "apply_mask (p @ q) m off ! i = (apply_mask p m off @ apply_mask q m (off + length p)) ! i"
    by (auto simp: nth_apply_mask nth_append add.commute add.left_commute)
qed simp

section \<open>Big-endian numbers\<close>

lemma length_to_be [simp]: "length (to_be k n) = k"
  by (induction k n rule: to_be.induct) simp_all

lemma from_be_to_be: "n < 256 ^ k \<Longrightarrow> from_be (to_be k n) = n"
proof (induction k n rule: to_be.induct)
  case (2 k n)
  have "n div 256 < 256 ^ k" using 2(2) by (simp add: less_mult_imp_div_less mult.commute)
  with 2(1) have "foldl (\<lambda>v b. v * 256 + of_char b) 0 (to_be k (n div 256)) = n div 256" by (simp add: from_be_def)
  then show ?case by (simp add: from_be_def)
qed (simp add: from_be_def)

section \<open>Headers read back\<close>

lemma flag_or_fields:
  fixes x :: u8
  assumes "unat x < 128"
  shows "(0x80 OR x) AND 0x7f = x" "x AND 0x7f = x" "(0x80 OR x) AND 0x80 = 0x80" "x AND 0x80 = 0"
proof -
  have "unat (take_bit 7 x) = unat x" using assms by (simp add: take_bit_eq_mod unat_mod)
  then have t: "take_bit 7 x = x" by (simp only: word_unat_eq_iff)
  have m: "(0x7f :: u8) = mask 7" by (simp add: mask_eq_exp_minus_1)
  show "x AND 0x7f = x" unfolding m by (simp add: t flip: take_bit_eq_mask)
  show "(0x80 OR x) AND 0x7f = x" unfolding m by (simp add: t flip: take_bit_eq_mask)
  have "x AND 0x80 = take_bit 7 x AND 0x80" by (simp add: t)
  also have "\<dots> = x AND (mask 7 AND 0x80)" by (simp add: take_bit_eq_mask and.assoc)
  also have "\<dots> = 0" by (simp add: mask_eq_exp_minus_1)
  finally show z: "x AND 0x80 = 0" .
  show "(0x80 OR x) AND 0x80 = 0x80" by (simp add: bit.conj_disj_distrib2 z)
qed

lemma first_octet:
  "((if f then 0x80 else 0) OR bits opc) AND 0x70 = 0"
  "((if f then 0x80 else 0) OR bits opc) AND 0x80 \<noteq> 0 \<longleftrightarrow> f"
  "from_bits (((if f then 0x80 else 0) OR bits opc) AND 0x0f) = Some opc"
  by (cases opc; simp add: from_bits_def)+

lemma get_range_middle: "length pre = a \<Longrightarrow> length mid = b - a \<Longrightarrow> a \<le> b \<Longrightarrow> get_range (pre @ mid @ rest) a b = Some mid"
  by (simp add: get_range_def)

text \<open>What the two length octets, or three, or nine, say.\<close>

definition length_field :: "nat \<Rightarrow> bool \<Rightarrow> bytes" where
  "length_field n masked =
     (let flag = (if masked then 0x80 else 0) in
      if n < 126 then [from_octet (flag OR of_nat n)]
      else if n < 2 ^ 16 then from_octet (flag OR 126) # to_be 2 n
      else from_octet (flag OR 127) # to_be 8 n)"

lemma ws_encode_header_eq:
  "ws_encode_header out opc f n key =
     out @ [from_octet ((if f then 0x80 else 0) OR bits opc)] @ length_field n (key \<noteq> None) @ (case key of Some m \<Rightarrow> m | None \<Rightarrow> [])"
  by (auto simp: ws_encode_header_def length_field_def Let_def split: option.split)

lemma length_field_read:
  assumes "n < 2 ^ 64"
  shows "\<exists>b2 more. length_field n masked = b2 # more \<and> (octet b2 AND 0x80 \<noteq> 0 \<longleftrightarrow> masked) \<and>
    decode_length (octet b2) (b1 # b2 # more @ rest) = Inr (Some (n, length more))"
proof -
  let ?flag = "if masked then 0x80 else 0 :: u8"
  have flag: "(?flag OR x) AND 0x7f = x" "(?flag OR x) AND 0x80 \<noteq> 0 \<longleftrightarrow> masked" if "unat x < 128" for x :: u8
    using flag_or_fields [OF that] by simp_all
  consider "n < 126" | "126 \<le> n" "n < 2 ^ 16" | "2 ^ 16 \<le> n" by linarith
  then show ?thesis
  proof cases
    case 1
    then have n: "unat (of_nat n :: u8) = n" by (simp add: unat_of_nat take_bit_nat_eq_self)
    have "(of_nat n :: u8) \<noteq> 126" "(of_nat n :: u8) \<noteq> 127" using 1 n by (auto dest: arg_cong [of _ _ unat])
    with 1 n flag [of "of_nat n"] show ?thesis by (auto simp: length_field_def decode_length_def)
  next
    case 2
    have "from_be (to_be 2 n) = n" using 2 by (intro from_be_to_be) simp
    moreover have "get_range (b1 # from_octet (?flag OR 126) # to_be 2 n @ rest) 2 4 = Some (to_be 2 n)"
      using get_range_middle [of "[b1, from_octet (?flag OR 126)]" 2 "to_be 2 n" 4 rest] by simp
    ultimately show ?thesis
      using 2 flag [of 126] by (simp add: length_field_def decode_length_def Let_def)
  next
    case 3
    have "from_be (to_be 8 n) = n" using assms by (intro from_be_to_be) simp
    moreover have "get_range (b1 # from_octet (?flag OR 127) # to_be 8 n @ rest) 2 10 = Some (to_be 8 n)"
      using get_range_middle [of "[b1, from_octet (?flag OR 127)]" 2 "to_be 8 n" 10 rest] by simp
    ultimately show ?thesis
      using 3 flag [of 127] by (simp add: length_field_def decode_length_def Let_def)
  qed
qed

definition ws_header_ok :: "op_code \<Rightarrow> bool \<Rightarrow> nat \<Rightarrow> bytes option \<Rightarrow> bool" where
  "ws_header_ok opc f n key \<longleftrightarrow> n \<le> MAX_PAYLOAD \<and> (is_control opc \<longrightarrow> n \<le> 125 \<and> f) \<and> pred_option (\<lambda>m. length m = 4) key"

lemma ws_decode_encode_header:
  assumes "ws_header_ok opc f n key"
  shows "ws_decode_header (ws_encode_header [] opc f n key @ rest) =
    Inr (Some \<lparr>wh_fin = f, wh_opcode = opc, wh_mask = key, wh_payload_len = n,
      wh_header_len = length (ws_encode_header [] opc f n key)\<rparr>)"
proof -
  let ?b1 = "from_octet ((if f then 0x80 else 0) OR bits opc)"
  let ?m = "case key of Some m \<Rightarrow> m | None \<Rightarrow> []"
  have n: "n \<le> MAX_PAYLOAD" "n < 2 ^ 64" using assms by (simp_all add: ws_header_ok_def MAX_PAYLOAD_def)
  from length_field_read [OF n(2), of "key \<noteq> None" ?b1 "?m @ rest"] obtain b2 more where
    lf: "length_field n (key \<noteq> None) = b2 # more" "octet b2 AND 0x80 \<noteq> 0 \<longleftrightarrow> key \<noteq> None"
    "decode_length (octet b2) (?b1 # b2 # more @ ?m @ rest) = Inr (Some (n, length more))" by blast
  have enc: "ws_encode_header [] opc f n key = ?b1 # b2 # more @ ?m" 
    by (simp only: ws_encode_header_eq lf(1) append.simps)
  have gr: "get_range (?b1 # b2 # more @ m @ rest) (2 + length more) (2 + length more + 4) = Some m" if "key = Some m" for m
    using get_range_middle [of "?b1 # b2 # more" "2 + length more" m "2 + length more + 4" rest] assms that
    by (simp add: ws_header_ok_def)
  show ?thesis
    using assms lf(2,3) n(1) first_octet [of f opc] gr unfolding enc
    by (cases key) (auto simp: ws_decode_header_def ws_header_ok_def Let_def)
qed

section \<open>More octets change nothing\<close>

lemma get_range_append: "get_range buf a b = Some x \<Longrightarrow> get_range (buf @ rest) a b = Some x"
  by (auto simp: get_range_def split: if_splits)

lemma decode_length_append:
  "decode_length s buf = r \<Longrightarrow> r \<noteq> Inr None \<Longrightarrow> decode_length s (buf @ rest) = r"
  by (auto simp: decode_length_def Let_def get_range_append split: if_splits option.splits)

lemma ws_decode_header_append:
  assumes "ws_decode_header buf = r" and "r \<noteq> Inr None"
  shows "ws_decode_header (buf @ rest) = r"
proof -
  obtain b1 b2 tail where buf: "buf = b1 # b2 # tail"
    using assms by (auto simp: ws_decode_header_def split: list.splits)
  note app = decode_length_append [of "octet b2" buf, unfolded buf, simplified]
  show ?thesis
  proof (cases "decode_length (octet b2) buf")
    case (Inl e)
    with assms app [of "Inl e" rest] show ?thesis
      by (auto simp: buf ws_decode_header_def Let_def bind_res_def split: sum.splits)
  next
    case (Inr v)
    show ?thesis
    proof (cases v)
      case None
      with assms Inr show ?thesis
        by (auto simp: buf ws_decode_header_def Let_def bind_res_def split: sum.splits if_splits)
    next
      case (Some nl)
      obtain n l where nl: "nl = (n, l)" by fastforce
      have more: "decode_length (octet b2) (b1 # b2 # tail @ rest) = Inr (Some (n, l))"
        using app [of "Inr (Some (n, l))" rest] Inr Some nl buf by simp
      have gr: "get_range (b1 # b2 # tail) x y = Some z \<Longrightarrow> get_range (b1 # b2 # tail @ rest) x y = Some z" for x y z
        using get_range_append [of "b1 # b2 # tail" x y z rest] by simp
      from assms Inr Some nl more show ?thesis
        by (auto simp: buf ws_decode_header_def Let_def bind_res_def gr split: sum.splits if_splits option.splits)
    qed
  qed
qed

lemma ws_decode_header_len: "ws_decode_header buf = Inr (Some h) \<Longrightarrow> 2 \<le> wh_header_len h"
  by (auto simp: ws_decode_header_def Let_def bind_res_def split: list.splits if_splits sum.splits option.splits)

interpretation ws_decoder: incremental_decoder ws_poll
proof
  fix d d' :: unit and src src' rest :: bytes and f
  assume p: "ws_poll d src = ((d', src'), Inr (Some f))"
  from p obtain h where h: "ws_decode_header src = Inr (Some h)" "wh_header_len h + wh_payload_len h \<le> length src"
    by (auto simp: ws_poll_def Let_def not_less split: sum.splits option.splits if_splits)
  have "ws_decode_header (src @ rest) = Inr (Some h)" by (rule ws_decode_header_append [OF h(1)]) simp
  moreover have "take (wh_payload_len h) (drop (wh_header_len h) (src @ rest)) = take (wh_payload_len h) (drop (wh_header_len h) src)"
    "drop (wh_payload_len h) (drop (wh_header_len h) (src @ rest)) = drop (wh_payload_len h) (drop (wh_header_len h) src) @ rest"
    using h(2) by simp_all
  ultimately show "ws_poll d (src @ rest) = ((d', src' @ rest), Inr (Some f))"
    using p h unfolding ws_poll_def Let_def by (cases "wh_mask h") simp_all
  from p h ws_decode_header_len [OF h(1)] show "length src' < length src" by (auto simp: ws_poll_def Let_def)
next
  fix d d' :: unit and src src' rest :: bytes and e
  assume p: "ws_poll d src = ((d', src'), Inl e)"
  then have h: "ws_decode_header src = Inl e" "src' = src"
    by (auto simp: ws_poll_def Let_def split: sum.splits option.splits if_splits)
  have "ws_decode_header (src @ rest) = Inl e" by (rule ws_decode_header_append [OF h(1)]) simp
  with h(2) show "ws_poll d (src @ rest) = ((d', src' @ rest), Inl e)" by (simp add: ws_poll_def)
next
  fix d d' :: unit and src src' rest :: bytes
  assume "ws_poll d src = ((d', src'), Inr None)"
  then have "src' = src" by (auto simp: ws_poll_def Let_def split: sum.splits option.splits if_splits)
  then show "ws_poll d (src @ rest) = ws_poll d' (src' @ rest)" by simp
qed

section \<open>Frames on the wire\<close>

definition ws_frame :: "op_code \<Rightarrow> bytes \<Rightarrow> bytes option \<Rightarrow> bytes" where
  "ws_frame opc payload key = ws_encode_header [] opc True (length payload) key @
     (case key of Some m \<Rightarrow> apply_mask payload m 0 | None \<Rightarrow> payload)"

definition frame_ok :: "op_code \<Rightarrow> bytes \<Rightarrow> bytes option \<Rightarrow> bool" where
  "frame_ok opc payload key \<longleftrightarrow> ws_header_ok opc True (length payload) key"

lemma ws_poll_frame:
  assumes "frame_ok opc payload key"
  shows "ws_poll d (ws_frame opc payload key @ rest) = ((d, rest), Inr (Some (event_of opc payload)))"
proof -
  let ?h = "ws_encode_header [] opc True (length payload) key"
  let ?p = "case key of Some m \<Rightarrow> apply_mask payload m 0 | None \<Rightarrow> payload"
  have lp: "length ?p = length payload" by (simp split: option.split)
  have "ws_decode_header (?h @ ?p @ rest) = Inr (Some \<lparr>wh_fin = True, wh_opcode = opc, wh_mask = key,
      wh_payload_len = length payload, wh_header_len = length ?h\<rparr>)"
    using ws_decode_encode_header [of opc True "length payload" key "?p @ rest"] assms by (simp add: frame_ok_def)
  then show ?thesis
    using lp by (simp add: ws_poll_def ws_frame_def Let_def) (simp split: option.split)
qed

lemma drains_ws_frames:
  "\<forall>(opc, payload, key) \<in> set fs. frame_ok opc payload key \<Longrightarrow>
     drains ws_poll d (concat (map (\<lambda>(opc, payload, key). ws_frame opc payload key) fs))
       (map (\<lambda>(opc, payload, key). event_of opc payload) fs) d []"
proof (induction fs)
  case Nil
  have "ws_poll d [] = ((d, []), Inr None)" by (simp add: ws_poll_def ws_decode_header_def)
  then show ?case by (simp add: drains_stop)
next
  case (Cons f fs)
  obtain opc payload key where f: "f = (opc, payload, key)" by (cases f) auto
  let ?rest = "concat (map (\<lambda>(opc, payload, key). ws_frame opc payload key) fs)"
  have "ws_poll d (ws_frame opc payload key @ ?rest) = ((d, ?rest), Inr (Some (event_of opc payload)))"
    using Cons.prems f by (intro ws_poll_frame) simp
  with Cons show ?case by (auto simp: f intro: drains_step)
qed

section \<open>Properties\<close>

text \<open>
  WebSocket frames survive the wire and its cuts: a sequence of frames of any
  kinds, masked or not with any keys, each within the limits, arriving in chunks cut at any
  places, gives exactly one event per frame, in order, with its payload unmasked, and leaves
  nothing buffered.
\<close>

lemma ws_frames_roundtrip:
  assumes "\<forall>(opc, payload, key) \<in> set fs. frame_ok opc payload key"
    and "concat chunks = concat (map (\<lambda>(opc, payload, key). ws_frame opc payload key) fs)"
  shows "feeds ws_poll () [] chunks (map (\<lambda>(opc, payload, key). event_of opc payload) fs) () []"
proof (rule ws_decoder.drains_feeds)
  show "drains ws_poll () ([] @ concat chunks) (map (\<lambda>(opc, payload, key). event_of opc payload) fs) () []"
    using drains_ws_frames [OF assms(1), of "()"] assms(2) by simp
qed (simp add: ws_poll_def ws_decode_header_def)

end
