(* ===== verification/SaslScram.thy ===== *)
theory SaslScram
  imports SaslMechanisms WsFrames
begin

text \<open>
  \<^verbatim>\<open>vortice-sasl/src/scram.rs\<close>: SCRAM-SHA-256 from the listening side. HMAC, SHA-256 and PBKDF2 are
  third-party code: \<open>scram_prims\<close> holds them, and all that is asked of them is that a digest
  is 32 octets.
\<close>

section \<open>Credentials\<close>

record scram_prims =
  sp_hmac :: "bytes \<Rightarrow> bytes \<Rightarrow> bytes"
  sp_sha256 :: "bytes \<Rightarrow> bytes"
  sp_pbkdf2 :: "bytes \<Rightarrow> bytes \<Rightarrow> u32 \<Rightarrow> bytes"

definition prims_ok :: "scram_prims \<Rightarrow> bool" where
  "prims_ok p \<longleftrightarrow> (\<forall>k m. length (sp_hmac p k m) = 32) \<and> (\<forall>m. length (sp_sha256 p m) = 32)"

definition scram_derive :: "scram_prims \<Rightarrow> bytes \<Rightarrow> bytes \<Rightarrow> u32 \<Rightarrow> scram_credentials" where
  "scram_derive p password salt iterations =
     (let salted = sp_pbkdf2 p password salt iterations;
          client_key = sp_hmac p salted ''Client Key'';
          server_key = sp_hmac p salted ''Server Key''
      in \<lparr>sc_salt = salt, sc_iterations = iterations, sc_stored_key = sp_sha256 p client_key,
          sc_server_key = server_key\<rparr>)"

section \<open>The exchange\<close>

record challenged =
  sh_user :: bytes
  sh_authorization :: "bytes option"
  sh_credentials :: scram_credentials
  sh_nonce :: bytes
  sh_prefix :: bytes

datatype scram_phase = ScramStart | ScramChallenged challenged

record scram_exchange = exchange +
  se_state :: scram_phase

definition scram_begin :: "authenticator \<Rightarrow> sasl_context \<Rightarrow> scram_exchange" where
  "scram_begin auth cx = \<lparr>ex_authenticator = auth, ex_context = cx, se_state = ScramStart\<rparr>"

text \<open>A later field of the same name replaces an earlier one, as collecting into a map does.\<close>

definition attributes :: "bytes \<Rightarrow> bytes \<rightharpoonup> bytes" where
  "attributes t =
     foldl (\<lambda>m (nm, val). m(nm \<mapsto> val)) Map.empty
       (List.map_filter (\<lambda>field. split_once field (CHR ''='')) (split_str '','' [] t))"

definition unescape_name :: "bytes \<Rightarrow> bytes" where
  "unescape_name nm = replace_str ''=3D'' ''='' (replace_str ''=2C'' '','' nm)"

definition fresh_nonce :: "env \<Rightarrow> bytes option" where
  "fresh_nonce en = map_option b64_encode (ev_random en 18)"

definition scram_first :: "env \<Rightarrow> scram_exchange \<Rightarrow> bytes \<Rightarrow> (scram_exchange \<times> sasl_step) option" where
  "scram_first en x message =
     (if \<not> utf8_valid message then Some (x, denied)
      else case split_once message (CHR '','') of
        None \<Rightarrow> Some (x, denied)
      | Some (flag, rest) \<Rightarrow>
          if starts_with flag ''p'' then Some (x, Failed ''channel binding is not supported'')
          else if flag \<noteq> ''n'' \<and> flag \<noteq> ''y'' then Some (x, denied)
          else case split_once rest (CHR '','') of
            None \<Rightarrow> Some (x, denied)
          | Some (authzid, bare) \<Rightarrow>
              let authorization = map_option unescape_name (Option.bind (strip_prefix ''a='' authzid) non_empty);
                  fields = attributes bare in
              (case (fields ''n'', fields ''r'') of
                 (Some user, Some client_nonce) \<Rightarrow>
                   let user = unescape_name user in
                   (case au_scram (ex_authenticator x) (ex_context x) user of
                      None \<Rightarrow> Some (x, denied)
                    | Some credentials \<Rightarrow>
                        map_option (\<lambda>fresh.
                          let nonce = client_nonce @ fresh;
                              server_first = ''r='' @ nonce @ '',s='' @ b64_encode (sc_salt credentials) @ '',i='' @
                                dec (unat (sc_iterations credentials))
                          in (x\<lparr>se_state := ScramChallenged \<lparr>sh_user = user, sh_authorization = authorization,
                                 sh_credentials = credentials, sh_nonce = nonce, sh_prefix = bare @ '','' @ server_first\<rparr>\<rparr>,
                              Continue server_first)) (fresh_nonce en))
               | _ \<Rightarrow> Some (x, denied)))"

definition scram_final :: "scram_prims \<Rightarrow> challenged \<Rightarrow> bytes \<Rightarrow> sasl_step" where
  "scram_final p ch message =
     (if \<not> utf8_valid message then denied
      else let fields = attributes message in
      case (fields ''c'', fields ''r'', fields ''p'') of
        (Some binding, Some nonce, Some proof) \<Rightarrow>
          (case rsplit_once message '',p='' of
             None \<Rightarrow> denied
           | Some (without_proof, _) \<Rightarrow>
               if nonce \<noteq> sh_nonce ch then denied
               else case b64_decode binding of
                 Inl _ \<Rightarrow> denied
               | Inr _ \<Rightarrow>
                   (case b64_decode proof of
                      Inl _ \<Rightarrow> denied
                    | Inr proof \<Rightarrow>
                        if length proof \<noteq> 32 then denied
                        else let transcript = sh_prefix ch @ '','' @ without_proof;
                                 stored = sc_stored_key (sh_credentials ch);
                                 client_key = map2 xor_byte proof (sp_hmac p stored transcript)
                             in if sp_sha256 p client_key \<noteq> stored then denied
                                else CompletedWith
                                  \<lparr>id_authentication = sh_user ch, id_authorization = sh_authorization ch\<rparr>
                                  (''v='' @ b64_encode (sp_hmac p (sc_server_key (sh_credentials ch)) transcript))))
      | _ \<Rightarrow> denied)"

definition scram_step :: "scram_prims \<Rightarrow> scram_exchange stepper" where
  "scram_step p en x message =
     (let state = se_state x; x = x\<lparr>se_state := ScramStart\<rparr> in
      case state of
        ScramStart \<Rightarrow> scram_first en x message
      | ScramChallenged ch \<Rightarrow> Some (x, scram_final p ch message))"

section \<open>The contract\<close>

text \<open>
  What acceptance takes. The one challenge of the exchange repeats the peer's nonce extended by
  randomness drawn for it and names the salt and count of the credentials the authenticator
  holds for the user; the last message repeats the nonce and carries a proof which, unmasked
  with the signature of the whole transcript under the stored key of those credentials, hashes
  to that stored key. The authorization identity is only what the first message names.
\<close>

definition scram_proved ::
  "scram_prims \<Rightarrow> authenticator \<Rightarrow> sasl_context \<Rightarrow> rounds \<Rightarrow> bytes \<Rightarrow> identity \<Rightarrow> bool" where
  "scram_proved p auth cx h m i \<longleftrightarrow>
     (\<exists>en first sf creds rnd flag az bare cnonce w rest pf proof_octets. h = [(en, first, sf)] \<and>
        first = flag @ '','' @ az @ '','' @ bare \<and> flag \<in> {''n'', ''y''} \<and> attributes bare ''r'' = Some cnonce \<and>
        map_option unescape_name (attributes bare ''n'') = Some (id_authentication i) \<and>
        au_scram auth cx (id_authentication i) = Some creds \<and> ev_random en 18 = Some rnd \<and>
        sf = ''r='' @ cnonce @ b64_encode rnd @ '',s='' @ b64_encode (sc_salt creds) @ '',i='' @ dec (unat (sc_iterations creds)) \<and>
        m = w @ '',p='' @ rest \<and> attributes m ''r'' = Some (cnonce @ b64_encode rnd) \<and> attributes m ''p'' = Some pf \<and>
        b64_decode pf = Inr proof_octets \<and> length proof_octets = 32 \<and>
        sp_sha256 p (map2 xor_byte proof_octets (sp_hmac p (sc_stored_key creds) (bare @ '','' @ sf @ '','' @ w))) =
          sc_stored_key creds \<and>
        id_authorization i = map_option unescape_name (Option.bind (strip_prefix ''a='' az) non_empty))"

text \<open>Between the two messages the exchange remembers what the first round made of its message.\<close>

definition scram_ok :: "authenticator \<Rightarrow> sasl_context \<Rightarrow> rounds \<Rightarrow> scram_exchange \<Rightarrow> bool" where
  "scram_ok auth cx h x \<longleftrightarrow> begun auth cx x \<and>
     (case se_state x of ScramStart \<Rightarrow> h = []
      | ScramChallenged ch \<Rightarrow> \<exists>en first sf x0. h = [(en, first, sf)] \<and> begun auth cx x0 \<and>
          scram_first en x0 first = Some (x, Continue sf))"

lemma split_once_Some: "split_once s c = Some (a, b) \<Longrightarrow> s = a @ c # b"
  by (auto simp: split_once_def split: option.splits dest!: find_byte_SomeD) (metis append_take_drop_id Cons_nth_drop_Suc)

lemma scram_first_fields:
  assumes "scram_first en x message = Some (x', Continue sf)"
  obtains flag az bare u cnonce rnd creds where
    "message = flag @ '','' @ az @ '','' @ bare" "flag \<in> {''n'', ''y''}" "attributes bare ''n'' = Some u"
    "attributes bare ''r'' = Some cnonce" "ev_random en 18 = Some rnd"
    "au_scram (ex_authenticator x) (ex_context x) (unescape_name u) = Some creds"
    "sf = ''r='' @ cnonce @ b64_encode rnd @ '',s='' @ b64_encode (sc_salt creds) @ '',i='' @ dec (unat (sc_iterations creds))"
    "se_state x' = ScramChallenged \<lparr>sh_user = unescape_name u,
       sh_authorization = map_option unescape_name (Option.bind (strip_prefix ''a='' az) non_empty), sh_credentials = creds,
       sh_nonce = cnonce @ b64_encode rnd, sh_prefix = bare @ '','' @ sf\<rparr>"
proof -
  from assms obtain flag rest az bare u cnonce creds rnd where 1: "split_once message (CHR '','') = Some (flag, rest)"
    "split_once rest (CHR '','') = Some (az, bare)" "flag = ''n'' \<or> flag = ''y''" "attributes bare ''n'' = Some u"
    "attributes bare ''r'' = Some cnonce"
    "ev_random en 18 = Some rnd" "au_scram (ex_authenticator x) (ex_context x) (unescape_name u) = Some creds"
    "sf = ''r='' @ cnonce @ b64_encode rnd @ '',s='' @ b64_encode (sc_salt creds) @ '',i='' @ dec (unat (sc_iterations creds))"
    "se_state x' = ScramChallenged \<lparr>sh_user = unescape_name u,
       sh_authorization = map_option unescape_name (Option.bind (strip_prefix ''a='' az) non_empty), sh_credentials = creds,
       sh_nonce = cnonce @ b64_encode rnd, sh_prefix = bare @ '','' @ sf\<rparr>"
    by (auto simp: scram_first_def fresh_nonce_def Let_def denied_def split: if_splits option.splits prod.splits)
  show thesis
    by (rule that [OF _ _ 1(4-6) 1(7-9)]) (use 1(3) split_once_Some [OF 1(1)] split_once_Some [OF 1(2)] in auto)
qed

lemma scram_final_fields:
  assumes "accepted_as (scram_final p ch message) = Some i"
  obtains w rest pf pr where "message = w @ '',p='' @ rest" "attributes message ''r'' = Some (sh_nonce ch)"
    "attributes message ''p'' = Some pf" "b64_decode pf = Inr pr" "length pr = 32"
    "sp_sha256 p (map2 xor_byte pr (sp_hmac p (sc_stored_key (sh_credentials ch)) (sh_prefix ch @ '','' @ w))) =
       sc_stored_key (sh_credentials ch)"
    "i = \<lparr>id_authentication = sh_user ch, id_authorization = sh_authorization ch\<rparr>"
proof -
  from assms obtain pf w rest pr where "attributes message ''r'' = Some (sh_nonce ch)" "attributes message ''p'' = Some pf"
    "rsplit_once message '',p='' = Some (w, rest)" "b64_decode pf = Inr pr" "length pr = 32"
    "sp_sha256 p (map2 xor_byte pr (sp_hmac p (sc_stored_key (sh_credentials ch)) (sh_prefix ch @ '','' @ w))) =
       sc_stored_key (sh_credentials ch)"
    "i = \<lparr>id_authentication = sh_user ch, id_authorization = sh_authorization ch\<rparr>"
    by (auto simp: scram_final_def Let_def split: if_splits option.splits prod.splits sum.splits)
  with that [of w rest pf pr] rsplit_once_Some [of message "'',p=''" w rest] show thesis by simp
qed

lemma scram_first_ok:
  "scram_first en x message = Some (x', r) \<Longrightarrow> begun auth cx x \<Longrightarrow>
     begun auth cx x' \<and> accepted_as r = None \<and> ((\<exists>c. r = Continue c) \<longrightarrow> (\<exists>ch. se_state x' = ScramChallenged ch))"
  by (auto simp: scram_first_def begun_def denied_def Let_def split: if_splits option.splits prod.splits)

lemma scram_final_ends: "scram_final p ch message \<noteq> Continue c"
  by (auto simp: scram_final_def Let_def split: option.split prod.split sum.split)

interpretation scram: sasl_mechanism "scram_begin auth" "scram_step p" "scram_ok auth" "scram_proved p auth" for auth p
proof unfold_locales
  fix cx :: sasl_context and x x' :: scram_exchange and h en message r i chal
  show "scram_ok auth cx [] (scram_begin auth cx)" by (simp add: scram_begin_def scram_ok_def begun_def)
  assume ok: "scram_ok auth cx h x"
  let ?x = "x\<lparr>se_state := ScramStart\<rparr>"
  have b: "begun auth cx ?x" using ok by (simp add: scram_ok_def begun_def)
  show "scram_ok auth cx (h @ [(en, message, chal)]) x'" if st: "scram_step p en x message = Some (x', Continue chal)"
  proof (cases "se_state x")
    case ScramStart
    with st have f: "scram_first en ?x message = Some (x', Continue chal)" by (simp add: scram_step_def)
    from scram_first_ok [OF f b] obtain ch where "begun auth cx x'" "se_state x' = ScramChallenged ch" by auto
    with ok ScramStart f b show ?thesis by (auto simp: scram_ok_def)
  next
    case (ScramChallenged ch)
    with st show ?thesis by (simp add: scram_step_def scram_final_ends)
  qed
  show "scram_proved p auth cx h message i" if st: "scram_step p en x message = Some (x', r)" and c: "accepted_as r = Some i"
  proof (cases "se_state x")
    case ScramStart
    with st c scram_first_ok [OF _ b] show ?thesis by (auto simp: scram_step_def)
  next
    case (ScramChallenged ch)
    with ok obtain en0 first sf x0 where h: "h = [(en0, first, sf)]" "begun auth cx x0" "scram_first en0 x0 first = Some (x, Continue sf)"
      by (auto simp: scram_ok_def)
    from st c ScramChallenged have fin: "accepted_as (scram_final p ch message) = Some i" by (auto simp: scram_step_def)
    have a: "ex_authenticator x0 = auth" "ex_context x0 = cx" using h(2) by (simp_all add: begun_def)
    from h(3) obtain flag az bare u cnonce rnd creds where 1:
      "first = flag @ '','' @ az @ '','' @ bare" "flag \<in> {''n'', ''y''}" "attributes bare ''n'' = Some u"
      "attributes bare ''r'' = Some cnonce" "ev_random en0 18 = Some rnd" "au_scram auth cx (unescape_name u) = Some creds"
      "sf = ''r='' @ cnonce @ b64_encode rnd @ '',s='' @ b64_encode (sc_salt creds) @ '',i='' @ dec (unat (sc_iterations creds))"
      "se_state x = ScramChallenged \<lparr>sh_user = unescape_name u,
         sh_authorization = map_option unescape_name (Option.bind (strip_prefix ''a='' az) non_empty), sh_credentials = creds,
         sh_nonce = cnonce @ b64_encode rnd, sh_prefix = bare @ '','' @ sf\<rparr>"
      by (rule scram_first_fields) (simp add: a)
    from fin obtain w rest pf pr where 2: "message = w @ '',p='' @ rest" "attributes message ''r'' = Some (sh_nonce ch)"
      "attributes message ''p'' = Some pf" "b64_decode pf = Inr pr" "length pr = 32"
      "sp_sha256 p (map2 xor_byte pr (sp_hmac p (sc_stored_key (sh_credentials ch)) (sh_prefix ch @ '','' @ w))) =
         sc_stored_key (sh_credentials ch)"
      "i = \<lparr>id_authentication = sh_user ch, id_authorization = sh_authorization ch\<rparr>" by (rule scram_final_fields)
    from 1(8) ScramChallenged have ch: "sh_user ch = unescape_name u" "sh_credentials ch = creds"
      "sh_authorization ch = map_option unescape_name (Option.bind (strip_prefix ''a='' az) non_empty)"
      "sh_nonce ch = cnonce @ b64_encode rnd" "sh_prefix ch @ '','' @ w = bare @ '','' @ sf @ '','' @ w" by auto
    have pr: "sp_sha256 p (map2 xor_byte pr (sp_hmac p (sc_stored_key creds) (bare @ '','' @ sf @ '','' @ w))) = sc_stored_key creds"
      using 2(6) unfolding ch .
    have i: "id_authentication i = unescape_name u"
      "id_authorization i = map_option unescape_name (Option.bind (strip_prefix ''a='' az) non_empty)"
      by (simp_all add: 2(7) ch)
    have user: "map_option unescape_name (attributes bare ''n'') = Some (id_authentication i)" by (simp add: 1(3) i)
    show ?thesis
      unfolding scram_proved_def
      by (intro exI conjI)
        (rule h(1) 1(1,2,4) user 1(6) [folded i(1)] 1(5,7) 2(1) 2(2) [unfolded ch(4)] 2(3-5) pr i(2))+
  qed
qed

section \<open>Names and fields\<close>

text \<open>How a peer writes a name: a comma as \<open>=2C\<close> and an equals sign as \<open>=3D\<close>.\<close>

definition escape_name :: "bytes \<Rightarrow> bytes" where
  "escape_name nm = concat (map (\<lambda>c. if c = CHR '','' then ''=2C'' else if c = CHR ''='' then ''=3D'' else [c]) nm)"

lemma escape_name_simps [simp]:
  "escape_name [] = []"
  "escape_name (c # cs) = (if c = CHR '','' then ''=2C'' else if c = CHR ''='' then ''=3D'' else [c]) @ escape_name cs"
  by (simp_all add: escape_name_def)

lemma escape_name_no_comma: "CHR '','' \<notin> set (escape_name nm)"
  by (induction nm) simp_all

lemma unescape_escape: "unescape_name (escape_name nm) = nm"
proof -
  let ?mid = "\<lambda>nm. concat (map (\<lambda>c. if c = CHR ''='' then ''=3D'' else [c]) nm)"
  have "replace_str ''=2C'' '','' (escape_name nm) = ?mid nm"
  proof (induction nm)
    case (Cons c nm)
    have "replace_str ''=2C'' '','' (''=2C'' @ escape_name nm) = '','' @ replace_str ''=2C'' '','' (escape_name nm)"
      by (rule replace_hit) simp
    with Cons show ?case by (auto simp: replace_skip starts_with_def)
  qed simp
  moreover have "replace_str ''=3D'' ''='' (?mid nm) = nm"
  proof (induction nm)
    case (Cons c nm)
    have "replace_str ''=3D'' ''='' (''=3D'' @ ?mid nm) = ''='' @ replace_str ''=3D'' ''='' (?mid nm)"
      by (rule replace_hit) simp
    with Cons show ?case by (auto simp: replace_skip starts_with_def)
  qed simp
  ultimately show ?thesis by (simp add: unescape_name_def)
qed

lemma escape_name_not_Nil: "nm \<noteq> [] \<Longrightarrow> escape_name nm \<noteq> []"
  by (cases nm) auto

lemma escape_name_utf8: "utf8_valid nm \<Longrightarrow> utf8_valid (escape_name nm)"
proof (induction nm rule: utf8_induct)
  case (ascii b r)
  then show ?case by (simp add: octet_in_def)
next
  case (other p r)
  have "escape_name p = p" using other(1) by (induction p) (auto simp: octet_in_def)
  then have "escape_name (p @ r) = p @ escape_name r" by (simp add: escape_name_def)
  then show ?case using other utf8_valid_step [of p "escape_name r"] by simp
qed simp

lemma attributes_two:
  assumes "CHR '','' \<notin> set u" and "CHR '','' \<notin> set v"
  shows "attributes (''n='' @ u @ '',r='' @ v) = [''n'' \<mapsto> u, ''r'' \<mapsto> v]"
proof -
  have "split_str '','' [] ((''n='' @ u) @ CHR '','' # (''r='' @ v)) = [''n='' @ u, ''r='' @ v]"
    using split_str_comma [of "''n='' @ u" "[]"] split_str_none [of "''r='' @ v" "[]"] assms by simp
  moreover have "split_once (''n='' @ u) (CHR ''='') = Some (''n'', u)" "split_once (''r='' @ v) (CHR ''='') = Some (''r'', v)"
    using split_once_first [of "CHR ''=''" "''n''" u] split_once_first [of "CHR ''=''" "''r''" v] by simp_all
  ultimately show ?thesis by (simp add: attributes_def map_filter_Cons map_filter_Nil)
qed

lemma attributes_three:
  assumes "CHR '','' \<notin> set b" and "CHR '','' \<notin> set n" and "CHR '','' \<notin> set q"
  shows "attributes (''c='' @ b @ '',r='' @ n @ '',p='' @ q) = [''c'' \<mapsto> b, ''r'' \<mapsto> n, ''p'' \<mapsto> q]"
proof -
  have "split_str '','' [] ((''c='' @ b) @ CHR '','' # (''r='' @ n) @ CHR '','' # (''p='' @ q)) = [''c='' @ b, ''r='' @ n, ''p='' @ q]"
    using split_str_comma [of "''c='' @ b" "[]"] split_str_comma [of "''r='' @ n" "[]"] split_str_none [of "''p='' @ q" "[]"] assms
    by simp
  moreover have "split_once (''c='' @ b) (CHR ''='') = Some (''c'', b)" "split_once (''r='' @ n) (CHR ''='') = Some (''r'', n)"
    "split_once (''p='' @ q) (CHR ''='') = Some (''p'', q)"
    using split_once_first [of "CHR ''=''" "''c''" b] split_once_first [of "CHR ''=''" "''r''" n]
      split_once_first [of "CHR ''=''" "''p''" q] by simp_all
  ultimately show ?thesis by (simp add: attributes_def map_filter_Cons map_filter_Nil)
qed

lemma xor_byte_cancel: "xor_byte (xor_byte a b) b = a"
  by (simp add: xor_byte_def from_octet_octet xor.assoc)

lemma xor_cancel: "length a = length b \<Longrightarrow> map2 xor_byte (map2 xor_byte a b) b = a"
  by (induction a b rule: list_induct2) (simp_all add: xor_byte_cancel)

lemma b64_no_comma: "CHR '','' \<notin> set (b64_encode data)"
proof -
  have "CHR '','' \<notin> set ALPHABET" "length ALPHABET = 64" by code_simp+
  then have "CHR '','' \<noteq> alphabet_at w" for w
    using nth_mem [of "unat w mod 64" ALPHABET] unfolding alphabet_at_eq by (metis mod_less_divisor zero_less_numeral)
  then have "CHR '','' \<notin> set (encode_chunk ch)" for ch by (simp add: encode_chunk_def Let_def)
  then show ?thesis by (auto simp: b64_encode_def)
qed

section \<open>A peer that knows the password\<close>

text \<open>
  What RFC5802 has a client send: its first message, and over the whole transcript its last one,
  with a proof made from the password alone.
\<close>

definition client_bare :: "bytes \<Rightarrow> bytes \<Rightarrow> bytes" where
  "client_bare user cnonce = ''n='' @ escape_name user @ '',r='' @ cnonce"

definition authz_field :: "bytes option \<Rightarrow> bytes" where
  "authz_field authz = (case authz of None \<Rightarrow> [] | Some a \<Rightarrow> ''a='' @ escape_name a)"

definition client_first :: "bytes option \<Rightarrow> bytes \<Rightarrow> bytes \<Rightarrow> bytes" where
  "client_first authz user cnonce =
     ''n,'' @ authz_field authz @ '','' @ client_bare user cnonce"

definition server_first :: "bytes \<Rightarrow> bytes \<Rightarrow> u32 \<Rightarrow> bytes" where
  "server_first nonce salt iterations = ''r='' @ nonce @ '',s='' @ b64_encode salt @ '',i='' @ dec (unat iterations)"

definition client_proof :: "scram_prims \<Rightarrow> bytes \<Rightarrow> bytes \<Rightarrow> u32 \<Rightarrow> bytes \<Rightarrow> bytes" where
  "client_proof p password salt iterations transcript =
     (let key = sp_hmac p (sp_pbkdf2 p password salt iterations) ''Client Key''
      in map2 xor_byte key (sp_hmac p (sp_sha256 p key) transcript))"

definition without_proof :: "bytes \<Rightarrow> bytes \<Rightarrow> bytes" where
  "without_proof gs2 nonce = ''c='' @ b64_encode gs2 @ '',r='' @ nonce"

lemma scram_first_honest:
  assumes "au_scram auth cx user = Some creds" and "ev_random en 18 = Some rnd"
    and "utf8_valid user" and "\<forall>a. authz = Some a \<longrightarrow> utf8_valid a \<and> a \<noteq> []"
    and "utf8_valid cnonce" and "CHR '','' \<notin> set cnonce"
  defines "nonce \<equiv> cnonce @ b64_encode rnd"
  defines "sf \<equiv> server_first nonce (sc_salt creds) (sc_iterations creds)"
  shows "scram_step p en (scram_begin auth cx) (client_first authz user cnonce) =
    Some (scram_begin auth cx\<lparr>se_state := ScramChallenged \<lparr>sh_user = user, sh_authorization = authz, sh_credentials = creds,
       sh_nonce = nonce, sh_prefix = client_bare user cnonce @ '','' @ sf\<rparr>\<rparr>, Continue sf)"
proof -
  let ?a = "authz_field authz"
  have valid: "utf8_valid (client_first authz user cnonce)"
    using assms(3-5) by (auto simp: client_first_def client_bare_def authz_field_def octet_in_def escape_name_utf8 utf8_valid_append split: option.split)
  have c1: "split_once (client_first authz user cnonce) (CHR '','') = Some (''n'', ?a @ CHR '','' # client_bare user cnonce)"
    using split_once_first [of "CHR '',''" "''n''"] by (simp add: client_first_def)
  have "CHR '','' \<notin> set ?a" using escape_name_no_comma by (auto simp: authz_field_def split: option.split)
  then have c2: "split_once (?a @ CHR '','' # client_bare user cnonce) (CHR '','') = Some (?a, client_bare user cnonce)"
    using split_once_first [of "CHR '',''" ?a] by simp
  have az: "map_option unescape_name (Option.bind (strip_prefix ''a='' ?a) non_empty) = authz"
    using assms(4) by (cases authz) (auto simp: authz_field_def non_empty_def unescape_escape dest: escape_name_not_Nil)
  have f: "attributes (client_bare user cnonce) = [''n'' \<mapsto> escape_name user, ''r'' \<mapsto> cnonce]"
    unfolding client_bare_def by (rule attributes_two) (simp_all add: escape_name_no_comma assms(6))
  show ?thesis
    unfolding scram_step_def scram_begin_def
    by (simp add: scram_first_def valid c1 c2 f unescape_escape assms(1,2) az fresh_nonce_def starts_with_def sf_def
        nonce_def server_first_def Let_def)
qed

lemma scram_final_honest:
  fixes gs2 :: bytes
  assumes "prims_ok p" and "sh_credentials ch = scram_derive p password salt iterations"
    and "utf8_valid (sh_nonce ch)" and "CHR '','' \<notin> set (sh_nonce ch)"
  defines "transcript \<equiv> sh_prefix ch @ '','' @ without_proof gs2 (sh_nonce ch)"
  shows "scram_final p ch (without_proof gs2 (sh_nonce ch) @ '',p='' @ b64_encode (client_proof p password salt iterations transcript)) =
    CompletedWith \<lparr>id_authentication = sh_user ch, id_authorization = sh_authorization ch\<rparr>
      (''v='' @ b64_encode (sp_hmac p (sc_server_key (sh_credentials ch)) transcript))"
proof -
  let ?q = "client_proof p password salt iterations transcript" and ?w = "without_proof gs2 (sh_nonce ch)"
  let ?key = "sp_hmac p (sp_pbkdf2 p password salt iterations) ''Client Key''"
  have valid: "utf8_valid (?w @ '',p='' @ b64_encode ?q)"
    using assms(3) graphic_utf8 [OF b64_graphic]
    by (auto simp: without_proof_def octet_in_def utf8_valid_append)
  have at: "attributes (?w @ '',p='' @ b64_encode ?q) =
      [''c'' \<mapsto> b64_encode gs2, ''r'' \<mapsto> sh_nonce ch, ''p'' \<mapsto> b64_encode ?q]"
    using attributes_three [of "b64_encode gs2" "sh_nonce ch" "b64_encode ?q"] assms(4) b64_no_comma
    by (simp add: without_proof_def)
  have rs: "rsplit_once (?w @ '',p='' @ b64_encode ?q) '',p='' = Some (?w, b64_encode ?q)"
    by (rule rsplit_once_last) (simp_all add: b64_no_comma)
  have len: "length (sp_hmac p k m) = 32" for k m using assms(1) by (simp add: prims_ok_def)
  have q: "?q = map2 xor_byte ?key (sp_hmac p (sp_sha256 p ?key) transcript)" by (simp add: client_proof_def Let_def)
  have "length ?q = 32" by (simp add: q len)
  moreover have "map2 xor_byte ?q (sp_hmac p (sp_sha256 p ?key) transcript) = ?key" unfolding q by (rule xor_cancel) (simp add: len)
  moreover have "sc_stored_key (sh_credentials ch) = sp_sha256 p ?key" by (simp add: assms(2) scram_derive_def Let_def)
  moreover have "sh_prefix ch @ CHR '','' # ?w = transcript" by (simp add: transcript_def)
  ultimately show ?thesis
    using valid at rs by (simp add: scram_final_def b64_decode_encode Let_def)
qed

section \<open>What acceptance takes\<close>

lemma scram_first_Continue:
  assumes "scram_first en x message = Some (x', Continue sf)"
  obtains flag az bare cnonce rnd ch where
    "message = flag @ CHR '','' # az @ CHR '','' # bare" "flag = ''n'' \<or> flag = ''y''" "attributes bare ''r'' = Some cnonce"
    "ev_random en 18 = Some rnd" "se_state x' = ScramChallenged ch"
    "au_scram (ex_authenticator x) (ex_context x) (sh_user ch) = Some (sh_credentials ch)"
    "sf = server_first (cnonce @ b64_encode rnd) (sc_salt (sh_credentials ch)) (sc_iterations (sh_credentials ch))"
    "sh_nonce ch = cnonce @ b64_encode rnd" "sh_prefix ch = bare @ '','' @ sf"
proof -
  from assms obtain flag rest az bare u cnonce creds rnd where 1: "split_once message (CHR '','') = Some (flag, rest)"
    "split_once rest (CHR '','') = Some (az, bare)" "flag = ''n'' \<or> flag = ''y''" "attributes bare ''r'' = Some cnonce"
    "ev_random en 18 = Some rnd" "au_scram (ex_authenticator x) (ex_context x) (unescape_name u) = Some creds"
    "sf = server_first (cnonce @ b64_encode rnd) (sc_salt creds) (sc_iterations creds)"
    "se_state x' = ScramChallenged \<lparr>sh_user = unescape_name u,
       sh_authorization = map_option unescape_name (Option.bind (strip_prefix ''a='' az) non_empty), sh_credentials = creds,
       sh_nonce = cnonce @ b64_encode rnd, sh_prefix = bare @ '','' @ sf\<rparr>"
    by (auto simp: scram_first_def fresh_nonce_def Let_def denied_def server_first_def split: if_splits option.splits prod.splits)
  show thesis
    by (rule that [OF _ 1(3-5) 1(8)]) (simp_all add: 1 split_once_Some [OF 1(1)] split_once_Some [OF 1(2)])
qed

lemma scram_final_CompletedWith:
  assumes "scram_final p ch message = CompletedWith i d" and "prims_ok p"
  defines "stored \<equiv> sc_stored_key (sh_credentials ch)"
  obtains w rest pf key where
    "message = w @ '',p='' @ rest" "attributes message ''r'' = Some (sh_nonce ch)" "attributes message ''p'' = Some pf"
    "sp_sha256 p key = stored" "b64_decode pf = Inr (map2 xor_byte key (sp_hmac p stored (sh_prefix ch @ '','' @ w)))"
    "d = ''v='' @ b64_encode (sp_hmac p (sc_server_key (sh_credentials ch)) (sh_prefix ch @ '','' @ w))"
    "id_authentication i = sh_user ch"
proof -
  from assms(1) obtain pf w rest pr where 1: "attributes message ''r'' = Some (sh_nonce ch)" "attributes message ''p'' = Some pf"
    "rsplit_once message '',p='' = Some (w, rest)" "b64_decode pf = Inr pr" "length pr = 32"
    "sp_sha256 p (map2 xor_byte pr (sp_hmac p stored (sh_prefix ch @ '','' @ w))) = stored"
    "d = ''v='' @ b64_encode (sp_hmac p (sc_server_key (sh_credentials ch)) (sh_prefix ch @ '','' @ w))"
    "id_authentication i = sh_user ch"
    by (auto simp: scram_final_def Let_def denied_def stored_def split: if_splits option.splits prod.splits sum.splits)
  let ?s = "sp_hmac p stored (sh_prefix ch @ '','' @ w)"
  have "length ?s = 32" using assms(2) by (simp add: prims_ok_def)
  then have "map2 xor_byte (map2 xor_byte pr ?s) ?s = pr" using 1(5) by (intro xor_cancel) simp
  with 1 that [of w rest pf "map2 xor_byte pr ?s"] rsplit_once_Some [OF 1(3)] show thesis by simp
qed

section \<open>Properties\<close>

text \<open>
  C33 (functional). A peer that knows the password is let in: for credentials derived from any
  password, salt and iteration count, a client that follows RFC5802 gets the server's first
  message, and then an acceptance with a signature over the transcript under the server key.
  The identity it is accepted under is acting as whoever it asked to act as: the authenticator
  is only ever asked for the credentials of the user, so the authorization identity is the
  peer's own choice.
\<close>

theorem scram_honest:
  fixes p :: scram_prims and salt :: bytes and iterations :: u32 and cnonce gs2 :: bytes
  assumes "prims_ok p" and "au_scram auth cx user = Some (scram_derive p password salt iterations)"
    and "ev_random en 18 = Some rnd" and "utf8_valid user" and "\<forall>a. authz = Some a \<longrightarrow> utf8_valid a \<and> a \<noteq> []"
    and "utf8_valid cnonce" and "CHR '','' \<notin> set cnonce"
  defines "nonce \<equiv> cnonce @ b64_encode rnd"
  defines "w \<equiv> without_proof gs2 nonce"
  defines "transcript \<equiv> client_bare user cnonce @ '','' @ server_first nonce salt iterations @ '','' @ w"
  shows "\<exists>x. scram_step p en (scram_begin auth cx) (client_first authz user cnonce) = Some (x, Continue (server_first nonce salt iterations)) \<and>
    (\<forall>en'. \<exists>x' i. scram_step p en' x (w @ '',p='' @ b64_encode (client_proof p password salt iterations transcript)) =
         Some (x', CompletedWith i
           (''v='' @ b64_encode (sp_hmac p (sp_hmac p (sp_pbkdf2 p password salt iterations) ''Server Key'') transcript))) \<and>
       id_authentication i = user \<and> effective i = (case authz of None \<Rightarrow> user | Some a \<Rightarrow> a))"
proof -
  let ?creds = "scram_derive p password salt iterations"
  let ?ch = "\<lparr>sh_user = user, sh_authorization = authz, sh_credentials = ?creds, sh_nonce = nonce,
      sh_prefix = client_bare user cnonce @ '','' @ server_first nonce salt iterations\<rparr>"
  let ?x = "scram_begin auth cx\<lparr>se_state := ScramChallenged ?ch\<rparr>"
  have fields: "sc_salt ?creds = salt" "sc_iterations ?creds = iterations"
    "sc_server_key ?creds = sp_hmac p (sp_pbkdf2 p password salt iterations) ''Server Key''"
    by (simp_all add: scram_derive_def Let_def)
  have first: "scram_step p en (scram_begin auth cx) (client_first authz user cnonce) =
      Some (?x, Continue (server_first nonce salt iterations))"
    using scram_first_honest [OF assms(2,3,4,5,6,7)] by (simp add: fields nonce_def)
  have n: "utf8_valid (sh_nonce ?ch)" "CHR '','' \<notin> set (sh_nonce ?ch)"
    using assms(6,7) graphic_utf8 [OF b64_graphic] b64_no_comma by (simp_all add: nonce_def utf8_valid_append)
  have "scram_final p ?ch (w @ '',p='' @ b64_encode (client_proof p password salt iterations transcript)) =
      CompletedWith \<lparr>id_authentication = user, id_authorization = authz\<rparr>
        (''v='' @ b64_encode (sp_hmac p (sp_hmac p (sp_pbkdf2 p password salt iterations) ''Server Key'') transcript))"
    using scram_final_honest [OF assms(1) _ n, of password salt iterations gs2] fields by (simp add: w_def transcript_def)
  then have final: "scram_step p en' ?x (w @ '',p='' @ b64_encode (client_proof p password salt iterations transcript)) =
      Some (?x\<lparr>se_state := ScramStart\<rparr>, CompletedWith \<lparr>id_authentication = user, id_authorization = authz\<rparr>
        (''v='' @ b64_encode (sp_hmac p (sp_hmac p (sp_pbkdf2 p password salt iterations) ''Server Key'') transcript)))" for en'
    by (simp add: scram_step_def)
  show ?thesis
    by (intro exI [of _ ?x] conjI allI first exI [of _ "?x\<lparr>se_state := ScramStart\<rparr>"]
        exI [of _ "\<lparr>id_authentication = user, id_authorization = authz\<rparr>"] final)
      (simp_all add: effective_def split: option.split)
qed

definition sample_prims :: scram_prims where
  "sample_prims = \<lparr>sp_hmac = \<lambda>k m. replicate 32 (CHR ''h''), sp_sha256 = \<lambda>m. replicate 32 (CHR ''s''), sp_pbkdf2 = \<lambda>pw salt n. pw\<rparr>"

definition sample_users :: authenticator where
  "sample_users = refuse_all\<lparr>au_scram := \<lambda>cx u. if u = ''bob'' then Some (scram_derive sample_prims ''pw'' ''salt'' 4096) else None\<rparr>"

definition sample_env :: env where
  "sample_env = \<lparr>ev_random = \<lambda>n. Some (replicate n (CHR ''r'')), ev_seconds = 0\<rparr>"

lemma sample_facts:
  "prims_ok sample_prims" "au_scram sample_users cx ''bob'' = Some (scram_derive sample_prims ''pw'' ''salt'' 4096)"
  "ev_random sample_env 18 = Some (replicate 18 (CHR ''r''))" "utf8_valid ''bob''" "utf8_valid ''root''" "utf8_valid ''xyz''"
  by (simp_all add: sample_prims_def prims_ok_def sample_users_def sample_env_def octet_in_def)

text \<open>Bob, who knows his own password, is recorded as root.\<close>

theorem scram_honest_witness:
  "\<exists>x sf message x' i d. scram_step sample_prims sample_env (scram_begin sample_users \<lparr>cx_server_name = None\<rparr>)
       (client_first (Some ''root'') ''bob'' ''xyz'') = Some (x, Continue sf) \<and>
     scram_step sample_prims sample_env x message = Some (x', CompletedWith i d) \<and>
     id_authentication i = ''bob'' \<and> effective i = ''root''"
proof -
  have "\<forall>a. Some ''root'' = Some a \<longrightarrow> utf8_valid a \<and> a \<noteq> []" using sample_facts(5) by simp
  from scram_honest [OF sample_facts(1-4) this sample_facts(6), of "\<lparr>cx_server_name = None\<rparr>" "''n,,''"]
  show ?thesis by simp blast
qed

text \<open>
  C32 (safety). Acceptance takes a proof over this exchange. When a run of the two rounds ends in
  acceptance, the peer presented a value that hashes to the stored key of the identity it is
  accepted as, masked with the signature under that key of the whole transcript: its own first
  message, the server's first message with randomness drawn in this exchange, and its final
  message up to the proof, which repeats that nonce. What it gets back is a signature of the
  same transcript under the server key.
\<close>

theorem scram_proof_required:
  assumes "scram_step p en (scram_begin auth cx) m1 = Some (x, Continue sf)"
    and "scram_step p en' x m2 = Some (x', CompletedWith i d)" and "prims_ok p"
  shows "\<exists>creds rnd flag az bare cnonce w rest pf key.
    au_scram auth cx (id_authentication i) = Some creds \<and> ev_random en 18 = Some rnd \<and>
    m1 = flag @ CHR '','' # az @ CHR '','' # bare \<and> (flag = ''n'' \<or> flag = ''y'') \<and> attributes bare ''r'' = Some cnonce \<and>
    sf = server_first (cnonce @ b64_encode rnd) (sc_salt creds) (sc_iterations creds) \<and>
    m2 = w @ '',p='' @ rest \<and> attributes m2 ''r'' = Some (cnonce @ b64_encode rnd) \<and> attributes m2 ''p'' = Some pf \<and>
    sp_sha256 p key = sc_stored_key creds \<and>
    b64_decode pf = Inr (map2 xor_byte key (sp_hmac p (sc_stored_key creds) (bare @ '','' @ sf @ '','' @ w))) \<and>
    d = ''v='' @ b64_encode (sp_hmac p (sc_server_key creds) (bare @ '','' @ sf @ '','' @ w))"
proof -
  have "scram_first en (scram_begin auth cx) m1 = Some (x, Continue sf)"
    using assms(1) by (simp add: scram_step_def scram_begin_def)
  then obtain flag az bare cnonce rnd ch where 1:
    "m1 = flag @ CHR '','' # az @ CHR '','' # bare" "flag = ''n'' \<or> flag = ''y''" "attributes bare ''r'' = Some cnonce"
    "ev_random en 18 = Some rnd" "se_state x = ScramChallenged ch" "au_scram auth cx (sh_user ch) = Some (sh_credentials ch)"
    "sf = server_first (cnonce @ b64_encode rnd) (sc_salt (sh_credentials ch)) (sc_iterations (sh_credentials ch))"
    "sh_nonce ch = cnonce @ b64_encode rnd" "sh_prefix ch = bare @ '','' @ sf"
    by (rule scram_first_Continue) (simp add: scram_begin_def)
  have "scram_final p ch m2 = CompletedWith i d" using assms(2) 1(5) by (simp add: scram_step_def)
  from this assms(3) obtain w rest pf key where 2:
    "m2 = w @ '',p='' @ rest" "attributes m2 ''r'' = Some (sh_nonce ch)" "attributes m2 ''p'' = Some pf"
    "sp_sha256 p key = sc_stored_key (sh_credentials ch)"
    "b64_decode pf = Inr (map2 xor_byte key (sp_hmac p (sc_stored_key (sh_credentials ch)) (sh_prefix ch @ '','' @ w)))"
    "d = ''v='' @ b64_encode (sp_hmac p (sc_server_key (sh_credentials ch)) (sh_prefix ch @ '','' @ w))"
    "id_authentication i = sh_user ch"
    by (rule scram_final_CompletedWith)
  have pre: "sh_prefix ch @ '','' @ w = bare @ '','' @ sf @ '','' @ w" by (simp add: 1(9))
  show ?thesis
    by (intro exI conjI) (rule 1(6) [folded 2(7)] 1(1-4,7) 2(1) 2(2) [unfolded 1(8)] 2(3,4) 2(5,6) [unfolded pre])+
qed

theorem scram_proof_required_witness:
  "\<exists>x sf message x' i d key. scram_step sample_prims sample_env (scram_begin sample_users \<lparr>cx_server_name = None\<rparr>)
       (client_first None ''bob'' ''xyz'') = Some (x, Continue sf) \<and>
     scram_step sample_prims sample_env x message = Some (x', CompletedWith i d) \<and>
     sp_sha256 sample_prims key = replicate 32 (CHR ''s'')"
proof -
  let ?cx = "\<lparr>cx_server_name = None\<rparr>"
  note first = scram_first_honest [OF sample_facts(2,3,4) _ sample_facts(6), of None sample_prims ?cx]
  have "\<exists>x sf message x' i d. scram_step sample_prims sample_env (scram_begin sample_users ?cx)
       (client_first None ''bob'' ''xyz'') = Some (x, Continue sf) \<and>
     scram_step sample_prims sample_env x message = Some (x', CompletedWith i d)"
  proof -
    let ?creds = "scram_derive sample_prims ''pw'' ''salt'' 4096" and ?n = "''xyz'' @ b64_encode (replicate 18 (CHR ''r''))"
    let ?sf = "server_first ?n (sc_salt ?creds) (sc_iterations ?creds)"
    let ?ch = "\<lparr>sh_user = ''bob'', sh_authorization = None, sh_credentials = ?creds, sh_nonce = ?n,
        sh_prefix = client_bare ''bob'' ''xyz'' @ '','' @ ?sf\<rparr>"
    have n: "utf8_valid (sh_nonce ?ch)" "CHR '','' \<notin> set (sh_nonce ?ch)"
      using utf8_valid_append [OF sample_facts(6) graphic_utf8 [OF b64_graphic]] b64_no_comma by simp_all
    from scram_final_honest [OF sample_facts(1) _ n, of "''pw''" "''salt''" 4096 "''n,,''"] first
    show ?thesis by (simp add: scram_step_def) blast
  qed
  then obtain x sf message x' i d where run: "scram_step sample_prims sample_env (scram_begin sample_users ?cx)
       (client_first None ''bob'' ''xyz'') = Some (x, Continue sf)"
    "scram_step sample_prims sample_env x message = Some (x', CompletedWith i d)" by blast
  from scram_proof_required [OF run sample_facts(1)] obtain creds key where
    "au_scram sample_users ?cx (id_authentication i) = Some creds" "sp_sha256 sample_prims key = sc_stored_key creds" by blast
  moreover from this(1) have "sc_stored_key creds = replicate 32 (CHR ''s'')"
    by (auto simp: sample_users_def refuse_all_def scram_derive_def sample_prims_def Let_def split: if_splits)
  ultimately have "sp_sha256 sample_prims key = replicate 32 (CHR ''s'')" by simp
  with run show ?thesis by blast
qed

end
