(* ===== verification/SaslDigest.thy ===== *)
theory SaslDigest
  imports SaslMechanisms
begin

text \<open>
  \<^verbatim>\<open>vortice-sasl/src/digest_md5.rs\<close>: DIGEST-MD5 from the listening side. MD5 is third-party code and
  a parameter. Names of directives are lowered as ASCII: none of the names looked up holds a
  letter that a letter outside ASCII lowers to.
\<close>

section \<open>Directives\<close>

text \<open>\<open>char::from(u8)\<close>: the octet as a code point, and so as UTF-8 again.\<close>

definition char_from :: "byte \<Rightarrow> bytes" where
  "char_from b = utf8_encode (of_char b)"

fun quoted_value :: "bool \<Rightarrow> bytes \<Rightarrow> bytes \<Rightarrow> bytes \<times> bytes" where
  "quoted_value escaped value [] = (value, [])"
| "quoted_value escaped value (b # bs) =
     (if escaped then quoted_value False (value @ char_from b) bs
      else if b = CHR 0x5C then quoted_value True value bs
      else if b = CHR 0x22 then (value, bs)
      else quoted_value False (value @ char_from b) bs)"

definition directive_value :: "bytes \<Rightarrow> bytes \<times> bytes" where
  "directive_value s =
     (case s of
        c # cs \<Rightarrow> if c = CHR 0x22 then quoted_value False [] cs
                  else (concat (map char_from (takeWhile (\<lambda>b. b \<noteq> CHR '','') s)), dropWhile (\<lambda>b. b \<noteq> CHR '','') s)
      | [] \<Rightarrow> ([], []))"

lemma quoted_value_shrinks: "length (snd (quoted_value e v s)) \<le> length s"
  by (induction e v s rule: quoted_value.induct) (auto intro: le_SucI)

lemma directive_value_shrinks: "length (snd (directive_value s)) \<le> length s"
  using quoted_value_shrinks [of False "[]"] by (auto simp: directive_value_def length_dropWhile_le le_SucI split: list.split)

lemma trim_start_shrinks: "length (trim_start s) \<le> length s"
proof (induction "length s" arbitrary: s rule: less_induct)
  case less
  show ?case
  proof (cases "space_at s = 0 \<or> s = []")
    case True
    then show ?thesis by (subst trim_start_step) auto
  next
    case False
    with less [of "drop (space_at s) s"] show ?thesis by (subst trim_start_step) simp
  qed
qed

definition past_separator :: "bytes \<Rightarrow> bytes" where
  "past_separator s =
     (let s = trim_start s in trim_start (case strip_prefix '','' s of Some r \<Rightarrow> r | None \<Rightarrow> s))"

lemma past_separator_shrinks: "length (past_separator s) \<le> length s"
proof -
  have "length r \<le> length (trim_start s)" if "strip_prefix '','' (trim_start s) = Some r" for r
    using that by (simp add: strip_prefix_Some_iff)
  then show ?thesis
    using trim_start_shrinks [of s] by (auto simp: past_separator_def Let_def split: option.split
        intro: order_trans [OF trim_start_shrinks] order_trans)
qed

function directives_loop :: "bytes \<Rightarrow> (bytes \<rightharpoonup> bytes) \<Rightarrow> (bytes \<rightharpoonup> bytes)" where
  "directives_loop rest dirs =
     (case find_byte rest (CHR ''='') of
        None \<Rightarrow> dirs
      | Some equals \<Rightarrow>
          let nm = map to_ascii_lowercase (str_trim (take equals rest));
              (value, left) = directive_value (drop (equals + 1) rest)
          in directives_loop (past_separator left) (dirs(nm \<mapsto> str_trim value)))"
  by pat_completeness auto
termination
proof (relation "measure (\<lambda>(rest, dirs). length rest)", goal_cases)
  case (2 rest dirs equals nm vl v left)
  then have "length left \<le> length (drop (equals + 1) rest)" using directive_value_shrinks by (metis snd_conv)
  moreover have "equals < length rest" using 2(1) by (auto dest: find_byte_SomeD)
  ultimately show ?case using past_separator_shrinks [of left] by simp
qed simp

declare directives_loop.simps [simp del]

definition directives :: "bytes \<Rightarrow> bytes \<rightharpoonup> bytes" where
  "directives t = directives_loop (str_trim t) Map.empty"

definition escape_value :: "bytes \<Rightarrow> bytes" where
  "escape_value v = replace_str [CHR 0x22] [CHR 0x5C, CHR 0x22] (replace_str [CHR 0x5C] [CHR 0x5C, CHR 0x5C] v)"

section \<open>Digests\<close>

definition session_key :: "(bytes \<Rightarrow> bytes) \<Rightarrow> bytes \<Rightarrow> bytes \<Rightarrow> bytes \<Rightarrow> bytes \<Rightarrow> bytes \<Rightarrow> bytes option \<Rightarrow> bytes" where
  "session_key md5 username realm secret nonce cnonce authorization =
     hex (md5 (md5 (username @ '':'' @ realm @ '':'' @ secret) @ '':'' @ nonce @ '':'' @ cnonce @
       (case authorization of Some a \<Rightarrow> '':'' @ a | None \<Rightarrow> [])))"

definition response_digest ::
  "(bytes \<Rightarrow> bytes) \<Rightarrow> bytes \<Rightarrow> bytes \<Rightarrow> bytes \<Rightarrow> bytes \<Rightarrow> bytes \<Rightarrow> bytes \<Rightarrow> bool \<Rightarrow> bytes" where
  "response_digest md5 key nonce nc cnonce qop digest_uri from_client =
     (let a2 = (if from_client then ''AUTHENTICATE:'' @ digest_uri else '':'' @ digest_uri);
          a2 = hex (md5 a2)
      in hex (md5 (key @ '':'' @ nonce @ '':'' @ nc @ '':'' @ cnonce @ '':'' @ qop @ '':'' @ a2)))"

section \<open>The exchange\<close>

datatype digest_phase = DigestStart | DigestChallenged bytes | DigestConfirmed identity

record digest_exchange = exchange +
  de_realm :: bytes
  de_state :: digest_phase

definition digest_begin :: "authenticator \<Rightarrow> bytes \<Rightarrow> sasl_context \<Rightarrow> digest_exchange" where
  "digest_begin auth realm cx = \<lparr>ex_authenticator = auth, ex_context = cx, de_realm = realm, de_state = DigestStart\<rparr>"

definition digest_nonce :: "env \<Rightarrow> bytes option" where
  "digest_nonce en = map_option b64_encode (ev_random en 24)"

definition digest_challenge :: "bytes \<Rightarrow> bytes \<Rightarrow> bytes" where
  "digest_challenge realm nonce =
     ''realm='' @ [CHR 0x22] @ escape_value realm @ [CHR 0x22] @ '',nonce='' @ [CHR 0x22] @ nonce @ [CHR 0x22] @
     '',qop='' @ [CHR 0x22] @ ''auth'' @ [CHR 0x22] @ '',charset=utf-8,algorithm=md5-sess''"

definition or_default :: "bytes option \<Rightarrow> bytes \<Rightarrow> bytes" where
  "or_default v d = (case v of Some x \<Rightarrow> x | None \<Rightarrow> d)"

definition digest_check :: "(bytes \<Rightarrow> bytes) \<Rightarrow> bytes \<Rightarrow> digest_exchange \<Rightarrow> bytes \<Rightarrow> digest_exchange \<times> sasl_step" where
  "digest_check md5 nonce x response =
     (if \<not> utf8_valid response then (x, denied)
      else let dirs = directives response in
      case (dirs ''username'', dirs ''nonce'', dirs ''cnonce'', dirs ''nc'', dirs ''digest-uri'', dirs ''response'') of
        (Some username, Some sent_nonce, Some cnonce, Some nc, Some digest_uri, Some sent) \<Rightarrow>
          if sent_nonce \<noteq> nonce \<or> nc \<noteq> ''00000001'' then (x, denied)
          else let qop = or_default (dirs ''qop'') ''auth'' in
          if qop \<noteq> ''auth'' then (x, denied)
          else let realm = or_default (dirs ''realm'') [] in
          if realm \<noteq> de_realm x then (x, denied)
          else (case au_secret (ex_authenticator x) (ex_context x) username (Some (de_realm x)) of
                  None \<Rightarrow> (x, denied)
                | Some secret \<Rightarrow>
                    let authorization = Option.bind (dirs ''authzid'') non_empty;
                        key = session_key md5 username realm secret nonce cnonce authorization in
                    if response_digest md5 key nonce nc cnonce qop digest_uri True \<noteq> sent then (x, denied)
                    else (x\<lparr>de_state := DigestConfirmed \<lparr>id_authentication = username, id_authorization = authorization\<rparr>\<rparr>,
                          Continue (''rspauth='' @ response_digest md5 key nonce nc cnonce qop digest_uri False)))
      | _ \<Rightarrow> (x, denied))"

definition digest_step :: "(bytes \<Rightarrow> bytes) \<Rightarrow> digest_exchange stepper" where
  "digest_step md5 en x message =
     (let state = de_state x; x = x\<lparr>de_state := DigestStart\<rparr> in
      case state of
        DigestStart \<Rightarrow>
          map_option (\<lambda>nonce. (x\<lparr>de_state := DigestChallenged nonce\<rparr>, Continue (digest_challenge (de_realm x) nonce)))
            (digest_nonce en)
      | DigestChallenged nonce \<Rightarrow> Some (digest_check md5 nonce x message)
      | DigestConfirmed i \<Rightarrow> Some (x, if message = [] then Completed i else denied))"

section \<open>The contract\<close>

text \<open>
  What acceptance takes. The first challenge carries a nonce made from randomness drawn for it;
  the answer names the user, repeats that nonce and carries the digest over it under the secret
  the authenticator holds for that user in the realm; the second challenge is the server's own
  digest, and the last message is empty. The authorization identity is what the answer names,
  and the digest covers it.
\<close>

definition digest_answer ::
  "(bytes \<Rightarrow> bytes) \<Rightarrow> authenticator \<Rightarrow> bytes \<Rightarrow> sasl_context \<Rightarrow> bytes \<Rightarrow> bytes \<Rightarrow> identity \<Rightarrow> bool" where
  "digest_answer md5 auth realm cx nonce response i \<longleftrightarrow>
     (\<exists>cnonce digest_uri secret.
        directives response ''username'' = Some (id_authentication i) \<and> directives response ''nonce'' = Some nonce \<and>
        directives response ''cnonce'' = Some cnonce \<and> directives response ''nc'' = Some ''00000001'' \<and>
        directives response ''digest-uri'' = Some digest_uri \<and>
        id_authorization i = Option.bind (directives response ''authzid'') non_empty \<and>
        au_secret auth cx (id_authentication i) (Some realm) = Some secret \<and>
        directives response ''response'' = Some (response_digest md5
          (session_key md5 (id_authentication i) realm secret nonce cnonce (id_authorization i))
          nonce ''00000001'' cnonce ''auth'' digest_uri True))"

definition digest_proved ::
  "(bytes \<Rightarrow> bytes) \<Rightarrow> authenticator \<Rightarrow> bytes \<Rightarrow> sasl_context \<Rightarrow> rounds \<Rightarrow> bytes \<Rightarrow> identity \<Rightarrow> bool" where
  "digest_proved md5 auth realm cx h m i \<longleftrightarrow> m = [] \<and>
     (\<exists>en first en' response nonce rspauth. h = [(en, first, digest_challenge realm nonce), (en', response, rspauth)] \<and>
        digest_nonce en = Some nonce \<and> digest_answer md5 auth realm cx nonce response i)"

definition digest_ok ::
  "(bytes \<Rightarrow> bytes) \<Rightarrow> authenticator \<Rightarrow> bytes \<Rightarrow> sasl_context \<Rightarrow> rounds \<Rightarrow> digest_exchange \<Rightarrow> bool" where
  "digest_ok md5 auth realm cx h x \<longleftrightarrow> begun auth cx x \<and> de_realm x = realm \<and>
     (case de_state x of
        DigestStart \<Rightarrow> h = []
      | DigestChallenged nonce \<Rightarrow> \<exists>en first. h = [(en, first, digest_challenge realm nonce)] \<and> digest_nonce en = Some nonce
      | DigestConfirmed i \<Rightarrow> digest_proved md5 auth realm cx h [] i)"

lemma digest_check_ok:
  assumes "digest_check md5 nonce x response = (x', r)" and "begun auth cx x"
  shows "accepted_as r = None \<and>
    ((\<exists>c. r = Continue c) \<longrightarrow> begun auth cx x' \<and> de_realm x' = de_realm x \<and>
      (\<exists>i. de_state x' = DigestConfirmed i \<and> digest_answer md5 auth (de_realm x) cx nonce response i))"
  using assms
  by (auto simp: digest_check_def begun_def digest_answer_def or_default_def Let_def split: if_splits option.splits)

interpretation digest: sasl_mechanism "digest_begin auth realm" "digest_step md5" "digest_ok md5 auth realm" "digest_proved md5 auth realm"
  for auth realm md5
proof unfold_locales
  fix cx :: sasl_context and x x' :: digest_exchange and h en message r i chal
  show "digest_ok md5 auth realm cx [] (digest_begin auth realm cx)" by (simp add: digest_begin_def digest_ok_def begun_def)
  assume ok: "digest_ok md5 auth realm cx h x"
  let ?x = "x\<lparr>de_state := DigestStart\<rparr>"
  have b: "begun auth cx ?x" "de_realm ?x = realm" using ok by (simp_all add: digest_ok_def begun_def)
  show "digest_ok md5 auth realm cx (h @ [(en, message, chal)]) x'" if st: "digest_step md5 en x message = Some (x', Continue chal)"
  proof (cases "de_state x")
    case DigestStart
    with st ok show ?thesis by (auto simp: digest_step_def digest_ok_def begun_def Let_def)
  next
    case (DigestChallenged nonce)
    with ok obtain en0 first where h: "h = [(en0, first, digest_challenge realm nonce)]" "digest_nonce en0 = Some nonce"
      by (auto simp: digest_ok_def)
    from st DigestChallenged have "digest_check md5 nonce ?x message = (x', Continue chal)" by (simp add: digest_step_def)
    from digest_check_ok [OF this b(1)] b(2) obtain i where "begun auth cx x'" "de_realm x' = realm" "de_state x' = DigestConfirmed i"
      "digest_answer md5 auth realm cx nonce message i" by auto
    with h show ?thesis by (auto simp: digest_ok_def digest_proved_def)
  next
    case (DigestConfirmed i)
    with st show ?thesis by (auto simp: digest_step_def split: if_splits)
  qed
  show "digest_proved md5 auth realm cx h message i" if st: "digest_step md5 en x message = Some (x', r)" and c: "accepted_as r = Some i"
  proof (cases "de_state x")
    case DigestStart
    with st c show ?thesis by (auto simp: digest_step_def)
  next
    case (DigestChallenged nonce)
    with st have "digest_check md5 nonce ?x message = (x', r)" by (simp add: digest_step_def)
    from digest_check_ok [OF this b(1)] c show ?thesis by simp
  next
    case (DigestConfirmed j)
    with st c have "message = []" "j = i" by (auto simp: digest_step_def split: if_splits)
    with ok DigestConfirmed show ?thesis by (simp add: digest_ok_def)
  qed
qed

section \<open>Directives as they are written\<close>

lemma replace_octet: "replace_str [c] r s = concat (map (\<lambda>x. if x = c then r else [x]) s)"
proof (induction s)
  case (Cons x s)
  show ?case
  proof (cases "x = c")
    case True
    then show ?thesis using replace_hit [of "[c]" r s] Cons by simp
  next
    case False
    then show ?thesis using Cons by (simp add: replace_skip starts_with_def)
  qed
qed simp

lemma escape_value_Cons:
  "escape_value (b # bs) = (if b = CHR 0x5C \<or> b = CHR 0x22 then [CHR 0x5C, b] else [b]) @ escape_value bs"
  by (simp add: escape_value_def replace_octet)

lemma escape_value_Nil [simp]: "escape_value [] = []"
  by (simp add: escape_value_def)

lemma quoted_value_escape:
  "quoted_value False acc (escape_value v @ CHR 0x22 # rest) = (acc @ concat (map char_from v), rest)"
  by (induction v arbitrary: acc) (simp_all add: escape_value_Cons)

definition ascii :: "bytes \<Rightarrow> bool" where
  "ascii v \<longleftrightarrow> (\<forall>c \<in> set v. octet_in 0 0x7F c)"

lemma char_from_ascii: "ascii v \<Longrightarrow> concat (map char_from v) = v"
  by (induction v) (simp_all add: ascii_def char_from_def utf8_encode_def octet_in_def)

text \<open>A directive with its value, in quotes or plain.\<close>

datatype directive = Quoted bytes bytes | Plain bytes bytes

fun directive_name :: "directive \<Rightarrow> bytes" where
  "directive_name (Quoted n v) = n"
| "directive_name (Plain n v) = n"

fun directive_content :: "directive \<Rightarrow> bytes" where
  "directive_content (Quoted n v) = v"
| "directive_content (Plain n v) = v"

fun write_directive :: "directive \<Rightarrow> bytes" where
  "write_directive (Quoted n v) = n @ ''='' @ [CHR 0x22] @ escape_value v @ [CHR 0x22]"
| "write_directive (Plain n v) = n @ ''='' @ v"

fun write_directives :: "directive list \<Rightarrow> bytes" where
  "write_directives [] = []"
| "write_directives [d] = write_directive d"
| "write_directives (d # ds) = write_directive d @ '','' @ write_directives ds"

definition directive_ok :: "directive \<Rightarrow> bool" where
  "directive_ok d \<longleftrightarrow>
     directive_name d \<noteq> [] \<and> CHR ''='' \<notin> set (directive_name d) \<and> map to_ascii_lowercase (directive_name d) = directive_name d \<and>
     (\<forall>c \<in> set (directive_name d). graphic c) \<and> ascii (directive_content d) \<and> str_trim (directive_content d) = directive_content d \<and>
     (case d of Quoted n v \<Rightarrow> True
      | Plain n v \<Rightarrow> v \<noteq> [] \<and> hd v \<noteq> CHR 0x22 \<and> CHR '','' \<notin> set v \<and> (\<forall>c \<in> set v. graphic c))"

lemma directive_ends:
  "directive_ok d \<Longrightarrow> write_directive d \<noteq> [] \<and> graphic (hd (write_directive d)) \<and> graphic (last (write_directive d))"
  by (cases d) (auto simp: directive_ok_def graphic_def)

lemma directives_ends:
  assumes "\<forall>d \<in> set ds. directive_ok d" and "ds \<noteq> []"
  shows "write_directives ds \<noteq> [] \<and> graphic (hd (write_directives ds)) \<and> graphic (last (write_directives ds))"
  using assms
proof (induction ds rule: write_directives.induct)
  case (3 d d' ds)
  with directive_ends [of d] show ?case by simp
qed (simp_all add: directive_ends)

lemma directive_value_Quoted:
  "directive_value ([CHR 0x22] @ escape_value v @ CHR 0x22 # rest) = (concat (map char_from v), rest)"
  using quoted_value_escape [of "[]" v rest] by (simp add: directive_value_def)

lemma directive_value_Plain:
  assumes "v \<noteq> []" and "hd v \<noteq> CHR 0x22" and "CHR '','' \<notin> set v" and "rest = [] \<or> hd rest = CHR '',''"
  shows "directive_value (v @ rest) = (concat (map char_from v), rest)"
proof -
  have "takeWhile (\<lambda>b. b \<noteq> CHR '','') (v @ rest) = v \<and> dropWhile (\<lambda>b. b \<noteq> CHR '','') (v @ rest) = rest"
    using assms(3,4) by (induction v) (cases rest; auto)+
  with assms(1,2) show ?thesis by (cases v) (simp_all add: directive_value_def)
qed

lemma directives_loop_one:
  assumes "directive_ok d" and "rest = [] \<or> hd rest = CHR '',''"
  shows "directives_loop (write_directive d @ rest) flds =
    directives_loop (past_separator rest) (flds(directive_name d \<mapsto> directive_content d))"
proof -
  let ?n = "directive_name d" and ?v = "directive_content d"
  obtain w where w: "write_directive d = ?n @ ''='' @ w" "directive_value (w @ rest) = (concat (map char_from ?v), rest)"
  proof (cases d)
    case (Quoted n v)
    then show thesis using directive_value_Quoted [of v rest] that [of "[CHR 0x22] @ escape_value v @ [CHR 0x22]"] by simp
  next
    case (Plain n v)
    then show thesis using directive_value_Plain [of v rest] assms that [of v] by (simp add: directive_ok_def)
  qed
  have n: "CHR ''='' \<notin> set ?n" "str_trim ?n = ?n" "map to_ascii_lowercase ?n = ?n"
    using assms(1) graphic_ends [of ?n] by (auto simp: directive_ok_def intro!: trim_graphic)
  have v: "concat (map char_from ?v) = ?v" "str_trim ?v = ?v"
    using assms(1) by (simp_all add: directive_ok_def char_from_ascii)
  have "find_byte (?n @ CHR ''='' # w @ rest) (CHR ''='') = Some (length ?n)" by (rule find_byte_first [OF n(1)])
  then show ?thesis
    unfolding w(1) by (subst directives_loop.simps) (simp add: n v w(2))
qed

lemma past_separator_comma:
  assumes "s \<noteq> []" and "graphic (hd s)" shows "past_separator (CHR '','' # s) = s"
  using assms trim_start_id [of s] trim_start_graphic [of "CHR '',''" s] by (simp add: past_separator_def Let_def graphic_def)

lemma past_separator_Nil: "past_separator [] = []"
  by (simp add: past_separator_def)

lemma directives_loop_Nil: "directives_loop [] flds = flds"
  by (simp add: directives_loop.simps)

lemma directives_loop_all:
  "\<forall>d \<in> set ds. directive_ok d \<Longrightarrow>
     directives_loop (write_directives ds) flds = foldl (\<lambda>m d. m(directive_name d \<mapsto> directive_content d)) flds ds"
proof (induction ds arbitrary: flds rule: write_directives.induct)
  case (2 d)
  then show ?case using directives_loop_one [of d "[]" flds] by (simp add: past_separator_Nil directives_loop_Nil)
next
  case (3 d d' ds)
  have "past_separator (CHR '','' # write_directives (d' # ds)) = write_directives (d' # ds)"
    using 3(2) directives_ends [of "d' # ds"] by (intro past_separator_comma) simp_all
  with 3 show ?case using directives_loop_one [of d "CHR '','' # write_directives (d' # ds)" flds]
    by (simp del: fun_upd_apply)
qed (simp add: directives_loop_Nil)

lemma directives_written:
  assumes "\<forall>d \<in> set ds. directive_ok d"
  shows "directives (write_directives ds) = foldl (\<lambda>m d. m(directive_name d \<mapsto> directive_content d)) Map.empty ds"
proof -
  have "str_trim (write_directives ds) = write_directives ds"
    using directives_ends [OF assms] by (cases "ds = []") (auto intro!: trim_graphic)
  with directives_loop_all [OF assms] show ?thesis by (simp add: directives_def)
qed

section \<open>A peer that knows the password\<close>

definition readable :: "bytes \<Rightarrow> bool" where
  "readable v \<longleftrightarrow> ascii v \<and> str_trim v = v"

text \<open>What RFC2831 has a client answer a challenge with.\<close>

definition client_digest :: "(bytes \<Rightarrow> bytes) \<Rightarrow> bytes \<Rightarrow> bytes \<Rightarrow> bytes \<Rightarrow> bytes \<Rightarrow> bytes \<Rightarrow> bytes \<Rightarrow> bytes option \<Rightarrow> bool \<Rightarrow> bytes" where
  "client_digest md5 user realm secret nonce cnonce uri authz from_client =
     response_digest md5 (session_key md5 user realm secret nonce cnonce authz) nonce ''00000001'' cnonce ''auth'' uri from_client"

definition client_response :: "(bytes \<Rightarrow> bytes) \<Rightarrow> bytes \<Rightarrow> bytes \<Rightarrow> bytes \<Rightarrow> bytes \<Rightarrow> bytes \<Rightarrow> bytes \<Rightarrow> bytes option \<Rightarrow> directive list" where
  "client_response md5 user realm secret nonce cnonce uri authz =
     [Quoted ''username'' user, Quoted ''realm'' realm, Quoted ''nonce'' nonce, Quoted ''cnonce'' cnonce,
      Plain ''nc'' ''00000001'', Plain ''qop'' ''auth'', Quoted ''digest-uri'' uri,
      Plain ''response'' (client_digest md5 user realm secret nonce cnonce uri authz True)] @
     (case authz of None \<Rightarrow> [] | Some a \<Rightarrow> [Quoted ''authzid'' a])"

lemma graphic_ascii: "\<forall>c \<in> set v. graphic c \<Longrightarrow> ascii v"
  by (auto simp: ascii_def graphic_def octet_in_def)

lemma graphic_readable: "\<forall>c \<in> set v. graphic c \<Longrightarrow> readable v"
  using graphic_ends [of v] by (cases "v = []") (auto simp: readable_def graphic_ascii intro!: trim_graphic)

lemma quoted_ok:
  "n \<in> {''username'', ''realm'', ''nonce'', ''cnonce'', ''digest-uri'', ''authzid''} \<Longrightarrow> readable v \<Longrightarrow> directive_ok (Quoted n v)"
  by (auto simp: directive_ok_def readable_def to_ascii_lowercase_def graphic_def)

lemma plain_ok:
  assumes "n \<in> {''nc'', ''qop'', ''response''}" and "v \<noteq> []" and "\<forall>c \<in> set v. graphic c \<and> c \<noteq> CHR '','' \<and> c \<noteq> CHR 0x22"
  shows "directive_ok (Plain n v)"
proof -
  have "n \<noteq> []" "CHR ''='' \<notin> set n" "map to_ascii_lowercase n = n" "\<forall>c \<in> set n. graphic c"
    using assms(1) by (auto simp: to_ascii_lowercase_def graphic_def)
  moreover have "readable v" using assms(3) by (intro graphic_readable) blast
  moreover have "hd v \<noteq> CHR 0x22" using assms(2,3) hd_in_set by blast
  moreover have "CHR '','' \<notin> set v" "\<forall>c \<in> set v. graphic c" using assms(3) by blast+
  ultimately show ?thesis using assms(2) unfolding directive_ok_def readable_def by simp
qed

lemma hex_no_quote: "CHR 0x22 \<notin> set (hex bs)"
proof -
  have "hex_digit n \<noteq> CHR 0x22" if "n < 16" for n
  proof -
    have "\<forall>c \<in> set ''0123456789abcdef''. c \<noteq> CHR 0x22" by simp
    with hex_digits_plain [OF that] show ?thesis by blast
  qed
  moreover have "of_char b div 16 < (16 :: nat)" for b using of_char_lt [of b] by linarith
  ultimately show ?thesis by (induction bs) (auto simp: hex_Cons hex_def dest: sym)
qed

lemma client_response_ok:
  assumes "\<forall>m. length (md5 m) = 16" and "readable user" "readable realm" "readable nonce" "readable cnonce" "readable uri"
    and "\<forall>a. authz = Some a \<longrightarrow> readable a \<and> a \<noteq> []"
  shows "\<forall>d \<in> set (client_response md5 user realm secret nonce cnonce uri authz). directive_ok d"
proof -
  let ?r = "client_digest md5 user realm secret nonce cnonce uri authz True"
  have "hex (md5 m) \<noteq> []" for m
  proof -
    have "md5 m \<noteq> []" using assms(1) by (metis list.size(3) zero_neq_numeral)
    then show ?thesis by (cases "md5 m") (simp_all add: hex_Cons)
  qed
  then have "directive_ok (Plain ''response'' ?r)"
    using hex_graphic hex_no_quote by (intro plain_ok) (auto simp: client_digest_def response_digest_def Let_def dest: bspec)
  moreover have "directive_ok (Plain ''nc'' ''00000001'')" "directive_ok (Plain ''qop'' ''auth'')"
    by (rule plain_ok; simp add: graphic_def)+
  ultimately show ?thesis using assms(2-7) by (auto simp: client_response_def quoted_ok split: option.splits)
qed

lemma response_read:
  assumes "\<forall>d \<in> set (client_response md5 user realm secret nonce cnonce uri authz). directive_ok d"
  defines "dirs \<equiv> directives (write_directives (client_response md5 user realm secret nonce cnonce uri authz))"
  shows "dirs ''username'' = Some user" "dirs ''realm'' = Some realm" "dirs ''nonce'' = Some nonce"
    "dirs ''cnonce'' = Some cnonce" "dirs ''nc'' = Some ''00000001''" "dirs ''qop'' = Some ''auth''" "dirs ''digest-uri'' = Some uri"
    "dirs ''response'' = Some (client_digest md5 user realm secret nonce cnonce uri authz True)" "dirs ''authzid'' = authz"
  unfolding dirs_def directives_written [OF assms(1)] by (simp_all add: client_response_def split: option.split)

lemma write_directives_ascii: "\<forall>d \<in> set ds. directive_ok d \<Longrightarrow> ascii (write_directives ds)"
proof -
  have esc: "ascii v \<Longrightarrow> ascii (escape_value v)" for v
    by (induction v) (auto simp: ascii_def escape_value_Cons octet_in_def)
  have one: "ascii (write_directive d)" if "directive_ok d" for d
    using that graphic_ascii [of "directive_name d"] esc [of "directive_content d"]
    by (cases d) (auto simp: directive_ok_def ascii_def octet_in_def)
  assume "\<forall>d \<in> set ds. directive_ok d"
  with one show ?thesis
    by (induction ds rule: write_directives.induct) (auto simp: ascii_def octet_in_def)
qed

section \<open>Properties\<close>

text \<open>
  C34 (functional). A peer that knows the password gets through all three rounds: the listener's
  challenge carries its realm and fresh randomness, the digest RFC2831 prescribes is accepted
  and answered with the listener's own, and the empty acknowledgement completes the exchange
  as that user, acting as whoever it asked to act as. User, realm, nonce and URI are any ASCII
  text without white space at its ends, quotes and backslashes included.
\<close>

theorem digest_honest:
  fixes md5 :: "bytes \<Rightarrow> bytes" and uri :: bytes and cnonce :: bytes
  assumes "\<forall>m. length (md5 m) = 16" and "au_secret auth cx user (Some realm) = Some secret" and "ev_random en 24 = Some rnd"
    and "readable user" "readable realm" "readable cnonce" "readable uri" and "\<forall>a. authz = Some a \<longrightarrow> readable a \<and> a \<noteq> []"
  shows "\<exists>x y. digest_step md5 en (digest_begin auth realm cx) first = Some (x, Continue (digest_challenge realm (b64_encode rnd))) \<and>
    (\<forall>en'. digest_step md5 en' x (write_directives (client_response md5 user realm secret (b64_encode rnd) cnonce uri authz)) =
       Some (y, Continue (''rspauth='' @ client_digest md5 user realm secret (b64_encode rnd) cnonce uri authz False))) \<and>
    (\<forall>en'. \<exists>z i. digest_step md5 en' y [] = Some (z, Completed i) \<and>
       id_authentication i = user \<and> effective i = (case authz of None \<Rightarrow> user | Some a \<Rightarrow> a))"
proof -
  let ?n = "b64_encode rnd"
  let ?b = "digest_begin auth realm cx"
  let ?x = "?b\<lparr>de_state := DigestChallenged ?n\<rparr>"
  let ?i = "\<lparr>id_authentication = user, id_authorization = authz\<rparr>"
  let ?y = "?b\<lparr>de_state := DigestConfirmed ?i\<rparr>"
  have "readable ?n" by (rule graphic_readable) (rule b64_graphic)
  with assms have ok: "\<forall>d \<in> set (client_response md5 user realm secret ?n cnonce uri authz). directive_ok d"
    by (intro client_response_ok) auto
  note read = response_read [OF ok]
  have valid: "utf8_valid (write_directives (client_response md5 user realm secret ?n cnonce uri authz))"
    using write_directives_ascii [OF ok] by (auto simp: ascii_def intro: utf8_valid_ascii)
  have az: "Option.bind authz non_empty = authz" using assms(8) by (cases authz) (auto simp: non_empty_def)
  have 1: "digest_step md5 en ?b first = Some (?x, Continue (digest_challenge realm ?n))"
    by (simp add: digest_step_def digest_begin_def digest_nonce_def assms(3))
  have b: "ex_authenticator ?b = auth" "ex_context ?b = cx" "de_realm ?b = realm" "de_state ?b = DigestStart"
    by (simp_all add: digest_begin_def)
  have "?x\<lparr>de_state := DigestStart\<rparr> = ?b" by (simp add: digest_begin_def)
  then have 2: "digest_step md5 en' ?x (write_directives (client_response md5 user realm secret ?n cnonce uri authz)) =
      Some (?y, Continue (''rspauth='' @ client_digest md5 user realm secret ?n cnonce uri authz False))" for en'
    by (simp add: digest_step_def digest_check_def valid read b assms(2) az or_default_def client_digest_def Let_def)
  have 3: "digest_step md5 en' ?y [] = Some (?b, Completed ?i)" for en'
    by (simp add: digest_step_def digest_begin_def)
  show ?thesis
    by (intro exI [of _ ?x] exI [of _ ?y] exI [of _ ?b] exI [of _ ?i] conjI allI 1 2 3)
      (simp_all add: effective_def split: option.split)
qed

theorem digest_honest_witness:
  "\<exists>x y z m i. digest_step (\<lambda>m. replicate 16 (CHR ''d'')) \<lparr>ev_random = (\<lambda>n. Some (replicate n (CHR ''r''))), ev_seconds = 0\<rparr>
       (digest_begin (refuse_all\<lparr>au_secret := \<lambda>cx u r. Some ''pw''\<rparr>) ''re'' \<lparr>cx_server_name = None\<rparr>) [] =
       Some (x, Continue (digest_challenge ''re'' (b64_encode (replicate 24 (CHR ''r''))))) \<and>
     (\<forall>en. \<exists>r. digest_step (\<lambda>m. replicate 16 (CHR ''d'')) en x m = Some (y, Continue r)) \<and>
     (\<forall>en. \<exists>z i. digest_step (\<lambda>m. replicate 16 (CHR ''d'')) en y [] = Some (z, Completed i) \<and>
        id_authentication i = ''bob'' \<and> effective i = ''root'')"
proof -
  let ?md5 = "\<lambda>m. replicate 16 (CHR ''d'')"
  let ?en = "\<lparr>ev_random = (\<lambda>n. Some (replicate n (CHR ''r''))), ev_seconds = 0\<rparr>"
  let ?auth = "refuse_all\<lparr>au_secret := \<lambda>cx u r. Some ''pw''\<rparr>"
  have r: "readable ''bob''" "readable ''re''" "readable ''c''" "readable ''beep/h''" "readable ''root''"
    by (rule graphic_readable; simp add: graphic_def)+
  have "\<forall>m :: bytes. length (?md5 m) = 16" by simp
  moreover have "au_secret ?auth \<lparr>cx_server_name = None\<rparr> ''bob'' (Some ''re'') = Some ''pw''" by simp
  moreover have "ev_random ?en 24 = Some (replicate 24 (CHR ''r''))" by simp
  moreover have "\<forall>a. Some ''root'' = Some a \<longrightarrow> readable a \<and> a \<noteq> []" using r by simp
  ultimately show ?thesis using digest_honest [of ?md5 ?auth "\<lparr>cx_server_name = None\<rparr>" "''bob''" "''re''" "''pw''" ?en
      "replicate 24 (CHR ''r'')" "''c''" "''beep/h''" "Some ''root''" "[]"] r(1-4) unfolding option.case by blast
qed

text \<open>
  A user name outside ASCII is never read back: quoted as it stands, each of its
  octets is taken for a character of its own and encoded once more, so the name the
  authenticator is asked about is longer than the one the peer sent, although the challenge
  announces \<open>charset=utf-8\<close>.
\<close>

lemma digest_name_mangled:
  assumes "v \<noteq> []" and "graphic (hd v)" and "graphic (last v)" and "CHR 0x22 \<notin> set v" and "CHR 0x5C \<notin> set v" and "\<not> ascii v"
  shows "\<exists>w. directives (''username='' @ [CHR 0x22] @ v @ [CHR 0x22]) ''username'' = Some w \<and> length v < length w"
proof -
  let ?w = "concat (map char_from v)"
  have esc: "escape_value v = v" using assms(4,5) by (induction v) (auto simp: escape_value_Cons)
  have cf: "char_from c \<noteq> []" "length (char_from c) = (if octet_in 0 0x7F c then 1 else 2)" "graphic c \<Longrightarrow> char_from c = [c]" for c
  proof -
    have "of_char c < (2048 :: nat)" using of_char_lt [of c] by linarith
    then show "char_from c \<noteq> []" "length (char_from c) = (if octet_in 0 0x7F c then 1 else 2)" "graphic c \<Longrightarrow> char_from c = [c]"
      by (auto simp: char_from_def utf8_encode_def octet_in_def graphic_def)
  qed
  have len: "length v \<le> length (concat (map char_from v))" for v by (induction v) (auto simp: cf)
  have longer: "length v < length ?w"
    using assms(6)
  proof (induction v)
    case (Cons c v)
    with len [of v] show ?case by (cases "octet_in 0 0x7F c") (auto simp: ascii_def cf)
  qed (simp add: ascii_def)
  obtain c v' where c: "v = c # v'" using assms(1) by (cases v) auto
  obtain v'' d where d: "v = v'' @ [d]" using assms(1) by (cases v rule: rev_cases) auto
  have g: "graphic c" "graphic d" using assms(2) [unfolded c] assms(3) [unfolded d] by simp_all
  have "?w = [c] @ concat (map char_from v')" unfolding c by (simp add: cf(3) [OF g(1)])
  moreover have "?w = concat (map char_from v'') @ [d]" unfolding d by (simp add: cf(3) [OF g(2)])
  ultimately have "hd ?w = c" "last ?w = d" "?w \<noteq> []" by (metis append_Cons list.sel(1), metis last_snoc, metis append_is_Nil_conv not_Cons_self2)
  then have tw: "str_trim ?w = ?w" using g by (intro trim_graphic) simp_all
  have q: "directive_value ([CHR 0x22] @ v @ CHR 0x22 # []) = (?w, [])"
    using directive_value_Quoted [of v "[]"] by (simp add: esc)
  have tt: "str_trim (''username='' @ [CHR 0x22] @ v @ [CHR 0x22]) = ''username='' @ [CHR 0x22] @ v @ [CHR 0x22]"
    by (rule trim_graphic) (simp_all add: graphic_def)
  have un: "str_trim ''username'' = ''username''" by (rule trim_graphic) (simp_all add: graphic_def)
  have f: "find_byte (''username'' @ CHR ''='' # [CHR 0x22] @ v @ [CHR 0x22]) (CHR ''='') = Some (length ''username'')"
    by (rule find_byte_first) simp
  have "directives_loop (''username='' @ [CHR 0x22] @ v @ [CHR 0x22]) Map.empty = [''username'' \<mapsto> ?w]"
    using f q by (subst directives_loop.simps)
      (simp add: un tw to_ascii_lowercase_def past_separator_Nil directives_loop_Nil)
  then show ?thesis unfolding directives_def tt using longer by simp
qed

end
