(* ===== verification/SaslProfile.thy ===== *)
theory SaslProfile
  imports SaslMechanisms SaslScram SaslDigest Management "HOL-Library.Sublist"
begin

text \<open>
  \<^verbatim>\<open>vortice-sasl/src/profile.rs\<close>: the profile that carries a mechanism over a channel. A mechanism is
  the pair of functions the trait asks for. What a call asks the session for is a list of
  \<open>action\<close>s, in the order they are awaited; their results are ignored by the code. The
  exchange table is behind a lock that is never held across an await: a start and an opened
  channel are one visit each, a message is two, taking the exchange out and putting it back,
  and other calls may come between them.
\<close>

section \<open>The profile\<close>

definition AUTHENTICATION_FAILURE :: u32 where "AUTHENTICATION_FAILURE = 535"
definition PROFILE_FAMILY :: bytes where "PROFILE_FAMILY = ''http://iana.org/beep/SASL/''"

definition profile_uri :: "bytes \<Rightarrow> bytes" where
  "profile_uri mech = PROFILE_FAMILY @ mech"

datatype 'x exchange_state = InFlight 'x | Settled identity

type_synonym channel_key = "nat \<times> u32"        \<comment> \<open>the session and the channel\<close>
type_synonym 'x exchanges = "channel_key \<rightharpoonup> 'x exchange_state"

record 'x mechanism =
  me_begin :: "sasl_context \<Rightarrow> 'x"
  me_step :: "'x stepper"

datatype action = Authenticate bytes | ReplyWith u32 bytes | ErrorWith u32 bytes

definition refusal :: "bytes \<Rightarrow> error_reply" where
  "refusal txt = error_reply_with_text (error_reply_new AUTHENTICATION_FAILURE) txt None"

definition initial_blob :: "bytes \<Rightarrow> start \<Rightarrow> error_reply + bytes" where
  "initial_blob uri st =
     (case Option.bind (find (\<lambda>p. pr_uri p = uri) (st_profiles st)) pr_content of
        None \<Rightarrow> Inr []
      | Some t \<Rightarrow>
          if t = [] then Inr []
          else (case blob_from_xml t of
                  Inr b \<Rightarrow> Inr (bl_data b)
                | Inl _ \<Rightarrow> Inl (refusal ''the piggybacked content is not a SASL blob'')))"

definition sasl_escape :: "bytes \<Rightarrow> bytes" where
  "sasl_escape t =
     replace_str [CHR 0x22] ''&quot;'' (replace_str [CHR 0x27] ''&apos;'' (replace_str ''>'' ''&gt;''
       (replace_str ''<'' ''&lt;'' (replace_str ''&'' ''&amp;'' t))))"

definition error_payload :: "bytes \<Rightarrow> bytes" where
  "error_payload t =
     ''<error code='' @ [CHR 0x27] @ dec (unat AUTHENTICATION_FAILURE) @ [CHR 0x27] @ ''>'' @ sasl_escape t @ ''</error>''"

definition sasl_accept ::
  "'x mechanism \<Rightarrow> env \<Rightarrow> nat \<Rightarrow> bytes option \<Rightarrow> bytes \<Rightarrow> start \<Rightarrow> 'x exchanges \<Rightarrow> ('x exchanges \<times> (error_reply + profile)) option" where
  "sasl_accept mech en sess server_name uri st table =
     (case initial_blob uri st of
        Inl e \<Rightarrow> Some (table, Inl e)
      | Inr initial \<Rightarrow>
          (case me_step mech en (me_begin mech \<lparr>cx_server_name = server_name\<rparr>) initial of
             None \<Rightarrow> None
           | Some (x, Failed reason) \<Rightarrow> Some (table, Inl (refusal reason))
           | Some (x, Completed i) \<Rightarrow>
               Some (table((sess, st_number st) \<mapsto> Settled i),
                     Inr (with_content (profile_new uri) (blob_to_xml (blob_status StatusComplete))))
           | Some (x, CompletedWith i data) \<Rightarrow>
               Some (table((sess, st_number st) \<mapsto> Settled i),
                     Inr (with_content (profile_new uri) (blob_to_xml (blob_with_status StatusComplete data))))
           | Some (x, Continue chal) \<Rightarrow>
               Some (table((sess, st_number st) \<mapsto> InFlight x),
                     Inr (with_content (profile_new uri) (blob_to_xml (blob_with_status StatusContinue chal))))))"

definition sasl_on_open :: "channel_key \<Rightarrow> 'x exchanges \<Rightarrow> 'x exchanges \<times> action list" where
  "sasl_on_open key table =
     (case table key of
        Some (Settled i) \<Rightarrow> (table(key := None), [Authenticate (effective i)])
      | _ \<Rightarrow> (table, []))"

text \<open>
  A message: what was in flight is taken out of the table, the answer is worked out with the
  lock released, and the exchange is put back when the answer asks for another round.
\<close>

definition sasl_take :: "channel_key \<Rightarrow> 'x exchanges \<Rightarrow> 'x exchanges \<times> 'x exchange_state option" where
  "sasl_take key table = (table(key := None), table key)"

definition sasl_answer ::
  "'x mechanism \<Rightarrow> env \<Rightarrow> u32 \<Rightarrow> bytes \<Rightarrow> 'x exchange_state option \<Rightarrow> ('x option \<times> action list) option" where
  "sasl_answer mech en msgno payload in_flight =
     (case in_flight of
        Some (InFlight x) \<Rightarrow>
          (case blob_from_xml (from_utf8_lossy payload) of
             Inl _ \<Rightarrow> Some (None, [ErrorWith msgno (error_payload ''not a SASL blob'')])
           | Inr b \<Rightarrow>
               if bl_status b = StatusAbort then Some (None, [ReplyWith msgno (blob_to_xml (blob_status StatusAbort))])
               else (case me_step mech en x (bl_data b) of
                 None \<Rightarrow> None
               | Some (x, Completed i) \<Rightarrow>
                   Some (None, [Authenticate (effective i), ReplyWith msgno (blob_to_xml (blob_status StatusComplete))])
               | Some (x, CompletedWith i data) \<Rightarrow>
                   Some (None, [Authenticate (effective i), ReplyWith msgno (blob_to_xml (blob_with_status StatusComplete data))])
               | Some (x, Continue chal) \<Rightarrow>
                   Some (Some x, [ReplyWith msgno (blob_to_xml (blob_with_status StatusContinue chal))])
               | Some (x, Failed reason) \<Rightarrow> Some (None, [ErrorWith msgno (error_payload reason)])))
      | _ \<Rightarrow> Some (None, [ErrorWith msgno (error_payload ''no exchange is in progress'')]))"

definition sasl_put :: "channel_key \<Rightarrow> 'x option \<Rightarrow> 'x exchanges \<Rightarrow> 'x exchanges" where
  "sasl_put key exchange table = (case exchange of None \<Rightarrow> table | Some x \<Rightarrow> table(key \<mapsto> InFlight x))"

definition sasl_handle ::
  "'x mechanism \<Rightarrow> env \<Rightarrow> channel_key \<Rightarrow> u32 \<Rightarrow> bytes \<Rightarrow> 'x exchanges \<Rightarrow> ('x exchanges \<times> action list) option" where
  "sasl_handle mech en key msgno payload table =
     (case sasl_take key table of
        (table, in_flight) \<Rightarrow>
          map_option (\<lambda>(exchange, acts). (sasl_put key exchange table, acts)) (sasl_answer mech en msgno payload in_flight))"

lemma sasl_handle_none:
  "table key = None \<Longrightarrow> sasl_handle mech en key n payload table =
     Some (table, [ErrorWith n (error_payload ''no exchange is in progress'')])"
  by (simp add: sasl_handle_def sasl_take_def sasl_answer_def sasl_put_def fun_upd_idem)

lemma sasl_handle_cases:
  assumes "sasl_handle mech en key n payload table = Some (table', acts)"
  obtains t where "acts = [ErrorWith n (error_payload t)]" "table' = table(key := None)"
    | "acts = [ReplyWith n (blob_to_xml (blob_status StatusAbort))]" "table' = table(key := None)"
    | w b where "acts = [Authenticate w, ReplyWith n (blob_to_xml b)]" "table' = table(key := None)"
    | x d where "acts = [ReplyWith n (blob_to_xml (blob_with_status StatusContinue d))]" "table' = table(key \<mapsto> InFlight x)"
proof -
  from assms obtain exch where a: "sasl_answer mech en n payload (table key) = Some (exch, acts)"
    and t: "table' = sasl_put key exch (table(key := None))"
    by (auto simp: sasl_handle_def sasl_take_def)
  from a consider t where "acts = [ErrorWith n (error_payload t)]" "exch = None"
    | "acts = [ReplyWith n (blob_to_xml (blob_status StatusAbort))]" "exch = None"
    | w b where "acts = [Authenticate w, ReplyWith n (blob_to_xml b)]" "exch = None"
    | x d where "acts = [ReplyWith n (blob_to_xml (blob_with_status StatusContinue d))]" "exch = Some x"
    by (auto simp: sasl_answer_def split: option.splits exchange_state.splits sum.splits if_splits sasl_step.splits)
  then show thesis using that t by cases (simp_all add: sasl_put_def)
qed

section \<open>Runs of the profile\<close>

text \<open>
  What a mechanism was asked and what it said: at a start, with the context the exchange was
  begun in, or for a later message. The octets are those of the blob.
\<close>

datatype sasl_round =
    AtStart channel_key sasl_context env bytes sasl_step
  | Later channel_key env bytes sasl_step

definition start_round ::
  "'x mechanism \<Rightarrow> env \<Rightarrow> nat \<Rightarrow> bytes option \<Rightarrow> bytes \<Rightarrow> start \<Rightarrow> sasl_round list" where
  "start_round mech en sess nm uri st =
     (case initial_blob uri st of
        Inl _ \<Rightarrow> []
      | Inr initial \<Rightarrow>
          (case me_step mech en (me_begin mech \<lparr>cx_server_name = nm\<rparr>) initial of
             None \<Rightarrow> []
           | Some (_, r) \<Rightarrow> [AtStart (sess, st_number st) \<lparr>cx_server_name = nm\<rparr> en initial r]))"

definition later_round ::
  "'x mechanism \<Rightarrow> env \<Rightarrow> channel_key \<Rightarrow> bytes \<Rightarrow> 'x exchange_state option \<Rightarrow> sasl_round list" where
  "later_round mech en key payload in_flight =
     (case in_flight of
        Some (InFlight x) \<Rightarrow>
          (case blob_from_xml (from_utf8_lossy payload) of
             Inl _ \<Rightarrow> []
           | Inr b \<Rightarrow>
               if bl_status b = StatusAbort then []
               else (case me_step mech en x (bl_data b) of None \<Rightarrow> [] | Some (_, r) \<Rightarrow> [Later key en (bl_data b) r]))
      | _ \<Rightarrow> [])"

text \<open>
  Any sequence of visits to one profile: starts it was asked for, channels that opened,
  messages whose exchange was taken out, and messages whose exchange is put back, each message
  between its two visits being at work; a task may also go away before its second visit. The
  log has the rounds in the order they were played, the actions carry the channel they were asked for on.
\<close>

type_synonym 'x at_work = "channel_key \<times> u32 \<times> bytes \<times> 'x exchange_state option"

inductive sasl_run ::
  "'x mechanism \<Rightarrow> sasl_round list \<Rightarrow> 'x exchanges \<Rightarrow> 'x at_work list \<Rightarrow> (channel_key \<times> action) list \<Rightarrow> bool" for mech where
  run_new: "sasl_run mech [] Map.empty [] []"
| run_started:
    "sasl_run mech log table busy acts \<Longrightarrow> sasl_accept mech en sess nm uri st table = Some (table', r) \<Longrightarrow>
     sasl_run mech (log @ start_round mech en sess nm uri st) table' busy acts"
| run_opened:
    "sasl_run mech log table busy acts \<Longrightarrow> sasl_on_open key table = (table', new) \<Longrightarrow>
     sasl_run mech log table' busy (acts @ map (Pair key) new)"
| run_took:
    "sasl_run mech log table busy acts \<Longrightarrow> sasl_take key table = (table', in_flight) \<Longrightarrow>
     sasl_run mech log table' ((key, msgno, payload, in_flight) # busy) acts"
| run_answered:
    "sasl_run mech log table (before @ (key, msgno, payload, in_flight) # behind) acts \<Longrightarrow>
     sasl_answer mech en msgno payload in_flight = Some (exchange, new) \<Longrightarrow>
     sasl_run mech (log @ later_round mech en key payload in_flight) (sasl_put key exchange table)
       (before @ behind) (acts @ map (Pair key) new)"
| run_gone:
    "sasl_run mech log table (before @ task # behind) acts \<Longrightarrow> sasl_run mech log table (before @ behind) acts"

text \<open>
  The rounds of one exchange, as the log has them: begun by a start on the channel, gone on
  with by messages on it. An identity is vouched for on a channel when the log holds, in order,
  the rounds of an exchange of that channel, the last of which ended with that identity, and
  they are evidence for it by the standard \<open>proved\<close>.
\<close>

fun logged :: "channel_key \<Rightarrow> sasl_context \<Rightarrow> rounds \<Rightarrow> sasl_round list" where
  "logged key cx [] = []"
| "logged key cx ((en, m, c) # h) = AtStart key cx en m (Continue c) # map (\<lambda>(en, m, c). Later key en m (Continue c)) h"

definition last_round :: "channel_key \<Rightarrow> sasl_context \<Rightarrow> rounds \<Rightarrow> env \<Rightarrow> bytes \<Rightarrow> sasl_step \<Rightarrow> sasl_round" where
  "last_round key cx h en m r = (if h = [] then AtStart key cx en m r else Later key en m r)"

definition vouched_for ::
  "(sasl_context \<Rightarrow> rounds \<Rightarrow> bytes \<Rightarrow> identity \<Rightarrow> bool) \<Rightarrow> sasl_round list \<Rightarrow> channel_key \<Rightarrow> identity \<Rightarrow> bool" where
  "vouched_for proved log key i \<longleftrightarrow>
     (\<exists>cx h en m r. subseq (logged key cx h @ [last_round key cx h en m r]) log \<and> accepted_as r = Some i \<and> proved cx h m i)"

lemma logged_snoc: "logged key cx (h @ [(en, m, c)]) = logged key cx h @ [last_round key cx h en m (Continue c)]"
  by (cases h) (auto simp: last_round_def)

lemma subseq_longer: "subseq xs ys \<Longrightarrow> subseq xs (ys @ zs)"
  using list_emb_append2 subseq_order.trans subseq_append' by (metis append_Nil2 list_emb_Nil list_emb_append_mono)

lemma vouched_longer: "vouched_for proved log key i \<Longrightarrow> vouched_for proved (log @ more') key i"
  unfolding vouched_for_def using subseq_longer by blast

context sasl_mechanism
begin

definition state_ok :: "sasl_round list \<Rightarrow> channel_key \<Rightarrow> _ exchange_state \<Rightarrow> bool" where
  "state_ok log key s = (case s of
     InFlight x \<Rightarrow> \<exists>cx h. h \<noteq> [] \<and> subseq (logged key cx h) log \<and> ok cx h x
   | Settled i \<Rightarrow> vouched_for proved log key i)"

lemma state_ok_simps [simp]:
  "state_ok log key (InFlight x) \<longleftrightarrow> (\<exists>cx h. h \<noteq> [] \<and> subseq (logged key cx h) log \<and> ok cx h x)"
  "state_ok log key (Settled i) = vouched_for proved log key i"
  by (simp_all add: state_ok_def)

lemma state_ok_longer: "state_ok log key s \<Longrightarrow> state_ok (log @ more') key s"
  by (cases s) (auto intro: vouched_longer subseq_longer)

definition table_ok :: "sasl_round list \<Rightarrow> _ exchanges \<Rightarrow> bool" where
  "table_ok log table \<longleftrightarrow> (\<forall>key s. table key = Some s \<longrightarrow> state_ok log key s)"

definition busy_ok :: "sasl_round list \<Rightarrow> _ at_work list \<Rightarrow> bool" where
  "busy_ok log busy \<longleftrightarrow> (\<forall>(key, msgno, payload, in_flight) \<in> set busy. \<forall>s. in_flight = Some s \<longrightarrow> state_ok log key s)"

definition acts_ok :: "sasl_round list \<Rightarrow> (channel_key \<times> action) list \<Rightarrow> bool" where
  "acts_ok log acts \<longleftrightarrow>
     (\<forall>key who. (key, Authenticate who) \<in> set acts \<longrightarrow> (\<exists>i. who = effective i \<and> vouched_for proved log key i))"

lemma longer:
  "table_ok log table \<Longrightarrow> table_ok (log @ more') table" "busy_ok log busy \<Longrightarrow> busy_ok (log @ more') busy"
  "acts_ok log acts \<Longrightarrow> acts_ok (log @ more') acts"
  unfolding table_ok_def busy_ok_def acts_ok_def using state_ok_longer vouched_longer by blast+

lemma table_ok_set: "table_ok log table \<Longrightarrow> state_ok log key s \<Longrightarrow> table_ok log (table(key \<mapsto> s))"
  unfolding table_ok_def by (metis fun_upd_apply option.inject)

lemma table_ok_drop: "table_ok log table \<Longrightarrow> table_ok log (table(key := None))"
  unfolding table_ok_def by (metis fun_upd_apply option.distinct(1))

lemma acts_ok_append: "acts_ok log (acts @ map (Pair key) new) \<longleftrightarrow> acts_ok log acts \<and>
    (\<forall>who. Authenticate who \<in> set new \<longrightarrow> (\<exists>i. who = effective i \<and> vouched_for proved log key i))"
proof -
  have "(key', Authenticate who) \<in> set (acts @ map (Pair key) new) \<longleftrightarrow>
      (key', Authenticate who) \<in> set acts \<or> key' = key \<and> Authenticate who \<in> set new" for key' who by auto
  then show ?thesis unfolding acts_ok_def by blast
qed

lemma vouched_now:
  assumes "ok cx h x" and "step en x m = Some (y, r)" and "accepted_as r = Some i" and "subseq (logged key cx h) log"
  shows "vouched_for proved (log @ [last_round key cx h en m r]) key i"
  unfolding vouched_for_def using completes_proved [OF assms(1-3)] assms(3,4)
  by (meson list_emb_append_mono subseq_order.refl)

lemma in_flight_now:
  assumes "ok cx h x" and "step en x m = Some (y, Continue c)" and "subseq (logged key cx h) log"
  shows "state_ok (log @ [last_round key cx h en m (Continue c)]) key (InFlight y)"
proof -
  have "subseq (logged key cx (h @ [(en, m, c)])) (log @ [last_round key cx h en m (Continue c)])"
    unfolding logged_snoc using assms(3) by (meson list_emb_append_mono subseq_order.refl)
  with step_ok [OF assms(1,2)] show ?thesis by auto
qed

lemma accept_keeps:
  fixes mech defines "mech \<equiv> \<lparr>me_begin = start, me_step = step\<rparr>"
  assumes "sasl_accept mech en sess nm uri st table = Some (table', r)" and "table_ok log table"
  shows "table_ok (log @ start_round mech en sess nm uri st) table'"
proof (cases "initial_blob uri st")
  case (Inl e)
  with assms show ?thesis by (auto simp: sasl_accept_def start_round_def)
next
  case (Inr initial)
  let ?cx = "\<lparr>cx_server_name = nm\<rparr>" and ?key = "(sess, st_number st)"
  from assms(2) Inr obtain x s where s: "step en (start ?cx) initial = Some (x, s)"
    by (auto simp: sasl_accept_def mech_def split: option.splits)
  let ?log = "log @ [AtStart ?key ?cx en initial s]"
  have log: "log @ start_round mech en sess nm uri st = ?log" using Inr s by (simp add: start_round_def mech_def)
  have ended: "vouched_for proved ?log ?key i" if "accepted_as s = Some i" for i
    using vouched_now [OF start_ok s that, of ?key log] by (simp add: last_round_def)
  have going: "state_ok ?log ?key (InFlight x)" if "s = Continue c" for c
    using in_flight_now [OF start_ok s [unfolded that], of ?key log] that by (simp add: last_round_def)
  have old: "table_ok ?log table" using assms(3) by (rule longer)
  show ?thesis
    unfolding log using assms(2) Inr s ended going old
    by (cases s) (auto simp del: state_ok_simps(1) simp: sasl_accept_def mech_def intro!: table_ok_set)
qed

lemma open_keeps:
  assumes "sasl_on_open key table = (table', new)" and "table_ok log table"
  shows "table_ok log table' \<and> (\<forall>who. Authenticate who \<in> set new \<longrightarrow> (\<exists>i. who = effective i \<and> vouched_for proved log key i))"
proof (cases "\<exists>i. table key = Some (Settled i)")
  case True
  then obtain i where i: "table key = Some (Settled i)" by blast
  with assms(2) have "state_ok log key (Settled i)" unfolding table_ok_def by blast
  with assms i table_ok_drop [OF assms(2), of key] show ?thesis by (auto simp: sasl_on_open_def)
next
  case False
  with assms show ?thesis by (auto simp: sasl_on_open_def split: option.splits exchange_state.splits)
qed

lemma answer_keeps:
  fixes mech defines "mech \<equiv> \<lparr>me_begin = start, me_step = step\<rparr>"
  assumes "sasl_answer mech en msgno payload in_flight = Some (exchange, new)"
    and "\<And>s. in_flight = Some s \<Longrightarrow> state_ok log key s"
  defines "log' \<equiv> log @ later_round mech en key payload in_flight"
  shows "(\<forall>x. exchange = Some x \<longrightarrow> state_ok log' key (InFlight x)) \<and>
    (\<forall>who. Authenticate who \<in> set new \<longrightarrow> (\<exists>i. who = effective i \<and> vouched_for proved log' key i))"
proof (cases "\<exists>x b s. in_flight = Some (InFlight x) \<and> blob_from_xml (from_utf8_lossy payload) = Inr b \<and>
    bl_status b \<noteq> StatusAbort \<and> step en x (bl_data b) = Some s")
  case False
  with assms(2) show ?thesis
    by (auto simp: sasl_answer_def mech_def split: option.splits exchange_state.splits sum.splits if_splits)
next
  case True
  then obtain x b y s where t: "in_flight = Some (InFlight x)" "blob_from_xml (from_utf8_lossy payload) = Inr b"
    "bl_status b \<noteq> StatusAbort" "step en x (bl_data b) = Some (y, s)" by auto
  from assms(3) [OF t(1)] obtain cx h where h: "h \<noteq> []" "subseq (logged key cx h) log" "ok cx h x" by auto
  have log: "log' = log @ [last_round key cx h en (bl_data b) s]"
    using t h(1) by (simp add: log'_def later_round_def mech_def last_round_def)
  have ended: "vouched_for proved log' key i" if "accepted_as s = Some i" for i
    unfolding log by (rule vouched_now [OF h(3) t(4) that h(2)])
  have going: "state_ok log' key (InFlight y)" if "s = Continue c" for c
    unfolding log that by (rule in_flight_now [OF h(3) t(4) [unfolded that] h(2)])
  show ?thesis
    using assms(2) t ended going by (cases s) (auto simp: sasl_answer_def mech_def)
qed

lemma run_vouched:
  assumes "sasl_run \<lparr>me_begin = start, me_step = step\<rparr> log table busy acts"
  shows "table_ok log table \<and> busy_ok log busy \<and> acts_ok log acts"
  using assms
proof (induction rule: sasl_run.induct)
  case run_new
  show ?case by (simp add: table_ok_def busy_ok_def acts_ok_def)
next
  case (run_started log table busy acts en sess nm uri st table' r)
  with accept_keeps [OF run_started(2)] show ?case by (auto intro: longer)
next
  case (run_opened log table busy acts key table' new)
  with open_keeps [OF run_opened(2)] show ?case by (auto simp: acts_ok_append)
next
  case (run_took log table busy acts key table' in_flight msgno payload)
  then have "table' = table(key := None)" "in_flight = table key" by (auto simp: sasl_take_def)
  note took = this
  have "state_ok log key s" if "in_flight = Some s" for s
    using took run_took.IH that unfolding table_ok_def by metis
  moreover have "table_ok log table'"
    unfolding took(1) using run_took.IH by (intro table_ok_drop) blast
  ultimately show ?case using run_took.IH by (auto simp: busy_ok_def)
next
  case (run_answered log table before key msgno payload in_flight behind acts en exchange new)
  let ?log = "log @ later_round \<lparr>me_begin = start, me_step = step\<rparr> en key payload in_flight"
  have busy: "busy_ok log (before @ (key, msgno, payload, in_flight) # behind)" using run_answered.IH by blast
  then have mine: "state_ok log key s" if "in_flight = Some s" for s using that by (auto simp: busy_ok_def)
  note k = answer_keeps [OF run_answered(2) mine]
  have "table_ok ?log table" using run_answered.IH by (intro longer) blast
  then have "table_ok ?log (sasl_put key exchange table)"
    using k by (auto simp: sasl_put_def simp del: state_ok_simps split: option.split intro!: table_ok_set)
  moreover have "busy_ok ?log (before @ behind)" using longer(2) [OF busy] by (auto simp: busy_ok_def)
  moreover have "acts_ok ?log (acts @ map (Pair key) new)" using k run_answered.IH by (auto simp: acts_ok_append intro: longer)
  ultimately show ?case by blast
next
  case (run_gone log table before task behind acts)
  then show ?case by (auto simp: busy_ok_def)
qed

lemma recorded_vouched:
  "sasl_run \<lparr>me_begin = start, me_step = step\<rparr> log table busy acts \<Longrightarrow> (key, Authenticate who) \<in> set acts \<Longrightarrow>
     \<exists>i. who = effective i \<and> vouched_for proved log key i"
  using run_vouched unfolding acts_ok_def by blast

end

text \<open>What a client piggybacks on its start is what the mechanism is given.\<close>

lemma initial_blob_sent: "initial_blob uri (start_new n (with_content (profile_new uri) (blob_to_xml (blob_new m)))) = Inr m"
proof -
  have "blob_to_xml (blob_new m) \<noteq> []" by (simp add: blob_to_xml_head)
  then show ?thesis
    by (simp add: initial_blob_def start_new_def with_content_def profile_new_def blob_read_back) (simp add: blob_new_def)
qed

section \<open>The profiles an application serves\<close>

text \<open>
  A profile for each mechanism, with what the application configures it with; what a run of its
  calls asked to be recorded, with the rounds played; and the evidence it takes.
\<close>

datatype sasl_profile =
    ServesAnonymous authenticator
  | ServesExternal authenticator
  | ServesPlain authenticator
  | ServesCram authenticator bytes "bytes \<Rightarrow> bytes \<Rightarrow> bytes"
  | ServesScram authenticator scram_prims
  | ServesDigest authenticator bytes "bytes \<Rightarrow> bytes"

definition run_records :: "'x mechanism \<Rightarrow> sasl_round list \<Rightarrow> channel_key \<Rightarrow> bytes \<Rightarrow> bool" where
  "run_records mech log key who \<longleftrightarrow>
     (\<exists>table busy acts. sasl_run mech log table busy acts \<and> (key, Authenticate who) \<in> set acts)"

fun records :: "sasl_profile \<Rightarrow> sasl_round list \<Rightarrow> channel_key \<Rightarrow> bytes \<Rightarrow> bool" where
  "records (ServesAnonymous auth) = run_records \<lparr>me_begin = simple_begin auth, me_step = anonymous_step\<rparr>"
| "records (ServesExternal auth) = run_records \<lparr>me_begin = simple_begin auth, me_step = external_step\<rparr>"
| "records (ServesPlain auth) = run_records \<lparr>me_begin = simple_begin auth, me_step = plain_step\<rparr>"
| "records (ServesCram auth host mac) = run_records \<lparr>me_begin = cram_begin auth host, me_step = cram_step mac\<rparr>"
| "records (ServesScram auth p) = run_records \<lparr>me_begin = scram_begin auth, me_step = scram_step p\<rparr>"
| "records (ServesDigest auth realm md5) = run_records \<lparr>me_begin = digest_begin auth realm, me_step = digest_step md5\<rparr>"

fun evidence :: "sasl_profile \<Rightarrow> sasl_context \<Rightarrow> rounds \<Rightarrow> bytes \<Rightarrow> identity \<Rightarrow> bool" where
  "evidence (ServesAnonymous auth) = anonymous_proved auth"
| "evidence (ServesExternal auth) = external_proved auth"
| "evidence (ServesPlain auth) = plain_proved auth"
| "evidence (ServesCram auth host mac) = cram_proved mac auth host"
| "evidence (ServesScram auth p) = scram_proved p auth"
| "evidence (ServesDigest auth realm md5) = digest_proved md5 auth realm"

lemma records_vouched:
  assumes "records profile log key who"
  shows "\<exists>i. who = effective i \<and> vouched_for (evidence profile) log key i"
  using assms
  by (cases profile)
    (auto simp: run_records_def dest: anonymous.recorded_vouched external.recorded_vouched plain.recorded_vouched
      cram.recorded_vouched scram.recorded_vouched digest.recorded_vouched)

text \<open>A client that logs in with PLAIN in its first move.\<close>

definition knows_s :: authenticator where
  "knows_s = refuse_all\<lparr>au_plain := \<lambda>cx a r pw. pw = ''s''\<rparr>"

lemma plain_login: "\<exists>log. records (ServesPlain knows_s) log (1, 3) ''bob''"
proof -
  let ?uri = "profile_uri ''PLAIN''"
  let ?mech = "\<lparr>me_begin = simple_begin knows_s, me_step = plain_step\<rparr>" and ?en = "\<lparr>ev_random = \<lambda>n. None, ev_seconds = 0\<rparr>"
  let ?st = "start_new 3 (with_content (profile_new ?uri) (blob_to_xml (blob_new (CHR 0x00 # ''bob'' @ CHR 0x00 # ''s''))))"
  let ?i = "identity_new ''bob''" and ?key = "(1, 3) :: channel_key"
  have "initial_blob ?uri ?st = Inr (CHR 0x00 # ''bob'' @ CHR 0x00 # ''s'')" by (rule initial_blob_sent)
  moreover have "split_on NUL (CHR 0x00 # ''bob'' @ CHR 0x00 # ''s'') = [[], ''bob'', ''s'']" by (simp add: NUL_def)
  moreover have "utf8_valid ''bob''" "utf8_valid ''s''" "utf8_valid []" by (simp_all add: octet_in_def)
  ultimately have "\<exists>p. sasl_accept ?mech ?en 1 None ?uri ?st Map.empty = Some ([?key \<mapsto> Settled ?i], Inr p)"
    by (simp add: sasl_accept_def plain_step_def simple_begin_def non_empty_def identity_new_def start_new_def knows_s_def)
  then obtain p where "sasl_accept ?mech ?en 1 None ?uri ?st Map.empty = Some ([?key \<mapsto> Settled ?i], Inr p)" by blast
  from run_started [OF run_new this]
  have "sasl_run ?mech (start_round ?mech ?en 1 None ?uri ?st) [?key \<mapsto> Settled ?i] [] []" by simp
  moreover have "sasl_on_open ?key [?key \<mapsto> Settled ?i] = (Map.empty, [Authenticate ''bob''])"
    by (simp add: sasl_on_open_def effective_def identity_new_def)
  ultimately have "sasl_run ?mech (start_round ?mech ?en 1 None ?uri ?st) Map.empty [] [(?key, Authenticate ''bob'')]"
    by (auto dest: run_opened)
  then show ?thesis unfolding records.simps run_records_def by (intro exI conjI) (assumption, simp)
qed

text \<open>A client that logs in with CRAM-MD5, in two rounds.\<close>

definition knows_bob :: authenticator where
  "knows_bob = refuse_all\<lparr>au_secret := \<lambda>cx u realm. if u = ''bob'' then Some ''pw'' else None\<rparr>"

definition sample_mac :: "bytes \<Rightarrow> bytes \<Rightarrow> bytes" where
  "sample_mac k m = ''m''"

lemma cram_login: "\<exists>log. records (ServesCram knows_bob ''h'' sample_mac) log (1, 3) ''bob''"
proof -
  let ?mech = "\<lparr>me_begin = cram_begin knows_bob ''h'', me_step = cram_step sample_mac\<rparr>"
  let ?en = "\<lparr>ev_random = \<lambda>n. Some [], ev_seconds = 0\<rparr>" and ?key = "(1, 3) :: channel_key" and ?uri = "profile_uri ''CRAM-MD5''"
  let ?st = "start_new 3 (profile_new ?uri)" and ?cx = "\<lparr>cx_server_name = None\<rparr>"
  let ?answer = "''bob '' @ hex (sample_mac ''pw'' [])"
  let ?payload = "blob_to_xml (blob_new ?answer)"
  obtain chal where chal: "challenge ?en ''h'' = Some chal" by (simp add: challenge_def)
  let ?x = "cram_begin knows_bob ''h'' ?cx\<lparr>ce_challenge := Some chal\<rparr>"
  have "initial_blob ?uri ?st = Inr []" by (simp add: initial_blob_def start_new_def profile_new_def)
  moreover have "cram_step sample_mac ?en (cram_begin knows_bob ''h'' ?cx) [] = Some (?x, Continue chal)"
    using chal by (simp add: cram_step_def cram_begin_def)
  ultimately have "\<exists>p. sasl_accept ?mech ?en 1 None ?uri ?st Map.empty = Some ([?key \<mapsto> InFlight ?x], Inr p)"
    by (simp add: sasl_accept_def start_new_def)
  then obtain p where "sasl_accept ?mech ?en 1 None ?uri ?st Map.empty = Some ([?key \<mapsto> InFlight ?x], Inr p)" by blast
  from run_started [OF run_new this] obtain log1 where "sasl_run ?mech log1 [?key \<mapsto> InFlight ?x] [] []" by auto
  moreover have "sasl_take ?key [?key \<mapsto> InFlight ?x] = (Map.empty, Some (InFlight ?x))" by (simp add: sasl_take_def)
  ultimately have took: "sasl_run ?mech log1 Map.empty ([] @ (?key, 0, ?payload, Some (InFlight ?x)) # []) []"
    using run_took by fastforce
  have "cram_verify sample_mac (?x\<lparr>ce_challenge := None\<rparr>) chal ?answer = Completed (identity_new ''bob'')"
    unfolding cram_verify_iff
  proof (intro exI conjI)
    have "trim_end ?answer = ?answer"
      by (rule trim_end_id) (simp_all add: sample_mac_def hex_def hex_digit_def graphic_def)
    then show "trim_end ?answer = ''bob'' @ '' '' @ hex (sample_mac ''pw'' chal)" by (simp add: sample_mac_def)
  qed (simp_all add: knows_bob_def cram_begin_def sample_mac_def hex_def hex_digit_def octet_in_def)
  then have step: "cram_step sample_mac ?en ?x ?answer = Some (?x\<lparr>ce_challenge := None\<rparr>, Completed (identity_new ''bob''))"
    by (simp add: cram_step_def Let_def)
  have "from_utf8_lossy ?payload = ?payload"
    by (rule lossy_id)
      (simp add: blob_to_xml_def blob_new_def Let_def octet_in_def utf8_valid_append graphic_utf8 b64_graphic)
  with step have "\<exists>a. sasl_answer ?mech ?en 0 ?payload (Some (InFlight ?x)) = Some (None, Authenticate ''bob'' # a)"
    by (simp add: sasl_answer_def blob_read_back blob_new_def effective_def identity_new_def)
  then obtain a where "sasl_answer ?mech ?en 0 ?payload (Some (InFlight ?x)) = Some (None, Authenticate ''bob'' # a)" by blast
  from run_answered [OF took this] show ?thesis
    unfolding records.simps run_records_def by (intro exI conjI) (assumption, simp)
qed

section \<open>Properties\<close>

text \<open>
  C30 (safety). Whatever is called on a SASL profile, in whatever order and on however many
  channels, the two visits of a message interleaved with other calls, an identity is recorded
  on a channel only when an exchange was played on that very channel, begun by a start and gone
  on with by messages on it, whose last round accepted that identity with evidence in its own
  rounds. What is recorded is the effective identity: the one asked to act as where there
  was one, else the authentication identity. The evidence, by mechanism: the authenticator let
  in exactly what the message named (ANONYMOUS, EXTERNAL), or user, password and authorization
  identity of the message (PLAIN); the message is the user and the digest of the exchange's one
  fresh challenge under that user's secret (CRAM-MD5); the proof unmasks, over the whole
  transcript with the exchange's fresh nonce, to a key that hashes to the stored one
  (SCRAM); the response is the digest over the exchange's fresh nonce under that user's secret
  (DIGEST-MD5). In SCRAM and DIGEST-MD5 the authorization identity is what the peer named: the
  authenticator is not asked about it.
\<close>

theorem sasl_identity_vouched:
  assumes "records profile log key who"
  shows "\<exists>i. who = effective i \<and> vouched_for (evidence profile) log key i"
  by (rule records_vouched [OF assms])

theorem sasl_identity_vouched_witness:
  "\<exists>log i cx h en m. records (ServesCram knows_bob ''h'' sample_mac) log (1, 3) ''bob'' \<and> ''bob'' = effective i \<and>
     (\<exists>r. subseq (logged (1, 3) cx h @ [last_round (1, 3) cx h en m r]) log) \<and> cram_proved sample_mac knows_bob ''h'' cx h m i"
proof -
  from cram_login obtain log where log: "records (ServesCram knows_bob ''h'' sample_mac) log (1, 3) ''bob''" by blast
  from sasl_identity_vouched [OF log] log show ?thesis unfolding vouched_for_def evidence.simps by blast
qed

text \<open>
  C31 (functional). Every message on a SASL channel gets exactly one answer, after the identity
  was recorded if it is, and touches no other channel's exchange. Unless the answer asks for
  another round the exchange is over, aborted and refused ones too: any later message on the
  channel is refused without the mechanism being asked, so each exchange is one attempt.
\<close>

theorem sasl_one_attempt:
  assumes "sasl_handle mech en key n payload table = Some (table', acts)"
  shows "(\<exists>recorded answer. acts = map Authenticate recorded @ [answer] \<and> length recorded \<le> 1 \<and>
       (answer \<in> range (ReplyWith n \<circ> blob_to_xml) \<or> answer \<in> range (ErrorWith n \<circ> error_payload))) \<and>
    (\<forall>other. other \<noteq> key \<longrightarrow> table' other = table other) \<and>
    ((\<exists>x data. acts = [ReplyWith n (blob_to_xml (blob_with_status StatusContinue data))] \<and> table' key = Some (InFlight x)) \<or>
     (table' key = None \<and>
      (\<forall>en' n' later. sasl_handle mech en' key n' later table' =
         Some (table', [ErrorWith n' (error_payload ''no exchange is in progress'')]))))"
proof -
  have one: "\<exists>recorded answer. [a] = map Authenticate recorded @ [answer] \<and> length recorded \<le> 1 \<and> P answer" if "P a" for a P
    using that by (intro exI [of _ "[]"] exI [of _ a]) simp
  have two: "\<exists>recorded answer. [Authenticate w, a] = map Authenticate recorded @ [answer] \<and> length recorded \<le> 1 \<and> P answer"
    if "P a" for w a P
    using that by (intro exI [of _ "[w]"] exI [of _ a]) simp
  have gone: "sasl_handle mech en' key n' later t = Some (t, [ErrorWith n' (error_payload ''no exchange is in progress'')])"
    if "t key = None" for en' n' later t
    using that by (rule sasl_handle_none)
  from assms show ?thesis
  proof (cases rule: sasl_handle_cases)
    case 1
    then show ?thesis by (auto intro!: one gone)
  next
    case 2
    then show ?thesis by (auto intro!: one gone)
  next
    case 3
    have "\<exists>recorded answer. acts = map Authenticate recorded @ [answer] \<and> length recorded \<le> 1 \<and>
        (answer \<in> range (ReplyWith n \<circ> blob_to_xml) \<or> answer \<in> range (ErrorWith n \<circ> error_payload))"
      unfolding 3(1) by (rule two) simp
    with 3 gone show ?thesis by simp
  next
    case 4
    then show ?thesis by (auto intro!: one)
  qed
qed

theorem sasl_one_attempt_witness:
  "\<exists>table'. sasl_handle \<lparr>me_begin = simple_begin refuse_all, me_step = plain_step\<rparr> \<lparr>ev_random = \<lambda>n. None, ev_seconds = 0\<rparr>
       (1, 3) 0 (blob_to_xml (blob_status StatusAbort)) [(1, 3) \<mapsto> InFlight (simple_begin refuse_all \<lparr>cx_server_name = None\<rparr>)] =
       Some (table', [ReplyWith 0 (blob_to_xml (blob_status StatusAbort))]) \<and> table' (1, 3) = None"
proof -
  let ?mech = "\<lparr>me_begin = simple_begin refuse_all, me_step = plain_step\<rparr>" and ?en = "\<lparr>ev_random = \<lambda>n. None, ev_seconds = 0\<rparr>"
  let ?table = "[(1, 3) \<mapsto> InFlight (simple_begin refuse_all \<lparr>cx_server_name = None\<rparr>)] :: exchange exchanges"
  let ?abort = "blob_to_xml (blob_status StatusAbort)"
  have "from_utf8_lossy ?abort = ?abort" by (rule lossy_id) (simp add: blob_to_xml_def blob_status_def octet_in_def)
  then have h: "sasl_handle ?mech ?en (1, 3) 0 ?abort ?table = Some (Map.empty, [ReplyWith 0 ?abort])"
    by (simp add: sasl_handle_def sasl_take_def sasl_answer_def sasl_put_def blob_read_back) (simp add: blob_status_def)
  from sasl_one_attempt [OF this] h show ?thesis by auto
qed

end
