(* ===== verification/DriverIdentity.thy ===== *)
theory DriverIdentity
  imports DriverWire SaslProfile
begin

text \<open>
  Who the peer of a session is taken to be, and why: no operation of the session sets it but the
  one a profile asks for, so together with the SASL profiles a session is only ever authenticated
  on evidence played on one of its own channels.
\<close>

section \<open>The driver\<close>

definition identity_of :: "'w driver \<Rightarrow> bytes option" where
  "identity_of d = s_authenticated (dr_session d)"

lemma identity_results:
  "start_channel prof s = (s', r) \<Longrightarrow> s_authenticated s' = s_authenticated s"
  "close_channel n s = (s', q) \<Longrightarrow> s_authenticated s' = s_authenticated s"
  "send_msg n p s = (s', r) \<Longrightarrow> s_authenticated s' = s_authenticated s"
  "send n k m a p s = (s', q) \<Longrightarrow> s_authenticated s' = s_authenticated s"
  "set_window_size n sz s = (s', q) \<Longrightarrow> s_authenticated s' = s_authenticated s"
  "accept_start n m prof s = (s', q) \<Longrightarrow> s_authenticated s' = s_authenticated s"
  "handle_input b s = (s', q) \<Longrightarrow> s_authenticated s' = s_authenticated s"
  using identity.management identity.send_msg identity.send identity.set_window_size identity.input by (metis fst_conv)+

lemma apply_identity:
  "identity_of (apply_command cmd d) = (case cmd of command.Authenticate who _ \<Rightarrow> Some who | _ \<Rightarrow> identity_of d)"
  by (cases cmd) (auto simp: identity_of_def set_authenticated_def dest: identity_results split: prod.split sum.split)

lemma handle_event_identity: "identity_of (handle_event alive e d) = identity_of d"
proof -
  have "identity_of (start_requested alive ch m st d) = identity_of d" for ch m st
    by (auto simp: identity_of_def start_requested_def Let_def dest: identity_results split: option.split prod.split sum.split)
  then show ?thesis by (cases e) (auto simp: identity_of_def Let_def split: option.split)
qed

lemma handle_events_identity: "identity_of (handle_events alive d) = identity_of d"
proof (induction alive d rule: handle_events.induct)
  case (1 alive d)
  have same: "identity_of (with_session (fst (poll_event (dr_session d))) d) = identity_of d" by (simp add: identity_of_def)
  show ?case
  proof (cases "poll_event (dr_session d)")
    case (Pair s r)
    with 1 same show ?thesis
      by (subst handle_events.simps) (auto simp: handle_event_identity split: option.split)
  qed
qed

lemma transmit_identity: "identity_of (transmit d) = identity_of d"
  by (auto simp: transmit_def poll_transmit_def identity_of_def)

lemma settle_identity: "identity_of (settle alive d) = identity_of d"
proof (induction alive d rule: settle.induct)
  case (1 alive d)
  then show ?case by (subst settle.simps) (simp add: handle_events_identity transmit_identity)
qed

lemma take_turn_identity:
  assumes "take_turn t d = (d', None)"
  shows "identity_of d' = identity_of d \<or> identity_of d' = None \<or>
    (\<exists>who c sw. t = Received (command.Authenticate who c) sw \<and> identity_of d' = Some who)"
proof (cases t)
  case (Received cmd sw)
  show ?thesis
  proof (cases "\<exists>lr cfg c. cmd = Upgrade lr cfg c")
    case True
    then obtain lr cfg c where u: "upgrade lr cfg c sw d = (d', None)" using assms Received by (auto simp: dispatch_def)
    from upgrade_succeeds [OF u] obtain s where "last_words lr (dr_session d) = (s, Inr ())" "sw = Swapped" by blast
    with u have "d' = renew cfg c (write_out (transmit (with_session s d)))" by (simp add: upgrade_swapped)
    then have "identity_of d' = None" by (simp add: identity_of_def renewed_state fresh_fields)
    then show ?thesis by blast
  next
    case False
    then have "d' = apply_command cmd d" using assms Received by (cases cmd) (auto simp: dispatch_def simp del: apply_command.simps)
    then show ?thesis using Received by (cases cmd) (auto simp: apply_identity simp del: apply_command.simps)
  qed
next
  case (Arrived octets)
  with assms show ?thesis by (auto simp: identity_of_def dest: identity_results split: prod.splits sum.splits)
qed (use assms in \<open>auto simp: identity_of_def Let_def split: if_splits\<close>)

lemma inbox_identity: "identity_of (inbox_taken ch d) = identity_of d" "identity_of (inbox_dropped ch d) = identity_of d"
  by (auto simp: inbox_taken_def inbox_dropped_def identity_of_def split: option.split)

lemma pumps_identity:
  "pumps d0 cmds d \<Longrightarrow> identity_of d0 = None \<Longrightarrow>
     identity_of d = None \<or> (\<exists>who c. identity_of d = Some who \<and> command.Authenticate who c \<in> set cmds)"
proof (induction rule: pumps.induct)
  case (pumps_turn cmds d alive t d')
  have "take_turn t (settle alive d) = (d', None)" using pumps_turn(3) by (auto simp: pump_turn_def Let_def split: if_splits)
  from take_turn_identity [OF this] pumps_turn.IH [OF pumps_turn.prems] show ?case by (auto simp: settle_identity)
qed (auto simp: inbox_identity)

section \<open>Properties\<close>



text \<open>
  Handles and tasks of the old session outlive a swap, and the driver cannot tell their commands
  from those of the new one. A request on an old channel is refused as one on a
  channel that does not exist, not as one on a closed session; and an identity that a profile
  recorded a moment too late, proved over the old transport, counts for the new session.
\<close>

lemma commands_outlive_swap:
  assumes "last_words lr (dr_session d) = (s, Inr ())" and "upgrade lr cfg c Swapped d = (d', None)"
  shows "dr_effects (apply_command (Request ch p c1) d') = dr_effects d' @ [Answered c1 (Failure (Protocol (NoSuchChannel ch)))] \<and>
    s_authenticated (dr_session d') = None \<and>
    s_authenticated (dr_session (apply_command (command.Authenticate who c2) d')) = Some who"
proof -
  from assms have d': "d' = renew cfg c (write_out (transmit (with_session s d)))" by (simp add: upgrade_swapped)
  then have "s_channels (dr_session d') = Map.empty" "s_authenticated (dr_session d') = None"
    by (simp_all add: renewed_state fresh_fields)
  then show ?thesis by (simp add: send_msg_def tell_def cause_def set_authenticated_def with_session_def)
qed

end
