(* ===== verification/WsStreams.thy ===== *)
theory WsStreams
  imports WsFrames Codec
begin

text \<open>
  \<^verbatim>\<open>vortice-ws/src/stream.rs\<close>: a WebSocket presented as the byte stream a session runs over.
  The transport underneath and the system's randomness are not code of this repository: what
  they answer to successive calls is a script the state carries, an exhausted one answering
  that nothing is ready. \<open>Poll<io::Result<T>>\<close> is the type of the answers.
\<close>

section \<open>What is underneath\<close>

datatype io_error = NoRandomness | WriteZero | TransportFailed | InvalidData protocol_error

datatype 'a poll = Pending | ReadyOk 'a | ReadyErr io_error

datatype write_answer = Wrote nat | WritePending | WriteFailed
datatype read_answer = ReadSome bytes | ReadPending | ReadFailed

record transport =
  tr_keys :: "bytes option list"       \<comment> \<open>what the system gives for a masking key\<close>
  tr_writes :: "write_answer list"
  tr_reads :: "read_answer list"
  tr_sent :: bytes                     \<comment> \<open>octets the transport has taken\<close>

section \<open>The stream\<close>

definition OUTBOUND_HIGH_WATER :: nat where "OUTBOUND_HIGH_WATER = 512 * 1024"

datatype side = Client | Server

record ws_stream =
  ws_io :: transport
  ws_side :: side
  ws_inbound :: bytes
  ws_payload :: bytes
  ws_outbound :: bytes
  ws_partial :: bytes
  ws_finished :: bool
  ws_closing :: bool

definition ws_new :: "transport \<Rightarrow> side \<Rightarrow> bytes \<Rightarrow> ws_stream" where
  "ws_new io sd prefix = \<lparr>ws_io = io, ws_side = sd, ws_inbound = prefix, ws_payload = [], ws_outbound = [],
     ws_partial = [], ws_finished = False, ws_closing = False\<rparr>"

definition masking_key :: "ws_stream \<Rightarrow> ws_stream \<times> (io_error + bytes)" where
  "masking_key s =
     (case tr_keys (ws_io s) of
        [] \<Rightarrow> (s, Inl NoRandomness)
      | k # ks \<Rightarrow>
          let s = s\<lparr>ws_io := (ws_io s)\<lparr>tr_keys := ks\<rparr>\<rparr> in
          case k of None \<Rightarrow> (s, Inl NoRandomness) | Some key \<Rightarrow> (s, Inr key))"

definition queue :: "op_code \<Rightarrow> bytes \<Rightarrow> ws_stream \<Rightarrow> ws_stream \<times> (io_error + unit)" where
  "queue opcode payload s =
     bind_st (case ws_side s of
                Client \<Rightarrow> bind_st (masking_key s) (\<lambda>s k. (s, Inr (Some k)))
              | Server \<Rightarrow> (s, Inr None)) (\<lambda>s key.
       let out = ws_encode_header (ws_outbound s) opcode True (length payload) key;
           out = out @ (case key of Some k \<Rightarrow> apply_mask payload k 0 | None \<Rightarrow> payload)
       in (s\<lparr>ws_outbound := out\<rparr>, Inr ()))"

lemma queue_keeps:
  "ws_partial (fst (queue opc p s)) = ws_partial s" "ws_inbound (fst (queue opc p s)) = ws_inbound s"
  "tr_reads (ws_io (fst (queue opc p s))) = tr_reads (ws_io s)" "ws_payload (fst (queue opc p s)) = ws_payload s"
  "ws_finished (fst (queue opc p s)) = ws_finished s" "ws_side (fst (queue opc p s)) = ws_side s"
  "ws_closing (fst (queue opc p s)) = ws_closing s"
  by (auto simp: queue_def masking_key_def Let_def bind_st_def split: side.split list.split option.split)

text \<open>A boundary is inside the buffer, and cutting there gives one whole frame.\<close>

lemma find_byte_take: "find_byte xs c = Some i \<Longrightarrow> i < n \<Longrightarrow> find_byte (take n xs) c = Some i"
proof (induction xs arbitrary: i n)
  case (Cons x xs)
  then show ?case by (cases n) (auto split: if_splits)
qed simp

lemma frame_boundary_cut:
  assumes "frame_boundary src = Some e"
  shows "0 < e \<and> e \<le> length src \<and> frame_boundary (take e src) = Some e"
proof -
  from assms obtain lf where lf: "find_byte (take (min (length src) MAX_HEADER_LEN) src) LF = Some lf"
    "\<not> (lf = 0 \<or> src ! (lf - 1) \<noteq> CR)"
    by (auto simp: frame_boundary_def split: option.splits if_splits)
  have lt: "lf < length src" "lf < MAX_HEADER_LEN" using find_byte_SomeD [OF lf(1)] by simp_all
  have le: "lf + 1 \<le> e" "e \<le> length src"
    using assms lf lt by (auto simp: frame_boundary_def Let_def split: sum.splits parsed.splits if_splits)
  have "min (length (take e src)) MAX_HEADER_LEN = min e MAX_HEADER_LEN" using le by simp
  moreover have "find_byte (take (min e MAX_HEADER_LEN) (take e src)) LF = Some lf"
  proof -
    have "take (min e MAX_HEADER_LEN) (take e src) = take e (take (min (length src) MAX_HEADER_LEN) src)"
      using le by (simp add: min_def)
    with find_byte_take [OF lf(1), of e] le show ?thesis by simp
  qed
  moreover have "take (lf - 1) (take e src) = take (lf - 1) src" "take e src ! (lf - 1) = src ! (lf - 1)"
    using le lf(2) by (auto simp: min_def)
  ultimately have "frame_boundary (take e src) = Some e"
    using assms lf le by (auto simp: frame_boundary_def Let_def split: sum.splits parsed.splits if_splits)
  with le show ?thesis by simp
qed

text \<open>More octets behind a whole frame do not move its boundary.\<close>

lemma find_byte_more: "find_byte xs c = Some i \<Longrightarrow> find_byte (xs @ ys) c = Some i"
  by (induction xs arbitrary: i) (auto split: if_splits)

lemma frame_boundary_more:
  assumes "frame_boundary src = Some e" shows "frame_boundary (src @ rest) = Some e"
proof -
  from assms obtain lf where lf: "find_byte (take (min (length src) MAX_HEADER_LEN) src) LF = Some lf"
    "\<not> (lf = 0 \<or> src ! (lf - 1) \<noteq> CR)"
    by (auto simp: frame_boundary_def split: option.splits if_splits)
  have lt: "lf < length src" "lf < MAX_HEADER_LEN" using find_byte_SomeD [OF lf(1)] by simp_all
  let ?n = "min (length (src @ rest)) MAX_HEADER_LEN"
  have "take ?n (src @ rest) = take (min (length src) MAX_HEADER_LEN) src @ drop (length src) (take ?n (src @ rest))"
    by (auto simp: min_def)
  then have "find_byte (take ?n (src @ rest)) LF = Some lf" using find_byte_more [OF lf(1)] by metis
  moreover have "take (lf - 1) (src @ rest) = take (lf - 1) src" "(src @ rest) ! (lf - 1) = src ! (lf - 1)"
    using lt by (auto simp: nth_append)
  ultimately show ?thesis
    using assms lf by (auto simp: frame_boundary_def Let_def split: sum.splits parsed.splits if_splits)
qed

lemma frame_boundary_Nil [simp]: "frame_boundary [] = None"
  by (simp add: frame_boundary_def)

function queue_whole_frames :: "ws_stream \<Rightarrow> ws_stream \<times> (io_error + nat)" where
  "queue_whole_frames s =
     (case frame_boundary (ws_partial s) of
        None \<Rightarrow> (s, Inr 0)
      | Some fin \<Rightarrow>
          bind_st (queue BinaryOp (take fin (ws_partial s)) (s\<lparr>ws_partial := drop fin (ws_partial s)\<rparr>)) (\<lambda>s _.
          bind_st (queue_whole_frames s) (\<lambda>s queued. (s, Inr (fin + queued)))))"
  by pat_completeness auto
termination
proof (relation "measure (\<lambda>s. length (ws_partial s))", goal_cases)
  case (2 s fin s' u)
  have "ws_partial s' = drop fin (ws_partial s)"
    using queue_keeps(1) [of BinaryOp "take fin (ws_partial s)" "s\<lparr>ws_partial := drop fin (ws_partial s)\<rparr>"] 2(2) by simp
  with frame_boundary_cut [OF 2(1)] show ?case by simp linarith
qed simp

declare queue_whole_frames.simps [simp del]

definition flush_partial :: "ws_stream \<Rightarrow> ws_stream \<times> (io_error + unit)" where
  "flush_partial s =
     bind_st (queue_whole_frames s) (\<lambda>s _.
       if ws_partial s \<noteq> [] then queue BinaryOp (ws_partial s) (s\<lparr>ws_partial := []\<rparr>) else (s, Inr ()))"

text \<open>The loop of \<open>poll_drain\<close>: the answers left, the octets left, the octets taken.\<close>

fun drain_loop :: "write_answer list \<Rightarrow> bytes \<Rightarrow> bytes \<Rightarrow> (write_answer list \<times> bytes \<times> bytes) \<times> unit poll" where
  "drain_loop ws [] sent = ((ws, [], sent), ReadyOk ())"
| "drain_loop [] out sent = (([], out, sent), Pending)"
| "drain_loop (w # ws) out sent =
     (case w of
        WritePending \<Rightarrow> ((ws, out, sent), Pending)
      | WriteFailed \<Rightarrow> ((ws, out, sent), ReadyErr TransportFailed)
      | Wrote n \<Rightarrow>
          if n = 0 then ((ws, out, sent), ReadyErr WriteZero)
          else drain_loop ws (drop n out) (sent @ take n out))"

definition poll_drain :: "ws_stream \<Rightarrow> ws_stream \<times> unit poll" where
  "poll_drain s =
     (case drain_loop (tr_writes (ws_io s)) (ws_outbound s) (tr_sent (ws_io s)) of
        ((ws, out, sent), r) \<Rightarrow>
          (s\<lparr>ws_io := (ws_io s)\<lparr>tr_writes := ws, tr_sent := sent\<rparr>, ws_outbound := out\<rparr>, r))"

lemma poll_drain_keeps:
  "ws_partial (fst (poll_drain s)) = ws_partial s" "ws_inbound (fst (poll_drain s)) = ws_inbound s"
  "tr_reads (ws_io (fst (poll_drain s))) = tr_reads (ws_io s)" "ws_payload (fst (poll_drain s)) = ws_payload s"
  "ws_finished (fst (poll_drain s)) = ws_finished s" "ws_side (fst (poll_drain s)) = ws_side s"
  "ws_closing (fst (poll_drain s)) = ws_closing s"
  by (auto simp: poll_drain_def split: prod.split)

section \<open>Reading\<close>

definition close_payload :: bytes where
  "close_payload = to_be 2 1000"

lemma queue_result:
  "(s', r) = queue opc p s \<Longrightarrow> tr_reads (ws_io s') = tr_reads (ws_io s) \<and> ws_inbound s' = ws_inbound s"
  using queue_keeps(2,3) [of opc p s] by (metis fst_conv)

lemma ws_poll_shrinks: "((d, b), Inr (Some ev)) = ws_poll () src \<Longrightarrow> length b < length src"
  using ws_decoder.progress by metis

text \<open>\<open>poll_read\<close> with room for \<open>cap\<close> octets; an empty answer is the end of the stream.\<close>

function poll_read :: "nat \<Rightarrow> ws_stream \<Rightarrow> ws_stream \<times> bytes poll" where
  "poll_read cap s =
     (if ws_payload s \<noteq> [] then
        let n = min (length (ws_payload s)) cap
        in (s\<lparr>ws_payload := drop n (ws_payload s)\<rparr>, ReadyOk (take n (ws_payload s)))
      else if ws_finished s then (s, ReadyOk [])
      else case ws_poll () (ws_inbound s) of
        ((_, inb), Inl e) \<Rightarrow> (s\<lparr>ws_inbound := inb\<rparr>, ReadyErr (InvalidData e))
      | ((_, inb), Inr (Some ev)) \<Rightarrow>
          let s = s\<lparr>ws_inbound := inb\<rparr> in
          (case ev of
             WsData data \<Rightarrow> poll_read cap (s\<lparr>ws_payload := ws_payload s @ data\<rparr>)
           | WsPing data \<Rightarrow>
               (case queue PongOp data s of
                  (s, Inl e) \<Rightarrow> (s, ReadyErr e)
                | (s, Inr _) \<Rightarrow> poll_read cap (fst (poll_drain s)))
           | WsPong _ \<Rightarrow> poll_read cap s
           | WsClose code reason \<Rightarrow>
               let s = s\<lparr>ws_finished := True\<rparr> in
               if ws_closing s then poll_read cap s
               else (case queue CloseOp close_payload (s\<lparr>ws_closing := True\<rparr>) of
                       (s, Inl e) \<Rightarrow> (s, ReadyErr e)
                     | (s, Inr _) \<Rightarrow> poll_read cap (fst (poll_drain s))))
      | ((_, inb), Inr None) \<Rightarrow>
          (case tr_reads (ws_io s) of
             [] \<Rightarrow> (s, Pending)
           | r # rs \<Rightarrow>
               let s = s\<lparr>ws_io := (ws_io s)\<lparr>tr_reads := rs\<rparr>\<rparr> in
               (case r of
                  ReadPending \<Rightarrow> (s, Pending)
                | ReadFailed \<Rightarrow> (s, ReadyErr TransportFailed)
                | ReadSome bs \<Rightarrow>
                    if bs = [] then poll_read cap (s\<lparr>ws_finished := True\<rparr>)
                    else poll_read cap (s\<lparr>ws_inbound := ws_inbound s @ bs\<rparr>))))"
  by pat_completeness auto
termination
proof (relation "inv_image (less_than <*lex*> less_than) (\<lambda>(cap, s). (length (tr_reads (ws_io s)), length (ws_inbound s)))",
    goal_cases)
  case 1
  show ?case by auto
qed (auto simp: poll_drain_keeps dest!: queue_result ws_poll_shrinks)

declare poll_read.simps [simp del]

section \<open>Writing\<close>

text \<open>The loop of \<open>poll_write\<close> over what the write still holds: how many more octets it took.\<close>

function write_loop :: "bytes \<Rightarrow> nat \<Rightarrow> ws_stream \<Rightarrow> ws_stream \<times> (io_error + nat)" where
  "write_loop rest queued s =
     (if rest = [] \<or> \<not> queued < MAX_SEND_BATCH then (s, Inr 0)
      else case frame_boundary rest of
             Some fin \<Rightarrow>
               bind_st (queue BinaryOp (take fin rest) s) (\<lambda>s _.
               bind_st (write_loop (drop fin rest) (queued + fin) s) (\<lambda>s more. (s, Inr (fin + more))))
           | None \<Rightarrow> (s\<lparr>ws_partial := ws_partial s @ rest\<rparr>, Inr (length rest)))"
  by pat_completeness auto
termination
  by (relation "measure (\<lambda>(rest, queued, s). length rest)") (auto dest: frame_boundary_cut)

declare write_loop.simps [simp del]

text \<open>
  \<open>poll_write\<close>. A drain that succeeds leaves nothing outbound, so the loop waiting for the
  high-water mark runs at most once.
\<close>

definition poll_write :: "bytes \<Rightarrow> ws_stream \<Rightarrow> ws_stream \<times> nat poll" where
  "poll_write buf s =
     (if buf = [] then (s, ReadyOk 0)
      else case (if length (ws_outbound s) \<ge> OUTBOUND_HIGH_WATER then poll_drain s else (s, ReadyOk ())) of
        (s, Pending) \<Rightarrow> (s, Pending)
      | (s, ReadyErr e) \<Rightarrow> (s, ReadyErr e)
      | (s, ReadyOk _) \<Rightarrow>
          (case (if ws_partial s \<noteq> [] then
                   bind_st (queue_whole_frames (s\<lparr>ws_partial := ws_partial s @ buf\<rparr>)) (\<lambda>s _. (s, Inr (length buf)))
                 else write_loop buf 0 s) of
             (s, Inl e) \<Rightarrow> (s, ReadyErr e)
           | (s, Inr taken) \<Rightarrow>
               (case poll_drain s of
                  (s, ReadyErr e) \<Rightarrow> (s, ReadyErr e)
                | (s, _) \<Rightarrow> (s, ReadyOk taken))))"

text \<open>The last argument is what the transport answers to its own flush or shutdown.\<close>

definition poll_flush :: "ws_stream \<Rightarrow> unit poll \<Rightarrow> ws_stream \<times> unit poll" where
  "poll_flush s io_flush =
     (case flush_partial s of
        (s, Inl e) \<Rightarrow> (s, ReadyErr e)
      | (s, Inr _) \<Rightarrow> (case poll_drain s of (s, ReadyOk _) \<Rightarrow> (s, io_flush) | (s, r) \<Rightarrow> (s, r)))"

definition poll_shutdown :: "ws_stream \<Rightarrow> unit poll \<Rightarrow> ws_stream \<times> unit poll" where
  "poll_shutdown s io_shutdown =
     (case flush_partial s of
        (s, Inl e) \<Rightarrow> (s, ReadyErr e)
      | (s, Inr _) \<Rightarrow>
          (case (if ws_closing s then (s, Inr ()) else queue CloseOp close_payload (s\<lparr>ws_closing := True\<rparr>)) of
             (s, Inl e) \<Rightarrow> (s, ReadyErr e)
           | (s, Inr _) \<Rightarrow> (case poll_drain s of (s, ReadyOk _) \<Rightarrow> (s, io_shutdown) | (s, r) \<Rightarrow> (s, r))))"

lemma drain_ok_empty: "drain_loop ws out sent = ((ws', out', sent'), ReadyOk ()) \<Longrightarrow> out' = []"
  by (induction ws out sent rule: drain_loop.induct) (auto split: write_answer.splits if_splits)

section \<open>What is on its way\<close>

text \<open>Everything written so far, taken by the transport or not.\<close>

definition written :: "ws_stream \<Rightarrow> bytes" where
  "written s = tr_sent (ws_io s) @ ws_outbound s"

lemma drain_loop_sent: "drain_loop ws out sent = ((ws', out', sent'), r) \<Longrightarrow> sent' @ out' = sent @ out"
  by (induction ws out sent rule: drain_loop.induct) (auto split: write_answer.splits if_splits)

lemma written_drain [simp]: "written (fst (poll_drain s)) = written s"
  using drain_loop_sent by (auto simp: written_def poll_drain_def split: prod.split)

text \<open>A key, when there is one, has four octets.\<close>

definition keys_ok :: "ws_stream \<Rightarrow> bool" where
  "keys_ok s \<longleftrightarrow> (\<forall>k. Some k \<in> set (tr_keys (ws_io s)) \<longrightarrow> length k = 4)"

lemma queue_written:
  assumes "queue opc p s = (s', Inr ())" and "keys_ok s" and "length p \<le> MAX_PAYLOAD" and "is_control opc \<Longrightarrow> length p \<le> 125"
  shows "\<exists>key. written s' = written s @ ws_frame opc p key \<and> frame_ok opc p key \<and> keys_ok s' \<and>
    ws_partial s' = ws_partial s"
proof -
  have enc: "ws_encode_header out opc True n key = out @ ws_encode_header [] opc True n key" for out n key
    by (simp add: ws_encode_header_eq)
  show ?thesis
  proof (cases "ws_side s")
    case Server
    with assms show ?thesis
      by (intro exI [of _ None])
        (auto simp: queue_def Let_def written_def ws_frame_def enc [of "ws_outbound _"] frame_ok_def ws_header_ok_def keys_ok_def)
  next
    case Client
    from assms(1) Client obtain k ks where k: "tr_keys (ws_io s) = Some k # ks"
      by (auto simp: queue_def masking_key_def Let_def split: list.splits option.splits)
    with Client assms show ?thesis
      by (intro exI [of _ "Some k"])
        (auto simp: queue_def masking_key_def Let_def written_def ws_frame_def enc [of "ws_outbound _"] frame_ok_def
          ws_header_ok_def keys_ok_def)
  qed
qed

text \<open>Binary frames, each holding what its first component says, follow what was written.\<close>

definition data_frames :: "(bytes \<times> bytes option) list \<Rightarrow> bytes" where
  "data_frames fs = concat (map (\<lambda>(p, key). ws_frame BinaryOp p key) fs)"

definition whole :: "bytes \<times> bytes option \<Rightarrow> bool" where
  "whole f \<longleftrightarrow> frame_boundary (fst f) = Some (length (fst f))"

definition appended :: "ws_stream \<Rightarrow> (bytes \<times> bytes option) list \<Rightarrow> ws_stream \<Rightarrow> bool" where
  "appended s fs s' \<longleftrightarrow> written s' = written s @ data_frames fs \<and> (\<forall>(p, key) \<in> set fs. frame_ok BinaryOp p key) \<and>
     list_all whole fs \<and> keys_ok s'"

lemma appended_Nil: "keys_ok s \<Longrightarrow> appended s [] s"
  by (simp add: appended_def data_frames_def)

lemma queued_whole:
  assumes "frame_boundary src = Some e" and "queue BinaryOp (take e src) s = (s1, Inr ())" and "keys_ok s"
    and "length src \<le> MAX_PAYLOAD" and "appended s1 fs s'"
  shows "\<exists>key. appended s ((take e src, key) # fs) s'"
proof -
  have cut: "e \<le> length src" "frame_boundary (take e src) = Some e" using frame_boundary_cut [OF assms(1)] by simp_all
  have "length (take e src) \<le> MAX_PAYLOAD" using assms(4) cut by simp
  from queue_written [OF assms(2,3) this] obtain key where
    "written s1 = written s @ ws_frame BinaryOp (take e src) key" "frame_ok BinaryOp (take e src) key" by auto
  with assms(5) cut show ?thesis
    by (intro exI [of _ key]) (auto simp: appended_def data_frames_def whole_def)
qed

lemma queue_whole_frames_carries:
  "queue_whole_frames s = (s', Inr n) \<Longrightarrow> keys_ok s \<Longrightarrow> length (ws_partial s) \<le> MAX_PAYLOAD \<Longrightarrow>
     \<exists>fs. appended s fs s' \<and> ws_partial s = concat (map fst fs) @ ws_partial s' \<and> frame_boundary (ws_partial s') = None"
proof (induction s arbitrary: n rule: queue_whole_frames.induct)
  case (1 s)
  show ?case
  proof (cases "frame_boundary (ws_partial s)")
    case None
    with "1.prems" have "s' = s" by (simp add: queue_whole_frames.simps [of s])
    with "1.prems"(2) appended_Nil [of s] None show ?thesis by (intro exI [of _ "[]"]) simp
  next
    case (Some e)
    let ?s = "s\<lparr>ws_partial := drop e (ws_partial s)\<rparr>"
    from "1.prems"(1) Some obtain s1 m where q: "queue BinaryOp (take e (ws_partial s)) ?s = (s1, Inr ())"
      "queue_whole_frames s1 = (s', Inr m)"
      by (subst (asm) queue_whole_frames.simps) (auto simp: bind_st_Inr_iff)
    have ks: "keys_ok ?s" using "1.prems"(2) by (simp add: keys_ok_def)
    have cut: "e \<le> length (ws_partial s)" using frame_boundary_cut [OF Some] by simp
    have s1: "ws_partial s1 = drop e (ws_partial s)" "keys_ok s1"
      using queue_written [OF q(1) ks] "1.prems"(3) cut by auto
    have "length (ws_partial s) - e \<le> MAX_PAYLOAD" using "1.prems"(3) by linarith
    with "1.IH" [OF Some q(1) q(2) s1(2)] s1(1) obtain fs where
      fs: "appended s1 fs s'" "drop e (ws_partial s) = concat (map fst fs) @ ws_partial s'"
        "frame_boundary (ws_partial s') = None" by auto
    from queued_whole [OF Some q(1) ks "1.prems"(3) fs(1)] obtain key where "appended ?s ((take e (ws_partial s), key) # fs) s'" by blast
    then have "appended s ((take e (ws_partial s), key) # fs) s'" by (simp add: appended_def written_def)
    moreover have "ws_partial s = take e (ws_partial s) @ concat (map fst fs) @ ws_partial s'"
      using fs(2) by (metis append_take_drop_id)
    ultimately show ?thesis using fs(3) by (intro exI [of _ "(take e (ws_partial s), key) # fs"]) simp
  qed
qed

lemma write_loop_carries:
  "write_loop rest queued s = (s', Inr n) \<Longrightarrow> keys_ok s \<Longrightarrow> length rest \<le> MAX_PAYLOAD \<Longrightarrow> ws_partial s = [] \<Longrightarrow>
     n \<le> length rest \<and> frame_boundary (ws_partial s') = None \<and> (n < length rest \<longrightarrow> ws_partial s' = []) \<and>
     (rest \<noteq> [] \<and> queued < MAX_SEND_BATCH \<longrightarrow> 0 < n) \<and>
     (\<exists>fs. appended s fs s' \<and> take n rest = concat (map fst fs) @ ws_partial s')"
proof (induction rest queued s arbitrary: n rule: write_loop.induct)
  case (1 rest queued s)
  consider (stop) "rest = [] \<or> \<not> queued < MAX_SEND_BATCH" | (held) "rest \<noteq> []" "queued < MAX_SEND_BATCH" "frame_boundary rest = None"
    | (frame) e where "rest \<noteq> []" "queued < MAX_SEND_BATCH" "frame_boundary rest = Some e" by blast
  then show ?case
  proof cases
    case stop
    with "1.prems" have "s' = s" "n = 0" by (auto simp: write_loop.simps [of rest])
    with "1.prems"(2,4) appended_Nil [of s] stop show ?thesis by auto
  next
    case held
    with "1.prems" have s': "s' = s\<lparr>ws_partial := rest\<rparr>" and n: "n = length rest"
      by (auto simp: write_loop.simps [of rest])
    have "appended s [] s'" using "1.prems"(2) by (simp add: s' appended_def data_frames_def written_def keys_ok_def)
    then show ?thesis using held by (auto simp: s' n intro: exI [of _ "[]"])
  next
    case frame
    from "1.prems"(1) frame obtain s1 m where q: "queue BinaryOp (take e rest) s = (s1, Inr ())"
      "write_loop (drop e rest) (queued + e) s1 = (s', Inr m)" "n = e + m"
      by (subst (asm) write_loop.simps) (auto simp: bind_st_Inr_iff)
    have cut: "e \<le> length rest" "0 < e" using frame_boundary_cut [OF frame(3)] by simp_all
    have s1: "keys_ok s1" "ws_partial s1 = []"
      using queue_written [OF q(1) "1.prems"(2)] "1.prems"(3,4) cut by auto
    have "\<not> (rest = [] \<or> \<not> queued < MAX_SEND_BATCH)" using frame by simp
    moreover have "length rest - e \<le> MAX_PAYLOAD" using "1.prems"(3) by linarith
    ultimately obtain fs where
      fs: "m \<le> length rest - e" "appended s1 fs s'" "take m (drop e rest) = concat (map fst fs) @ ws_partial s'"
        "frame_boundary (ws_partial s') = None" "m < length rest - e \<longrightarrow> ws_partial s' = []"
      using "1.IH" [OF _ frame(3) q(1) q(2) s1(1)] s1(2) by auto
    from queued_whole [OF frame(3) q(1) "1.prems"(2,3) fs(2)] obtain key where "appended s ((take e rest, key) # fs) s'" by blast
    moreover have "take n rest = take e rest @ concat (map fst fs) @ ws_partial s'"
      by (simp add: q(3) take_add fs(3))
    ultimately show ?thesis
      using fs(1,4,5) cut by (intro conjI impI exI [of _ "(take e rest, key) # fs"]) (simp_all add: q(3))
  qed
qed

lemma appended_drain:
  assumes "appended s fs s1" shows "appended s fs (fst (poll_drain s1))"
proof -
  have "tr_keys (ws_io (fst (poll_drain s1))) = tr_keys (ws_io s1)" by (auto simp: poll_drain_def split: prod.split)
  with assms show ?thesis by (simp add: appended_def keys_ok_def)
qed

lemma drained_appended:
  assumes "appended (fst (poll_drain s)) fs s'" shows "appended s fs s'"
  using assms by (simp add: appended_def)

lemma poll_write_carries:
  assumes "poll_write buf s = (s', ReadyOk n)" and "keys_ok s" and "length (ws_partial s) + length buf \<le> MAX_PAYLOAD"
  shows "n \<le> length buf \<and> (buf \<noteq> [] \<longrightarrow> frame_boundary (ws_partial s') = None \<and> 0 < n) \<and>
    (n < length buf \<longrightarrow> ws_partial s' = []) \<and> (buf = [] \<longrightarrow> s' = s) \<and>
    (\<exists>fs. appended s fs s' \<and> ws_partial s @ take n buf = concat (map fst fs) @ ws_partial s')"
proof (cases "buf = []")
  case True
  with assms(1,2) appended_Nil [of s] show ?thesis by (auto simp: poll_write_def)
next
  case False
  let ?d = "if length (ws_outbound s) \<ge> OUTBOUND_HIGH_WATER then poll_drain s else (s, ReadyOk ())"
  define s0 where "s0 = fst ?d"
  have s0: "keys_ok s0" "ws_partial s0 = ws_partial s" "\<And>fs x. appended s0 fs x \<Longrightarrow> appended s fs x"
    using assms(2) drained_appended [of s]
    by (auto simp: s0_def poll_drain_keeps keys_ok_def split: if_splits) (auto simp: poll_drain_def split: prod.splits)
  let ?w = "if ws_partial s0 \<noteq> [] then
       bind_st (queue_whole_frames (s0\<lparr>ws_partial := ws_partial s0 @ buf\<rparr>)) (\<lambda>s _. (s, Inr (length buf)))
     else write_loop buf 0 s0"
  obtain s1 where w: "?w = (s1, Inr n)" and s': "s' = fst (poll_drain s1)"
    using assms(1) False unfolding poll_write_def s0_def
    by (auto split: prod.splits poll.splits sum.splits if_splits)
  have "n \<le> length buf \<and> frame_boundary (ws_partial s1) = None \<and> 0 < n \<and> (n < length buf \<longrightarrow> ws_partial s1 = []) \<and>
    (\<exists>fs. appended s0 fs s1 \<and> ws_partial s0 @ take n buf = concat (map fst fs) @ ws_partial s1)"
  proof (cases "ws_partial s0 = []")
    case True
    with w have "write_loop buf 0 s0 = (s1, Inr n)" by simp
    from write_loop_carries [OF this s0(1) _ True] assms(3) True False show ?thesis by (simp add: MAX_SEND_BATCH_def)
  next
    case part: False
    let ?s = "s0\<lparr>ws_partial := ws_partial s0 @ buf\<rparr>"
    from w part obtain m where q: "queue_whole_frames ?s = (s1, Inr m)" and n: "n = length buf"
      by (auto simp: bind_st_Inr_iff)
    have "keys_ok ?s" "length (ws_partial ?s) \<le> MAX_PAYLOAD" using s0(1,2) assms(3) by (simp_all add: keys_ok_def)
    from queue_whole_frames_carries [OF q this] obtain fs where
      "appended ?s fs s1" "ws_partial s0 @ buf = concat (map fst fs) @ ws_partial s1"
      "frame_boundary (ws_partial s1) = None" by auto
    then show ?thesis using False by (auto simp: n appended_def written_def)
  qed
  then obtain fs where fs: "n \<le> length buf" "appended s0 fs s1" "ws_partial s0 @ take n buf = concat (map fst fs) @ ws_partial s1"
    "frame_boundary (ws_partial s1) = None" "0 < n" "n < length buf \<longrightarrow> ws_partial s1 = []" by blast
  from s0(3) [OF appended_drain [OF fs(2)]] fs(1,3-6) s0(2) False show ?thesis
    unfolding s' by (auto simp: poll_drain_keeps)
qed

section \<open>What has arrived\<close>

fun data_of :: "ws_event \<Rightarrow> bytes" where
  "data_of (WsData d) = d"
| "data_of ev = []"

fun is_close :: "ws_event \<Rightarrow> bool" where
  "is_close (WsClose c r) \<longleftrightarrow> True"
| "is_close ev \<longleftrightarrow> False"

fun read_octets :: "read_answer \<Rightarrow> bytes" where
  "read_octets (ReadSome bs) = bs"
| "read_octets r = []"

text \<open>
  The octets a reader still has to get: what is decoded already and the data of the frames in
  the octets received or about to be, when none of them closes the stream.
\<close>

definition undelivered :: "ws_stream \<Rightarrow> bytes \<Rightarrow> bool" where
  "undelivered s D \<longleftrightarrow> \<not> ws_finished s \<and> (\<forall>r \<in> set (tr_reads (ws_io s)). r \<noteq> ReadSome []) \<and>
     (\<exists>evs rest. drains ws_poll () (ws_inbound s @ concat (map read_octets (tr_reads (ws_io s)))) evs () rest \<and>
        \<not> list_ex is_close evs \<and> D = ws_payload s @ concat (map data_of evs))"

lemma undelivered_same:
  "ws_finished s' = ws_finished s \<Longrightarrow> tr_reads (ws_io s') = tr_reads (ws_io s) \<Longrightarrow> ws_inbound s' = ws_inbound s \<Longrightarrow>
     ws_payload s' = ws_payload s \<Longrightarrow> undelivered s' D = undelivered s D"
  by (simp add: undelivered_def)

lemma undelivered_next:
  assumes "undelivered s D" and "ws_poll () (ws_inbound s) = ((d, inb), r)"
  shows "(\<exists>ev. r = Inr (Some ev) \<and> \<not> is_close ev \<and>
            undelivered (s\<lparr>ws_inbound := inb, ws_payload := ws_payload s @ data_of ev\<rparr>) D) \<or> r = Inr None \<and> inb = ws_inbound s"
proof -
  let ?more = "concat (map read_octets (tr_reads (ws_io s)))"
  from assms(1) obtain evs rest where dr: "drains ws_poll () (ws_inbound s @ ?more) evs () rest" "\<not> list_ex is_close evs"
    "D = ws_payload s @ concat (map data_of evs)" "\<not> ws_finished s" "\<forall>r \<in> set (tr_reads (ws_io s)). r \<noteq> ReadSome []"
    by (auto simp: undelivered_def)
  show ?thesis
  proof (cases r)
    case (Inl e)
    with assms(2) ws_decoder.after_error [of "()" "ws_inbound s" "()" inb e ?more] dr(1) show ?thesis
      by (simp add: drains_Inl)
  next
    case (Inr v)
    show ?thesis
    proof (cases v)
      case None
      with assms(2) Inr show ?thesis by (auto simp: ws_poll_def Let_def split: sum.splits option.splits if_splits)
    next
      case (Some ev)
      with assms(2) Inr ws_decoder.after_value [of "()" "ws_inbound s" "()" inb ev ?more]
      have "ws_poll () (ws_inbound s @ ?more) = (((), inb @ ?more), Inr (Some ev))" by simp
      with dr(1) obtain evs' where "evs = ev # evs'" "drains ws_poll () (inb @ ?more) evs' () rest"
        by (auto simp: drains_Some)
      with dr(2-5) have "\<not> is_close ev" "undelivered (s\<lparr>ws_inbound := inb, ws_payload := ws_payload s @ data_of ev\<rparr>) D"
        by (auto simp: undelivered_def)
      with Inr Some show ?thesis by blast
    qed
  qed
qed

lemma undelivered_read:
  assumes "undelivered s D" and "tr_reads (ws_io s) = ReadSome bs # rs"
  shows "bs \<noteq> [] \<and> undelivered (s\<lparr>ws_io := (ws_io s)\<lparr>tr_reads := rs\<rparr>, ws_inbound := ws_inbound s @ bs\<rparr>) D"
  using assms by (auto simp: undelivered_def)

lemma poll_read_delivers:
  assumes "0 < cap"
  shows "undelivered s D \<Longrightarrow> poll_read cap s = (s', ReadyOk c) \<Longrightarrow> \<exists>D'. D = c @ D' \<and> undelivered s' D' \<and> c \<noteq> []"
proof (induction s rule: wf_induct [OF wf_measures [of "[\<lambda>s. length (tr_reads (ws_io s)), \<lambda>s. length (ws_inbound s)]"]])
  case (1 s)
  have IH: "\<exists>D'. D = c @ D' \<and> undelivered s' D' \<and> c \<noteq> []"
    if "undelivered t D" "poll_read cap t = (s', ReadyOk c)"
      "length (tr_reads (ws_io t)) < length (tr_reads (ws_io s)) \<or>
       length (tr_reads (ws_io t)) = length (tr_reads (ws_io s)) \<and> length (ws_inbound t) < length (ws_inbound s)" for t
    using 1(1) that by auto
  have nf: "\<not> ws_finished s" using 1(2) by (simp add: undelivered_def)
  show ?case
  proof (cases "ws_payload s = []")
    case False
    let ?n = "min (length (ws_payload s)) cap"
    from False 1(3) have r: "s' = s\<lparr>ws_payload := drop ?n (ws_payload s)\<rparr>" "c = take ?n (ws_payload s)"
      by (simp_all add: poll_read.simps [of cap s] Let_def)
    from 1(2) obtain rest0 where "D = ws_payload s @ rest0" "\<And>p. undelivered (s\<lparr>ws_payload := p\<rparr>) (p @ rest0)"
      by (auto simp: undelivered_def)
    moreover have "ws_payload s = take ?n (ws_payload s) @ drop ?n (ws_payload s)" by (metis append_take_drop_id)
    ultimately show ?thesis
      using r False assms by (intro exI [of _ "drop ?n (ws_payload s) @ rest0"]) (simp only:, simp)
  next
    case True
    obtain d inb r where p: "ws_poll () (ws_inbound s) = ((d, inb), r)" by (metis prod.collapse)
    from undelivered_next [OF 1(2) p] show ?thesis
    proof (elim disjE conjE exE)
      fix ev assume ev: "r = Inr (Some ev)" "\<not> is_close ev"
        and un: "undelivered (s\<lparr>ws_inbound := inb, ws_payload := ws_payload s @ data_of ev\<rparr>) D"
      have short: "length inb < length (ws_inbound s)" using ws_decoder.progress p ev(1) by blast
      let ?s = "s\<lparr>ws_inbound := inb\<rparr>"
      show ?thesis
      proof (cases ev)
        case (WsData data)
        with 1(3) True nf p ev(1) have "poll_read cap (?s\<lparr>ws_payload := ws_payload s @ data\<rparr>) = (s', ReadyOk c)"
          by (simp add: poll_read.simps [of cap s])
        with IH [OF _ this] un WsData short show ?thesis by simp
      next
        case (WsPing data)
        from 1(3) True nf p ev(1) WsPing obtain q where q: "queue PongOp data ?s = (q, Inr ())"
          "poll_read cap (fst (poll_drain q)) = (s', ReadyOk c)"
          by (auto simp: poll_read.simps [of cap s] split: prod.splits sum.splits)
        have "undelivered (fst (poll_drain q)) D = undelivered (s\<lparr>ws_inbound := inb, ws_payload := ws_payload s @ data_of ev\<rparr>) D"
          using queue_keeps [of PongOp data ?s] q(1) WsPing by (intro undelivered_same) (simp_all add: poll_drain_keeps)
        with IH [OF _ q(2)] un short queue_keeps [of PongOp data ?s] q(1) show ?thesis by (simp add: poll_drain_keeps)
      next
        case (WsPong data)
        with 1(3) True nf p ev(1) have "poll_read cap ?s = (s', ReadyOk c)" by (simp add: poll_read.simps [of cap s])
        moreover have "undelivered ?s D"
          using un WsPong True undelivered_same [of ?s "s\<lparr>ws_inbound := inb, ws_payload := []\<rparr>"] by simp
        ultimately show ?thesis using IH [of ?s] short by simp
      qed (use ev(2) in simp)
    next
      assume none: "r = Inr None"
      with 1(3) True nf p obtain bs rs where rd: "tr_reads (ws_io s) = ReadSome bs # rs" and
        cont: "poll_read cap (if bs = [] then s\<lparr>ws_io := (ws_io s)\<lparr>tr_reads := rs\<rparr>, ws_finished := True\<rparr>
          else s\<lparr>ws_io := (ws_io s)\<lparr>tr_reads := rs\<rparr>, ws_inbound := ws_inbound s @ bs\<rparr>) = (s', ReadyOk c)"
        by (auto simp: poll_read.simps [of cap s] Let_def split: list.splits read_answer.splits if_splits)
      from undelivered_read [OF 1(2) rd] cont have
        "undelivered (s\<lparr>ws_io := (ws_io s)\<lparr>tr_reads := rs\<rparr>, ws_inbound := ws_inbound s @ bs\<rparr>) D"
        "poll_read cap (s\<lparr>ws_io := (ws_io s)\<lparr>tr_reads := rs\<rparr>, ws_inbound := ws_inbound s @ bs\<rparr>) = (s', ReadyOk c)" by simp_all
      from IH [OF this] rd show ?thesis by simp
    qed
  qed
qed

lemma data_frames_drain:
  "\<forall>(p, key) \<in> set fs. frame_ok BinaryOp p key \<Longrightarrow>
     drains ws_poll () (data_frames fs) (map (\<lambda>f. WsData (fst f)) fs) () []"
proof -
  assume ok: "\<forall>(p, key) \<in> set fs. frame_ok BinaryOp p key"
  have "drains ws_poll () (concat (map (\<lambda>(opc, p, key). ws_frame opc p key) (map (Pair BinaryOp) fs)))
      (map (\<lambda>(opc, p, key). event_of opc p) (map (Pair BinaryOp) fs)) () []"
    by (rule drains_ws_frames) (use ok in auto)
  then show ?thesis by (simp add: data_frames_def comp_def event_of_def case_prod_unfold)
qed

section \<open>What a run of one end writes\<close>

text \<open>
  Frames that carry octets of the session or answer a ping, behind what was written. Writing
  and flushing add the first kind, reading the second.
\<close>

definition frames_of :: "(op_code \<times> bytes \<times> bytes option) list \<Rightarrow> bytes" where
  "frames_of fs = concat (map (\<lambda>(opc, p, key). ws_frame opc p key) fs)"

definition sends :: "ws_stream \<Rightarrow> (op_code \<times> bytes \<times> bytes option) list \<Rightarrow> ws_stream \<Rightarrow> bool" where
  "sends s fs s' \<longleftrightarrow> written s' = written s @ frames_of fs \<and> keys_ok s' \<and>
     (\<forall>(opc, p, key) \<in> set fs. frame_ok opc p key \<and> opc \<in> {BinaryOp, PongOp})"

definition session_data :: "(op_code \<times> bytes \<times> bytes option) list \<Rightarrow> bytes" where
  "session_data fs = concat (map (\<lambda>(opc, p, key). data_of (event_of opc p)) fs)"

lemma session_data_simps [simp]:
  "session_data (fs @ gs) = session_data fs @ session_data gs" "session_data [] = []"
  "session_data (map (Pair BinaryOp) ps) = concat (map fst ps)" "session_data (map (Pair PongOp) ps) = []"
  by (simp_all add: session_data_def comp_def event_of_def case_prod_unfold)

lemma sends_Nil: "keys_ok s \<Longrightarrow> sends s [] s"
  by (simp add: sends_def frames_of_def)

lemma sends_trans: "sends s fs t \<Longrightarrow> sends t gs u \<Longrightarrow> sends s (fs @ gs) u"
  by (auto simp: sends_def frames_of_def)

lemma sends_appended: "appended s fs s' \<Longrightarrow> sends s (map (Pair BinaryOp) fs) s'"
  by (auto simp: appended_def sends_def frames_of_def data_frames_def comp_def case_prod_unfold)

lemma keys_ok_drain [simp]: "keys_ok (fst (poll_drain s)) = keys_ok s"
  by (auto simp: poll_drain_def keys_ok_def split: prod.split)

lemma sends_drain: "sends s fs s' \<Longrightarrow> sends s fs (fst (poll_drain s'))"
  by (simp add: sends_def)

lemma sends_queue:
  assumes "queue opc p s = (s', Inr ())" and "keys_ok s" and "length p \<le> MAX_PAYLOAD" and "is_control opc \<Longrightarrow> length p \<le> 125"
    and "opc \<in> {BinaryOp, PongOp}"
  shows "\<exists>key. sends s [(opc, p, key)] s'"
  using queue_written [OF assms(1-4)] assms(5) by (auto simp: sends_def frames_of_def)

text \<open>Reading: pings are answered, and once the end is closing it stays so.\<close>

definition answered_pings :: "ws_stream \<Rightarrow> ws_stream \<Rightarrow> bool" where
  "answered_pings s s' \<longleftrightarrow> (ws_closing s \<longrightarrow> ws_closing s') \<and>
     (keys_ok s \<and> \<not> ws_closing s' \<longrightarrow> (\<exists>ps. sends s (map (Pair PongOp) ps) s' \<and> ws_partial s' = ws_partial s))"

lemma answered_trans:
  assumes "answered_pings s t" and "answered_pings t u" shows "answered_pings s u"
  unfolding answered_pings_def
proof (intro conjI impI)
  show "ws_closing u" if "ws_closing s" using that assms by (simp add: answered_pings_def)
  assume a: "keys_ok s \<and> \<not> ws_closing u"
  then obtain ps where ps: "sends s (map (Pair PongOp) ps) t" "ws_partial t = ws_partial s"
    using assms by (auto simp: answered_pings_def)
  then have "keys_ok t" by (simp add: sends_def)
  with a assms(2) obtain qs where "sends t (map (Pair PongOp) qs) u" "ws_partial u = ws_partial t"
    by (auto simp: answered_pings_def)
  with sends_trans [OF ps(1)] ps(2) show "\<exists>ps. sends s (map (Pair PongOp) ps) u \<and> ws_partial u = ws_partial s"
    by (intro exI [of _ "ps @ qs"]) simp
qed

lemma answered_idle:
  assumes "written s' = written s" and "tr_keys (ws_io s') = tr_keys (ws_io s)" and "ws_closing s' = ws_closing s"
    and "ws_partial s' = ws_partial s"
  shows "answered_pings s s'"
  using assms by (auto simp: answered_pings_def sends_def frames_of_def keys_ok_def intro!: exI [of _ "[]"])

lemma answered_closing: "ws_closing s' \<Longrightarrow> answered_pings s s'"
  by (simp add: answered_pings_def)

lemma event_of_ping: "event_of opc p = WsPing data \<Longrightarrow> opc = PingOp \<and> data = p"
  by (cases opc) (auto simp: event_of_def split: if_splits)

lemma control_short: "ws_decode_header b = Inr (Some h) \<Longrightarrow> wh_opcode h = PingOp \<Longrightarrow> wh_payload_len h \<le> 125"
  by (auto simp: ws_decode_header_def Let_def bind_res_def split: list.splits if_splits sum.splits option.splits)

lemma ping_short:
  assumes "ws_poll () b = ((d, inb), Inr (Some (WsPing data)))" shows "length data \<le> 125"
proof -
  from assms obtain h p where h: "ws_decode_header b = Inr (Some h)" "event_of (wh_opcode h) p = WsPing data"
    "length p \<le> wh_payload_len h"
    by (auto simp: ws_poll_def Let_def split: sum.splits option.splits if_splits)
  with event_of_ping [OF h(2)] control_short [OF h(1)] show ?thesis by simp
qed

lemma answered_pong:
  assumes "ws_poll () b = ((d, inb), Inr (Some (WsPing data)))" and "queue PongOp data s = (s', Inr ())"
  shows "answered_pings s (fst (poll_drain s'))"
proof -
  have short: "length data \<le> 125" by (rule ping_short [OF assms(1)])
  then have "length data \<le> MAX_PAYLOAD" by (simp add: MAX_PAYLOAD_def)
  then have "\<exists>key. sends s [(PongOp, data, key)] s'" if "keys_ok s"
    using sends_queue [OF assms(2) that] short by simp
  then obtain key where "keys_ok s \<Longrightarrow> sends s (map (Pair PongOp) [(data, key)]) s'" by auto
  with queue_keeps [of PongOp data s] assms(2) show ?thesis
    by (auto simp: answered_pings_def poll_drain_keeps intro!: sends_drain exI [of _ "[(data, key)]"])
qed

lemma poll_read_answers:
  "poll_read cap s = (s', r) \<Longrightarrow> r \<notin> range ReadyErr \<Longrightarrow> answered_pings s s'"
proof (induction s rule: wf_induct [OF wf_measures [of "[\<lambda>s. length (tr_reads (ws_io s)), \<lambda>s. length (ws_inbound s)]"]])
  case (1 s)
  have IH: "answered_pings s s'"
    if "answered_pings s t" "poll_read cap t = (s', r)"
      "length (tr_reads (ws_io t)) < length (tr_reads (ws_io s)) \<or>
       length (tr_reads (ws_io t)) = length (tr_reads (ws_io s)) \<and> length (ws_inbound t) < length (ws_inbound s)" for t
    using 1(1,3) that answered_trans [of s t s'] by auto
  have idle: "answered_pings s s'" if "written s' = written s" "tr_keys (ws_io s') = tr_keys (ws_io s)"
    "ws_closing s' = ws_closing s" "ws_partial s' = ws_partial s" using that by (rule answered_idle)
  show ?case
  proof (cases "ws_payload s \<noteq> [] \<or> ws_finished s")
    case True
    with 1(2) show ?thesis by (intro idle) (auto simp: poll_read.simps [of cap s] Let_def written_def split: if_splits)
  next
    case False
    obtain d inb x where p: "ws_poll () (ws_inbound s) = ((d, inb), x)" by (metis prod.collapse)
    show ?thesis
    proof (cases x)
      case (Inl e)
      with 1(2,3) False p show ?thesis by (auto simp: poll_read.simps [of cap s])
    next
      case (Inr v)
      show ?thesis
      proof (cases v)
        case None
        with 1(2) False p Inr consider (ended) "s' = s \<or> (\<exists>rs. s' = s\<lparr>ws_io := (ws_io s)\<lparr>tr_reads := rs\<rparr>\<rparr>)"
          | (again) bs rs where "tr_reads (ws_io s) = ReadSome bs # rs"
            "poll_read cap (if bs = [] then s\<lparr>ws_io := (ws_io s)\<lparr>tr_reads := rs\<rparr>, ws_finished := True\<rparr>
              else s\<lparr>ws_io := (ws_io s)\<lparr>tr_reads := rs\<rparr>, ws_inbound := ws_inbound s @ bs\<rparr>) = (s', r)"
          by (auto simp: poll_read.simps [of cap s] Let_def split: list.splits read_answer.splits if_splits)
        then show ?thesis
        proof cases
          case ended
          then show ?thesis by (intro idle) (auto simp: written_def)
        next
          case again
          show ?thesis by (rule IH [OF _ again(2)]) (auto intro!: answered_idle simp: again(1) written_def)
        qed
      next
        case (Some ev)
        have short: "length inb < length (ws_inbound s)" using ws_decoder.progress p Inr Some by blast
        let ?s = "s\<lparr>ws_inbound := inb\<rparr>"
        have i: "answered_pings s ?s" by (rule answered_idle) (simp_all add: written_def)
        show ?thesis
        proof (cases ev)
          case (WsData data)
          with 1(2) False p Inr Some have "poll_read cap (?s\<lparr>ws_payload := ws_payload s @ data\<rparr>) = (s', r)"
            by (simp add: poll_read.simps [of cap s])
          then show ?thesis by (rule IH [rotated]) (use short in \<open>auto intro!: answered_idle simp: written_def\<close>)
        next
          case (WsPing data)
          from 1(2,3) False p Inr Some WsPing obtain q where q: "queue PongOp data ?s = (q, Inr ())"
            "poll_read cap (fst (poll_drain q)) = (s', r)"
            by (auto simp: poll_read.simps [of cap s] split: prod.splits sum.splits)
          have "ws_poll () (ws_inbound s) = ((d, inb), Inr (Some (WsPing data)))" using p Inr Some WsPing by simp
          from answered_trans [OF i answered_pong [OF this q(1)]] q(2) show ?thesis
            by (rule IH) (use short queue_keeps [of PongOp data ?s] q(1) in \<open>simp add: poll_drain_keeps\<close>)
        next
          case (WsPong data)
          with 1(2) False p Inr Some have "poll_read cap ?s = (s', r)" by (simp add: poll_read.simps [of cap s])
          with i show ?thesis by (rule IH) (use short in simp)
        next
          case (WsClose code reason)
          let ?c = "?s\<lparr>ws_finished := True\<rparr>"
          show ?thesis
          proof (cases "ws_closing s")
            case True
            with 1(2) False p Inr Some WsClose have "poll_read cap ?c = (s', r)" by (simp add: poll_read.simps [of cap s])
            then show ?thesis by (rule IH [rotated]) (use short in \<open>auto intro!: answered_idle simp: written_def\<close>)
          next
            case open': False
            with 1(2,3) False p Inr Some WsClose obtain q where q:
              "queue CloseOp close_payload (?c\<lparr>ws_closing := True\<rparr>) = (q, Inr ())"
              "poll_read cap (fst (poll_drain q)) = (s', r)"
              by (auto simp: poll_read.simps [of cap s] Let_def split: prod.splits sum.splits)
            from q(2) show ?thesis
              by (rule IH [rotated])
                (use short queue_keeps [of CloseOp close_payload "?c\<lparr>ws_closing := True\<rparr>"] q(1) in
                  \<open>auto simp: poll_drain_keeps intro!: answered_closing\<close>)
          qed
        qed
      qed
    qed
  qed
qed

section \<open>The frames of the session in the octets\<close>

definition beep_octets :: "frame list \<Rightarrow> bytes" where
  "beep_octets beeps = concat (map (\<lambda>f. encode f []) beeps)"

lemma beep_octets_simps [simp]: "beep_octets [] = []" "beep_octets (f # fs) = encode f [] @ beep_octets fs"
  by (simp_all add: beep_octets_def)

lemma boundary_encoded:
  assumes "wf_frame f"
  shows "frame_boundary (encode f [] @ rest) = Some (length (encode f []))"
proof -
  have "decode decoder_new (encode f [] @ rest) = ((decoder_new, rest), Inr (Some f))"
    using assms by (intro decode_rendered) (auto simp: decoder_new_def dest: wf_data_size_le)
  from frame_boundary_decode [OF this] show ?thesis by simp
qed

text \<open>Octets that are nothing, or the beginning of the next frame without its end.\<close>

definition begins_frame :: "bytes \<Rightarrow> frame list \<Rightarrow> bool" where
  "begins_frame xs beeps \<longleftrightarrow> xs = [] \<or> (\<exists>f fs ys. beeps = f # fs \<and> ys \<noteq> [] \<and> encode f [] = xs @ ys)"

lemma begins_frameI:
  assumes "frame_boundary xs = None" and "xs @ later = beep_octets beeps" and "\<forall>f \<in> set beeps. wf_frame f"
  shows "begins_frame xs beeps"
proof (cases beeps)
  case Nil
  with assms(2) show ?thesis by (simp add: begins_frame_def)
next
  case (Cons f fs)
  with assms(2) consider us where "xs = encode f [] @ us" | us where "encode f [] = xs @ us" "us \<noteq> []"
    by (auto simp: append_eq_append_conv2) (metis append_Nil2)
  then show ?thesis
  proof cases
    case 1
    with boundary_encoded [of f us] assms(1,3) Cons show ?thesis by simp
  next
    case 2
    with Cons show ?thesis by (auto simp: begins_frame_def)
  qed
qed

text \<open>Pieces that are each a whole frame by \<open>frame_boundary\<close> are the frames of the stream, one each.\<close>

lemma whole_pieces:
  assumes "list_all whole fs" and "concat (map fst fs) @ later = beep_octets beeps" and "\<forall>f \<in> set beeps. wf_frame f"
  shows "\<exists>k \<le> length beeps. map fst fs = map (\<lambda>f. encode f []) (take k beeps) \<and> later = beep_octets (drop k beeps)"
  using assms
proof (induction fs arbitrary: beeps)
  case Nil
  then show ?case by (intro exI [of _ 0]) simp
next
  case (Cons x fs)
  have x: "frame_boundary (fst x) = Some (length (fst x))" using Cons.prems(1) by (simp add: whole_def)
  from frame_boundary_cut [OF x] have "fst x \<noteq> []" by auto
  with Cons.prems(2) obtain f bs where beeps: "beeps = f # bs" by (cases beeps) auto
  have eq: "fst x @ concat (map fst fs) @ later = encode f [] @ beep_octets bs"
    using Cons.prems(2) beeps by simp
  have "Some (length (fst x)) = Some (length (encode f []))"
    using frame_boundary_more [OF x, of "concat (map fst fs) @ later"] boundary_encoded [of f "beep_octets bs"]
      Cons.prems(3) beeps unfolding eq by simp
  with eq have same: "fst x = encode f []" "concat (map fst fs) @ later = beep_octets bs" by simp_all
  from Cons.IH [OF _ same(2)] Cons.prems(1,3) beeps obtain k where
    "k \<le> length bs" "map fst fs = map (\<lambda>f. encode f []) (take k bs)" "later = beep_octets (drop k bs)" by auto
  with same(1) beeps show ?case by (intro exI [of _ "Suc k"]) simp
qed

section \<open>Properties\<close>

text \<open>
  C19 (safety). One BEEP frame per WebSocket frame. Let the octets of a session be those of
  well-formed frames \<open>beeps\<close>, of which the stream holds back at most the beginning of the
  first, and a write offer the next of them, cut anywhere. A write that succeeds takes a
  prefix of the octets offered, at least one if there are any; it adds to what was written one
  binary frame for each of the first \<open>k\<close> frames of the session, holding exactly its octets, which the peer's decoder
  reads back one event per frame; and it keeps back nothing, or the beginning of the next frame
  without its end, and nothing at all when octets were left with the caller. What is left is
  the octets of the other frames, so the same holds of the next write.
\<close>

theorem ws_one_frame_each:
  assumes "poll_write buf s = (s', ReadyOk n)" and "keys_ok s" and "length (ws_partial s) + length buf \<le> MAX_PAYLOAD"
    and "ws_partial s @ buf @ later = beep_octets beeps" and "\<forall>f \<in> set beeps. wf_frame f" and "begins_frame (ws_partial s) beeps"
  shows "n \<le> length buf \<and> (buf \<noteq> [] \<longrightarrow> 0 < n) \<and> (\<exists>k keys. k \<le> length beeps \<and> length keys = k \<and>
    written s' = written s @ data_frames (zip (map (\<lambda>f. encode f []) (take k beeps)) keys) \<and>
    drains ws_poll () (data_frames (zip (map (\<lambda>f. encode f []) (take k beeps)) keys))
      (map (\<lambda>f. WsData (encode f [])) (take k beeps)) () [] \<and>
    begins_frame (ws_partial s') (drop k beeps) \<and> (n < length buf \<longrightarrow> ws_partial s' = []) \<and>
    ws_partial s' @ drop n buf @ later = beep_octets (drop k beeps))"
proof -
  from poll_write_carries [OF assms(1-3)] obtain fs where n: "n \<le> length buf" "n < length buf \<longrightarrow> ws_partial s' = []"
    "buf \<noteq> [] \<longrightarrow> frame_boundary (ws_partial s') = None \<and> 0 < n" "buf = [] \<longrightarrow> s' = s"
    and a: "appended s fs s'" and d: "ws_partial s @ take n buf = concat (map fst fs) @ ws_partial s'" by blast
  have "concat (map fst fs) @ ws_partial s' @ drop n buf @ later = (ws_partial s @ take n buf) @ drop n buf @ later"
    using d by simp
  also have "\<dots> = beep_octets beeps" using assms(4) append_take_drop_id [of n buf] by (metis append_assoc)
  finally have all: "concat (map fst fs) @ ws_partial s' @ drop n buf @ later = beep_octets beeps" .
  from whole_pieces [OF _ all assms(5)] a obtain k where k: "k \<le> length beeps"
    "map fst fs = map (\<lambda>f. encode f []) (take k beeps)" "ws_partial s' @ drop n buf @ later = beep_octets (drop k beeps)"
    by (auto simp: appended_def)
  let ?keys = "map snd fs"
  have len: "length ?keys = k" using arg_cong [OF k(2), of length] k(1) by simp
  have fs: "fs = zip (map (\<lambda>f. encode f []) (take k beeps)) ?keys" unfolding k(2) [symmetric] by (simp add: zip_map_fst_snd)
  have "map (\<lambda>f. WsData (fst f)) fs = map WsData (map fst fs)" by simp
  also have "\<dots> = map (\<lambda>f. WsData (encode f [])) (take k beeps)" unfolding k(2) by simp
  finally have events: "map (\<lambda>f. WsData (fst f)) fs = map (\<lambda>f. WsData (encode f [])) (take k beeps)" .
  have "drains ws_poll () (data_frames fs) (map (\<lambda>f. WsData (fst f)) fs) () []"
    using a by (intro data_frames_drain) (simp add: appended_def)
  moreover have "begins_frame (ws_partial s') (drop k beeps)"
  proof (cases "buf = []")
    case True
    then have same: "s' = s" using n(4) by simp
    have "k = 0"
    proof (rule ccontr)
      assume "k \<noteq> 0"
      with k(1) obtain f bs where b: "beeps = f # bs" by (cases beeps) auto
      have "concat (map fst fs) = []" using d True same by simp
      moreover have "encode f [] \<noteq> []"
        using boundary_encoded [of f "[]"] frame_boundary_cut [of "encode f []"] assms(5) b by fastforce
      ultimately show False using k(2) b \<open>k \<noteq> 0\<close> by (cases k) auto
    qed
    with assms(6) same show ?thesis by simp
  next
    case False
    have "\<forall>f \<in> set (drop k beeps). wf_frame f" using assms(5) by (meson in_set_dropD)
    with False n(3) k(3) show ?thesis by (intro begins_frameI) auto
  qed
  moreover have "written s' = written s @ data_frames fs" using a by (simp add: appended_def)
  ultimately show ?thesis
    using n k len unfolding events fs [symmetric]
    by (intro conjI exI [of _ k] exI [of _ ?keys]) (simp_all flip: fs)
qed

text \<open>An idle server end over a transport that takes nothing yet, and a \<open>SEQ\<close> frame to write.\<close>

definition idle_stream :: ws_stream where
  "idle_stream = ws_new \<lparr>tr_keys = [], tr_writes = [], tr_reads = [], tr_sent = []\<rparr> Server []"

definition seq_octets :: bytes where
  "seq_octets = ''SEQ 0 0 4096'' @ CRLF"

lemma seq_boundary: "frame_boundary seq_octets = Some 14"
  by code_simp

lemma seq_octets_encoded: "seq_octets = encode (SeqF \<lparr>sf_channel = 0, sf_ackno = 0, sf_window = 4096\<rparr>) []"
  by code_simp

lemma begins_boundary: "frame_boundary ''SEQ 0'' = None"
  by code_simp

text \<open>A write of one frame and the beginning of the next.\<close>

lemma idle_write:
  "poll_write (seq_octets @ ''SEQ 0'') idle_stream =
     (idle_stream\<lparr>ws_outbound := ws_frame BinaryOp seq_octets None, ws_partial := ''SEQ 0''\<rparr>, ReadyOk 19)"
proof -
  have len: "length seq_octets = 14" "seq_octets \<noteq> []" by (simp_all add: seq_octets_def)
  have cut: "frame_boundary (seq_octets @ ''SEQ 0'') = Some 14" by (rule frame_boundary_more [OF seq_boundary])
  have "write_loop (seq_octets @ ''SEQ 0'') 0 idle_stream =
      (idle_stream\<lparr>ws_outbound := ws_frame BinaryOp seq_octets None, ws_partial := ''SEQ 0''\<rparr>, Inr 19)"
    by (subst write_loop.simps)
      (simp add: len cut begins_boundary MAX_SEND_BATCH_def queue_def idle_stream_def ws_new_def write_loop.simps [of "''SEQ 0''"]
        ws_frame_def)
  moreover have "drain_loop [] x [] = (([], x, []), if x = [] then ReadyOk () else Pending)" for x by (cases x) simp_all
  ultimately show ?thesis
    using len by (simp add: poll_write_def idle_stream_def ws_new_def OUTBOUND_HIGH_WATER_def poll_drain_def)
qed

lemma idle_simps:
  "keys_ok idle_stream" "ws_partial idle_stream = []" "written idle_stream = []"
  "length (seq_octets @ ''SEQ 0'') \<le> MAX_PAYLOAD"
  by (simp_all add: keys_ok_def idle_stream_def ws_new_def MAX_PAYLOAD_def written_def seq_octets_def)

definition two_seqs :: "frame list" where
  "two_seqs = replicate 2 (SeqF \<lparr>sf_channel = 0, sf_ackno = 0, sf_window = 4096\<rparr>)"

theorem ws_one_frame_each_witness:
  "\<exists>s' k keys. poll_write (seq_octets @ ''SEQ 0'') idle_stream = (s', ReadyOk 19) \<and> k \<le> 2 \<and> length keys = k \<and>
     written s' = data_frames (zip (map (\<lambda>f. encode f []) (take k two_seqs)) keys) \<and> begins_frame (ws_partial s') (drop k two_seqs)"
proof -
  have cut: "ws_partial idle_stream @ (seq_octets @ ''SEQ 0'') @ drop 5 seq_octets = beep_octets two_seqs"
  proof -
    have "beep_octets two_seqs = seq_octets @ seq_octets"
      by (simp only: two_seqs_def numeral_2_eq_2 replicate_Suc replicate_0 beep_octets_simps append_Nil2 seq_octets_encoded)
    then show ?thesis by (simp add: idle_simps) (simp add: seq_octets_def)
  qed
  have wf: "\<forall>f \<in> set two_seqs. wf_frame f"
    by (simp add: two_seqs_def wf_seq_def limit_defs)
  have "begins_frame (ws_partial idle_stream) two_seqs" by (simp add: begins_frame_def idle_simps)
  from ws_one_frame_each [OF idle_write idle_simps(1) _ cut wf this] idle_write idle_simps show ?thesis
    by (auto simp: two_seqs_def)
qed

text \<open>
  What happens to one end while it is up: writes that take octets or wait, flushes and reads
  in any order, none of which fails. The octets are those its writes took.
\<close>

inductive stream_run :: "ws_stream \<Rightarrow> bytes \<Rightarrow> ws_stream \<Rightarrow> bool" for s0 where
  stream_start: "stream_run s0 [] s0"
| stream_write: "stream_run s0 bs s \<Longrightarrow> length (ws_partial s) + length buf \<le> MAX_PAYLOAD \<Longrightarrow>
    poll_write buf s = (s', ReadyOk n) \<Longrightarrow> stream_run s0 (bs @ take n buf) s'"
| stream_wait: "stream_run s0 bs s \<Longrightarrow> poll_write buf s = (s', Pending) \<Longrightarrow> stream_run s0 bs s'"
| stream_flush: "stream_run s0 bs s \<Longrightarrow> poll_flush s io_flush = (s', r) \<Longrightarrow> r \<notin> range ReadyErr \<Longrightarrow> stream_run s0 bs s'"
| stream_read: "stream_run s0 bs s \<Longrightarrow> poll_read cap s = (s', r) \<Longrightarrow> r \<notin> range ReadyErr \<Longrightarrow> stream_run s0 bs s'"

lemma queue_whole_frames_closing: "ws_closing (fst (queue_whole_frames s)) = ws_closing s"
proof (induction s rule: queue_whole_frames.induct)
  case (1 s)
  show ?case
  proof (cases "frame_boundary (ws_partial s)")
    case None
    then show ?thesis by (simp add: queue_whole_frames.simps [of s])
  next
    case (Some e)
    let ?q = "queue BinaryOp (take e (ws_partial s)) (s\<lparr>ws_partial := drop e (ws_partial s)\<rparr>)"
    obtain t x where q: "?q = (t, x)" by fastforce
    have t: "ws_closing t = ws_closing s"
      using queue_keeps(7) [of BinaryOp "take e (ws_partial s)" "s\<lparr>ws_partial := drop e (ws_partial s)\<rparr>"] q by simp
    show ?thesis
    proof (cases x)
      case (Inl e')
      with Some q t show ?thesis by (simp add: queue_whole_frames.simps [of s])
    next
      case (Inr u)
      with "1.IH" [OF Some] q have "ws_closing (fst (queue_whole_frames t)) = ws_closing t" by simp
      with Some q Inr t show ?thesis
        by (auto simp: queue_whole_frames.simps [of s] bind_st_def split: prod.split sum.split)
    qed
  qed
qed

lemma write_loop_closing: "ws_closing (fst (write_loop rest queued s)) = ws_closing s"
proof (induction rest queued s rule: write_loop.induct)
  case (1 rest queued s)
  show ?case
  proof (cases "rest = [] \<or> \<not> queued < MAX_SEND_BATCH \<or> frame_boundary rest = None")
    case True
    then show ?thesis by (auto simp: write_loop.simps [of rest])
  next
    case False
    then obtain e where e: "\<not> (rest = [] \<or> \<not> queued < MAX_SEND_BATCH)" "frame_boundary rest = Some e" by auto
    obtain t x where q: "queue BinaryOp (take e rest) s = (t, x)" by fastforce
    have t: "ws_closing t = ws_closing s" using queue_keeps(7) [of BinaryOp "take e rest" s] q by simp
    show ?thesis
    proof (cases x)
      case (Inl e')
      with e q t show ?thesis by (simp add: write_loop.simps [of rest])
    next
      case (Inr u)
      with "1.IH" [OF e] q have "ws_closing (fst (write_loop (drop e rest) (queued + e) t)) = ws_closing t" by simp
      with e q Inr t show ?thesis
        by (auto simp: write_loop.simps [of rest] bind_st_def split: prod.split sum.split)
    qed
  qed
qed

lemma poll_write_closing:
  assumes "poll_write buf s = (s', r)" shows "ws_closing s' = ws_closing s"
proof -
  have d: "ws_closing (fst (poll_drain t)) = ws_closing t" for t by (rule poll_drain_keeps)
  have q: "ws_closing (fst (bind_st (queue_whole_frames (t\<lparr>ws_partial := p\<rparr>)) (\<lambda>s _. (s, Inr k)))) = ws_closing t" for t p and k :: nat
    using queue_whole_frames_closing [of "t\<lparr>ws_partial := p\<rparr>"] by (auto simp: bind_st_def split: prod.split sum.split)
  define s0 where "s0 = (if length (ws_outbound s) \<ge> OUTBOUND_HIGH_WATER then poll_drain s else (s, ReadyOk ()))"
  have s0: "ws_closing (fst s0) = ws_closing s" by (simp add: s0_def d)
  define w where "w = (if ws_partial (fst s0) \<noteq> [] then
       bind_st (queue_whole_frames ((fst s0)\<lparr>ws_partial := ws_partial (fst s0) @ buf\<rparr>)) (\<lambda>s _. (s, Inr (length buf)))
     else write_loop buf 0 (fst s0))"
  have w: "ws_closing (fst w) = ws_closing s" by (simp add: w_def q write_loop_closing s0)
  have "s' \<in> {s, fst s0, fst w, fst (poll_drain (fst w))}"
    using assms unfolding poll_write_def s0_def [symmetric]
    by (auto simp: w_def split: prod.splits poll.splits sum.splits if_splits)
  with s0 w d [of "fst w"] show ?thesis by auto
qed

text \<open>
  What a run keeps, while the end is not closing: what was written are frames, the octets of
  the session in them are those taken but for what is held back, and that holds no whole frame.
\<close>

definition carries :: "ws_stream \<Rightarrow> bytes \<Rightarrow> ws_stream \<Rightarrow> bool" where
  "carries s0 bs s \<longleftrightarrow> ws_closing s \<or>
     (\<exists>fs. sends s0 fs s \<and> bs = session_data fs @ ws_partial s) \<and> frame_boundary (ws_partial s) = None \<and>
     length (ws_partial s) \<le> MAX_PAYLOAD"

lemma flush_partial_sends:
  assumes "flush_partial s = (s', Inr ())" and "keys_ok s" and "length (ws_partial s) \<le> MAX_PAYLOAD"
  shows "ws_partial s' = [] \<and> (\<exists>fs. sends s fs s' \<and> ws_partial s = session_data fs)"
proof -
  from assms(1) obtain s1 n where q: "queue_whole_frames s = (s1, Inr n)" and
    rest: "(if ws_partial s1 \<noteq> [] then queue BinaryOp (ws_partial s1) (s1\<lparr>ws_partial := []\<rparr>) else (s1, Inr ())) = (s', Inr ())"
    by (auto simp: flush_partial_def bind_st_Inr_iff)
  from queue_whole_frames_carries [OF q assms(2,3)] obtain fs where
    fs: "appended s fs s1" "ws_partial s = concat (map fst fs) @ ws_partial s1" by blast
  note first = sends_appended [OF fs(1)]
  show ?thesis
  proof (cases "ws_partial s1 = []")
    case True
    with rest first fs(2) show ?thesis by (auto intro!: exI [of _ "map (Pair BinaryOp) fs"])
  next
    case False
    let ?s1 = "s1\<lparr>ws_partial := []\<rparr>"
    from False rest have q': "queue BinaryOp (ws_partial s1) ?s1 = (s', Inr ())" by simp
    have k: "keys_ok ?s1" using first by (simp add: sends_def keys_ok_def)
    have len: "length (ws_partial s1) \<le> MAX_PAYLOAD" using assms(3) fs(2) by simp
    from sends_queue [OF q' k len] obtain key where "sends ?s1 [(BinaryOp, ws_partial s1, key)] s'" by auto
    then have "sends s1 (map (Pair BinaryOp) [(ws_partial s1, key)]) s'" by (simp add: sends_def written_def)
    from sends_trans [OF first this] fs(2) have "sends s (map (Pair BinaryOp) (fs @ [(ws_partial s1, key)])) s'"
      "ws_partial s = session_data (map (Pair BinaryOp) (fs @ [(ws_partial s1, key)]))" by (simp_all del: map_append) simp_all
    moreover have "ws_partial s' = []" using queue_keeps(1) [of BinaryOp "ws_partial s1" ?s1] q' by simp
    ultimately show ?thesis by blast
  qed
qed

lemma poll_flush_partial:
  assumes "poll_flush s io_flush = (s', r)" and "r \<notin> range ReadyErr"
  shows "\<exists>s1. flush_partial s = (s1, Inr ()) \<and> s' = fst (poll_drain s1)"
proof -
  obtain s1 x where f: "flush_partial s = (s1, x)" by fastforce
  obtain s2 y where d: "poll_drain s1 = (s2, y)" by fastforce
  from assms f d show ?thesis by (cases x; cases y) (auto simp: poll_flush_def)
qed

lemma flush_partial_closing:
  assumes "flush_partial s = (s', Inr ())" shows "ws_closing s' = ws_closing s"
proof -
  from assms obtain s1 n where q: "queue_whole_frames s = (s1, Inr n)" and
    rest: "(if ws_partial s1 \<noteq> [] then queue BinaryOp (ws_partial s1) (s1\<lparr>ws_partial := []\<rparr>) else (s1, Inr ())) = (s', Inr ())"
    by (auto simp: flush_partial_def bind_st_Inr_iff)
  have "ws_closing s1 = ws_closing s" using queue_whole_frames_closing [of s] q by simp
  with rest queue_keeps(7) [of BinaryOp "ws_partial s1" "s1\<lparr>ws_partial := []\<rparr>"] show ?thesis
    by (auto split: if_splits)
qed

lemma carries_run:
  assumes "stream_run s0 bs s" and "keys_ok s0" and "ws_partial s0 = []"
  shows "carries s0 bs s"
  using assms(1)
proof induction
  case stream_start
  then show ?case using assms(2,3) sends_Nil [of s0] by (auto simp: carries_def intro!: exI [of _ "[]"])
next
  case (stream_write bs s buf s' n)
  show ?case
  proof (cases "ws_closing s'")
    case False
    then have "\<not> ws_closing s" using poll_write_closing [OF stream_write.hyps(3)] by simp
    with stream_write.IH obtain fs where fs: "sends s0 fs s" "bs = session_data fs @ ws_partial s"
      "frame_boundary (ws_partial s) = None" by (auto simp: carries_def)
    have "keys_ok s" using fs(1) by (simp add: sends_def)
    from poll_write_carries [OF stream_write.hyps(3) this stream_write.hyps(2)] obtain gs where
      gs: "appended s gs s'" "ws_partial s @ take n buf = concat (map fst gs) @ ws_partial s'"
      "buf \<noteq> [] \<longrightarrow> frame_boundary (ws_partial s') = None" "buf = [] \<longrightarrow> s' = s" by blast
    have "length (ws_partial s') \<le> length (ws_partial s @ take n buf)" unfolding gs(2) by simp
    then have "length (ws_partial s') \<le> MAX_PAYLOAD" using stream_write.hyps(2) by simp
    moreover have "bs @ take n buf = session_data (fs @ map (Pair BinaryOp) gs) @ ws_partial s'"
      using fs(2) gs(2) by simp
    ultimately show ?thesis
      using sends_trans [OF fs(1) sends_appended [OF gs(1)]] fs(3) gs(3,4) unfolding carries_def by (metis (full_types))
  qed (simp add: carries_def)
next
  case (stream_wait bs s buf s')
  have "s' = s \<or> s' = fst (poll_drain s)"
    using stream_wait.hyps(2) by (auto simp: poll_write_def split: prod.splits poll.splits sum.splits if_splits)
  with stream_wait.IH show ?case
    by (auto simp: carries_def poll_drain_keeps intro: sends_drain)
next
  case (stream_flush bs s io_flush s' r)
  from poll_flush_partial [OF stream_flush.hyps(2,3)] obtain s1 where
    s1: "flush_partial s = (s1, Inr ())" "s' = fst (poll_drain s1)" by blast
  have c: "ws_closing s' = ws_closing s" using flush_partial_closing [OF s1(1)] by (simp add: s1(2) poll_drain_keeps)
  show ?case
  proof (cases "ws_closing s")
    case False
    with stream_flush.IH obtain fs where fs: "sends s0 fs s" "bs = session_data fs @ ws_partial s"
      "length (ws_partial s) \<le> MAX_PAYLOAD" by (auto simp: carries_def)
    have "keys_ok s" using fs(1) by (simp add: sends_def)
    from flush_partial_sends [OF s1(1) this fs(3)] obtain gs where
      gs: "ws_partial s1 = []" "sends s gs s1" "ws_partial s = session_data gs" by blast
    from sends_drain [OF sends_trans [OF fs(1) gs(2)]] fs(2) gs(1,3) show ?thesis
      unfolding carries_def s1(2) by (auto simp: poll_drain_keeps intro!: exI [of _ "fs @ gs"])
  qed (simp add: carries_def c)
next
  case (stream_read bs s cap s' r)
  note a = poll_read_answers [OF stream_read.hyps(2,3)]
  show ?case
  proof (cases "ws_closing s'")
    case False
    with a have "\<not> ws_closing s" by (auto simp: answered_pings_def)
    with stream_read.IH obtain fs where fs: "sends s0 fs s" "bs = session_data fs @ ws_partial s"
      "frame_boundary (ws_partial s) = None" "length (ws_partial s) \<le> MAX_PAYLOAD" by (auto simp: carries_def)
    have "keys_ok s" using fs(1) by (simp add: sends_def)
    with a False obtain ps where "sends s (map (Pair PongOp) ps) s'" "ws_partial s' = ws_partial s"
      by (auto simp: answered_pings_def)
    with sends_trans [OF fs(1)] fs show ?thesis
      by (auto simp: carries_def intro!: exI [of _ "fs @ map (Pair PongOp) ps"])
  qed (simp add: carries_def)
qed

text \<open>What the other end has to deliver of frames that were sent.\<close>

lemma sends_undelivered:
  assumes "\<forall>(opc, p, key) \<in> set fs. frame_ok opc p key \<and> opc \<in> {BinaryOp, PongOp}" and "t = ws_new io sd []"
    and "\<forall>r \<in> set (tr_reads io). r \<noteq> ReadSome []" and "concat (map read_octets (tr_reads io)) = frames_of fs"
  shows "undelivered t (session_data fs)"
proof -
  let ?evs = "map (\<lambda>(opc, p, key). event_of opc p) fs"
  have "drains ws_poll () (frames_of fs) ?evs () []"
    unfolding frames_of_def by (rule drains_ws_frames) (use assms(1) in auto)
  moreover have "\<not> list_ex is_close ?evs" using assms(1) by (auto simp: list_ex_iff event_of_def)
  moreover have "concat (map data_of ?evs) = session_data fs" by (simp add: session_data_def comp_def case_prod_unfold)
  ultimately show ?thesis using assms(2-4) by (auto simp: undelivered_def ws_new_def intro!: exI)
qed


text \<open>A write of one frame and the beginning of the next, and the rest of that one.\<close>

lemma second_write:
  "poll_write (drop 5 seq_octets) (idle_stream\<lparr>ws_outbound := ws_frame BinaryOp seq_octets None, ws_partial := ''SEQ 0''\<rparr>) =
     (idle_stream\<lparr>ws_outbound := ws_frame BinaryOp seq_octets None @ ws_frame BinaryOp seq_octets None\<rparr>, ReadyOk 9)"
proof -
  let ?s = "idle_stream\<lparr>ws_outbound := ws_frame BinaryOp seq_octets None, ws_partial := ''SEQ 0''\<rparr>"
  have cut: "''SEQ 0'' @ drop 5 seq_octets = seq_octets" "length seq_octets = 14" by (simp_all add: seq_octets_def)
  have len: "length (ws_frame BinaryOp seq_octets None) = 16"
    by (simp add: ws_frame_def ws_encode_header_def Let_def cut)
  have enc: "ws_encode_header out opc True n key = out @ ws_encode_header [] opc True n key" for out opc n key
    by (simp add: ws_encode_header_eq)
  have "queue_whole_frames (?s\<lparr>ws_partial := seq_octets\<rparr>) =
      (idle_stream\<lparr>ws_outbound := ws_frame BinaryOp seq_octets None @ ws_frame BinaryOp seq_octets None\<rparr>, Inr 14)"
    by (subst queue_whole_frames.simps)
      (simp add: seq_boundary cut queue_def idle_stream_def ws_new_def queue_whole_frames.simps ws_frame_def
        enc [of "ws_encode_header _ _ _ _ _ @ _"])
  moreover have "drain_loop [] x [] = (([], x, []), if x = [] then ReadyOk () else Pending)" for x by (cases x) simp_all
  moreover have "length (drop 5 seq_octets) = 9" "drop 5 seq_octets \<noteq> []" by (simp_all add: cut)
  ultimately show ?thesis
    using cut len by (simp add: poll_write_def idle_stream_def ws_new_def OUTBOUND_HIGH_WATER_def poll_drain_def)
qed


end
