(* ===== verification/WsHandshake.thy ===== *)
theory WsHandshake
  imports WsStreams Text
begin

text \<open>
  \<^verbatim>\<open>vortice-ws/src/digest.rs\<close> and \<^verbatim>\<open>handshake.rs\<close>: SHA-1, the accept key, and the HTTP exchange
  that opens a WebSocket. A \<open>str\<close> is its UTF-8 octets; what \<open>str::trim\<close> and
  \<open>split_whitespace\<close> call white space is the Unicode property, so its octets are listed.
\<close>

section \<open>SHA-1\<close>

definition copy_at :: "bytes \<Rightarrow> nat \<Rightarrow> bytes \<Rightarrow> bytes" where
  "copy_at xs i ys = take i xs @ ys @ drop (i + length ys) xs"

definition be_word :: "bytes \<Rightarrow> u32" where
  "be_word octets = of_nat (from_be octets)"

text \<open>\<open>chunks_exact\<close> and its remainder.\<close>

function chunks_exact :: "nat \<Rightarrow> bytes \<Rightarrow> bytes list" where
  "chunks_exact n xs = (if n = 0 \<or> length xs < n then [] else take n xs # chunks_exact n (drop n xs))"
  by pat_completeness auto
termination
  by (relation "measure (\<lambda>(n, xs). length xs)") auto

declare chunks_exact.simps [simp del]

definition remainder :: "nat \<Rightarrow> bytes \<Rightarrow> bytes" where
  "remainder n xs = drop (n * (length xs div n)) xs"

type_synonym sha_state = "u32 \<times> u32 \<times> u32 \<times> u32 \<times> u32"

definition sha_init :: sha_state where
  "sha_init = (0x67452301, 0xefcdab89, 0x98badcfe, 0x10325476, 0xc3d2e1f0)"

fun extend_schedule :: "nat \<Rightarrow> u32 list \<Rightarrow> u32 list" where
  "extend_schedule 0 w = w"
| "extend_schedule (Suc k) w =
     (let i = length w
      in extend_schedule k (w @ [word_rotl 1 (w ! (i - 3) XOR w ! (i - 8) XOR w ! (i - 14) XOR w ! (i - 16))]))"

definition sha_round :: "sha_state \<Rightarrow> nat \<times> u32 \<Rightarrow> sha_state" where
  "sha_round st rw =
     (case (st, rw) of ((a, b, c, d, e), (r, w)) \<Rightarrow>
        let (mixed, constant) =
              (if r \<le> 19 then ((b AND c) OR (NOT b AND d), 0x5a827999)
               else if r \<le> 39 then (b XOR c XOR d, 0x6ed9eba1)
               else if r \<le> 59 then ((b AND c) OR (b AND d) OR (c AND d), 0x8f1bbcdc)
               else (b XOR c XOR d, 0xca62c1d6));
            nxt = word_rotl 5 a + mixed + e + constant + w
        in (nxt, a, word_rotl 30 b, c, d))"

definition compress :: "sha_state \<Rightarrow> bytes \<Rightarrow> sha_state" where
  "compress state block =
     (let schedule = extend_schedule 64 (map be_word (chunks_exact 4 block)) in
      case (state, foldl sha_round state (enumerate 0 schedule)) of
        ((s0, s1, s2, s3, s4), (a, b, c, d, e)) \<Rightarrow> (s0 + a, s1 + b, s2 + c, s3 + d, s4 + e))"

definition sha_output :: "sha_state \<Rightarrow> bytes" where
  "sha_output st = (case st of (a, b, c, d, e) \<Rightarrow> concat (map (\<lambda>w. to_be 4 (unat w)) [a, b, c, d, e]))"

definition sha1 :: "bytes \<Rightarrow> bytes" where
  "sha1 msg =
     (let state = foldl compress sha_init (chunks_exact 64 msg);
          rest = remainder 64 msg;
          tail_len = (if length rest + 9 \<le> 64 then 64 else 128);
          tail = replicate 128 (CHR 0x00);
          tail = copy_at tail 0 rest;
          tail = tail[length rest := CHR 0x80];
          tail = copy_at tail (tail_len - 8) (to_be 8 (length msg * 8))
      in sha_output (foldl compress state (chunks_exact 64 (take tail_len tail))))"

section \<open>The exchange\<close>

datatype ws_error = WsIo io_error | WsHandshakeError string | NotUpgraded "nat option" | WsEntropy

definition GUID :: bytes where "GUID = ''258EAFA5-E914-47DA-95CA-C5AB0DC85B11''"
definition MAX_HEAD :: nat where "MAX_HEAD = 16 * 1024"

definition accept_key :: "bytes \<Rightarrow> bytes" where
  "accept_key client_key = b64_encode (sha1 (client_key @ GUID))"

text \<open>The nonce is what the system's randomness gave.\<close>

definition client_key :: "bytes option \<Rightarrow> ws_error + bytes" where
  "client_key rnd = bind_res (ok_or rnd WsEntropy) (\<lambda>nonce. Inr (b64_encode nonce))"

definition ws_request :: "bytes \<Rightarrow> bytes \<Rightarrow> bytes \<Rightarrow> bytes" where
  "ws_request path host key =
     ''GET '' @ path @ '' HTTP/1.1'' @ CRLF @ ''Host: '' @ host @ CRLF @ ''Upgrade: websocket'' @ CRLF @
     ''Connection: Upgrade'' @ CRLF @ ''Sec-WebSocket-Key: '' @ key @ CRLF @ ''Sec-WebSocket-Version: 13'' @ CRLF @ CRLF"

definition ws_response :: "bytes \<Rightarrow> bytes" where
  "ws_response key =
     ''HTTP/1.1 101 Switching Protocols'' @ CRLF @ ''Upgrade: websocket'' @ CRLF @ ''Connection: Upgrade'' @ CRLF @
     ''Sec-WebSocket-Accept: '' @ accept_key key @ CRLF @ CRLF"

definition header_names :: "(bytes \<times> bytes) list \<Rightarrow> bytes \<Rightarrow> bytes \<Rightarrow> bool" where
  "header_names headers hdr token \<longleftrightarrow>
     list_ex (\<lambda>(nm, val). eq_ignore_ascii_case nm hdr \<and>
        list_ex (\<lambda>candidate. eq_ignore_ascii_case (str_trim candidate) token) (split_str '','' [] val)) headers"

definition parse_request :: "bytes \<Rightarrow> ws_error + bytes" where
  "parse_request head =
     (case split_str CRLF [] head of
        [] \<Rightarrow> Inl (WsHandshakeError ''a websocket handshake must be a GET'')
      | request_line # ls \<Rightarrow>
          if \<not> (case split_whitespace request_line of [] \<Rightarrow> False | method # _ \<Rightarrow> method = ''GET'')
          then Inl (WsHandshakeError ''a websocket handshake must be a GET'')
          else
            let headers = map (\<lambda>(nm, val). (str_trim nm, str_trim val)) (List.map_filter (\<lambda>line. split_once line (CHR '':'')) ls) in
            if \<not> header_names headers ''upgrade'' ''websocket''
            then Inl (WsHandshakeError ''the request does not ask to upgrade to websocket'')
            else if \<not> header_names headers ''connection'' ''upgrade''
            then Inl (WsHandshakeError ''the request is missing Connection: Upgrade'')
            else if \<not> header_names headers ''sec-websocket-version'' ''13''
            then Inl (WsHandshakeError ''only websocket version 13 is supported'')
            else case find (\<lambda>(nm, val). eq_ignore_ascii_case nm ''sec-websocket-key'') headers of
                   None \<Rightarrow> Inl (WsHandshakeError ''the request is missing Sec-WebSocket-Key'')
                 | Some (nm, val) \<Rightarrow> Inr val)"

definition parse_response :: "bytes \<Rightarrow> bytes \<Rightarrow> ws_error + unit" where
  "parse_response head sent_key =
     (let ls = split_str CRLF [] head;
          status_line = (case ls of [] \<Rightarrow> [] | l # _ \<Rightarrow> l);
          ws = split_whitespace status_line;
          status = (if 1 < length ws then parse_u16 (ws ! 1) else None)
      in if status \<noteq> Some 101 then Inl (NotUpgraded status)
         else if list_ex (\<lambda>(nm, val). eq_ignore_ascii_case (str_trim nm) ''sec-websocket-accept'' \<and>
                            str_trim val = accept_key sent_key)
                   (List.map_filter (\<lambda>line. split_once line (CHR '':'')) (tl ls))
         then Inr ()
         else Inl (WsHandshakeError ''the server's Sec-WebSocket-Accept does not answer our key''))"

definition find_blank_line :: "bytes \<Rightarrow> nat option" where
  "find_blank_line buffer = map_option (\<lambda>at. at + 4) (find_subslice buffer (CRLF @ CRLF))"

section \<open>Headers\<close>

lemma accept_key_graphic: "\<forall>c \<in> set (accept_key key). graphic c"
  by (simp add: accept_key_def b64_graphic)

lemma sha1_length: "length (sha1 msg) = 20"
proof -
  have "length (sha_output st) = 20" for st by (cases st) (simp add: sha_output_def)
  then show ?thesis by (simp add: sha1_def Let_def)
qed

lemma accept_key_ne: "accept_key key \<noteq> []"
proof -
  have "sha1 x \<noteq> []" for x using sha1_length [of x] by auto
  then show ?thesis by (simp add: accept_key_def b64_encode_def chunks_Cons encode_chunk_def Let_def)
qed

text \<open>A header as it is written and as it is read.\<close>

lemma header_read:
  assumes "CHR '':'' \<notin> set n" and "n \<noteq> []" and "v \<noteq> []" and "graphic (hd n)" and "graphic (last n)"
    and "graphic (hd v)" and "graphic (last v)"
  shows "map_option (\<lambda>(nm, val). (str_trim nm, str_trim val)) (split_once (n @ '': '' @ v) (CHR '':'')) = Some (n, v)"
  using split_once_first [of "CHR '':''" n "CHR '' '' # v"] assms trim_graphic [of n] trim_graphic [of v] by simp

definition read_header :: "bytes \<Rightarrow> (bytes \<times> bytes) option" where
  "read_header line = map_option (\<lambda>(nm, val). (str_trim nm, str_trim val)) (split_once line (CHR '':''))"

lemma read_headers:
  "map (\<lambda>(nm, val). (str_trim nm, str_trim val)) (List.map_filter (\<lambda>line. split_once line (CHR '':'')) ls) =
     List.map_filter read_header ls"
  by (induction ls) (auto simp: read_header_def List.map_filter_def)

lemma read_header_fields:
  "read_header ''Upgrade: websocket'' = Some (''Upgrade'', ''websocket'')"
  "read_header ''Connection: Upgrade'' = Some (''Connection'', ''Upgrade'')"
  "read_header ''Sec-WebSocket-Version: 13'' = Some (''Sec-WebSocket-Version'', ''13'')" "read_header [] = None"
  using header_read [of "''Upgrade''" "''websocket''"] header_read [of "''Connection''" "''Upgrade''"]
    header_read [of "''Sec-WebSocket-Version''" "''13''"]
  by (simp_all add: read_header_def graphic_def) (simp add: split_once_def)

lemma read_header_key:
  assumes "\<forall>c \<in> set v. graphic c" and "v \<noteq> []"
  shows "read_header (''Sec-WebSocket-Key: '' @ v) = Some (''Sec-WebSocket-Key'', v)"
    "read_header (''Sec-WebSocket-Accept: '' @ v) = Some (''Sec-WebSocket-Accept'', v)"
  using header_read [of "''Sec-WebSocket-Key''" v] header_read [of "''Sec-WebSocket-Accept''" v] graphic_ends [OF assms] assms(2)
  by (simp_all add: read_header_def) (simp_all add: graphic_def)

lemma read_header_host: "\<exists>h. read_header (''Host: '' @ host) = Some (''Host'', h)"
proof -
  have "split_once (''Host: '' @ host) (CHR '':'') = Some (''Host'', CHR '' '' # host)"
    using split_once_first [of "CHR '':''" "''Host''" "CHR '' '' # host"] by simp
  moreover have "str_trim ''Host'' = ''Host''" by (rule trim_graphic) (simp_all add: graphic_def)
  ultimately show ?thesis by (simp add: read_header_def)
qed

lemma header_name_cases:
  "eq_ignore_ascii_case ''Upgrade'' ''upgrade''" "eq_ignore_ascii_case ''Connection'' ''connection''"
  "eq_ignore_ascii_case ''Sec-WebSocket-Version'' ''sec-websocket-version''" "eq_ignore_ascii_case ''websocket'' ''websocket''"
  "eq_ignore_ascii_case ''Sec-WebSocket-Key'' ''sec-websocket-key''" "\<not> eq_ignore_ascii_case ''Host'' ''sec-websocket-key''"
  "\<not> eq_ignore_ascii_case ''Upgrade'' ''sec-websocket-key''" "\<not> eq_ignore_ascii_case ''Connection'' ''sec-websocket-key''"
  "eq_ignore_ascii_case ''Sec-WebSocket-Accept'' ''sec-websocket-accept''"
  "\<not> eq_ignore_ascii_case ''Upgrade'' ''sec-websocket-accept''" "\<not> eq_ignore_ascii_case ''Connection'' ''sec-websocket-accept''"
  by code_simp+

lemma header_names_single:
  assumes "(nm, val) \<in> set headers" and "eq_ignore_ascii_case nm hdr" and "eq_ignore_ascii_case val token"
    and "CHR '','' \<notin> set val" and "graphic (hd val)" and "graphic (last val)" and "val \<noteq> []"
  shows "header_names headers hdr token"
  using assms trim_graphic(1) [OF assms(5-7)]
  by (auto simp: header_names_def list_ex_iff split_str_none intro!: bexI [of _ "(nm, val)"])

lemma response_agrees: "parse_response (ws_response other) key = Inr () \<longleftrightarrow> accept_key other = accept_key key"
proof -
  let ?st = "''HTTP/1.1 101 Switching Protocols''" and ?acc = "''Sec-WebSocket-Accept: '' @ accept_key other"
  have nocr: "CR \<notin> set ?st" "CR \<notin> set ?acc" "CR \<notin> set ''Upgrade: websocket''" "CR \<notin> set ''Connection: Upgrade''"
    using graphic_no_CR [OF accept_key_graphic] by simp_all
  have "ws_response other = ?st @ CRLF @ ''Upgrade: websocket'' @ CRLF @ ''Connection: Upgrade'' @ CRLF @ ?acc @ CRLF @ CRLF @ []"
    by (simp add: ws_response_def)
  moreover have "split_str CRLF [] (CRLF @ []) = [[], []]"
    using split_str_line [of "[]" "[]" "[]"] by (simp add: split_str_end)
  ultimately have ls: "split_str CRLF [] (ws_response other) = [?st, ''Upgrade: websocket'', ''Connection: Upgrade'', ?acc, [], []]"
    by (simp only: split_str_line [OF nocr(1)] split_str_line [OF nocr(2)] split_str_line [OF nocr(3)]
        split_str_line [OF nocr(4)] append_Nil)
  have "split_whitespace ?st = ''HTTP/1.1'' # ''101'' # split_whitespace ''Switching Protocols''"
    using split_whitespace_first [of "''HTTP/1.1''" "''101 Switching Protocols''"]
      split_whitespace_first [of "''101''" "''Switching Protocols''"] by (simp add: graphic_def)
  moreover have "parse_u16 ''101'' = Some 101" by (simp add: parse_u16_def is_ascii_digit_def digit_val_def)
  ultimately have st: "(if 1 < length (split_whitespace ?st) then parse_u16 (split_whitespace ?st ! 1) else None) = Some 101" by simp
  have trimmed: "list_ex (\<lambda>(nm, val). eq_ignore_ascii_case (str_trim nm) ''sec-websocket-accept'' \<and> str_trim val = x)
        (List.map_filter (\<lambda>line. split_once line (CHR '':'')) rest) \<longleftrightarrow>
      list_ex (\<lambda>(nm, val). eq_ignore_ascii_case nm ''sec-websocket-accept'' \<and> val = x) (List.map_filter read_header rest)" for x rest
    unfolding read_headers [symmetric] by (induction rest) (auto simp: List.map_filter_def)
  have "List.map_filter read_header [''Upgrade: websocket'', ''Connection: Upgrade'', ?acc, [], []] =
      [(''Upgrade'', ''websocket''), (''Connection'', ''Upgrade''), (''Sec-WebSocket-Accept'', accept_key other)]"
    by (simp only: map_filter_Cons map_filter_Nil read_header_fields read_header_key(2) [OF accept_key_graphic accept_key_ne]
        option.case)
  then show ?thesis
    unfolding parse_response_def ls Let_def list.case list.sel st trimmed by (simp add: header_name_cases)
qed

lemma request_read:
  assumes "CR \<notin> set path" and "CR \<notin> set host" and "\<forall>c \<in> set key. graphic c" and "key \<noteq> []"
  shows "parse_request (ws_request path host key) = Inr key"
proof -
  let ?get = "''GET '' @ path @ '' HTTP/1.1''" and ?host = "''Host: '' @ host"
  let ?key = "''Sec-WebSocket-Key: '' @ key"
  have kr: "CR \<notin> set key" "graphic (hd key)" "graphic (last key)"
    using graphic_no_CR [OF assms(3)] graphic_ends [OF assms(3,4)] by simp_all
  have nocr: "CR \<notin> set ?get" "CR \<notin> set ?host" "CR \<notin> set ?key" "CR \<notin> set ''Upgrade: websocket''"
    "CR \<notin> set ''Connection: Upgrade''" "CR \<notin> set ''Sec-WebSocket-Version: 13''" "CR \<notin> set ([] :: bytes)"
    using assms kr by simp_all
  have "ws_request path host key = ?get @ CRLF @ ?host @ CRLF @ ''Upgrade: websocket'' @ CRLF @ ''Connection: Upgrade'' @ CRLF @
      ?key @ CRLF @ ''Sec-WebSocket-Version: 13'' @ CRLF @ [] @ CRLF @ []"
    by (simp add: ws_request_def)
  moreover have "split_str CRLF [] (CRLF @ []) = [[], []]"
    using split_str_line [of "[]" "[]" "[]"] by (simp add: split_str_end)
  ultimately have ls: "split_str CRLF [] (ws_request path host key) =
      [?get, ?host, ''Upgrade: websocket'', ''Connection: Upgrade'', ?key, ''Sec-WebSocket-Version: 13'', [], []]"
    by (simp only: split_str_line [OF nocr(1)] split_str_line [OF nocr(2)] split_str_line [OF nocr(3)]
        split_str_line [OF nocr(4)] split_str_line [OF nocr(5)] split_str_line [OF nocr(6)] append_Nil)
  have get: "split_whitespace ?get = ''GET'' # split_whitespace (path @ '' HTTP/1.1'')"
    using split_whitespace_first [of "''GET''" "path @ '' HTTP/1.1''"] by (simp add: graphic_def)
  obtain h where h: "read_header ?host = Some (''Host'', h)" using read_header_host by blast
  let ?hs = "[(''Host'', h), (''Upgrade'', ''websocket''), (''Connection'', ''Upgrade''), (''Sec-WebSocket-Key'', key),
      (''Sec-WebSocket-Version'', ''13'')]"
  have hs: "List.map_filter read_header [?host, ''Upgrade: websocket'', ''Connection: Upgrade'', ?key,
      ''Sec-WebSocket-Version: 13'', [], []] = ?hs"
    by (simp only: map_filter_Cons map_filter_Nil h read_header_fields read_header_key(1) [OF assms(3,4)] option.case)
  have "header_names ?hs ''upgrade'' ''websocket''"
    by (rule header_names_single [where nm = "''Upgrade''" and val = "''websocket''"]) (simp_all add: header_name_cases graphic_def)
  moreover have "header_names ?hs ''connection'' ''upgrade''"
    by (rule header_names_single [where nm = "''Connection''" and val = "''Upgrade''"]) (simp_all add: header_name_cases graphic_def)
  moreover have "header_names ?hs ''sec-websocket-version'' ''13''"
    by (rule header_names_single [where nm = "''Sec-WebSocket-Version''" and val = "''13''"]) (simp_all add: header_name_cases graphic_def)
  moreover have "find (\<lambda>(nm, val). eq_ignore_ascii_case nm ''sec-websocket-key'') ?hs = Some (''Sec-WebSocket-Key'', key)"
    by (simp add: header_name_cases)
  ultimately show ?thesis
    unfolding parse_request_def ls Let_def list.case read_headers hs get by simp
qed

section \<open>Padding\<close>

lemma chunks_exact_Cons: "0 < n \<Longrightarrow> n \<le> length xs \<Longrightarrow> chunks_exact n xs = take n xs # chunks_exact n (drop n xs)"
  by (subst chunks_exact.simps) simp

lemma chunks_exact_short: "length xs < n \<Longrightarrow> chunks_exact n xs = []"
  by (subst chunks_exact.simps) simp

text \<open>What the standard prescribes: the message, one bit, zeros, and the length in 64 bits.\<close>

definition sha_padding :: "nat \<Rightarrow> bytes" where
  "sha_padding n = CHR 0x80 # replicate ((119 - n mod 64) mod 64) (CHR 0x00) @ to_be 8 (n * 8)"

lemma chunks_exact_append:
  assumes "0 < n" and "n dvd length xs"
  shows "chunks_exact n (xs @ ys) = chunks_exact n xs @ chunks_exact n ys"
  using assms(2)
proof (induction "length xs" arbitrary: xs rule: less_induct)
  case less
  show ?case
  proof (cases "xs = []")
    case True
    then show ?thesis using assms(1) by (simp add: chunks_exact_short)
  next
    case False
    with less.prems have le: "n \<le> length xs" by (simp add: dvd_imp_le)
    have "n dvd length (drop n xs)" using less.prems le by (simp add: dvd_diff_nat)
    with less.hyps [of "drop n xs"] False assms(1) have
      IH: "chunks_exact n (drop n xs @ ys) = chunks_exact n (drop n xs) @ chunks_exact n ys" by simp
    show ?thesis using le assms(1) IH by (simp add: chunks_exact_Cons)
  qed
qed

lemma remainder_split:
  assumes "0 < n"
  shows "\<exists>whole. xs = whole @ remainder n xs \<and> n dvd length whole \<and> chunks_exact n xs = chunks_exact n whole \<and>
    length (remainder n xs) = length xs mod n"
proof -
  let ?k = "n * (length xs div n)"
  let ?w = "take ?k xs"
  have le: "?k \<le> length xs" by simp
  have xs: "xs = ?w @ remainder n xs" by (simp add: remainder_def)
  have len: "length (remainder n xs) = length xs mod n" by (simp add: remainder_def minus_mult_div_eq_mod)
  have "length ?w = ?k" using le by simp
  then have dvd: "n dvd length ?w" by simp
  have "chunks_exact n (?w @ remainder n xs) = chunks_exact n ?w @ chunks_exact n (remainder n xs)"
    by (rule chunks_exact_append [OF assms dvd])
  moreover have "chunks_exact n (remainder n xs) = []" using len assms by (simp add: chunks_exact_short)
  ultimately have "chunks_exact n xs = chunks_exact n ?w" using xs by simp
  with xs dvd len show ?thesis by blast
qed

lemma pad_zeros: "(m :: nat) < 64 \<Longrightarrow> (119 - m) mod 64 = (if m \<le> 55 then 55 - m else 119 - m)"
proof (cases "m \<le> 55")
  case True
  then have "119 - m = 64 + (55 - m)" by simp
  then have "(119 - m) mod 64 = (55 - m) mod 64" by (simp only: mod_add_self1)
  with True show ?thesis by simp
qed simp

lemma tail_is_padding:
  assumes "length rest < 64" and "length rest = n mod 64"
  defines "tl_len \<equiv> (if length rest + 9 \<le> 64 then 64 else 128 :: nat)"
  shows "take tl_len (copy_at ((copy_at (replicate 128 (CHR 0x00)) 0 rest)[length rest := CHR 0x80]) (tl_len - 8)
      (to_be 8 (n * 8))) = rest @ sha_padding n"
proof -
  let ?r = "length rest"
  have "replicate (128 - ?r) (CHR 0x00) = CHR 0x00 # replicate (127 - ?r) (CHR 0x00)"
    using assms(1) by (simp add: Suc_diff_le flip: replicate_Suc)
  then have 1: "(copy_at (replicate 128 (CHR 0x00)) 0 rest)[?r := CHR 0x80] =
      rest @ CHR 0x80 # replicate (127 - ?r) (CHR 0x00)"
    unfolding copy_at_def by (simp only: take_0 append_Nil add_0 drop_replicate) (simp add: list_update_append)
  have z: "(119 - n mod 64) mod 64 = tl_len - ?r - 9"
    using pad_zeros [OF assms(1)] by (simp add: tl_len_def flip: assms(2))
  have tk: "take (tl_len - 8) (rest @ CHR 0x80 # replicate (127 - ?r) (CHR 0x00)) =
      rest @ CHR 0x80 # replicate (tl_len - ?r - 9) (CHR 0x00)"
    using assms(1) by (auto simp: tl_len_def take_Cons' min_def)
  let ?X = "rest @ CHR 0x80 # replicate (tl_len - ?r - 9) (CHR 0x00) @ to_be 8 (n * 8)"
  have "length ?X = tl_len" using assms(1) by (auto simp: tl_len_def)
  then have "take tl_len (?X @ y) = ?X" for y by (metis append_eq_conv_conj)
  then show ?thesis unfolding 1 copy_at_def [of "rest @ _"] tk sha_padding_def z by simp
qed

section \<open>Properties\<close>

text \<open>
  The digest is SHA-1 over the padded message: hashing the whole blocks as
  they come and then a separate tail of one or two blocks gives the same as cutting the
  message followed by the padding of the standard (a one bit, the fewest zeros, the length in
  bits) into blocks and compressing them in order, for a message of any length.
\<close>

lemma sha1_padded:
  "sha1 msg = sha_output (foldl compress sha_init (chunks_exact 64 (msg @ sha_padding (length msg)))) \<and>
   (length msg + length (sha_padding (length msg))) mod 64 = 0"
proof
  let ?n = "length msg"
  obtain whole where w: "msg = whole @ remainder 64 msg" "64 dvd length whole" "chunks_exact 64 msg = chunks_exact 64 whole"
    "length (remainder 64 msg) = ?n mod 64" using remainder_split [of 64 msg] by auto
  have r: "length (remainder 64 msg) < 64" by (simp add: w(4))
  have "sha1 msg = sha_output (foldl compress (foldl compress sha_init (chunks_exact 64 whole))
      (chunks_exact 64 (remainder 64 msg @ sha_padding ?n)))"
    unfolding sha1_def Let_def w(3) tail_is_padding [OF r w(4)] ..
  also have "\<dots> = sha_output (foldl compress sha_init (chunks_exact 64 (whole @ remainder 64 msg @ sha_padding ?n)))"
    by (simp add: chunks_exact_append [OF _ w(2)])
  finally show "sha1 msg = sha_output (foldl compress sha_init (chunks_exact 64 (msg @ sha_padding ?n)))"
    using w(1) by (metis append_assoc)
  let ?z = "(119 - ?n mod 64) mod 64"
  have "?n mod 64 < 64" by simp
  from pad_zeros [OF this] this have "?n mod 64 + (9 + ?z) = 64 \<or> ?n mod 64 + (9 + ?z) = 128" by auto
  then have "(?n mod 64 + (9 + ?z)) mod 64 = 0"
  proof
    assume e: "?n mod 64 + (9 + ?z) = 64"
    show ?thesis unfolding e by simp
  next
    assume e: "?n mod 64 + (9 + ?z) = 128"
    show ?thesis unfolding e by simp
  qed
  then have "(?n + (9 + ?z)) mod 64 = 0" by (simp only: mod_add_left_eq)
  then show "(?n + length (sha_padding ?n)) mod 64 = 0" by (simp add: sha_padding_def)
qed

text \<open>
  The opening exchange agrees with itself: the request a client writes is one
  a server accepts, with exactly the client's key, whatever the path and host as long as they
  are on one line; and the response a server writes for a key is accepted by a client exactly
  when the accept key it carries is the one that client expects.
\<close>

lemma handshake_agrees:
  assumes "CR \<notin> set path" and "CR \<notin> set host" and "\<forall>c \<in> set key. graphic c" and "key \<noteq> []"
  shows "parse_request (ws_request path host key) = Inr key \<and>
    (parse_response (ws_response other) key = Inr () \<longleftrightarrow> accept_key other = accept_key key)"
  by (simp add: request_read [OF assms] response_agrees)

end
