(* ===== verification/WsConnect.thy ===== *)
theory WsConnect
  imports WsHandshake
begin

text \<open>
  \<^verbatim>\<open>vortice-ws/src/client.rs\<close>, \<^verbatim>\<open>server.rs\<close> and \<open>read_head\<close> of \<^verbatim>\<open>handshake.rs\<close>: the opening exchange over a
  transport, up to the stream that is handed to a session. An awaited call answers when the
  transport does: an answer that nothing is ready is waited out, and a script that runs out
  before the call can finish is a call that never returns (None).
\<close>

section \<open>Awaiting the transport\<close>

fun read_head :: "bytes \<Rightarrow> read_answer list \<Rightarrow> (read_answer list \<times> (ws_error + bytes \<times> bytes)) option" where
  "read_head buffer reads =
     (case find_blank_line buffer of
        Some fin \<Rightarrow>
          Some (reads, if utf8_valid (take fin buffer) then Inr (take fin buffer, drop fin buffer)
                       else Inl (WsHandshakeError ''the handshake head is not text''))
      | None \<Rightarrow>
          if length buffer > MAX_HEAD then Some (reads, Inl (WsHandshakeError ''no blank line ending the handshake head''))
          else (case reads of
                  [] \<Rightarrow> None
                | ReadPending # rs \<Rightarrow> read_head buffer rs
                | ReadFailed # rs \<Rightarrow> Some (rs, Inl (WsIo TransportFailed))
                | ReadSome chunk # rs \<Rightarrow>
                    if chunk = []
                    then Some (rs, Inl (WsHandshakeError ''the connection closed before the handshake head was complete''))
                    else read_head (buffer @ chunk) rs))"

declare read_head.simps [simp del]

fun write_all :: "write_answer list \<Rightarrow> bytes \<Rightarrow> bytes \<Rightarrow> ((write_answer list \<times> bytes) \<times> (io_error + unit)) option" where
  "write_all ws [] sent = Some ((ws, sent), Inr ())"
| "write_all [] buf sent = None"
| "write_all (w # ws) buf sent =
     (case w of
        WritePending \<Rightarrow> write_all ws buf sent
      | WriteFailed \<Rightarrow> Some ((ws, sent), Inl TransportFailed)
      | Wrote n \<Rightarrow>
          if n = 0 then Some ((ws, sent), Inl WriteZero)
          else write_all ws (drop n buf) (sent @ take n buf))"

fun peek :: "nat \<Rightarrow> bytes \<Rightarrow> read_answer list \<Rightarrow> (read_answer list \<times> (io_error + bytes)) option" where
  "peek want seen reads =
     (if \<not> length seen < want then Some (reads, Inr seen)
      else case reads of
             [] \<Rightarrow> None
           | ReadPending # rs \<Rightarrow> peek want seen rs
           | ReadFailed # rs \<Rightarrow> Some (rs, Inl TransportFailed)
           | ReadSome chunk # rs \<Rightarrow> if chunk = [] then Some (rs, Inr seen) else peek want (seen @ chunk) rs)"

declare peek.simps [simp del]

section \<open>Opening\<close>

text \<open>Writing a head and flushing it; \<open>flushed\<close> is what the transport answers to the flush.\<close>

definition send_head :: "bytes \<Rightarrow> io_error + unit \<Rightarrow> transport \<Rightarrow> (transport \<times> (ws_error + unit)) option" where
  "send_head head flushed io =
     map_option (\<lambda>((ws, sent), r).
        (io\<lparr>tr_writes := ws, tr_sent := sent\<rparr>,
         case r of Inl e \<Rightarrow> Inl (WsIo e) | Inr _ \<Rightarrow> (case flushed of Inl e \<Rightarrow> Inl (WsIo e) | Inr _ \<Rightarrow> Inr ())))
       (write_all (tr_writes io) head (tr_sent io))"

definition receive_head :: "bytes \<Rightarrow> transport \<Rightarrow> (transport \<times> (ws_error + bytes \<times> bytes)) option" where
  "receive_head seed io = map_option (\<lambda>(rs, r). (io\<lparr>tr_reads := rs\<rparr>, r)) (read_head seed (tr_reads io))"

definition accept_with_seed :: "transport \<Rightarrow> bytes \<Rightarrow> io_error + unit \<Rightarrow> (ws_error + ws_stream) option" where
  "accept_with_seed io seed flushed =
     (case receive_head seed io of
        None \<Rightarrow> None
      | Some (_, Inl e) \<Rightarrow> Some (Inl e)
      | Some (io, Inr (head, leftover)) \<Rightarrow>
          (case parse_request head of
             Inl e \<Rightarrow> Some (Inl e)
           | Inr key \<Rightarrow>
               (case send_head (ws_response key) flushed io of
                  None \<Rightarrow> None
                | Some (_, Inl e) \<Rightarrow> Some (Inl e)
                | Some (io, Inr _) \<Rightarrow> Some (Inr (ws_new io Server leftover)))))"

text \<open>\<open>rnd\<close> is what the system gives for the nonce.\<close>

definition connect_over :: "transport \<Rightarrow> bytes option \<Rightarrow> bytes \<Rightarrow> bytes \<Rightarrow> io_error + unit \<Rightarrow> (ws_error + ws_stream) option" where
  "connect_over io rnd host path flushed =
     (case client_key rnd of
        Inl e \<Rightarrow> Some (Inl e)
      | Inr key \<Rightarrow>
          (case send_head (ws_request path host key) flushed io of
             None \<Rightarrow> None
           | Some (_, Inl e) \<Rightarrow> Some (Inl e)
           | Some (io, Inr _) \<Rightarrow>
               (case receive_head [] io of
                  None \<Rightarrow> None
                | Some (_, Inl e) \<Rightarrow> Some (Inl e)
                | Some (io, Inr (head, leftover)) \<Rightarrow>
                    (case parse_response head key of
                       Inl e \<Rightarrow> Some (Inl e)
                     | Inr _ \<Rightarrow> Some (Inr (ws_new io Client leftover))))))"

text \<open>What a connection on a shared port turns out to be: the octets read so far stay in front.\<close>

datatype incoming = OverWebSocket ws_stream | PlainBeep bytes transport

definition serve_shared :: "transport \<Rightarrow> io_error + unit \<Rightarrow> (ws_error + incoming) option" where
  "serve_shared io flushed =
     (case peek 4 [] (tr_reads io) of
        None \<Rightarrow> None
      | Some (_, Inl e) \<Rightarrow> Some (Inl (WsIo e))
      | Some (rs, Inr seed) \<Rightarrow>
          let io = io\<lparr>tr_reads := rs\<rparr> in
          if starts_with seed ''GET '' then
            (case accept_with_seed io seed flushed of
               None \<Rightarrow> None
             | Some (Inl e) \<Rightarrow> Some (Inl e)
             | Some (Inr s) \<Rightarrow> Some (Inr (OverWebSocket s)))
          else Some (Inr (PlainBeep seed io)))"

section \<open>Heads\<close>

text \<open>A head ends at its first blank line.\<close>

abbreviation blank_line :: bytes where "blank_line \<equiv> CRLF @ CRLF"

definition one_head :: "bytes \<Rightarrow> bool" where
  "one_head h \<longleftrightarrow> (\<exists>x. h = x @ blank_line) \<and> (\<forall>a b. h = a @ blank_line @ b \<longrightarrow> b = [])"

definition head_of :: "bytes list \<Rightarrow> bytes" where
  "head_of ls = concat (map (\<lambda>l. l @ CRLF) ls) @ CRLF"

lemma head_of_blank:
  "\<forall>l \<in> set ls. l \<noteq> [] \<and> CR \<notin> set l \<Longrightarrow> head_of ls = a @ blank_line @ b \<Longrightarrow> b = []"
proof (induction ls arbitrary: a)
  case Nil
  then have "length CRLF = length (a @ blank_line @ b)" by (simp add: head_of_def)
  then show ?case by simp
next
  case (Cons l ls)
  have eq: "l @ CRLF @ head_of ls = a @ blank_line @ b" using Cons.prems(2) by (simp add: head_of_def)
  moreover have "CR \<notin> set l" using Cons.prems(1) by simp
  ultimately have "length l \<le> length a" using no_earlier_CR [of l "CRLF @ head_of ls" a "LF # CRLF @ b"] by simp
  then obtain a' where a: "a = l @ a'" "CRLF @ head_of ls = a' @ blank_line @ b"
    using eq by (auto simp: append_eq_append_conv2)
  show ?case
  proof (cases a')
    case Nil
    with a have h: "head_of ls = CRLF @ b" by simp
    show ?thesis
    proof (cases ls)
      case Nil
      with h show ?thesis by (simp add: head_of_def)
    next
      case (Cons l' ls')
      with h Cons.prems(1) show ?thesis by (cases l') (auto simp: head_of_def)
    qed
  next
    case (Cons c a'')
    with a(2) have "LF # head_of ls = a'' @ blank_line @ b" by simp
    then obtain a''' where "a'' = LF # a'''" "head_of ls = a''' @ blank_line @ b" by (cases a'') auto
    with Cons.IH Cons.prems(1) show ?thesis by auto
  qed
qed

lemma one_head_of: "\<forall>l \<in> set ls. l \<noteq> [] \<and> CR \<notin> set l \<Longrightarrow> ls \<noteq> [] \<Longrightarrow> one_head (head_of ls)"
proof -
  assume ls: "\<forall>l \<in> set ls. l \<noteq> [] \<and> CR \<notin> set l" "ls \<noteq> []"
  then obtain ls' l where "ls = ls' @ [l]" by (cases ls rule: rev_cases) auto
  then have "head_of ls = (concat (map (\<lambda>l. l @ CRLF) ls') @ l) @ blank_line" by (simp add: head_of_def)
  with head_of_blank [OF ls(1)] show ?thesis unfolding one_head_def by blast
qed

lemma head_occurrence:
  assumes "one_head h" and "h @ rest = a @ blank_line @ b" shows "length h \<le> length a + 4"
proof (rule ccontr)
  assume "\<not> length h \<le> length a + 4"
  then have "take (length h) ((a @ blank_line) @ b) = (a @ blank_line) @ take (length h - length (a @ blank_line)) b"
    unfolding take_append by simp
  then have "take (length h) (a @ blank_line @ b) = a @ blank_line @ take (length h - length a - 4) b"
    by (simp add: eval_nat_numeral)
  then have "h = a @ blank_line @ take (length h - length a - 4) b" using assms(2) by (metis append_eq_conv_conj)
  with assms(1) have "take (length h - length a - 4) b = []" unfolding one_head_def by blast
  then have "length (a @ blank_line @ b) \<le> length a + 4" using \<open>\<not> length h \<le> length a + 4\<close> by auto
  then have "length (h @ rest) \<le> length a + 4" by (simp only: assms(2))
  with \<open>\<not> length h \<le> length a + 4\<close> show False by simp
qed

lemma find_blank_head:
  assumes "one_head h" and "buffer @ later = h @ rest"
  shows "find_blank_line buffer = (if length h \<le> length buffer then Some (length h) else None)"
proof (cases "find_subslice buffer blank_line")
  case None
  obtain x where x: "h = x @ blank_line" using assms(1) by (auto simp: one_head_def)
  have "\<not> length h \<le> length buffer"
  proof
    assume "length h \<le> length buffer"
    then have "buffer = h @ drop (length h) buffer" using assms(2) by (metis append_eq_append_conv_if append_take_drop_id)
    with find_subslice_None [OF None, of x] x show False by (metis append_assoc)
  qed
  with None show ?thesis by (simp add: find_blank_line_def)
next
  case (Some i)
  note f = find_subslice_Some [OF this]
  then have "h @ rest = take i buffer @ blank_line @ drop (i + 4) buffer @ later" using assms(2)
    by (metis append_assoc length_append length_Cons list.size(3) numeral_2_eq_2 numeral_Bit0 add_Suc_right add_0_right plus_nat.add_Suc plus_nat.add_0)
  from head_occurrence [OF assms(1) this] f have le: "length h \<le> i + 4" "i + 4 \<le> length buffer" by simp_all
  obtain x where x: "h = x @ blank_line" using assms(1) by (auto simp: one_head_def)
  have "buffer = h @ drop (length h) buffer" using assms(2) le
    by (metis append_eq_append_conv_if append_take_drop_id le_trans)
  with f x have "i \<le> length x" by (metis append_assoc)
  with x le Some show ?thesis by (simp add: find_blank_line_def)
qed

text \<open>A transport that keeps delivering: the octets it has still to hand over.\<close>

definition flowing :: "read_answer list \<Rightarrow> bool" where
  "flowing reads \<longleftrightarrow> (\<forall>r \<in> set reads. r \<noteq> ReadFailed \<and> r \<noteq> ReadSome [])"

definition octets_of :: "read_answer list \<Rightarrow> bytes" where
  "octets_of reads = concat (map read_octets reads)"

lemma flowing_Cons:
  "flowing (r # rs) \<longleftrightarrow> (r = ReadPending \<or> (\<exists>c. r = ReadSome c \<and> c \<noteq> [])) \<and> flowing rs"
  by (cases r) (auto simp: flowing_def)

lemma octets_of_simps [simp]:
  "octets_of [] = []" "octets_of (ReadPending # rs) = octets_of rs" "octets_of (ReadSome c # rs) = c @ octets_of rs"
  by (simp_all add: octets_of_def)

lemma read_head_pieces:
  assumes h: "one_head h" "utf8_valid h" "length h \<le> Suc MAX_HEAD"
  shows "flowing reads \<Longrightarrow> buffer @ octets_of reads = h @ rest \<Longrightarrow>
    \<exists>rs left. read_head buffer reads = Some (rs, Inr (h, left)) \<and> flowing rs \<and> left @ octets_of rs = rest"
proof (induction reads arbitrary: buffer)
  case Nil
  then have "buffer = h @ rest" by simp
  with find_blank_head [OF h(1), of buffer "[]"] h(2) show ?case by (simp add: read_head.simps flowing_def)
next
  case (Cons r reads)
  note fb = find_blank_head [OF h(1) Cons.prems(2)]
  show ?case
  proof (cases "length h \<le> length buffer")
    case True
    then have "take (length h) buffer = h" "drop (length h) buffer @ octets_of (r # reads) = rest"
      using Cons.prems(2) by (auto simp: append_eq_append_conv_if split: if_splits)
    with True fb h(2) Cons.prems(1) show ?thesis by (subst read_head.simps) simp
  next
    case False
    with h(3) have "\<not> length buffer > MAX_HEAD" by simp
    with False fb Cons show ?thesis
      by (subst read_head.simps) (auto simp: flowing_Cons)
  qed
qed

text \<open>A transport that takes octets as they are given to it.\<close>

fun room :: "write_answer \<Rightarrow> nat" where
  "room (Wrote n) = n"
| "room _ = 0"

definition takes :: "nat \<Rightarrow> write_answer list \<Rightarrow> bool" where
  "takes n ws \<longleftrightarrow> (\<forall>w \<in> set ws. w \<noteq> WriteFailed \<and> w \<noteq> Wrote 0) \<and> n \<le> sum_list (map room ws)"

lemma write_all_takes: "takes (length buf) ws \<Longrightarrow> \<exists>ws'. write_all ws buf sent = Some ((ws', sent @ buf), Inr ())"
proof (induction ws buf sent rule: write_all.induct)
  case (3 w ws b buf sent)
  show ?case
  proof (cases w)
    case (Wrote n)
    with 3(3) have "n \<noteq> 0" "takes (length (drop n (b # buf))) ws" by (auto simp: takes_def)
    have "\<exists>ws'. write_all ws (drop n (b # buf)) (sent @ take n (b # buf)) =
        Some ((ws', (sent @ take n (b # buf)) @ drop n (b # buf)), Inr ())"
      by (rule 3(1) [OF Wrote]) fact+
    with Wrote \<open>n \<noteq> 0\<close> show ?thesis by (simp del: take_Cons drop_Cons)
  qed (use 3 in \<open>auto simp: takes_def\<close>)
qed (auto simp: takes_def)

section \<open>Both ends\<close>

lemma request_head:
  assumes "CR \<notin> set path" and "CR \<notin> set host" and "\<forall>c \<in> set key. graphic c"
  shows "one_head (ws_request path host key)"
proof -
  have "ws_request path host key = head_of [''GET '' @ path @ '' HTTP/1.1'', ''Host: '' @ host, ''Upgrade: websocket'',
      ''Connection: Upgrade'', ''Sec-WebSocket-Key: '' @ key, ''Sec-WebSocket-Version: 13'']"
    by (simp add: ws_request_def head_of_def)
  then show ?thesis using assms(1,2) graphic_no_CR [OF assms(3)] by (simp only:) (rule one_head_of, auto)
qed

lemma response_head: "one_head (ws_response key)"
proof -
  have "ws_response key = head_of [''HTTP/1.1 101 Switching Protocols'', ''Upgrade: websocket'',
      ''Connection: Upgrade'', ''Sec-WebSocket-Accept: '' @ accept_key key]"
    by (simp add: ws_response_def head_of_def)
  then show ?thesis using graphic_no_CR [OF accept_key_graphic, of key] by (simp only:) (rule one_head_of, auto)
qed

lemma head_text:
  "utf8_valid path \<Longrightarrow> utf8_valid host \<Longrightarrow> \<forall>c \<in> set key. graphic c \<Longrightarrow> utf8_valid (ws_request path host key)"
  "utf8_valid (ws_response key)"
  using graphic_utf8 [OF accept_key_graphic, of key] graphic_utf8 [of key]
  by (simp_all add: ws_request_def ws_response_def utf8_valid_append octet_in_def)

lemma response_short: "length (ws_response key) \<le> Suc MAX_HEAD"
proof -
  have c: "chunks 3 xs = take 3 xs # chunks 3 (drop 3 xs)" if "3 \<le> length xs" for xs :: bytes
    using that by (intro chunks_Cons) auto
  have "length (b64_encode x) \<le> 28" if "length x = 20" for x
    using that by (auto simp: b64_encode_def c chunks_Cons comp_def sum_list_triv)
  from this [OF sha1_length] have "length (accept_key key) \<le> 28" by (simp add: accept_key_def)
  then show ?thesis by (simp add: ws_response_def MAX_HEAD_def)
qed

lemma receive_head_pieces:
  assumes "one_head h" "utf8_valid h" "length h \<le> Suc MAX_HEAD" "flowing (tr_reads io)" "seed @ octets_of (tr_reads io) = h @ rest"
  obtains rs left where "receive_head seed io = Some (io\<lparr>tr_reads := rs\<rparr>, Inr (h, left))" "flowing rs" "left @ octets_of rs = rest"
  using read_head_pieces [OF assms] by (auto simp: receive_head_def)

lemma send_head_takes:
  assumes "takes (length head) (tr_writes io)"
  obtains ws where "send_head head (Inr ()) io = Some (io\<lparr>tr_writes := ws, tr_sent := tr_sent io @ head\<rparr>, Inr ())"
  using write_all_takes [OF assms, of "tr_sent io"] by (auto simp: send_head_def)

definition target_ok :: "bytes \<Rightarrow> bytes \<Rightarrow> bytes \<Rightarrow> bool" where
  "target_ok path host key \<longleftrightarrow> CR \<notin> set path \<and> CR \<notin> set host \<and> utf8_valid path \<and> utf8_valid host \<and>
     (\<forall>c \<in> set key. graphic c) \<and> key \<noteq> [] \<and> length (ws_request path host key) \<le> MAX_HEAD"

lemma accept_request:
  assumes "target_ok path host key" "flowing (tr_reads io)" "seed @ octets_of (tr_reads io) = ws_request path host key @ up"
    "takes (length (ws_response key)) (tr_writes io)"
  shows "\<exists>s. accept_with_seed io seed (Inr ()) = Some (Inr s) \<and> ws_side s = Server \<and> flowing (tr_reads (ws_io s)) \<and>
    tr_sent (ws_io s) = tr_sent io @ ws_response key \<and> ws_inbound s @ octets_of (tr_reads (ws_io s)) = up"
proof -
  have h: "one_head (ws_request path host key)" "utf8_valid (ws_request path host key)"
    "length (ws_request path host key) \<le> Suc MAX_HEAD"
    using assms(1) by (simp_all add: target_ok_def request_head head_text)
  obtain rs left where r: "receive_head seed io = Some (io\<lparr>tr_reads := rs\<rparr>, Inr (ws_request path host key, left))"
    "flowing rs" "left @ octets_of rs = up" by (rule receive_head_pieces [OF h assms(2,3)])
  have "takes (length (ws_response key)) (tr_writes (io\<lparr>tr_reads := rs\<rparr>))" using assms(4) by simp
  then obtain ws where "send_head (ws_response key) (Inr ()) (io\<lparr>tr_reads := rs\<rparr>) =
      Some (io\<lparr>tr_reads := rs, tr_writes := ws, tr_sent := tr_sent io @ ws_response key\<rparr>, Inr ())"
    by (rule send_head_takes) simp
  moreover have "parse_request (ws_request path host key) = Inr key"
    using assms(1) by (simp add: target_ok_def request_read)
  ultimately show ?thesis using r by (simp add: accept_with_seed_def ws_new_def)
qed

lemma connect_response:
  assumes "target_ok path host key" "client_key rnd = Inr key" "flowing (tr_reads io)"
    "octets_of (tr_reads io) = ws_response key @ down" "takes (length (ws_request path host key)) (tr_writes io)"
  shows "\<exists>c. connect_over io rnd host path (Inr ()) = Some (Inr c) \<and> ws_side c = Client \<and> flowing (tr_reads (ws_io c)) \<and>
    tr_sent (ws_io c) = tr_sent io @ ws_request path host key \<and> ws_inbound c @ octets_of (tr_reads (ws_io c)) = down"
proof -
  obtain ws where s: "send_head (ws_request path host key) (Inr ()) io =
      Some (io\<lparr>tr_writes := ws, tr_sent := tr_sent io @ ws_request path host key\<rparr>, Inr ())"
    using assms(5) by (rule send_head_takes)
  let ?io = "io\<lparr>tr_writes := ws, tr_sent := tr_sent io @ ws_request path host key\<rparr>"
  have "flowing (tr_reads ?io)" "[] @ octets_of (tr_reads ?io) = ws_response key @ down" using assms by simp_all
  from receive_head_pieces [OF response_head head_text(2) response_short this]
  obtain rs left where "receive_head [] ?io = Some (?io\<lparr>tr_reads := rs\<rparr>, Inr (ws_response key, left))"
    "flowing rs" "left @ octets_of rs = down" by blast
  moreover have "parse_response (ws_response key) key = Inr ()" by (simp add: response_agrees)
  ultimately show ?thesis using s assms(2) by (simp add: connect_over_def ws_new_def)
qed

lemma peek_pieces:
  "flowing reads \<Longrightarrow> want \<le> length (seen @ octets_of reads) \<Longrightarrow>
     \<exists>rs seed. peek want seen reads = Some (rs, Inr seed) \<and> flowing rs \<and> seed @ octets_of rs = seen @ octets_of reads \<and>
       want \<le> length seed"
proof (induction reads arbitrary: seen)
  case (Cons r reads)
  show ?case
  proof (cases "length seen < want")
    case True
    with Cons.prems have "r = ReadPending \<or> (\<exists>c. r = ReadSome c \<and> c \<noteq> [])" "flowing reads" by (simp_all add: flowing_Cons)
    with True Cons.IH [of seen] Cons.IH [of "seen @ read_octets r"] Cons.prems(2) show ?thesis
      by (subst peek.simps) auto
  next
    case False
    then show ?thesis using Cons.prems by (subst peek.simps) auto
  qed
qed (subst peek.simps, simp)

lemma frame_opening: "\<not> starts_with (encode f [] @ rest) ''GET ''" "4 \<le> length (encode f [])"
proof -
  have "\<not> starts_with (as_str k @ '' '' @ xs) ''GET ''" "length (as_str k) = 3" for k xs
    by (cases k, simp_all add: starts_with_def)+
  then show "\<not> starts_with (encode f [] @ rest) ''GET ''" "4 \<le> length (encode f [])"
    by (cases f, simp_all add: encode_data_eq encode_seq_eq header_line_def seq_line_def starts_with_def)+
qed

lemma starts_with_long:
  assumes "a @ b = c @ d" and "length p \<le> length a" and "length p \<le> length c"
  shows "starts_with a p \<longleftrightarrow> starts_with c p"
proof -
  have "take (length p) a = take (length p) (a @ b)" "take (length p) c = take (length p) (c @ d)" using assms(2,3) by simp_all
  then have "take (length p) a = take (length p) c" using assms(1) by metis
  moreover have "starts_with s p \<longleftrightarrow> take (length p) s = p" for s
    unfolding starts_with_def ..
  ultimately show ?thesis by simp
qed

section \<open>Properties\<close>

text \<open>
  C21 (functional). A WebSocket opens end to end. When each end writes its head to a transport
  that takes it and reads the other's in whatever pieces and at whatever pace it arrives, both
  calls return a stream, the server's written octets are exactly the response to the client's
  key and the client's exactly its request, and neither loses an octet that follows the head:
  what the stream already holds and what the transport still has to deliver is what the peer
  sent after it.
\<close>

theorem ws_opened:
  assumes "client_key rnd = Inr key" and "target_ok path host key"
    and "flowing (tr_reads sio)" and "octets_of (tr_reads sio) = ws_request path host key @ up"
    and "takes (length (ws_response key)) (tr_writes sio)"
    and "flowing (tr_reads cio)" and "octets_of (tr_reads cio) = ws_response key @ down"
    and "takes (length (ws_request path host key)) (tr_writes cio)"
  shows "\<exists>s c. accept_with_seed sio [] (Inr ()) = Some (Inr s) \<and> connect_over cio rnd host path (Inr ()) = Some (Inr c) \<and>
    ws_side s = Server \<and> ws_side c = Client \<and>
    tr_sent (ws_io s) = tr_sent sio @ ws_response key \<and> tr_sent (ws_io c) = tr_sent cio @ ws_request path host key \<and>
    ws_inbound s @ octets_of (tr_reads (ws_io s)) = up \<and> ws_inbound c @ octets_of (tr_reads (ws_io c)) = down"
proof -
  have "[] @ octets_of (tr_reads sio) = ws_request path host key @ up" using assms(4) by simp
  from accept_request [OF assms(2,3) this assms(5)] connect_response [OF assms(2,1,6-8)] show ?thesis by blast
qed

definition sample_key :: bytes where "sample_key = b64_encode (replicate 16 (CHR ''x''))"

lemma sample_ok: "target_ok ''/'' ''h'' sample_key" "length (ws_request ''/'' ''h'' sample_key) \<le> 1000"
proof -
  have "length sample_key = 24" unfolding sample_key_def by code_simp
  then have len: "length (ws_request ''/'' ''h'' sample_key) \<le> 1000" "sample_key \<noteq> []" by (auto simp: ws_request_def)
  then show "target_ok ''/'' ''h'' sample_key"
    by (simp add: target_ok_def sample_key_def b64_graphic MAX_HEAD_def octet_in_def)
  show "length (ws_request ''/'' ''h'' sample_key) \<le> 1000" by (rule len)
qed

theorem ws_opened_witness:
  "\<exists>s c. accept_with_seed \<lparr>tr_keys = [], tr_writes = [WritePending, Wrote 20000],
       tr_reads = [ReadPending, ReadSome (ws_request ''/'' ''h'' sample_key @ ''ab''), ReadSome ''c''], tr_sent = []\<rparr> [] (Inr ()) =
       Some (Inr s) \<and>
     connect_over \<lparr>tr_keys = [], tr_writes = [Wrote 20000], tr_reads = [ReadSome (ws_response sample_key)], tr_sent = []\<rparr>
       (Some (replicate 16 (CHR ''x''))) ''h'' ''/'' (Inr ()) = Some (Inr c) \<and>
     ws_inbound s @ octets_of (tr_reads (ws_io s)) = ''abc''"
proof -
  have "length (ws_response sample_key) \<le> 20000" using response_short [of sample_key] by (simp add: MAX_HEAD_def)
  with sample_ok ws_opened [of "Some (replicate 16 (CHR ''x''))" sample_key "''/''" "''h''"
      "\<lparr>tr_keys = [], tr_writes = [WritePending, Wrote 20000],
       tr_reads = [ReadPending, ReadSome (ws_request ''/'' ''h'' sample_key @ ''ab''), ReadSome ''c''], tr_sent = []\<rparr>" "''abc''"
      "\<lparr>tr_keys = [], tr_writes = [Wrote 20000], tr_reads = [ReadSome (ws_response sample_key)], tr_sent = []\<rparr>" "[]"]
  show ?thesis by (auto simp: client_key_def sample_key_def takes_def flowing_def ws_response_def)
qed

text \<open>
  C22 (safety). Sharing a port is sound: a connection that opens with any BEEP frame is served as
  plain BEEP and one that opens with a WebSocket request is served as a WebSocket, however
  either arrives, and the octets read to tell them apart are not lost.
\<close>

theorem shared_port_sound:
  assumes "flowing (tr_reads io)" and "takes (length (ws_response key)) (tr_writes io)"
  shows "(octets_of (tr_reads io) = encode f [] @ rest \<longrightarrow>
      (\<exists>seed io'. serve_shared io (Inr ()) = Some (Inr (PlainBeep seed io')) \<and> tr_sent io' = tr_sent io \<and>
         seed @ octets_of (tr_reads io') = encode f [] @ rest)) \<and>
    (target_ok path host key \<and> octets_of (tr_reads io) = ws_request path host key @ rest \<longrightarrow>
      (\<exists>s. serve_shared io (Inr ()) = Some (Inr (OverWebSocket s)) \<and> ws_side s = Server \<and>
         tr_sent (ws_io s) = tr_sent io @ ws_response key \<and> ws_inbound s @ octets_of (tr_reads (ws_io s)) = rest))"
proof (intro conjI impI)
  assume o: "octets_of (tr_reads io) = encode f [] @ rest"
  then have "4 \<le> length ([] @ octets_of (tr_reads io))" using frame_opening(2) [of f] by simp
  from peek_pieces [OF assms(1) this] obtain rs seed where p: "peek 4 [] (tr_reads io) = Some (rs, Inr seed)"
    "seed @ octets_of rs = encode f [] @ rest" "4 \<le> length seed" unfolding o by auto
  have "\<not> starts_with seed ''GET ''"
    using starts_with_long [of seed "octets_of rs" "encode f [] @ rest" "[]" "''GET ''"] p frame_opening [of f] by simp
  with p show "\<exists>seed io'. serve_shared io (Inr ()) = Some (Inr (PlainBeep seed io')) \<and> tr_sent io' = tr_sent io \<and>
         seed @ octets_of (tr_reads io') = encode f [] @ rest"
    by (simp add: serve_shared_def)
next
  assume o: "target_ok path host key \<and> octets_of (tr_reads io) = ws_request path host key @ rest"
  then have "4 \<le> length ([] @ octets_of (tr_reads io))" by (simp add: ws_request_def)
  from peek_pieces [OF assms(1) this] obtain rs seed where p: "peek 4 [] (tr_reads io) = Some (rs, Inr seed)" "flowing rs"
    "seed @ octets_of rs = ws_request path host key @ rest" "4 \<le> length seed" using o by auto
  have "starts_with (ws_request path host key) ''GET ''" by (simp add: ws_request_def starts_with_def)
  then have get: "starts_with seed ''GET ''"
    using starts_with_long [of seed "octets_of rs" "ws_request path host key" rest "''GET ''"] p by (simp add: ws_request_def)
  have "flowing (tr_reads (io\<lparr>tr_reads := rs\<rparr>))" "takes (length (ws_response key)) (tr_writes (io\<lparr>tr_reads := rs\<rparr>))"
    "seed @ octets_of (tr_reads (io\<lparr>tr_reads := rs\<rparr>)) = ws_request path host key @ rest" using p assms(2) by simp_all
  with accept_request [of path host key "io\<lparr>tr_reads := rs\<rparr>" seed rest] o obtain s where
    "accept_with_seed (io\<lparr>tr_reads := rs\<rparr>) seed (Inr ()) = Some (Inr s)" "ws_side s = Server"
    "tr_sent (ws_io s) = tr_sent io @ ws_response key" "ws_inbound s @ octets_of (tr_reads (ws_io s)) = rest" by auto
  with p(1) get show "\<exists>s. serve_shared io (Inr ()) = Some (Inr (OverWebSocket s)) \<and> ws_side s = Server \<and>
         tr_sent (ws_io s) = tr_sent io @ ws_response key \<and> ws_inbound s @ octets_of (tr_reads (ws_io s)) = rest"
    by (simp add: serve_shared_def)
qed

theorem shared_port_sound_witness:
  "\<exists>seed io'. serve_shared \<lparr>tr_keys = [], tr_writes = [Wrote 20000], tr_reads = [ReadSome ''SE'', ReadSome (''Q 0 0 4096'' @ CRLF)],
       tr_sent = []\<rparr> (Inr ()) = Some (Inr (PlainBeep seed io')) \<and> seed @ octets_of (tr_reads io') = ''SEQ 0 0 4096'' @ CRLF"
proof -
  let ?io = "\<lparr>tr_keys = [], tr_writes = [Wrote 20000], tr_reads = [ReadSome ''SE'', ReadSome (''Q 0 0 4096'' @ CRLF)], tr_sent = []\<rparr>"
  let ?f = "SeqF \<lparr>sf_channel = 0, sf_ackno = 0, sf_window = 4096\<rparr>"
  have "length (ws_response sample_key) \<le> 20000" using response_short [of sample_key] by (simp add: MAX_HEAD_def)
  then have "flowing (tr_reads ?io)" "takes (length (ws_response sample_key)) (tr_writes ?io)"
    by (simp_all add: flowing_def takes_def)
  note sound = conjunct1 [OF shared_port_sound [OF this, of ?f "[]"]]
  have enc: "encode ?f [] @ [] = ''SEQ 0 0 4096'' @ CRLF" by (simp add: encode_seq_eq seq_line_def dec_eval)
  have "octets_of (tr_reads ?io) = ''SEQ 0 0 4096'' @ CRLF" by simp
  with sound show ?thesis unfolding enc by blast
qed

end
