(* ===== verification/Rewinds.thy ===== *)
theory Rewinds
  imports WsConnect
begin

text \<open>
  \<^verbatim>\<open>vortice/src/rewind.rs\<close>: octets read too early, put back in front of a transport. What is read
  from underneath is a parameter: \<open>inner\<close> is its \<open>poll_read\<close>, given how many octets the caller's
  buffer still takes. The laws an \<open>AsyncRead\<close> keeps are the locale \<open>byte_source\<close>, and a rewound
  source keeps them again, so a session cannot tell it from a transport it read from the start.
\<close>

section \<open>The stream\<close>

record 'io rewind =
  rw_prefix :: bytes
  rw_inner :: 'io

definition rewind_new :: "bytes \<Rightarrow> 'io \<Rightarrow> 'io rewind" where
  "rewind_new prefix inner = \<lparr>rw_prefix = prefix, rw_inner = inner\<rparr>"

definition has_prefix :: "'io rewind \<Rightarrow> bool" where
  "has_prefix r \<longleftrightarrow> rw_prefix r \<noteq> []"

definition into_inner :: "'io rewind \<Rightarrow> 'io" where
  "into_inner r = rw_inner r"

definition rewind_read :: "(nat \<Rightarrow> 'io \<Rightarrow> 'io \<times> bytes poll) \<Rightarrow> nat \<Rightarrow> 'io rewind \<Rightarrow> 'io rewind \<times> bytes poll" where
  "rewind_read inner remaining r =
     (if rw_prefix r \<noteq> [] then
        let n = min (length (rw_prefix r)) remaining
        in (r\<lparr>rw_prefix := drop n (rw_prefix r)\<rparr>, ReadyOk (take n (rw_prefix r)))
      else (case inner remaining (rw_inner r) of (io, answer) \<Rightarrow> (r\<lparr>rw_inner := io\<rparr>, answer)))"

text \<open>Writing, flushing and shutting down are those of the transport underneath.\<close>

definition rewind_write :: "(bytes \<Rightarrow> 'io \<Rightarrow> 'io \<times> nat poll) \<Rightarrow> bytes \<Rightarrow> 'io rewind \<Rightarrow> 'io rewind \<times> nat poll" where
  "rewind_write inner buf r = (case inner buf (rw_inner r) of (io, answer) \<Rightarrow> (r\<lparr>rw_inner := io\<rparr>, answer))"

definition rewind_flush :: "('io \<Rightarrow> 'io \<times> unit poll) \<Rightarrow> 'io rewind \<Rightarrow> 'io rewind \<times> unit poll" where
  "rewind_flush inner r = (case inner (rw_inner r) of (io, answer) \<Rightarrow> (r\<lparr>rw_inner := io\<rparr>, answer))"

definition rewind_shutdown :: "('io \<Rightarrow> 'io \<times> unit poll) \<Rightarrow> 'io rewind \<Rightarrow> 'io rewind \<times> unit poll" where
  "rewind_shutdown inner r = (case inner (rw_inner r) of (io, answer) \<Rightarrow> (r\<lparr>rw_inner := io\<rparr>, answer))"

section \<open>What a reader gets\<close>

text \<open>Reading with buffers of the sizes given, up to a failure: the octets got.\<close>

fun reads_into :: "(nat \<Rightarrow> 'io \<Rightarrow> 'io \<times> bytes poll) \<Rightarrow> nat list \<Rightarrow> 'io \<Rightarrow> 'io \<times> bytes" where
  "reads_into rd [] s = (s, [])"
| "reads_into rd (n # ns) s =
     (case rd n s of
        (s, ReadyOk c) \<Rightarrow> (case reads_into rd ns s of (s, later) \<Rightarrow> (s, c @ later))
      | (s, Pending) \<Rightarrow> reads_into rd ns s
      | (s, ReadyErr _) \<Rightarrow> (s, []))"

text \<open>
  The laws of a source: a buffer is not overrun, what is read is what comes next, nothing is lost
  when a read has to wait, and a read into a buffer with room that brings nothing is the end.
\<close>

locale byte_source =
  fixes rd :: "nat \<Rightarrow> 'io \<Rightarrow> 'io \<times> bytes poll" and coming :: "'io \<Rightarrow> bytes"
  assumes in_order: "rd n s = (s', ReadyOk c) \<Longrightarrow> coming s = c @ coming s' \<and> length c \<le> n"
    and waits: "rd n s = (s', Pending) \<Longrightarrow> coming s' = coming s"
    and at_end: "0 < n \<Longrightarrow> rd n s = (s', ReadyOk []) \<Longrightarrow> coming s = []"
begin

lemma reads_prefix: "reads_into rd ns s = (s', got) \<Longrightarrow> \<exists>lost. coming s = got @ lost"
proof (induction ns arbitrary: s got)
  case (Cons n ns)
  show ?case
  proof (cases "rd n s")
    case (Pair s1 answer)
    with Cons show ?thesis
      by (cases answer) (fastforce dest: in_order waits split: prod.splits)+
  qed
qed simp

lemma rewound: "byte_source (rewind_read rd) (\<lambda>r. rw_prefix r @ coming (rw_inner r))"
proof
  fix n r r' c assume r: "rewind_read rd n r = (r', ReadyOk c)"
  show "rw_prefix r @ coming (rw_inner r) = c @ rw_prefix r' @ coming (rw_inner r') \<and> length c \<le> n"
  proof (cases "rw_prefix r = []")
    case True
    with r show ?thesis by (auto simp: rewind_read_def dest: in_order split: prod.splits)
  next
    case False
    with r show ?thesis by (auto simp: rewind_read_def Let_def min_def)
  qed
next
  fix n r r' assume "rewind_read rd n r = (r', Pending)"
  then show "rw_prefix r' @ coming (rw_inner r') = rw_prefix r @ coming (rw_inner r)"
    by (auto simp: rewind_read_def Let_def dest: waits split: prod.splits if_splits)
next
  fix n r r' assume "0 < n" "rewind_read rd n r = (r', ReadyOk [])"
  then show "rw_prefix r @ coming (rw_inner r) = []"
    by (auto simp: rewind_read_def Let_def dest: at_end split: prod.splits if_splits)
qed

end

section \<open>A transport that answers from a script\<close>

text \<open>
  The transports of the opening exchanges answer from a script. Read into a buffer, an answer
  fills as much of it as it can and the rest of it stays to be read.
\<close>

fun script_read :: "nat \<Rightarrow> read_answer list \<Rightarrow> read_answer list \<times> bytes poll" where
  "script_read n [] = ([], Pending)"
| "script_read n (ReadPending # rs) = (rs, Pending)"
| "script_read n (ReadFailed # rs) = (rs, ReadyErr TransportFailed)"
| "script_read n (ReadSome c # rs) =
     (if c = [] then (ReadSome c # rs, ReadyOk [])
      else if length c \<le> n then (rs, ReadyOk c) else (ReadSome (drop n c) # rs, ReadyOk (take n c)))"

text \<open>After the end of the stream nothing comes; \<open>to_come\<close> reads the script up to there.\<close>

fun to_come :: "read_answer list \<Rightarrow> bytes" where
  "to_come [] = []"
| "to_come (ReadPending # rs) = to_come rs"
| "to_come (ReadFailed # rs) = []"
| "to_come (ReadSome c # rs) = (if c = [] then [] else c @ to_come rs)"

lemma to_come_flowing: "flowing rs \<Longrightarrow> to_come rs = octets_of rs"
  by (induction rs rule: to_come.induct) (auto simp: flowing_def)

interpretation script: byte_source script_read to_come
proof
  fix n s s' c assume "script_read n s = (s', ReadyOk c)"
  then show "to_come s = c @ to_come s' \<and> length c \<le> n"
    by (cases "(n, s)" rule: script_read.cases) (auto split: if_splits)
next
  fix n s s' assume "script_read n s = (s', Pending)"
  then show "to_come s' = to_come s" by (cases "(n, s)" rule: script_read.cases) (auto split: if_splits)
next
  fix n s s' assume "0 < n" "script_read n s = (s', ReadyOk [])"
  then show "to_come s = []" by (cases "(n, s)" rule: script_read.cases) (auto split: if_splits)
qed

interpretation rewound: byte_source "rewind_read script_read" "\<lambda>r. rw_prefix r @ to_come (rw_inner r)"
  by (rule script.rewound)

text \<open>
  Whatever the sizes of the buffers, what a reader of a rewound transport has got so far and what
  it has yet to get are the octets put back followed by those the transport had, each once.
\<close>

lemma rewind_transparent:
  assumes "ReadFailed \<notin> set io" and "reads_into (rewind_read script_read) ns (rewind_new early io) = (r, got)"
  shows "early @ to_come io = got @ rw_prefix r @ to_come (rw_inner r)"
proof -
  have ok: "ReadFailed \<notin> set (rw_inner r) \<Longrightarrow> rewind_read script_read n r = (r', a) \<Longrightarrow>
      ReadFailed \<notin> set (rw_inner r') \<and> (\<forall>e. a \<noteq> ReadyErr e)" for n r r' a
    by (cases "(n, rw_inner r)" rule: script_read.cases) (auto simp: rewind_read_def Let_def split: if_splits)
  have "ReadFailed \<notin> set (rw_inner t) \<Longrightarrow> reads_into (rewind_read script_read) ns t = (r, got) \<Longrightarrow>
      rw_prefix t @ to_come (rw_inner t) = got @ rw_prefix r @ to_come (rw_inner r)" for t ns
  proof (induction ns arbitrary: t got)
    case (Cons n ns)
    obtain t1 a where t1: "rewind_read script_read n t = (t1, a)" by (cases "rewind_read script_read n t")
    obtain r' later where "reads_into (rewind_read script_read) ns t1 = (r', later)" by (cases "reads_into (rewind_read script_read) ns t1")
    with Cons ok [OF Cons.prems(1) t1] t1 show ?case
      by (cases a) (auto dest: rewound.in_order rewound.waits)
  qed simp
  from this [of "rewind_new early io"] assms show ?thesis by (simp add: rewind_new_def)
qed

end
