(* ===== verification/HttpUpgrade.thy ===== *)
theory HttpUpgrade
  imports Rewinds Routing
begin

text \<open>
  \<^verbatim>\<open>vortice-http/src\<close>: BEEP behind an HTTP/1.1 upgrade. The client writes its request, reads the
  response's head and hands over a transport with what came after the head put back in front
  (\<^verbatim>\<open>client.rs\<close>); the server decides from the headers of a request and answers (\<^verbatim>\<open>server.rs\<close>).
  How an HTTP server reads a request and writes a response is \<open>hyper\<close>'s: \<open>get_all\<close> is what its
  header map yields for a name, each value as text where it is text.
\<close>

section \<open>The client\<close>

datatype http_error =
    HttpIo io_error
  | HttpSession driver_error
  | HttpNotUpgraded "nat option"
  | MalformedResponse string
  | WrongProtocol

definition UPGRADE_TOKEN :: bytes where "UPGRADE_TOKEN = ''BEEP''"
definition HTTP_MAX_HEAD :: nat where "HTTP_MAX_HEAD = 16 * 1024"

definition http_request :: "bytes \<Rightarrow> bytes \<Rightarrow> bytes" where
  "http_request path host =
     ''GET '' @ path @ '' HTTP/1.1'' @ CRLF @ ''Host: '' @ host @ CRLF @ ''Connection: Upgrade'' @ CRLF @
     ''Upgrade: '' @ UPGRADE_TOKEN @ CRLF @ CRLF"

definition http_find_blank_line :: "bytes \<Rightarrow> nat option" where
  "http_find_blank_line buffer = map_option (\<lambda>at. at + 4) (find_subslice buffer (CRLF @ CRLF))"

text \<open>Reading until a blank line: the octets read and where the head ends.\<close>

fun http_read_head :: "bytes \<Rightarrow> read_answer list \<Rightarrow> (read_answer list \<times> (http_error + bytes \<times> nat)) option" where
  "http_read_head head rs =
     (case http_find_blank_line head of
        Some at \<Rightarrow> Some (rs, Inr (head, at))
      | None \<Rightarrow>
          if length head > HTTP_MAX_HEAD then Some (rs, Inl (MalformedResponse ''no blank line ending the response head''))
          else (case rs of
                  [] \<Rightarrow> None
                | ReadPending # rs \<Rightarrow> http_read_head head rs
                | ReadFailed # rs \<Rightarrow> Some (rs, Inl (HttpIo TransportFailed))
                | ReadSome chunk # rs \<Rightarrow>
                    if chunk = []
                    then Some (rs, Inl (MalformedResponse ''connection closed before the response head was complete''))
                    else http_read_head (head @ chunk) rs))"

declare http_read_head.simps [simp del]

definition names_beep :: "bytes list \<Rightarrow> bool" where
  "names_beep ls =
     list_ex (\<lambda>(nm, val). eq_ignore_ascii_case (str_trim nm) ''upgrade'' \<and>
        list_ex (\<lambda>token. eq_ignore_ascii_case (str_trim token) UPGRADE_TOKEN) (split_str '','' [] val))
       (List.map_filter (\<lambda>line. split_once line (CHR '':'')) ls)"

definition http_parse_head :: "bytes \<Rightarrow> http_error + unit" where
  "http_parse_head head =
     (if \<not> utf8_valid head then Inl (MalformedResponse ''the response head is not text'')
      else case split_str CRLF [] head of
             [] \<Rightarrow> Inl (MalformedResponse ''empty response'')
           | status_line # ls \<Rightarrow>
               (let ws = split_whitespace status_line;
                    status = (if 1 < length ws then parse_u16 (ws ! 1) else None)
                in if status \<noteq> Some 101 then Inl (HttpNotUpgraded status)
                   else if \<not> names_beep ls then Inl WrongProtocol else Inr ()))"

definition read_switching_protocols :: "transport \<Rightarrow> (transport \<times> (http_error + bytes)) option" where
  "read_switching_protocols io =
     map_option (\<lambda>(rs, r). (io\<lparr>tr_reads := rs\<rparr>,
         case r of Inl e \<Rightarrow> Inl e
         | Inr (buffer, at) \<Rightarrow> bind_res (http_parse_head (take at buffer)) (\<lambda>_. Inr (drop at buffer))))
       (http_read_head [] (tr_reads io))"

text \<open>
  Up to the transport that the session is started on. \<open>flushed\<close> is what the transport answers to
  the flush after the request.
\<close>

definition http_connect :: "transport \<Rightarrow> bytes \<Rightarrow> bytes \<Rightarrow> io_error + unit \<Rightarrow> (http_error + transport rewind) option" where
  "http_connect io host path flushed =
     (case write_all (tr_writes io) (http_request path host) (tr_sent io) of
        None \<Rightarrow> None
      | Some (_, Inl e) \<Rightarrow> Some (Inl (HttpIo e))
      | Some ((ws, sent), Inr _) \<Rightarrow>
          (case flushed of
             Inl e \<Rightarrow> Some (Inl (HttpIo e))
           | Inr _ \<Rightarrow>
               (case read_switching_protocols (io\<lparr>tr_writes := ws, tr_sent := sent\<rparr>) of
                  None \<Rightarrow> None
                | Some (_, Inl e) \<Rightarrow> Some (Inl e)
                | Some (io, Inr leftover) \<Rightarrow> Some (Inr (rewind_new leftover io)))))"

section \<open>The server\<close>

type_synonym header_map = "bytes \<Rightarrow> bytes option list"

definition header_asks :: "header_map \<Rightarrow> bytes \<Rightarrow> bytes \<Rightarrow> bool" where
  "header_asks get_all nm wanted =
     list_ex (\<lambda>token. eq_ignore_ascii_case (str_trim token) wanted)
       (concat (map (split_str '','' []) (List.map_filter id (get_all nm))))"

definition is_beep_upgrade :: "header_map \<Rightarrow> bool" where
  "is_beep_upgrade get_all \<longleftrightarrow>
     header_asks get_all ''connection'' ''upgrade'' \<and> header_asks get_all ''upgrade'' UPGRADE_TOKEN"

record http_response =
  hr_status :: nat
  hr_headers :: "(bytes \<times> bytes) list"
  hr_body :: bytes

text \<open>
  \<open>from_request_parts\<close>, given whether the request can be upgraded (which only the first extractor
  finds); a request that is not one for BEEP leaves that as it was.
\<close>

definition from_request_parts :: "header_map \<Rightarrow> bool \<Rightarrow> bool \<times> (http_response + unit)" where
  "from_request_parts get_all upgradable =
     (if \<not> is_beep_upgrade get_all
      then (upgradable, Inl \<lparr>hr_status = 400, hr_headers = [], hr_body = ''expected Connection: Upgrade and Upgrade: BEEP''\<rparr>)
      else if \<not> upgradable
      then (False, Inl \<lparr>hr_status = 400, hr_headers = [], hr_body = ''this connection cannot be upgraded''\<rparr>)
      else (False, Inr ()))"

definition upgrade_response :: http_response where
  "upgrade_response = \<lparr>hr_status = 101, hr_headers = [(''connection'', ''upgrade''), (''upgrade'', UPGRADE_TOKEN)], hr_body = []\<rparr>"

text \<open>\<open>serve_upgraded\<close>: the session is served on what the upgrade yields, until it ends.\<close>

definition serve_upgraded :: "'e + 'io \<Rightarrow> ('io \<Rightarrow> driver_error + unit) \<Rightarrow> http_error + unit" where
  "serve_upgraded on_upgrade serve_io =
     (case on_upgrade of
        Inl _ \<Rightarrow> Inl (HttpIo TransportFailed)
      | Inr io \<Rightarrow> (case serve_io io of Inl e \<Rightarrow> Inl (HttpSession e) | Inr _ \<Rightarrow> Inr ()))"

section \<open>Heads\<close>

lemma split_head: "\<forall>l \<in> set ls. CR \<notin> set l \<Longrightarrow> split_str CRLF [] (head_of ls) = ls @ [[], []]"
proof (induction ls)
  case Nil
  have "split_str CRLF [] ([] @ CRLF @ []) = ([] @ []) # split_str CRLF [] []" by (rule split_str_line) simp
  then show ?case by (simp add: head_of_def split_str_end)
next
  case (Cons l ls)
  then have "split_str CRLF [] (l @ CRLF @ head_of ls) = ([] @ l) # split_str CRLF [] (head_of ls)"
    by (intro split_str_line) simp
  with Cons show ?case by (simp add: head_of_def)
qed

lemma http_read_head_eq:
  "read_head buffer rs = Some (rs', Inr (h, left)) \<Longrightarrow> \<exists>b. http_read_head buffer rs = Some (rs', Inr (b, length h)) \<and> b = h @ left"
proof (induction buffer rs rule: read_head.induct)
  case (1 buffer rs)
  have same: "http_find_blank_line b = find_blank_line b" "HTTP_MAX_HEAD = MAX_HEAD" for b
    by (simp_all add: http_find_blank_line_def find_blank_line_def HTTP_MAX_HEAD_def MAX_HEAD_def)
  show ?case
  proof (cases "find_blank_line buffer")
    case (Some fin)
    then obtain i where "find_subslice buffer (CRLF @ CRLF) = Some i" "fin = i + 4" by (auto simp: find_blank_line_def)
    with find_subslice_Some(1) [of buffer "CRLF @ CRLF" i] have "fin \<le> length buffer" by (auto dest: find_subslice_Some)
    with Some 1(3) show ?thesis
      by (subst http_read_head.simps) (auto simp: read_head.simps [of buffer rs] same split: if_splits)
  next
    case None
    with 1 show ?thesis
      by (subst http_read_head.simps) (auto simp: read_head.simps [of buffer rs] same split: if_splits list.splits read_answer.splits)
  qed
qed

text \<open>
  What \<open>hyper\<close> makes of a response: a status line and header lines, those of the response among
  them, in whatever letter case and order.
\<close>

definition http_line :: "bytes \<times> bytes \<Rightarrow> bytes" where
  "http_line h = fst h @ '': '' @ snd h"

definition http_written :: "http_response \<Rightarrow> bytes \<Rightarrow> bool" where
  "http_written resp head \<longleftrightarrow>
     (\<exists>reason hs. head = head_of ((''HTTP/1.1 '' @ dec (hr_status resp) @ '' '' @ reason) # map http_line hs) \<and>
        CR \<notin> set reason \<and> utf8_valid head \<and>
        (\<forall>(nm, val) \<in> set hs. nm \<noteq> [] \<and> CHR '':'' \<notin> set nm \<and> (\<forall>c \<in> set nm. graphic c) \<and> CR \<notin> set val) \<and>
        (\<forall>(nm, val) \<in> set (hr_headers resp). \<exists>nm'. eq_ignore_ascii_case nm' nm \<and> (nm', val) \<in> set hs))"

lemma names_beep_line:
  assumes "(nm, UPGRADE_TOKEN) \<in> set hs" and "eq_ignore_ascii_case nm ''upgrade''" and "nm \<noteq> []"
    and "CHR '':'' \<notin> set nm" and "\<forall>c \<in> set nm. graphic c"
  shows "names_beep (map http_line hs @ ls)"
proof -
  have tr: "str_trim nm = nm" using graphic_ends [OF assms(5,3)] assms(3) by (simp add: trim_graphic)
  have tok: "str_trim (CHR '' '' # UPGRADE_TOKEN) = UPGRADE_TOKEN"
    using trim_graphic [of UPGRADE_TOKEN] by (simp add: UPGRADE_TOKEN_def graphic_def)
  have so: "split_once (http_line (nm, UPGRADE_TOKEN)) (CHR '':'') = Some (nm, CHR '' '' # UPGRADE_TOKEN)"
    using split_once_first [OF assms(4), of "CHR '' '' # UPGRADE_TOKEN"] by (simp add: http_line_def)
  have "(nm, CHR '' '' # UPGRADE_TOKEN) \<in> set (List.map_filter (\<lambda>line. split_once line (CHR '':'')) (map http_line hs @ ls))"
    using so assms(1) by (force simp: List.map_filter_def)
  moreover have "split_str '','' [] (CHR '' '' # UPGRADE_TOKEN) = [CHR '' '' # UPGRADE_TOKEN]"
    by (subst split_str_none) (simp_all add: UPGRADE_TOKEN_def)
  ultimately show ?thesis
    unfolding names_beep_def list_ex_iff
    by (intro bexI [of _ "(nm, CHR '' '' # UPGRADE_TOKEN)"]) (simp_all add: tr tok assms(2) eq_ignore_ascii_case_refl)
qed

lemma response_accepted:
  assumes "http_written upgrade_response head"
  shows "http_parse_head head = Inr () \<and> one_head head"
proof -
  from assms obtain reason hs nm where h: "head = head_of ((''HTTP/1.1 '' @ dec 101 @ '' '' @ reason) # map http_line hs)"
    "CR \<notin> set reason" "utf8_valid head" and
    hs: "\<forall>(nm, val) \<in> set hs. nm \<noteq> [] \<and> CHR '':'' \<notin> set nm \<and> (\<forall>c \<in> set nm. graphic c) \<and> CR \<notin> set val" and
    up: "eq_ignore_ascii_case nm ''upgrade''" "(nm, UPGRADE_TOKEN) \<in> set hs"
    by (auto simp: http_written_def upgrade_response_def)
  have d: "dec 101 = ''101''" by code_simp
  let ?st = "''HTTP/1.1 '' @ ''101'' @ '' '' @ reason" and ?ls = "map http_line hs"
  have nocr: "\<forall>l \<in> set (?st # ?ls). CR \<notin> set l"
    using h(2) hs graphic_no_CR by (fastforce simp: http_line_def)
  have ls: "split_str CRLF [] head = ?st # ?ls @ [[], []]" unfolding h(1) d using split_head [OF nocr] by simp
  have "split_whitespace ?st = ''HTTP/1.1'' # ''101'' # split_whitespace reason"
    using split_whitespace_first [of "''HTTP/1.1''" "''101 '' @ reason"] split_whitespace_first [of "''101''" reason]
    by (simp add: graphic_def)
  moreover have "parse_u16 ''101'' = Some 101" by (simp add: parse_u16_def is_ascii_digit_def digit_val_def)
  moreover have "names_beep (?ls @ [[], []])" using names_beep_line [OF up(2,1)] hs up(2) by fastforce
  ultimately have "http_parse_head head = Inr ()" using h(3) by (simp add: http_parse_head_def ls Let_def)
  moreover have "one_head head" unfolding h(1) d
    by (rule one_head_of) (use nocr in \<open>auto simp: http_line_def\<close>)
  ultimately show ?thesis by blast
qed

text \<open>
  What \<open>http\<close> makes of a request: every value that is text is among those of its name, and letter
  case does not matter for a name.
\<close>

definition reads_headers :: "header_map \<Rightarrow> bytes \<Rightarrow> bool" where
  "reads_headers get_all head \<longleftrightarrow>
     (\<forall>(nm, val) \<in> set (List.map_filter read_header (split_str CRLF [] head)).
        \<forall>nm'. (\<forall>c \<in> set val. graphic c) \<longrightarrow> eq_ignore_ascii_case nm nm' \<longrightarrow> Some val \<in> set (get_all nm'))"

lemma http_request_head:
  "http_request path host =
     head_of [''GET '' @ path @ '' HTTP/1.1'', ''Host: '' @ host, ''Connection: Upgrade'', ''Upgrade: BEEP'']"
  by (simp add: http_request_def head_of_def UPGRADE_TOKEN_def)

lemma header_asks_single:
  assumes "Some val \<in> set (get_all nm)" and "CHR '','' \<notin> set val" and "\<forall>c \<in> set val. graphic c" and "val \<noteq> []"
    and "eq_ignore_ascii_case val wanted"
  shows "header_asks get_all nm wanted"
proof -
  have "str_trim val = val" using graphic_ends [OF assms(3,4)] assms(4) by (simp add: trim_graphic)
  moreover have "val \<in> set (List.map_filter id (get_all nm))" using assms(1) by (force simp: List.map_filter_def)
  moreover have "split_str '','' [] val = [val]" using split_str_none [OF assms(2)] by simp
  ultimately show ?thesis using assms(5) by (force simp: header_asks_def list_ex_iff)
qed

lemma request_recognised:
  assumes "CR \<notin> set path" and "CR \<notin> set host" and "reads_headers get_all (http_request path host)"
  shows "is_beep_upgrade get_all"
proof -
  have ls: "split_str CRLF [] (http_request path host) =
      [''GET '' @ path @ '' HTTP/1.1'', ''Host: '' @ host, ''Connection: Upgrade'', ''Upgrade: BEEP''] @ [[], []]"
    unfolding http_request_head by (rule split_head) (use assms(1,2) in auto)
  have beep: "read_header ''Upgrade: BEEP'' = Some (''Upgrade'', ''BEEP'')"
    using header_read [of "''Upgrade''" "''BEEP''"] by (simp add: read_header_def graphic_def)
  have "(''Upgrade'', ''BEEP'') \<in> set (List.map_filter read_header (split_str CRLF [] (http_request path host)))"
    "(''Connection'', ''Upgrade'') \<in> set (List.map_filter read_header (split_str CRLF [] (http_request path host)))"
    unfolding ls using beep read_header_fields(2) by (force simp: List.map_filter_def)+
  with assms(3) have "Some ''Upgrade'' \<in> set (get_all ''connection'')" "Some ''BEEP'' \<in> set (get_all ''upgrade'')"
    unfolding reads_headers_def using header_name_cases(1,2) by (force simp: graphic_def)+
  moreover have "eq_ignore_ascii_case ''Upgrade'' ''upgrade''" by code_simp
  moreover have "eq_ignore_ascii_case ''BEEP'' UPGRADE_TOKEN" by (simp add: UPGRADE_TOKEN_def eq_ignore_ascii_case_refl)
  ultimately show ?thesis
    using header_asks_single [of "''Upgrade''" get_all "''connection''" "''upgrade''"]
      header_asks_single [of "''BEEP''" get_all "''upgrade''" UPGRADE_TOKEN]
    by (simp add: is_beep_upgrade_def graphic_def)
qed

section \<open>Properties\<close>

text \<open>
  C37 (functional). An HTTP upgrade opens end to end. The server takes the client's request for one
  for BEEP, once; and whatever the pieces in which the response arrives, in whatever case and order
  its headers, the client accepts it and hands over a transport from which exactly the octets
  after the head are read, those that came with the head first, whatever the reader's buffers.
\<close>

theorem http_opened:
  assumes "CR \<notin> set path" and "CR \<notin> set host" and "reads_headers get_all (http_request path host)"
    and "takes (length (http_request path host)) (tr_writes io)"
    and "http_written upgrade_response head" and "length head \<le> Suc HTTP_MAX_HEAD"
    and "flowing (tr_reads io)" and "octets_of (tr_reads io) = head @ beep"
  shows "from_request_parts get_all True = (False, Inr ()) \<and>
    (\<exists>rw. http_connect io host path (Inr ()) = Some (Inr rw) \<and>
      tr_sent (rw_inner rw) = tr_sent io @ http_request path host \<and>
      (\<forall>ns r got. reads_into (rewind_read script_read) ns (rewind_new (rw_prefix rw) (tr_reads (rw_inner rw))) = (r, got) \<longrightarrow>
         beep = got @ rw_prefix r @ to_come (rw_inner r)))"
proof -
  from response_accepted [OF assms(5)] have ok: "http_parse_head head = Inr ()" "one_head head" by simp_all
  have utf8: "utf8_valid head" using assms(5) by (auto simp: http_written_def)
  obtain ws where ws: "write_all (tr_writes io) (http_request path host) (tr_sent io) =
      Some ((ws, tr_sent io @ http_request path host), Inr ())"
    using write_all_takes [OF assms(4)] by blast
  have "length head \<le> Suc MAX_HEAD" using assms(6) by (simp add: HTTP_MAX_HEAD_def MAX_HEAD_def)
  from read_head_pieces [OF ok(2) utf8 this assms(7), of "[]" beep] assms(8) obtain rs left where
    rs: "read_head [] (tr_reads io) = Some (rs, Inr (head, left))" "flowing rs" "left @ octets_of rs = beep" by auto
  from http_read_head_eq [OF rs(1)] have "http_read_head [] (tr_reads io) = Some (rs, Inr (head @ left, length head))" by blast
  with ws ok(1) have "http_connect io host path (Inr ()) = Some (Inr (rewind_new left
      (io\<lparr>tr_writes := ws, tr_sent := tr_sent io @ http_request path host, tr_reads := rs\<rparr>)))"
    by (simp add: http_connect_def read_switching_protocols_def bind_res_simps)
  moreover have "ReadFailed \<notin> set rs" "left @ to_come rs = beep" using rs(2,3) to_come_flowing [OF rs(2)] by (auto simp: flowing_def)
  ultimately show ?thesis using request_recognised [OF assms(1-3)] rewind_transparent
    by (fastforce simp: from_request_parts_def rewind_new_def)
qed

theorem http_opened_witness:
  "\<exists>rw. http_connect \<lparr>tr_keys = [], tr_writes = [Wrote 100], tr_reads = [ReadPending,
        ReadSome (head_of [''HTTP/1.1 101 Switching'', ''Upgrade: BEEP'', ''connection: upgrade''] @ ''RP''), ReadSome ''Y 0''], tr_sent = []\<rparr>
       ''h'' ''/beep'' (Inr ()) = Some (Inr rw) \<and>
     (\<forall>r got. reads_into (rewind_read script_read) [1, 9] (rewind_new (rw_prefix rw) (tr_reads (rw_inner rw))) = (r, got) \<longrightarrow>
        ''RPY 0'' = got @ rw_prefix r @ to_come (rw_inner r))"
proof -
  let ?head = "head_of [''HTTP/1.1 101 Switching'', ''Upgrade: BEEP'', ''connection: upgrade'']"
  let ?io = "\<lparr>tr_keys = [], tr_writes = [Wrote 100], tr_reads = [ReadPending, ReadSome (?head @ ''RP''), ReadSome ''Y 0''], tr_sent = []\<rparr>"
  let ?get = "\<lambda>_. [Some ''Upgrade'', Some ''BEEP'', Some ''h'', Some ''X'']"
  have "http_written upgrade_response ?head"
  proof -
    have "?head = head_of ((''HTTP/1.1 '' @ dec 101 @ '' '' @ ''Switching'') #
        map http_line [(''Upgrade'', ''BEEP''), (''connection'', ''upgrade'')])"
    proof -
      have "dec 101 = ''101''" by code_simp
      then show ?thesis by (simp add: http_line_def)
    qed
    moreover have "utf8_valid ?head" by (rule utf8_valid_ascii) (simp add: head_of_def octet_in_def)
    moreover have "eq_ignore_ascii_case ''Upgrade'' ''upgrade''" "eq_ignore_ascii_case ''connection'' ''connection''" by code_simp+
    ultimately show ?thesis unfolding http_written_def
      by (intro exI [of _ "''Switching''"] exI [of _ "[(''Upgrade'', ''BEEP''), (''connection'', ''upgrade'')]"])
        (auto simp: upgrade_response_def UPGRADE_TOKEN_def graphic_def)
  qed
  have "reads_headers (\<lambda>nm. List.map_filter (\<lambda>(n, v). if eq_ignore_ascii_case n nm then Some (Some v) else None)
      (List.map_filter read_header (split_str CRLF [] (http_request ''/beep'' ''h'')))) (http_request ''/beep'' ''h'')"
    by (force simp: reads_headers_def List.map_filter_def)
  from http_opened [OF _ _ this _ \<open>http_written upgrade_response ?head\<close>, of ?io "''RPY 0''"]
  have "\<exists>rw. http_connect ?io ''h'' ''/beep'' (Inr ()) = Some (Inr rw) \<and>
      (\<forall>ns r got. reads_into (rewind_read script_read) ns (rewind_new (rw_prefix rw) (tr_reads (rw_inner rw))) = (r, got) \<longrightarrow>
         ''RPY 0'' = got @ rw_prefix r @ to_come (rw_inner r))"
    by (simp add: takes_def http_request_def UPGRADE_TOKEN_def head_of_def HTTP_MAX_HEAD_def flowing_def) blast
  then show ?thesis by blast
qed

end
