(* ===== verification/TlsProfile.thy ===== *)
theory TlsProfile
  imports DriverReplies
begin

text \<open>
  \<^verbatim>\<open>vortice-tls/src\<close>: the TLS profile, which is a negotiation on a channel followed by the transport
  being replaced (\<^verbatim>\<open>lib.rs\<close>), and BEEP inside TLS from the first octet (\<^verbatim>\<open>implicit.rs\<close>). TLS itself is
  a library's: of a handshake the model only has whether it came about. A policy is the
  application's code and an argument.
\<close>

section \<open>Errors\<close>

datatype tls_error =
    NotOffered
  | TlsRefused error_reply
  | NotProceeding bytes
  | HandshakeFailed
  | TlsSession driver_error

definition tls_error_from :: "driver_error \<Rightarrow> tls_error" where
  "tls_error_from e = (case e of Refused r \<Rightarrow> TlsRefused r | other \<Rightarrow> TlsSession other)"

definition TLS_URI :: bytes where "TLS_URI = ''http://iana.org/beep/TLS''"
definition TLS_READY :: bytes where "TLS_READY = ''<ready />''"
definition TLS_PROCEED :: bytes where "TLS_PROCEED = ''<proceed />''"

section \<open>The tuning end\<close>

text \<open>
  \<open>upgrade\<close> is a sequence of waits: what it asks of the session next, or how it ends. A caller of
  \<open>open_channel\<close> or \<open>upgrade\<close> is answered with what it asked for or a failure; no other answer is
  ever sent to it.
\<close>

datatype tls_step = TlsAsks "caller \<Rightarrow> command" | TlsEnds "tls_error + greeting"

definition tls_upgrade :: "greeting \<Rightarrow> tls_step" where
  "tls_upgrade peer_greeting =
     (if \<not> advertises peer_greeting TLS_URI then TlsEnds (Inl NotOffered)
      else TlsAsks (connection_open_channel (with_content (profile_new TLS_URI) TLS_READY)))"

definition tls_opened :: "config \<Rightarrow> answer \<Rightarrow> tls_step" where
  "tls_opened after a =
     (case awaited a of
        ChannelHandle ch prof \<Rightarrow>
          (case pr_content prof of
             Some content \<Rightarrow>
               if content = TLS_PROCEED then TlsAsks (connection_upgrade after)
               else TlsEnds (Inl (NotProceeding content))
           | None \<Rightarrow> TlsEnds (Inl (NotProceeding ''nothing at all'')))
      | Failure e \<Rightarrow> TlsEnds (Inl (tls_error_from e))
      | _ \<Rightarrow> TlsEnds (Inl (TlsSession ClosedError)))"

text \<open>What the swap ends in, given whether the TLS library connected, and what the caller is told.\<close>

definition tls_swap :: "bool \<Rightarrow> swap_result" where
  "tls_swap connected = (if connected then Swapped else SwapFailed Io)"

definition tls_upgraded :: "bool \<Rightarrow> answer \<Rightarrow> tls_error + greeting" where
  "tls_upgraded connected a =
     (case awaited a of
        Greeted g \<Rightarrow> Inr g
      | Failure e \<Rightarrow> Inl (if connected then tls_error_from e else HandshakeFailed)
      | _ \<Rightarrow> Inl (TlsSession ClosedError))"

section \<open>The listening end\<close>

record 'w tls_policy =
  tp_accept :: "nat \<Rightarrow> start \<Rightarrow> 'w \<Rightarrow> 'w \<times> (error_reply + unit)"
  tp_proceed :: "nat \<Rightarrow> bytes option \<Rightarrow> 'w \<Rightarrow> bool"

definition accept_all :: "'w tls_policy" where
  "accept_all = \<lparr>tp_accept = (\<lambda>session st w. (w, Inr ())), tp_proceed = (\<lambda>session server_name w. True)\<rparr>"

record 'w tls_profile =
  tl_after :: config
  tl_policy :: "'w tls_policy"

definition with_acceptor :: "'w tls_profile" where
  "with_acceptor = \<lparr>tl_after = config_new Listener, tl_policy = accept_all\<rparr>"

definition after_tuning :: "config \<Rightarrow> 'w tls_profile \<Rightarrow> 'w tls_profile" where
  "after_tuning after t = t\<lparr>tl_after := after\<rparr>"

definition with_policy :: "'w tls_policy \<Rightarrow> 'w tls_profile \<Rightarrow> 'w tls_profile" where
  "with_policy policy t = t\<lparr>tl_policy := policy\<rparr>"

definition tls_accept :: "'w tls_profile \<Rightarrow> peer \<Rightarrow> bytes \<Rightarrow> start \<Rightarrow> 'w \<Rightarrow> 'w \<times> (error_reply + profile)" where
  "tls_accept t peer uri st w =
     (let offered = (case find (\<lambda>p. pr_uri p = uri) (st_profiles st) of None \<Rightarrow> None | Some p \<Rightarrow> pr_content p) in
      if offered \<noteq> Some TLS_READY
      then (w, Inl (error_reply_with_text (error_reply_new TRANSACTION_FAILED)
                 ''the TLS profile expects <ready /> piggybacked on the start'' None))
      else (case tp_accept (tl_policy t) (pe_session peer) st w of
              (w, Inl e) \<Rightarrow> (w, Inl e)
            | (w, Inr _) \<Rightarrow> (w, Inr (with_content (profile_new uri) TLS_PROCEED))))"

definition tls_upgrades_transport :: "'w \<Rightarrow> bool" where
  "tls_upgrades_transport w = True"

definition tls_handler :: "'w tls_profile \<Rightarrow> 'w handler" where
  "tls_handler t = \<lparr>ha_accept = tls_accept t, ha_upgrades = tls_upgrades_transport\<rparr>"

text \<open>Nothing is ever said on the channel.\<close>

definition tls_handle :: "delivered \<Rightarrow> (caller \<Rightarrow> command) list" where
  "tls_handle msg = []"

text \<open>
  \<open>on_open\<close> asks for the virtual host, then lets the policy have its last word and asks for the
  upgrade either way; a policy that will not go through with it is a swap that fails.
\<close>

definition tls_on_open :: "caller \<Rightarrow> command" where
  "tls_on_open = responder_server_name"

definition tls_named :: "'w tls_profile \<Rightarrow> nat \<Rightarrow> answer \<Rightarrow> 'w \<Rightarrow> bool \<Rightarrow> (caller \<Rightarrow> command) \<times> swap_result" where
  "tls_named t session a w accepted =
     (let server_name = (case awaited a of Told nm \<Rightarrow> nm | _ \<Rightarrow> None) in
      (responder_upgrade (tl_after t),
       if tp_proceed (tl_policy t) session server_name w then tls_swap accepted else SwapFailed Io))"

section \<open>TLS from the first octet\<close>

definition looks_like_tls :: "bytes \<Rightarrow> bool" where
  "looks_like_tls p = (case p of a # b # _ \<Rightarrow> a = CHR 0x16 \<and> b = CHR 0x03 | _ \<Rightarrow> False)"

text \<open>
  What the handshake yields, or its failure, and then what the session started over it yields: the
  connecting and the accepting end in turn, and serving until the session is over.
\<close>

definition tls_connect_over :: "'e + 'io \<Rightarrow> ('io \<Rightarrow> driver_error + 'c) \<Rightarrow> tls_error + 'c" where
  "tls_connect_over handshake from_io =
     (case handshake of
        Inl _ \<Rightarrow> Inl HandshakeFailed
      | Inr stream \<Rightarrow> (case from_io stream of Inl e \<Rightarrow> Inl (tls_error_from e) | Inr c \<Rightarrow> Inr c))"

definition tls_accept_over :: "'e + 'io \<Rightarrow> ('io \<Rightarrow> driver_error + 'c) \<Rightarrow> tls_error + 'c" where
  "tls_accept_over handshake serve_io =
     (case handshake of
        Inl _ \<Rightarrow> Inl HandshakeFailed
      | Inr stream \<Rightarrow> (case serve_io stream of Inl e \<Rightarrow> Inl (tls_error_from e) | Inr c \<Rightarrow> Inr c))"

definition tls_serve :: "'e + 'io \<Rightarrow> ('io \<Rightarrow> driver_error + 'c) \<Rightarrow> tls_error + unit" where
  "tls_serve handshake serve_io = bind_res (tls_accept_over handshake serve_io) (\<lambda>_. Inr ())"

section \<open>Telling TLS from BEEP and HTTP\<close>

lemma looks_like_tls_frame: "\<not> looks_like_tls (encode f [] @ rest)"
proof (cases f)
  case (DataF d)
  then show ?thesis by (cases "df_kind d") (simp_all add: encode_data_eq header_line_def looks_like_tls_def)
next
  case (SeqF s)
  then show ?thesis by (simp add: encode_seq_eq seq_line_def looks_like_tls_def)
qed

lemma looks_like_tls_http: "\<not> looks_like_tls (''GET '' @ rest)"
  by (simp add: looks_like_tls_def)

text \<open>Two octets decide.\<close>

lemma looks_like_tls_decided: "2 \<le> length p \<Longrightarrow> looks_like_tls (p @ rest) = looks_like_tls p"
  by (cases p; cases "tl p") (auto simp: looks_like_tls_def)

section \<open>Declining\<close>

text \<open>
  A listener that will not tune refuses the channel and stays in the clear: it goes on reading,
  serves nothing new, and nothing but the refusal is put on the wire.
\<close>

lemma tls_declined:
  assumes "router_choose (dr_router d) st = Some (uri, tls_handler t)"
    and "tls_accept t \<lparr>pe_session = dr_id d, pe_server_name = s_server_name (dr_session d)\<rparr> uri st (dr_world d) = (w, Inl e)"
  shows "start_requested alive ch m st d = d\<lparr>dr_session := fst (refuse_start m e (dr_session d)), dr_world := w\<rparr>"
  using assms by (simp add: start_requested_def tls_handler_def with_session_def)

end
