(* ===== verification/TlsTuning.thy ===== *)
theory TlsTuning
  imports TlsProfile
begin

text \<open>
  Opening a channel between two drivers, and on top of it the whole of a TLS negotiation: from the
  tuning end's request to the greeting of the session that follows. And what can get in its way.
\<close>

section \<open>One event\<close>

text \<open>An event whose handling leads to no other is handled between two writes.\<close>

lemma settle_event:
  assumes "s_events (dr_session d) = [e]"
    and "d1 = handle_event (alive e) e
      (d\<lparr>dr_out := dr_out d @ s_outbound (dr_session d), dr_session := (dr_session d)\<lparr>s_outbound := [], s_events := []\<rparr>\<rparr>)"
    and "s_events (dr_session d1) = []"
  shows "settle alive d = transmit d1"
proof -
  have "handle_events alive d1 = d1" using assms(3) by (subst handle_events.simps) (simp add: poll_event_def)
  moreover have "poll_event (dr_session (transmit d)) = ((dr_session d)\<lparr>s_outbound := [], s_events := []\<rparr>, Some e)"
    using assms(1) by (simp add: transmit_eq poll_event_def)
  ultimately have "handle_events alive (transmit d) = d1"
    using assms(2) by (subst handle_events.simps) (simp add: transmit_eq with_session_def)
  then show ?thesis using assms(1) settle_quiet [OF assms(3)] by (subst settle.simps) (simp add: at_rest_def)
qed

section \<open>Opening a channel between two drivers\<close>

definition meeting :: "'w driver \<Rightarrow> 'v driver \<Rightarrow> bool" where
  "meeting da db \<longleftrightarrow> peers (dr_session da) (dr_session db) \<and> at_rest da \<and> at_rest db"

text \<open>The handler that answers a start, and what it decides.\<close>

definition agrees :: "'w driver \<Rightarrow> start \<Rightarrow> 'w handler \<Rightarrow> 'w \<Rightarrow> profile \<Rightarrow> bool" where
  "agrees db st h w chosen \<longleftrightarrow> (\<exists>uri. router_choose (dr_router db) st = Some (uri, h) \<and>
     ha_accept h \<lparr>pe_session = dr_id db, pe_server_name = s_server_name (dr_session db)\<rparr> uri st (dr_world db) = (w, Inr chosen))"

text \<open>What the driver that is asked makes of the request, and what it answers.\<close>

lemma start_heard:
  fixes d1 :: "'v driver"
  assumes "handle_input (dr_out d1) (dr_session db) = (b1, Inr ())"
    and "b1 = (dr_session db)\<lparr>s_zero := z, s_unacked := u, s_outbound := on_wire (map SeqF seqs),
             s_events := [StartRequested n m (start_new n p)]\<rparr>"
    and "z = (s_zero (dr_session db))\<lparr>ch_recv_window := ch_recv_window z, ch_expected_seqno := ch_expected_seqno z,
             ch_awaiting_reply := ch_awaiting_reply z\<rparr>"
    and "queue_of (dr_session db) GREETING_CHANNEL = []" and "ch_number (s_zero (dr_session db)) = GREETING_CHANNEL"
    and "agrees db (start_new n p) h w chosen" and "fits (dr_session db) (to_payload (MProfile chosen))"
    and "m \<le> MAX_MSG_NO" and "n \<noteq> GREETING_CHANNEL" and "\<not> owns (cf_role (s_config (dr_session db))) n"
    and "s_channels (dr_session db) n = None" and "dr_out db = []"
  defines "e1 \<equiv> hears d1 db"
  shows "dr_out e1 = on_wire (map SeqF seqs @ [DataF (whole_frame Rpy (s_zero (dr_session db)) m (to_payload (MProfile chosen)))]) \<and>
    dr_effects e1 = dr_effects db @ [OpenTask n h] \<and> dr_awaiting_upgrade e1 = (dr_awaiting_upgrade db \<or> ha_upgrades h w) \<and>
    map_of (dr_served e1) n = Some h \<and> dr_world e1 = w \<and> at_rest e1 \<and> dr_io e1 = dr_io db \<and>
    s_server_name (dr_session e1) = s_server_name (dr_session db)"
proof -
  let ?s = "dr_session db" and ?b = "b1\<lparr>s_outbound := [], s_events := []\<rparr>" and ?e = "StartRequested n m (start_new n p)"
  let ?cb = "channel_with_window_size n (pr_uri chosen) (cf_window_size (s_config ?s))"
  have t: "fst (take_turn (Arrived (dr_out d1)) db) = with_session b1 db" using assms(1) by simp
  have zs: "ch_number z = ch_number (s_zero ?s)" "ch_next_seqno z = ch_next_seqno (s_zero ?s)"
    "ch_send_window z = ch_send_window (s_zero ?s)" by (subst assms(3), simp)+
  let ?o = "open_channel n (pr_uri chosen) ?b"
  have o: "s_zero ?o = z" "s_outbound ?o = []" "s_queues ?o = s_queues ?s" "s_config ?o = s_config ?s" "s_events ?o = []"
    "s_server_name ?o = s_server_name ?s"
    by (simp_all add: assms(2) open_channel_def put_channel_def)
  have "queue_of ?o GREETING_CHANNEL = []" "fits ?o (to_payload (MProfile chosen))"
    using assms(4,7) by (simp_all add: queue_of_def fits_def writable_def o zs) (simp add: assms(2))
  from reply_whole [OF this, of Rpy m] assms(5,8) obtain b2 where rep: "reply Rpy m (MProfile chosen) ?o = (b2, Inr ())"
    "s_outbound b2 = encode (DataF (whole_frame Rpy z m (to_payload (MProfile chosen)))) []" "s_events b2 = []"
    "s_server_name b2 = s_server_name ?s" by (simp add: o zs)
  have wz: "whole_frame Rpy z m x = whole_frame Rpy (s_zero ?s) m x" for x by (simp add: whole_frame_def zs)
  have acc: "accept_start n m chosen ?b = (b2, Inr ())"
    using assms(9-11) rep(1) by (simp add: accept_start_def assms(2))
  let ?d = "(with_session b1 db)\<lparr>dr_out := dr_out db @ s_outbound b1, dr_session := ?b\<rparr>"
  let ?d1 = "cause (OpenTask n h) ((with_session b2 ?d)\<lparr>dr_world := w, dr_served := table_insert n h (dr_served db),
      dr_awaiting_upgrade := dr_awaiting_upgrade db \<or> ha_upgrades h w\<rparr>)"
  have "start_requested True n m (start_new n p) ?d = ?d1"
    using assms(6) acc by (auto simp: agrees_def start_requested_def with_session_def assms(2))
  then have "e1 = transmit ?d1"
    unfolding e1_def hears_def t using rep(3)
    by (intro settle_event [where e = ?e]) (simp_all add: with_session_def assms(2) cause_def)
  then show ?thesis
    using rep(2,4) assms(12) by (simp add: transmit_eq with_session_def cause_def at_rest_def assms(2) rep(3) wz lookup_insert)
qed

text \<open>What the driver that asked makes of the answer.\<close>

lemma opening_heard:
  assumes "handle_input (dr_out e1) (dr_session d1) = (a', Inr ())"
    and "s_events a' = [ChannelOpened n chosen]" and "map_of (dr_opens d1) n = Some c"
  shows "dr_effects (hears e1 d1) = dr_effects d1 @ [Answered c (ChannelHandle n chosen)] \<and> at_rest (hears e1 d1) \<and>
    dr_out (hears e1 d1) = dr_out d1 @ s_outbound a' \<and> dr_io (hears e1 d1) = dr_io d1 \<and>
    s_server_name (dr_session (hears e1 d1)) = s_server_name a'"
proof -
  let ?d = "with_session a' d1" and ?e = "ChannelOpened n chosen"
  have t: "fst (take_turn (Arrived (dr_out e1)) d1) = ?d" using assms(1) by simp
  have "hears e1 d1 = transmit (handle_event True ?e
      (?d\<lparr>dr_out := dr_out ?d @ s_outbound (dr_session ?d), dr_session := (dr_session ?d)\<lparr>s_outbound := [], s_events := []\<rparr>\<rparr>))"
    unfolding hears_def t by (rule settle_event [where e = ?e]) (use assms(2,3) in \<open>simp_all add: tell_def cause_def with_session_def\<close>)
  then show ?thesis using assms(3) by (simp add: transmit_eq tell_def cause_def with_session_def at_rest_def)
qed

text \<open>
  Asked for a channel, one driver writes a start; the other asks the handler and writes the
  acceptance; the first hands the channel to whoever asked. Reading the acceptance makes it
  write an acknowledgement of its own only when one is due.
\<close>

lemma channel_agreed:
  fixes c :: caller and da :: "'w driver" and db :: "'v driver"
  assumes "meeting da db" and "dr_out da = []" and "dr_out db = []" and "n = s_next_channel (dr_session da)"
    and "fits (dr_session da) (to_payload (MStart (start_new n p)))" and "mgmt_ok (MStart (start_new n p))"
    and "agrees db (start_new n p) h w chosen" and "fits (dr_session db) (to_payload (MProfile chosen))"
    and "mgmt_ok (MProfile chosen)" and "n \<noteq> GREETING_CHANNEL" and "\<not> owns (cf_role (s_config (dr_session db))) n"
    and "s_channels (dr_session db) n = None"
  defines "d1 \<equiv> carries_out (OpenChannel p c) da" and "e1 \<equiv> hears (carries_out (OpenChannel p c) da) db"
  shows "(\<exists>m seqs. dr_out e1 = on_wire (map SeqF seqs @
        [DataF (whole_frame Rpy (s_zero (dr_session db)) m (to_payload (MProfile chosen)))])) \<and>
    dr_effects e1 = dr_effects db @ [OpenTask n h] \<and> dr_awaiting_upgrade e1 = (dr_awaiting_upgrade db \<or> ha_upgrades h w) \<and>
    map_of (dr_served e1) n = Some h \<and> dr_world e1 = w \<and> at_rest e1 \<and> dr_io e1 = dr_io db \<and>
    s_server_name (dr_session e1) = s_server_name (dr_session db) \<and>
    dr_effects (hears e1 d1) = dr_effects d1 @ [Answered c (ChannelHandle n chosen)] \<and> at_rest (hears e1 d1) \<and>
    dr_io (hears e1 d1) = dr_io da \<and> s_server_name (dr_session (hears e1 d1)) = s_server_name (dr_session da) \<and>
    (\<exists>sq. dr_out (hears e1 d1) = dr_out d1 @ on_wire (map SeqF sq) \<and>
       (sq = [] \<longleftrightarrow> \<not> due (dr_session da) GREETING_CHANNEL (s_zero (dr_session da)) (of_nat (length (to_payload (MProfile chosen))))))"
proof -
  let ?a = "dr_session da" and ?b = "dr_session db"
  have pe: "peers ?a ?b" "s_events ?a = []" "s_events ?b = []" "s_outbound ?a = []"
    using assms(1) by (simp_all add: meeting_def at_rest_def)
  from start_asked [OF pe(1) assms(4-6)] obtain m a1 b1 z u seqs where st: "start_channel p ?a = (a1, Inr n)" "m \<le> MAX_MSG_NO"
    "handle_input (s_outbound a1) ?b = (b1, Inr ())" and
    b1: "b1 = ?b\<lparr>s_zero := z, s_unacked := u, s_outbound := on_wire (map SeqF seqs),
             s_events := s_events ?b @ [StartRequested n m (start_new n p)]\<rparr>" and
    z: "z = (s_zero ?b)\<lparr>ch_recv_window := ch_recv_window z, ch_expected_seqno := ch_expected_seqno z,
             ch_awaiting_reply := ch_awaiting_reply z\<rparr>" and
    seqs: "\<forall>q \<in> set seqs. wf_seq q \<and> sf_channel q = GREETING_CHANNEL" and
    a1: "idle (fst (poll_transmit a1)\<lparr>s_zero := s_zero ?a\<rparr>)" "listening ?b (fst (poll_transmit a1))"
      "s_pending a1 = (s_pending ?a)(m \<mapsto> PStart n)" "s_events a1 = []" "s_server_name a1 = s_server_name ?a"
      "s_unacked a1 = s_unacked ?a" "ch_recv_window (s_zero a1) = ch_recv_window (s_zero ?a)" "s_outbound a1 \<noteq> []"
    using pe(2) by auto
  let ?a1 = "fst (poll_transmit a1)"
  have pa: "?a1 = a1\<lparr>s_outbound := []\<rparr>" using a1(8) by (simp add: poll_transmit_def)
  have d1: "dr_session d1 = ?a1" "dr_out d1 = s_outbound a1" "map_of (dr_opens d1) n = Some c" "dr_io d1 = dr_io da"
    using st(1) a1(4) assms(2)
    by (simp_all add: d1_def carries_out_def settle_transmits with_session_def pa drop_sender_def tell_def cause_def
        lookup_insert split: option.split)
  have nb: "ch_number (s_zero ?b) = GREETING_CHANNEL" "queue_of ?b GREETING_CHANNEL = []"
    using pe(1) by (simp_all add: peers_def listening_def idle_def)
  have "handle_input (dr_out d1) ?b = (b1, Inr ())" using st(3) d1(2) by simp
  note e1 = start_heard [OF this b1 [unfolded pe(3) append_Nil] z nb(2,1) assms(7,8) st(2) assms(10-12,3)]
  have q: "queue_of ?a1 GREETING_CHANNEL = []" "s_state ?a1 = Ready" "s_pending ?a1 m = Some (PStart n)"
    using a1(1,3) by (simp_all add: idle_def queue_of_def pa)
  from start_answered [OF a1(2) q assms(9,8) nb(1) st(2) seqs] obtain a' sq where a':
    "handle_input (dr_out e1) ?a1 = (a', Inr ())" "s_events a' = [ChannelOpened n chosen]"
    "s_server_name a' = s_server_name ?a" "s_outbound a' = on_wire (map SeqF sq)"
    "sq = [] \<longleftrightarrow> \<not> due ?a1 GREETING_CHANNEL (s_zero ?a1) (of_nat (length (to_payload (MProfile chosen))))"
    using e1 a1(4,5) unfolding e1_def [unfolded d1_def [symmetric]] by (auto simp: pa)
  have "due ?a1 GREETING_CHANNEL (s_zero ?a1) k = due ?a GREETING_CHANNEL (s_zero ?a) k" for k
    using a1(6,7) by (simp add: due_def pa)
  with opening_heard [OF a'(1) [folded d1(1)] a'(2) d1(3)] a'(3-5) d1(2,4) e1 show ?thesis
    unfolding e1_def [unfolded d1_def [symmetric]] by auto
qed

section \<open>The swap and the greetings\<close>

definition swaps :: "command \<Rightarrow> 'w driver \<Rightarrow> 'w driver" where
  "swaps cmd d = settle (\<lambda>_. True) (fst (take_turn (Received cmd Swapped) d))"

lemma fresh_session_eq: "fresh_session cfg nm = (session_new cfg)\<lparr>s_server_name := nm\<rparr>"
proof -
  have "s = s\<lparr>s_server_name := nm\<rparr>" if "s_server_name s = nm" for s :: session and nm using that by (cases s) simp
  from this [OF session_new_fields(2)] have "session_new cfg = (session_new cfg)\<lparr>s_server_name := None\<rparr>" .
  then show ?thesis by (cases nm) (simp_all add: fresh_session_def set_server_name_def)
qed

text \<open>After the swap there is a new session, whose greeting waits for the new transport.\<close>

lemma swapped:
  assumes "at_rest d"
  shows "dr_session (swaps (Upgrade None cfg c) d) =
      (session_new cfg)\<lparr>s_outbound := [], s_server_name := s_server_name (dr_session d)\<rparr> \<and>
    dr_out (swaps (Upgrade None cfg c) d) = s_outbound (session_new cfg) \<and> dr_io (swaps (Upgrade None cfg c) d) = [] \<and>
    dr_ready (swaps (Upgrade None cfg c) d) = Some c \<and> \<not> dr_awaiting_upgrade (swaps (Upgrade None cfg c) d) \<and>
    replaced_in (dr_effects (swaps (Upgrade None cfg c) d)) = replaced_in (dr_effects d) @ [dr_io d @ dr_out d]"
proof -
  let ?w = "write_out (transmit (with_session (dr_session d) d))" and ?d = "renew cfg c (write_out (transmit (with_session (dr_session d) d)))"
  have "last_words None (dr_session d) = (dr_session d, Inr ())" by (simp add: last_words_def)
  from upgrade_swapped [OF this] have "fst (take_turn (Received (Upgrade None cfg c) Swapped) d) = ?d"
    by (simp add: dispatch_def)
  moreover have "s_events (dr_session ?d) = []" by (simp add: renewed_state fresh_session_eq session_new_fields)
  ultimately have "swaps (Upgrade None cfg c) d = ?d\<lparr>dr_session := (dr_session ?d)\<lparr>s_outbound := []\<rparr>,
      dr_out := dr_out ?d @ s_outbound (dr_session ?d)\<rparr>" by (simp add: swaps_def settle_transmits)
  moreover have "s_server_name (dr_session ?w) = s_server_name (dr_session d)" "dr_io ?w = dr_io d @ dr_out d"
    "dr_out ?w = []" "dr_effects ?w = dr_effects d"
    using assms by (simp_all add: write_out_def transmit_eq with_session_def at_rest_def)
  ultimately show ?thesis by (simp add: renewed_state renewed_effects fresh_session_eq)
qed

text \<open>The greeting of the new session over there completes the upgrade over here.\<close>

definition suits :: "config \<Rightarrow> config \<Rightarrow> bool" where
  "suits ca cb \<longleftrightarrow> short_greeting ca \<and> short_greeting cb \<and> greeting_ok (cf_greeting ca) \<and>
     length (greeting_to_payload (cf_greeting ca)) \<le> unat (cf_window_size cb) \<and> cf_window_size cb \<le> MAX_FRAME_SIZE"

lemma new_greeting_heard:
  assumes "suits ca cb" and "dr_out sender = s_outbound (session_new ca)" and "dr_ready d = Some c"
    and "dr_session d = (session_new cb)\<lparr>s_outbound := [], s_server_name := nm\<rparr>"
  shows "dr_effects (hears sender d) = dr_effects d @ [Answered c (Greeted (cf_greeting ca))] \<and>
    s_state (dr_session (hears sender d)) = Ready \<and> s_authenticated (dr_session (hears sender d)) = None \<and>
    s_channels (dr_session (hears sender d)) = Map.empty \<and> s_server_name (dr_session (hears sender d)) = nm"
proof -
  let ?s = "(session_new cb)\<lparr>s_outbound := [], s_server_name := nm\<rparr>" and ?e = "GreetingReceived (cf_greeting ca)"
  have su: "short_greeting ca" "short_greeting cb" "greeting_ok (cf_greeting ca)"
    "length (greeting_to_payload (cf_greeting ca)) \<le> unat (cf_window_size cb)" "cf_window_size cb \<le> MAX_FRAME_SIZE"
    using assms(1) by (simp_all add: suits_def)
  from greeting_received_after [OF su, where out = "[]" and nm = nm] obtain s' where s': "handle_input (dr_out sender) ?s = (s', Inr ())"
    "s_events s' = [?e]" "s_state s' = Ready" "s_authenticated s' = None" "s_channels s' = Map.empty" "s_server_name s' = nm"
    by (auto simp: assms(2) session_new_fields)
  let ?d = "with_session s' d"
  have t: "fst (take_turn (Arrived (dr_out sender)) d) = ?d" using s'(1) assms(4) by simp
  have "hears sender d = transmit (handle_event True ?e
      (?d\<lparr>dr_out := dr_out ?d @ s_outbound (dr_session ?d), dr_session := (dr_session ?d)\<lparr>s_outbound := [], s_events := []\<rparr>\<rparr>))"
    unfolding hears_def t by (rule settle_event [where e = ?e]) (use s'(2) assms(3) in \<open>simp_all add: tell_def cause_def with_session_def\<close>)
  then show ?thesis using assms(3) s'(3-6) by (simp add: transmit_eq tell_def cause_def with_session_def)
qed

section \<open>The negotiation\<close>

definition tls_offer :: profile where
  "tls_offer = with_content (profile_new TLS_URI) TLS_READY"

definition tls_agreement :: profile where
  "tls_agreement = with_content (profile_new TLS_URI) TLS_PROCEED"

lemma tls_mgmt_ok: "mgmt_ok (MStart (start_new n tls_offer))" "mgmt_ok (MProfile tls_agreement)"
proof -
  have "cdata_ok TLS_READY" "cdata_ok TLS_PROCEED"
    by (auto simp: cdata_ok_def TLS_READY_def TLS_PROCEED_def CDATA_CLOSE_def Cons_eq_append_conv)
  then show "mgmt_ok (MStart (start_new n tls_offer))" "mgmt_ok (MProfile tls_agreement)"
    by (simp_all add: profile_ok_def tls_offer_def tls_agreement_def with_content_def profile_new_def start_new_def
        octet_in_def TLS_URI_def TLS_READY_def TLS_PROCEED_def)
qed

text \<open>A listener with the profile in its router and a policy that agrees.\<close>

lemma tls_agrees:
  assumes "router_choose (dr_router db) (start_new n tls_offer) = Some (TLS_URI, tls_handler t)"
    and "tp_accept (tl_policy t) (dr_id db) (start_new n tls_offer) (dr_world db) = (w, Inr ())"
  shows "agrees db (start_new n tls_offer) (tls_handler t) w tls_agreement"
  using assms
  by (simp add: agrees_def tls_handler_def tls_accept_def start_new_def tls_offer_def with_content_def profile_new_def
      tls_agreement_def)

text \<open>Both ends are ready for it: the listener serves the profile and its policy agrees twice.\<close>

definition willing :: "'w driver \<Rightarrow> greeting \<Rightarrow> 'v driver \<Rightarrow> 'v tls_profile \<Rightarrow> 'v \<Rightarrow> bool" where
  "willing da peer_greeting db t w \<longleftrightarrow>
     (let n = s_next_channel (dr_session da); st = start_new n tls_offer in
      meeting da db \<and> dr_out da = [] \<and> dr_out db = [] \<and> advertises peer_greeting TLS_URI \<and>
      fits (dr_session da) (to_payload (MStart st)) \<and> fits (dr_session db) (to_payload (MProfile tls_agreement)) \<and>
      n \<noteq> GREETING_CHANNEL \<and> \<not> owns (cf_role (s_config (dr_session db))) n \<and> s_channels (dr_session db) n = None \<and>
      router_choose (dr_router db) st = Some (TLS_URI, tls_handler t) \<and>
      tp_accept (tl_policy t) (dr_id db) st (dr_world db) = (w, Inr ()) \<and>
      tp_proceed (tl_policy t) (dr_id db) (s_server_name (dr_session db)) w)"

lemma tls_opening:
  fixes c :: caller
  assumes "willing da g db t w"
  defines "d1 \<equiv> carries_out (OpenChannel tls_offer c) da" and "e1 \<equiv> hears (carries_out (OpenChannel tls_offer c) da) db"
  shows "dr_awaiting_upgrade e1 \<and> at_rest e1 \<and> dr_io e1 = dr_io db \<and> dr_effects e1 =
      dr_effects db @ [OpenTask (s_next_channel (dr_session da)) (tls_handler t)] \<and>
    s_server_name (dr_session e1) = s_server_name (dr_session db) \<and>
    (\<exists>m seqs. dr_out e1 = on_wire (map SeqF seqs @
        [DataF (whole_frame Rpy (s_zero (dr_session db)) m (to_payload (MProfile tls_agreement)))])) \<and>
    dr_effects (hears e1 d1) = dr_effects d1 @ [Answered c (ChannelHandle (s_next_channel (dr_session da)) tls_agreement)] \<and>
    at_rest (hears e1 d1) \<and>
    (\<exists>sq. dr_out (hears e1 d1) = dr_out d1 @ on_wire (map SeqF sq) \<and>
       (sq = [] \<longleftrightarrow> \<not> due (dr_session da) GREETING_CHANNEL (s_zero (dr_session da)) (of_nat (length (to_payload (MProfile tls_agreement))))))"
proof -
  have w: "meeting da db" "dr_out da = []" "dr_out db = []" "fits (dr_session da) (to_payload (MStart (start_new (s_next_channel (dr_session da)) tls_offer)))"
    "fits (dr_session db) (to_payload (MProfile tls_agreement))" "s_next_channel (dr_session da) \<noteq> GREETING_CHANNEL"
    "\<not> owns (cf_role (s_config (dr_session db))) (s_next_channel (dr_session da))"
    "s_channels (dr_session db) (s_next_channel (dr_session da)) = None"
    "router_choose (dr_router db) (start_new (s_next_channel (dr_session da)) tls_offer) = Some (TLS_URI, tls_handler t)"
    "tp_accept (tl_policy t) (dr_id db) (start_new (s_next_channel (dr_session da)) tls_offer) (dr_world db) = (w, Inr ())"
    using assms(1) by (simp_all add: willing_def Let_def)
  from channel_agreed [OF w(1-3) refl w(4) tls_mgmt_ok(1) tls_agrees [OF w(9,10)] w(5) tls_mgmt_ok(2) w(6-8), of c]
  show ?thesis unfolding d1_def e1_def by (auto simp: tls_handler_def tls_upgrades_transport_def)
qed

section \<open>Properties\<close>

text \<open>
  C35 (functional). A TLS negotiation from end to end. Asked to tune, the client offers
  \<open><ready />\<close> on the start of a channel; the listener's policy agrees, it stops reading and writing,
  and its profile asks for the swap, with which \<open><proceed />\<close> goes out as the last octets in the
  clear. The client, told so, asks for the swap too. What it has written in the clear after its
  request is exactly the acknowledgement that the acceptance makes due on channel 0, and so
  nothing if none is due. If none is, each end is then a new session with nothing of the old one
  but the virtual host, each caller is answered with the greeting of the other's new session,
  and nobody is authenticated. If one is due, a \<open>SEQ\<close> frame reaches a listener that expects the
  handshake: nothing is stated of what follows.
\<close>

theorem tls_negotiated:
  fixes c1 c2 c3 :: caller
  assumes "willing da g db t w" and "suits after (tl_after t)" and "suits (tl_after t) after"
  shows "\<exists>ask up d1 e1 e2 d2 answer d3 sq. tls_upgrade g = TlsAsks ask \<and> d1 = carries_out (ask c1) da \<and>
    e1 = hears d1 db \<and> dr_awaiting_upgrade e1 \<and>
    tls_named t (dr_id db) (Told (s_server_name (dr_session db))) w True = (up, Swapped) \<and> e2 = swaps (up c2) e1 \<and>
    replaced_in (dr_effects e2) = replaced_in (dr_effects db) @ [dr_io db @ dr_out e1] \<and>
    d2 = hears e1 d1 \<and> dr_effects d2 = dr_effects d1 @ [Answered c1 answer] \<and>
    tls_opened after answer = TlsAsks (connection_upgrade after) \<and> d3 = swaps (connection_upgrade after c3) d2 \<and>
    dr_out d2 = dr_out d1 @ on_wire (map SeqF sq) \<and>
    replaced_in (dr_effects d3) = replaced_in (dr_effects d2) @ [dr_io d2 @ dr_out d1 @ on_wire (map SeqF sq)] \<and>
    (sq = [] \<longleftrightarrow> \<not> due (dr_session da) GREETING_CHANNEL (s_zero (dr_session da)) (of_nat (length (to_payload (MProfile tls_agreement))))) \<and>
    (sq = [] \<longrightarrow>
      dr_effects (hears e2 d3) = dr_effects d3 @ [Answered c3 (Greeted (cf_greeting (tl_after t)))] \<and>
      dr_effects (hears d3 e2) = dr_effects e2 @ [Answered c2 (Greeted (cf_greeting after))] \<and>
      s_authenticated (dr_session (hears e2 d3)) = None \<and> s_authenticated (dr_session (hears d3 e2)) = None \<and>
      s_channels (dr_session (hears e2 d3)) = Map.empty \<and> s_channels (dr_session (hears d3 e2)) = Map.empty \<and>
      s_server_name (dr_session (hears d3 e2)) = s_server_name (dr_session db))"
proof -
  let ?ask = "OpenChannel tls_offer" and ?up = "Upgrade None (tl_after t)"
  define d1 where "d1 = carries_out (?ask c1) da"
  define e1 where "e1 = hears d1 db"
  define d2 where "d2 = hears e1 d1"
  define e2 where "e2 = swaps (?up c2) e1"
  define d3 where "d3 = swaps (Upgrade None after c3) d2"
  let ?answer = "ChannelHandle (s_next_channel (dr_session da)) tls_agreement"
  note o = tls_opening [OF assms(1), of c1, folded d1_def, folded e1_def, folded d2_def]
  have ask: "tls_upgrade g = TlsAsks ?ask"
    using assms(1) by (simp add: willing_def Let_def tls_upgrade_def tls_offer_def connection_open_channel_def fun_eq_iff)
  have up: "tls_named t (dr_id db) (Told (s_server_name (dr_session db))) w True = (?up, Swapped)"
    using assms(1) by (simp add: willing_def Let_def tls_named_def awaited_def tls_swap_def responder_upgrade_def fun_eq_iff)
  have opened: "tls_opened after ?answer = TlsAsks (connection_upgrade after)"
    by (simp add: tls_opened_def awaited_def tls_agreement_def with_content_def)
  have "at_rest e1" "at_rest d2" using o by blast+
  note e2 = swapped [OF this(1), of "tl_after t" c2, folded e2_def] and d3 = swapped [OF this(2), of after c3, folded d3_def]
  note a = new_greeting_heard [OF assms(3) e2 [THEN conjunct2, THEN conjunct1] _ d3 [THEN conjunct1], of c3]
    and b = new_greeting_heard [OF assms(2) d3 [THEN conjunct2, THEN conjunct1] _ e2 [THEN conjunct1], of c2]
  have "dr_ready d3 = Some c3" "dr_ready e2 = Some c2" using e2 d3 by blast+
  note a = a [OF this(1)] and b = b [OF this(2)]
  have same: "s_server_name (dr_session e1) = s_server_name (dr_session db)" using o by blast
  obtain sq where sq: "dr_out d2 = dr_out d1 @ on_wire (map SeqF sq)"
    "sq = [] \<longleftrightarrow> \<not> due (dr_session da) GREETING_CHANNEL (s_zero (dr_session da)) (of_nat (length (to_payload (MProfile tls_agreement))))"
    using o by blast
  have "replaced_in (dr_effects d3) = replaced_in (dr_effects d2) @ [dr_io d2 @ dr_out d1 @ on_wire (map SeqF sq)]"
    using d3 [THEN conjunct2, THEN conjunct2, THEN conjunct2, THEN conjunct2, THEN conjunct2] sq(1) by simp
  moreover have "d3 = swaps (connection_upgrade after c3) d2" by (simp add: d3_def connection_upgrade_def)
  moreover have "dr_awaiting_upgrade e1" "dr_effects d2 = dr_effects d1 @ [Answered c1 ?answer]" using o by blast+
  moreover have "replaced_in (dr_effects e2) = replaced_in (dr_effects db) @ [dr_io db @ dr_out e1]"
  proof -
    have "dr_effects e1 = dr_effects db @ [OpenTask (s_next_channel (dr_session da)) (tls_handler t)]" "dr_io e1 = dr_io db"
      using o by blast+
    with e2 show ?thesis by simp
  qed
  moreover have "s_server_name (dr_session (hears d3 e2)) = s_server_name (dr_session db)" using b same by metis
  ultimately show ?thesis using ask up opened d1_def e1_def e2_def d2_def sq
      a [THEN conjunct1] a [THEN conjunct2, THEN conjunct2, THEN conjunct1] a [THEN conjunct2, THEN conjunct2, THEN conjunct2, THEN conjunct1]
      b [THEN conjunct1] b [THEN conjunct2, THEN conjunct2, THEN conjunct1] b [THEN conjunct2, THEN conjunct2, THEN conjunct2, THEN conjunct1]
    by (intro exI conjI impI) assumption+
qed

definition sample_client :: "unit driver" where
  "sample_client = (driver_new (config_new Initiator) router_new 1 0 ())\<lparr>dr_session := ready_session Initiator\<rparr>"

definition sample_listener :: "unit driver" where
  "sample_listener = (driver_new (config_new Listener) (router_profile TLS_URI (tls_handler with_acceptor) router_new) 2 0 ())
     \<lparr>dr_session := ready_session Listener\<rparr>"

lemma sample_tls_lengths:
  "length (to_payload (MStart (start_new 1 tls_offer))) \<le> 300" "length (to_payload (MProfile tls_agreement)) \<le> 300"
  by code_simp+

lemma sample_session:
  "s_next_channel (ready_session Initiator) = 1" "\<not> owns (cf_role (s_config (ready_session Listener))) 1"
  "s_channels (ready_session r) 1 = None" "s_events (ready_session r) = []" "s_outbound (ready_session r) = []"
  "s_unacked (ready_session r) = Map.empty" "w_size (ch_recv_window (s_zero (ready_session r))) = DEFAULT_WINDOW_SIZE"
  by (simp_all add: ready_session_def session_init_def config_new_def channel_with_window_size_def)

lemma sample_willing: "willing sample_client (with_profile greeting_new TLS_URI) sample_listener with_acceptor ()"
proof -
  have "fits (ready_session Initiator) (to_payload (MStart (start_new 1 tls_offer)))"
    "fits (ready_session Listener) (to_payload (MProfile tls_agreement))"
    using sample_tls_lengths
    by (simp_all add: fits_def ready_session_def writable_new to_payload_ne INITIAL_WINDOW_SIZE_def zero_new config_new_def
        chunk_limit_def clamp_u32_def limit_defs)
  then show ?thesis
    by (simp add: willing_def Let_def meeting_def sample_client_def sample_listener_def driver_new_def at_rest_def
        ready_sessions_peers sample_session advertises_def with_profile_def GREETING_CHANNEL_def router_choose_def
        start_new_def tls_offer_def with_content_def profile_new_def router_profile_def router_new_def table_insert_def
        with_acceptor_def accept_all_def)
qed

lemma sample_suits: "suits (config_new r) (config_new r')"
  by (simp add: suits_def sample_greeting_short sample_greeting_ok sample_windows)

lemma sample_not_due:
  "\<not> due (ready_session r) GREETING_CHANNEL (s_zero (ready_session r)) (of_nat (length (to_payload (MProfile tls_agreement))))"
  using sample_tls_lengths(2)
  by (simp add: due_def sample_session ack_threshold_def clamp_u32_def DEFAULT_WINDOW_SIZE_def INITIAL_WINDOW_SIZE_def
      saturating_add_def word_le_nat_alt unat_of_nat_u32)

theorem tls_negotiated_witness:
  "\<exists>(d3 :: unit driver) (e2 :: unit driver). dr_effects (hears e2 d3) = dr_effects d3 @ [Answered 3 (Greeted (cf_greeting (config_new Listener)))] \<and>
     dr_effects (hears d3 e2) = dr_effects e2 @ [Answered 2 (Greeted (cf_greeting (config_new Initiator)))] \<and>
     s_authenticated (dr_session (hears d3 e2)) = None"
proof -
  have t: "tl_after with_acceptor = config_new Listener" by (simp add: with_acceptor_def)
  have s: "dr_session sample_client = ready_session Initiator" by (simp add: sample_client_def)
  from tls_negotiated [OF sample_willing, where after = "config_new Initiator" and ?c1.0 = 1 and ?c2.0 = 2 and ?c3.0 = 3,
      unfolded t s, OF sample_suits sample_suits] sample_not_due [of Initiator]
  show ?thesis by (elim exE conjE) (simp only: simp_thms, blast)
qed

text \<open>
  When an acknowledgement is due, the client writes it behind its request, in the clear, once it
  has read the acceptance: by then the listener reads TLS, and what it gets is a \<open>SEQ\<close> frame.
\<close>

lemma seq_before_handshake:
  fixes c :: caller
  assumes "willing da g db t w"
    and "due (dr_session da) GREETING_CHANNEL (s_zero (dr_session da)) (of_nat (length (to_payload (MProfile tls_agreement))))"
  shows "\<exists>q seqs. dr_out (hears (hears (carries_out (OpenChannel tls_offer c) da) db) (carries_out (OpenChannel tls_offer c) da)) =
    dr_out (carries_out (OpenChannel tls_offer c) da) @ encode (SeqF q) [] @ on_wire (map SeqF seqs)"
proof -
  from tls_opening [OF assms(1), of c] assms(2) obtain sq where "sq \<noteq> []"
    "dr_out (hears (hears (carries_out (OpenChannel tls_offer c) da) db) (carries_out (OpenChannel tls_offer c) da)) =
      dr_out (carries_out (OpenChannel tls_offer c) da) @ on_wire (map SeqF sq)" by blast
  then show ?thesis by (cases sq) auto
qed

end
