(* ===== verification/SuiteLocks.thy ===== *)
theory SuiteLocks
  imports Main
begin

text \<open>
  \<^verbatim>\<open>vortice-interop/src/lock.rs\<close>: the lock that keeps interop runs of different processes apart. It is a
  directory: making it succeeds for one process, and one that has been there too long is taken
  for a leftover and removed. Every call to the file system is one step and the steps of the
  processes interleave; between them a process is in one of the phases of its loop. Times are
  milliseconds of one clock that does not go backwards.
\<close>

section \<open>The lock\<close>

definition RETRY :: nat where "RETRY = 200"
definition STALE_AFTER :: nat where "STALE_AFTER = 15 * 60 * 1000"

text \<open>
  How long a process has waited goes round with it and only decides when it says so. \<open>Found\<close> is
  between the failed creation and the look at the directory's age, \<open>Breaking\<close> between that look
  and the removal.
\<close>

datatype lock_phase = Idle | Trying nat | Found nat | Breaking nat | Sleeping nat nat | Holding

record suite =
  su_dir :: "nat option"      \<comment> \<open>when the directory was made, if it is there\<close>
  su_clock :: nat
  su_phase :: "nat \<Rightarrow> lock_phase"

definition suite_new :: suite where
  "suite_new = \<lparr>su_dir = None, su_clock = 0, su_phase = \<lambda>_. Idle\<rparr>"

definition is_stale :: "nat option \<Rightarrow> nat \<Rightarrow> bool" where
  "is_stale dir now = (case dir of None \<Rightarrow> False | Some made \<Rightarrow> STALE_AFTER < now - made)"

datatype lock_move =
    Acquire nat
  | Creates nat
  | FindsIt nat
  | CannotCreate nat     \<comment> \<open>any other failure to make the directory\<close>
  | Looks nat
  | Breaks nat
  | WakesUp nat
  | Releases nat
  | Dies nat             \<comment> \<open>killed outright, with whatever it holds\<close>
  | Tick

definition goes :: "nat \<Rightarrow> lock_phase \<Rightarrow> suite \<Rightarrow> suite" where
  "goes p ph s = s\<lparr>su_phase := (su_phase s)(p := ph)\<rparr>"

fun lock_step :: "lock_move \<Rightarrow> suite \<Rightarrow> suite option" where
  "lock_step (Acquire p) s = (case su_phase s p of Idle \<Rightarrow> Some (goes p (Trying 0) s) | _ \<Rightarrow> None)"
| "lock_step (Creates p) s =
     (case (su_phase s p, su_dir s) of
        (Trying w, None) \<Rightarrow> Some (goes p Holding (s\<lparr>su_dir := Some (su_clock s)\<rparr>))
      | _ \<Rightarrow> None)"
| "lock_step (FindsIt p) s =
     (case (su_phase s p, su_dir s) of (Trying w, Some _) \<Rightarrow> Some (goes p (Found w) s) | _ \<Rightarrow> None)"
| "lock_step (CannotCreate p) s = (case su_phase s p of Trying w \<Rightarrow> Some (goes p Holding s) | _ \<Rightarrow> None)"
| "lock_step (Looks p) s =
     (case su_phase s p of
        Found w \<Rightarrow> Some (goes p (if is_stale (su_dir s) (su_clock s) then Breaking w else Sleeping w (su_clock s + RETRY)) s)
      | _ \<Rightarrow> None)"
| "lock_step (Breaks p) s =
     (case su_phase s p of
        Breaking w \<Rightarrow> Some (goes p (Sleeping w (su_clock s + RETRY)) (s\<lparr>su_dir := None\<rparr>))
      | _ \<Rightarrow> None)"
| "lock_step (WakesUp p) s =
     (case su_phase s p of
        Sleeping w til \<Rightarrow> if til \<le> su_clock s then Some (goes p (Trying (w + RETRY)) s) else None
      | _ \<Rightarrow> None)"
| "lock_step (Releases p) s =
     (case su_phase s p of Holding \<Rightarrow> Some (goes p Idle (s\<lparr>su_dir := None\<rparr>)) | _ \<Rightarrow> None)"
| "lock_step (Dies p) s = Some (goes p Idle s)"
| "lock_step Tick s = Some (s\<lparr>su_clock := su_clock s + 1\<rparr>)"

fun lock_run :: "lock_move list \<Rightarrow> suite \<Rightarrow> suite option" where
  "lock_run [] s = Some s"
| "lock_run (mv # mvs) s = (case lock_step mv s of None \<Rightarrow> None | Some s \<Rightarrow> lock_run mvs s)"

lemma lock_run_append: "lock_run (xs @ ys) s = (case lock_run xs s of None \<Rightarrow> None | Some s \<Rightarrow> lock_run ys s)"
  by (induction xs arbitrary: s) (auto split: option.split)

lemma lock_run_ticks: "lock_run (replicate n Tick) s = Some (s\<lparr>su_clock := su_clock s + n\<rparr>)"
  by (induction n arbitrary: s) simp_all

lemma goes_simps [simp]:
  "su_dir (goes p ph s) = su_dir s" "su_clock (goes p ph s) = su_clock s" "su_phase (goes p ph s) = (su_phase s)(p := ph)"
  by (simp_all add: goes_def)

section \<open>Exclusion\<close>

text \<open>Nobody holds the lock for longer than a directory has to be old to count as a leftover.\<close>

definition held_in_time :: "suite \<Rightarrow> bool" where
  "held_in_time s \<longleftrightarrow> (\<forall>p made. su_phase s p = Holding \<and> su_dir s = Some made \<longrightarrow> su_clock s - made \<le> STALE_AFTER)"

definition breaking :: "suite \<Rightarrow> nat \<Rightarrow> bool" where
  "breaking s p \<longleftrightarrow> (\<exists>w. su_phase s p = Breaking w)"

text \<open>
  What exclusion rests on, at every move of a run: the lock is held in time; it is not taken
  while a process that found a leftover has yet to remove it; and making the directory fails
  only because it is there. Processes may die holding the lock, and leftovers be broken.
\<close>

definition orderly_move :: "lock_move \<Rightarrow> suite \<Rightarrow> bool" where
  "orderly_move mv s \<longleftrightarrow> held_in_time s \<and>
     (case mv of Creates p \<Rightarrow> \<forall>q. \<not> breaking s q | CannotCreate p \<Rightarrow> False | _ \<Rightarrow> True)"

fun orderly :: "lock_move list \<Rightarrow> suite \<Rightarrow> bool" where
  "orderly [] s \<longleftrightarrow> True"
| "orderly (mv # mvs) s \<longleftrightarrow> orderly_move mv s \<and> (case lock_step mv s of None \<Rightarrow> True | Some s' \<Rightarrow> orderly mvs s')"

definition exclusive :: "suite \<Rightarrow> bool" where
  "exclusive s \<longleftrightarrow> (\<forall>p. su_phase s p = Holding \<longrightarrow> su_dir s \<noteq> None \<and> (\<forall>q. \<not> breaking s q) \<and>
     (\<forall>q. su_phase s q = Holding \<longrightarrow> q = p))"

lemma breaking_goes: "breaking (goes p ph s) q \<longleftrightarrow> (if q = p then \<exists>w. ph = Breaking w else breaking s q)"
  by (simp add: breaking_def)

lemma breaking_dir [simp]: "breaking (s\<lparr>su_dir := d\<rparr>) = breaking s" "breaking (s\<lparr>su_clock := c\<rparr>) = breaking s"
  by (simp_all add: breaking_def fun_eq_iff)

lemma exclusive_free:
  "\<forall>q. q \<noteq> p \<longrightarrow> su_phase s q \<noteq> Holding \<Longrightarrow> ph \<noteq> Holding \<Longrightarrow> exclusive (goes p ph s)"
  by (auto simp: exclusive_def)

lemma exclusive_waits:
  assumes "exclusive s" and "ph \<noteq> Holding" and "\<nexists>w. ph = Breaking w" shows "exclusive (goes p ph s)"
  using assms by (auto simp: exclusive_def breaking_goes)

lemma exclusive_step:
  assumes "exclusive s" and "orderly_move mv s" and "lock_step mv s = Some s'"
  shows "exclusive s'"
proof (cases mv)
  case (Creates p)
  with assms(3) have "su_dir s = None" and s': "s' = goes p Holding (s\<lparr>su_dir := Some (su_clock s)\<rparr>)"
    by (auto split: lock_phase.splits option.splits)
  then have "su_phase s q \<noteq> Holding" for q using assms(1) by (auto simp: exclusive_def)
  moreover have "\<not> breaking s q" for q using assms(2) Creates by (simp add: orderly_move_def)
  ultimately show ?thesis unfolding s' by (auto simp: exclusive_def breaking_goes)
next
  case (Looks p)
  with assms(3) obtain w where s': "s' = goes p (if is_stale (su_dir s) (su_clock s) then Breaking w else Sleeping w (su_clock s + RETRY)) s"
    by (auto split: lock_phase.splits)
  show ?thesis
  proof (cases "is_stale (su_dir s) (su_clock s)")
    case True
    then have "su_phase s q \<noteq> Holding" for q
      using assms(2) by (auto simp: orderly_move_def held_in_time_def is_stale_def split: option.splits)
    with True show ?thesis unfolding s' by (auto intro!: exclusive_free)
  next
    case False
    with assms(1) show ?thesis unfolding s' by (auto intro!: exclusive_waits)
  qed
next
  case (Breaks p)
  with assms(3) obtain w where w: "su_phase s p = Breaking w" and
    s': "s' = goes p (Sleeping w (su_clock s + RETRY)) (s\<lparr>su_dir := None\<rparr>)" by (auto split: lock_phase.splits)
  from w assms(1) have "su_phase s q \<noteq> Holding" for q by (auto simp: exclusive_def breaking_def)
  then show ?thesis unfolding s' by (intro exclusive_free) simp_all
next
  case (Releases p)
  with assms(3) have h: "su_phase s p = Holding" and s': "s' = goes p Idle (s\<lparr>su_dir := None\<rparr>)" by (auto split: lock_phase.splits)
  from h assms(1) have "su_phase s q \<noteq> Holding" if "q \<noteq> p" for q using that by (auto simp: exclusive_def)
  then show ?thesis unfolding s' by (intro exclusive_free) simp_all
next
  case Tick
  with assms(1,3) show ?thesis by (auto simp: exclusive_def)
qed (use assms in \<open>auto simp: orderly_move_def intro!: exclusive_waits split: lock_phase.splits option.splits if_splits\<close>)

lemma exclusive_run: "exclusive s \<Longrightarrow> orderly mvs s \<Longrightarrow> lock_run mvs s = Some s' \<Longrightarrow> exclusive s'"
proof (induction mvs arbitrary: s)
  case (Cons mv mvs)
  then obtain s1 where s1: "lock_step mv s = Some s1" "lock_run mvs s1 = Some s'" by (auto split: option.splits)
  with Cons.prems exclusive_step [OF Cons.prems(1) _ s1(1)] Cons.IH [of s1] show ?case by simp
qed simp

lemma exclusive_new: "exclusive suite_new"
  by (simp add: exclusive_def suite_new_def)

text \<open>Time passing while nobody holds the lock is orderly.\<close>

lemma orderly_ticks:
  assumes "\<forall>p. su_phase s p \<noteq> Holding"
  shows "orderly (replicate n Tick @ mvs) s \<longleftrightarrow> orderly mvs (s\<lparr>su_clock := su_clock s + n\<rparr>)"
  using assms by (induction n arbitrary: s) (simp_all add: orderly_move_def held_in_time_def)

section \<open>Leftovers\<close>

text \<open>A lock left behind is broken by whoever waits for it, who gets it if nobody is faster.\<close>

definition break_and_take :: "nat \<Rightarrow> lock_move list" where
  "break_and_take p = [FindsIt p, Looks p, Breaks p] @ replicate RETRY Tick @ [WakesUp p, Creates p]"

lemma leftover_broken:
  assumes "su_phase s p = Trying w" and "is_stale (su_dir s) (su_clock s)"
  shows "\<exists>s'. lock_run (break_and_take p) s = Some s' \<and> su_phase s' p = Holding \<and> su_dir s' = Some (su_clock s + RETRY)"
  using assms by (auto simp: break_and_take_def lock_run_append lock_run_ticks is_stale_def split: option.splits)

text \<open>
  Looking and removing are two steps with a gap in the middle: of two processes that found the
  same leftover, the slower one removes the lock the faster one has taken since, and both run.
\<close>

definition two_breakers :: "lock_move list" where
  "two_breakers = [Acquire 0, Creates 0, Dies 0] @ replicate (STALE_AFTER + 1) Tick @
     [Acquire 1, Acquire 2, FindsIt 1, FindsIt 2, Looks 1, Looks 2, Breaks 1] @ replicate RETRY Tick @
     [WakesUp 1, Creates 1, Breaks 2] @ replicate RETRY Tick @ [WakesUp 2, Creates 2]"

lemma leftover_broken_twice:
  "\<exists>s. lock_run two_breakers suite_new = Some s \<and> su_phase s 1 = Holding \<and> su_phase s 2 = Holding"
  by (simp add: two_breakers_def lock_run_append lock_run_ticks suite_new_def is_stale_def goes_def)

text \<open>
  A process that could not make the directory runs all the same, and when it is done removes
  whatever lock is there, so that a third one is let in beside the one that holds it.
\<close>

lemma foreign_lock_released:
  "\<exists>s. lock_run [Acquire 1, CannotCreate 1, Acquire 2, Creates 2, Releases 1, Acquire 3, Creates 3] suite_new = Some s \<and>
     su_phase s 2 = Holding \<and> su_phase s 3 = Holding"
  by (simp add: suite_new_def goes_def)

text \<open>A process that holds the lock for too long loses it to the next.\<close>

definition overstayed :: "lock_move list" where
  "overstayed = [Acquire 1, Creates 1] @ replicate (STALE_AFTER + 1) Tick @ [Acquire 2] @ break_and_take 2"

lemma overdue_lock_taken:
  "\<exists>s. lock_run overstayed suite_new = Some s \<and> su_phase s 1 = Holding \<and> su_phase s 2 = Holding"
  by (simp add: overstayed_def break_and_take_def lock_run_append lock_run_ticks suite_new_def is_stale_def goes_def)

section \<open>Properties\<close>

text \<open>
  C36 (safety). However the steps of any number of processes interleave, processes dying with
  the lock and leftovers being broken included, at most one of them holds the suite lock, its
  directory is there, and nobody is about to remove it, as long as three things are so of every
  step: nobody has held the lock for longer than a directory has to be old to count as left
  behind; the lock is not taken while a process that found a leftover has yet to remove it; and
  making the directory fails only because it is there. None can be left out: see
  \<open>overdue_lock_taken\<close>, \<open>leftover_broken_twice\<close> and \<open>foreign_lock_released\<close>.
\<close>

theorem suite_lock_excludes:
  assumes "lock_run mvs suite_new = Some s" and "orderly mvs suite_new" and "su_phase s p = Holding"
  shows "su_dir s \<noteq> None \<and> (\<forall>q. su_phase s q = Holding \<longrightarrow> q = p) \<and> (\<forall>q w. su_phase s q \<noteq> Breaking w)"
  using exclusive_run [OF exclusive_new assms(2,1)] assms(3) unfolding exclusive_def breaking_def by blast

text \<open>A lock is left behind and broken; the process that broke it gets it, and a third one waits.\<close>

definition broken_once :: "lock_move list" where
  "broken_once = [Acquire 1, Creates 1, Dies 1] @ replicate (STALE_AFTER + 1) Tick @
     [Acquire 2, FindsIt 2, Looks 2, Breaks 2] @ replicate RETRY Tick @
     [WakesUp 2, Creates 2, Acquire 3, FindsIt 3, Looks 3]"

theorem suite_lock_excludes_witness:
  "\<exists>s. lock_run broken_once suite_new = Some s \<and> su_phase s 2 = Holding \<and> (\<exists>w til. su_phase s 3 = Sleeping w til) \<and>
     su_dir s \<noteq> None \<and> (\<forall>q. su_phase s q = Holding \<longrightarrow> q = 2)"
proof -
  have "orderly broken_once suite_new"
    by (simp add: broken_once_def orderly_ticks orderly_move_def held_in_time_def breaking_def suite_new_def goes_def
        is_stale_def)
  moreover have "\<exists>s. lock_run broken_once suite_new = Some s \<and> su_phase s 2 = Holding \<and> (\<exists>w til. su_phase s 3 = Sleeping w til)"
    by (simp add: broken_once_def lock_run_append lock_run_ticks suite_new_def goes_def is_stale_def)
  then obtain s where s: "lock_run broken_once suite_new = Some s" "su_phase s 2 = Holding" "\<exists>w til. su_phase s 3 = Sleeping w til"
    by blast
  ultimately show ?thesis using suite_lock_excludes [OF s(1) _ s(2)] by blast
qed

end
