(* ===== verification/ClientRuns.thy ===== *)
theory ClientRuns
  imports Text
begin

text \<open>
  \<^verbatim>\<open>vortice-interop/src/lib.rs\<close>, what it makes of a run of the C regression client: the output is
  text, as \<open>from_utf8_lossy\<close> made it, and \<open>check\<close> decides whether the run proves what it was for.
  Locating the suite and handling its processes is I/O and not modelled.
\<close>

section \<open>The output\<close>

definition BEGIN_MARKER :: bytes where "BEGIN_MARKER = ''INFO: [begin] ''"
definition END_MARKER :: bytes where "END_MARKER = ''INFO: [end] ''"
definition FAILED_MARKER :: bytes where "FAILED_MARKER = ''INFO: [failed] ''"
definition OK_MARKER :: bytes where "OK_MARKER = ''[   OK   ]''"
definition WARNING_MARKER :: bytes where "WARNING_MARKER = ''--- WARNING:''"
definition SKIP_PHRASE :: bytes where "SKIP_PHRASE = ''doing nothing..''"
definition SUCCESS_LINE :: bytes where "SUCCESS_LINE = ''All test ok!''"

text \<open>\<open>str::lines\<close> and \<open>str::contains\<close>.\<close>

function str_lines :: "bytes \<Rightarrow> bytes list" where
  "str_lines s =
     (case find_byte s LF of
        None \<Rightarrow> if s = [] then [] else [s]
      | Some i \<Rightarrow> strip_cr (take i s) # str_lines (drop (i + 1) s))"
  by pat_completeness auto
termination
  by (relation "measure length") (auto dest!: find_byte_SomeD)

declare str_lines.simps [simp del]

definition contains :: "bytes \<Rightarrow> bytes \<Rightarrow> bool" where
  "contains s pat \<longleftrightarrow> find_subslice s pat \<noteq> None"

record client_run =
  cr_success :: bool
  cr_stdout :: bytes
  cr_stderr :: bytes

definition from_output :: "bool \<Rightarrow> bytes \<Rightarrow> bytes \<Rightarrow> client_run" where
  "from_output success out err =
     \<lparr>cr_success = success, cr_stdout = from_utf8_lossy out, cr_stderr = from_utf8_lossy err\<rparr>"

definition run_transcript :: "client_run \<Rightarrow> bytes" where
  "run_transcript r = ''--- stdout ---'' @ [LF] @ cr_stdout r @ [LF] @ ''--- stderr ---'' @ [LF] @ cr_stderr r"

section \<open>Which tests completed\<close>

text \<open>
  The label of a test. \<open>split_at\<close> would panic inside a character; the names of tests are ASCII.
\<close>

definition completion_label :: "bytes \<Rightarrow> bytes option" where
  "completion_label name =
     (case strip_prefix ''test_'' name of
        None \<Rightarrow> None
      | Some rest \<Rightarrow>
          if length rest < 2 then None
          else (let number = take 2 rest; suffix = drop 2 rest in
                Some (if suffix = [] then ''Test '' @ number else ''Test '' @ number @ ''-'' @ suffix)))"

definition marked :: "client_run \<Rightarrow> bytes \<Rightarrow> bytes \<Rightarrow> bool" where
  "marked r marker name \<longleftrightarrow>
     list_ex (\<lambda>rest. trim_end rest = name) (List.map_filter (strip_prefix marker) (str_lines (cr_stdout r)))"

text \<open>A completion line under the name given.\<close>

definition completes_as :: "bytes \<Rightarrow> bytes \<Rightarrow> bool" where
  "completes_as line p =
     (case strip_prefix p line of None \<Rightarrow> False | Some rest \<Rightarrow> starts_with rest '': '' \<and> contains rest OK_MARKER)"

definition completed_by_label :: "client_run \<Rightarrow> bytes \<Rightarrow> bool" where
  "completed_by_label r name \<longleftrightarrow>
     (let label = completion_label name
      in list_ex (\<lambda>line. completes_as line name \<or> (case label of None \<Rightarrow> False | Some l \<Rightarrow> completes_as line l))
           (str_lines (cr_stdout r)))"

definition completed :: "client_run \<Rightarrow> bytes \<Rightarrow> bool" where
  "completed r name \<longleftrightarrow> marked r END_MARKER name \<or> completed_by_label r name"

definition run_failed :: "client_run \<Rightarrow> bytes \<Rightarrow> bool" where
  "run_failed r name \<longleftrightarrow> marked r FAILED_MARKER name"

definition final_marked :: "client_run \<Rightarrow> bytes \<Rightarrow> bytes option" where
  "final_marked r marker =
     (case List.map_filter (strip_prefix marker) (str_lines (cr_stdout r)) of
        [] \<Rightarrow> None
      | x # xs \<Rightarrow> Some (trim_end (last (x # xs))))"

definition last_started :: "client_run \<Rightarrow> bytes option" where
  "last_started r = final_marked r BEGIN_MARKER"

definition culprit :: "client_run \<Rightarrow> bytes option" where
  "culprit r = (case final_marked r FAILED_MARKER of Some t \<Rightarrow> Some t | None \<Rightarrow> last_started r)"

section \<open>The verdict\<close>

datatype interop_error =
    ClientFailed "bytes option" bytes
  | TestNotRun bytes bytes
  | TestSkipped bytes
  | NoSuccessLine bytes

definition client_check :: "client_run \<Rightarrow> bytes list \<Rightarrow> interop_error + unit" where
  "client_check r expected =
     (if \<not> cr_success r then Inl (ClientFailed (culprit r) (run_transcript r))
      else case find (\<lambda>name. \<not> completed r name) expected of
             Some name \<Rightarrow> Inl (TestNotRun name (run_transcript r))
           | None \<Rightarrow>
               (case find (\<lambda>line. contains line WARNING_MARKER \<or> contains line SKIP_PHRASE) (str_lines (cr_stdout r)) of
                  Some line \<Rightarrow> Inl (TestSkipped (str_trim line))
                | None \<Rightarrow>
                    if contains (cr_stdout r) SUCCESS_LINE then Inr () else Inl (NoSuccessLine (run_transcript r))))"

section \<open>Lemmas\<close>

lemma containsI: "contains (a @ pat @ b) pat"
  using find_subslice_None [of "a @ pat @ b" pat a b] by (auto simp: contains_def)

lemma containsE: "contains s pat \<Longrightarrow> \<exists>a b. s = a @ pat @ b"
  unfolding contains_def using find_subslice_Some by blast

lemma contains_more: "contains s pat \<Longrightarrow> contains (p @ s) pat"
  using containsE [of s pat] containsI by (metis append_assoc)

lemma completes_asI: "contains what OK_MARKER \<Longrightarrow> completes_as (p @ '': '' @ what) p"
  using contains_more [of what OK_MARKER "'': ''"] by (simp add: completes_as_def starts_with_def)

lemma completes_asE: "completes_as line p \<Longrightarrow> \<exists>x. line = p @ '': '' @ x \<and> contains line OK_MARKER"
  using contains_more [of _ OK_MARKER p]
  by (auto simp: completes_as_def strip_prefix_Some_iff starts_with_iff split: option.splits)

text \<open>Names as the suite has them, and their labels, of which no two are alike.\<close>

definition test_name :: "bytes \<Rightarrow> bool" where
  "test_name t \<longleftrightarrow> (\<exists>a b more. t = ''test_'' @ a # b # more) \<and> (\<forall>c \<in> set t. graphic c \<and> c \<noteq> CHR '':'')"

lemma test_nameD:
  assumes "test_name t"
  shows "trim_end t = t" "CHR '':'' \<notin> set t" "\<exists>a b more. t = ''test_'' @ a # b # more"
proof -
  note d = assms [unfolded test_name_def]
  show ex: "\<exists>a b more. t = ''test_'' @ a # b # more" by (rule d [THEN conjunct1])
  have g: "\<forall>c \<in> set t. graphic c \<and> c \<noteq> CHR '':''" by (rule d [THEN conjunct2])
  from ex have ne: "t \<noteq> []" by (elim exE) simp
  with g have "graphic (last t)" using last_in_set by blast
  with ne show "trim_end t = t" by (rule trim_end_id)
  show "CHR '':'' \<notin> set t" using g by blast
qed

lemma test_name_label:
  assumes "test_name t"
  shows "\<exists>l. completion_label t = Some l \<and> starts_with l ''Test '' \<and> CHR '':'' \<notin> set l"
proof -
  from test_nameD(3) [OF assms] obtain a b more where t: "t = ''test_'' @ a # b # more" by blast
  then have "completion_label t = Some (''Test '' @ a # b # (if more = [] then [] else CHR ''-'' # more))"
    by (simp add: completion_label_def)
  with test_nameD(2) [OF assms] t show ?thesis by (simp add: starts_with_def)
qed

lemma label_inj:
  assumes "completion_label s = Some l" and "completion_label t = Some l" shows "s = t"
proof -
  have inv: "\<exists>a b more. u = ''test_'' @ a # b # more \<and> l = ''Test '' @ a # b # (if more = [] then [] else CHR ''-'' # more)"
    if "completion_label u = Some l" for u
  proof -
    from that obtain rest where r: "u = ''test_'' @ rest" "2 \<le> length rest"
      "l = (if drop 2 rest = [] then ''Test '' @ take 2 rest else ''Test '' @ take 2 rest @ ''-'' @ drop 2 rest)"
      by (auto simp: completion_label_def Let_def strip_prefix_Some_iff split: option.splits if_splits)
    then obtain a b more where "rest = a # b # more" by (cases rest; cases "tl rest") auto
    with r show ?thesis by auto
  qed
  from inv [OF assms(1)] inv [OF assms(2)] show ?thesis by (auto split: if_splits)
qed

text \<open>
  The lines of a run in which exactly the tests of \<open>ended\<close> completed: each says so, by the marker or by
  its label with the mark of success, and no other test does. Any other line is noise, a line
  that starts with the label of a test without that mark included: a test that failed, was left out or is
  only announced. What the client echoes of its arguments is noise too.
\<close>

definition reported :: "bytes \<Rightarrow> bytes \<Rightarrow> bool" where
  "reported t line \<longleftrightarrow> line = END_MARKER @ t \<or>
     (\<exists>l what. completion_label t = Some l \<and> line = l @ '': '' @ what \<and> contains what OK_MARKER)"

definition noise :: "bytes \<Rightarrow> bool" where
  "noise line \<longleftrightarrow> \<not> starts_with line END_MARKER \<and>
     \<not> ((starts_with line ''Test '' \<or> starts_with line ''test_'') \<and> contains line OK_MARKER)"

definition reports :: "bytes set \<Rightarrow> bytes list \<Rightarrow> bool" where
  "reports ended ls \<longleftrightarrow> (\<forall>t \<in> ended. test_name t \<and> (\<exists>line \<in> set ls. reported t line)) \<and>
     (\<forall>line \<in> set ls. noise line \<or> (\<exists>t \<in> ended. reported t line))"

lemma reported_completed:
  assumes "test_name t" and "line \<in> set (str_lines (cr_stdout r))" and "reported t line" shows "completed r t"
proof -
  have "trim_end t = t" using assms(1) by (rule test_nameD)
  then have "marked r END_MARKER t" if "line = END_MARKER @ t"
    using assms(2) that by (force simp: marked_def list_ex_iff List.map_filter_def)
  moreover have "completed_by_label r t" if "completion_label t = Some l" "line = l @ '': '' @ what" "contains what OK_MARKER" for l what
    unfolding completed_by_label_def Let_def list_ex_iff
    using assms(2) that(1,2) completes_asI [OF that(3)] by (intro bexI [of _ line]) simp_all
  ultimately show ?thesis using assms(3) by (auto simp: reported_def completed_def)
qed

lemma label_prefix:
  assumes "l @ '': '' @ x = l' @ '': '' @ y" and "CHR '':'' \<notin> set l" and "CHR '':'' \<notin> set l'" shows "l = l'"
proof -
  have "takeWhile (\<lambda>c. c \<noteq> CHR '':'') (k @ '': '' @ z) = k" if "CHR '':'' \<notin> set k" for k z
    using that by (induction k) auto
  with assms show ?thesis by metis
qed

lemma completed_reported:
  assumes "test_name t" and "reports ended (str_lines (cr_stdout r))" and "completed r t" shows "t \<in> ended"
proof -
  obtain l where l: "completion_label t = Some l" "starts_with l ''Test ''" "CHR '':'' \<notin> set l" using test_name_label [OF assms(1)] by blast
  have by_line: "\<exists>u \<in> ended. reported u line \<and> test_name u" if "line \<in> set (str_lines (cr_stdout r))" "\<not> noise line" for line
    using assms(2) that by (auto simp: reports_def)
  have head: "u = t" if u: "reported u (l @ '': '' @ x)" "test_name u" for u x
  proof -
    obtain k where k: "completion_label u = Some k" "CHR '':'' \<notin> set k" using test_name_label [OF u(2)] by blast
    from l(2) obtain l' where "l = ''Test '' @ l'" by (auto simp: starts_with_iff)
    then have "l @ '': '' @ x \<noteq> END_MARKER @ u" by (simp add: END_MARKER_def)
    with u(1) k(1) obtain what where "l @ '': '' @ x = k @ '': '' @ what" by (auto simp: reported_def)
    from label_prefix [OF this l(3) k(2)] l(1) k(1) label_inj show ?thesis by metis
  qed
  consider (marked) rest where "END_MARKER @ rest \<in> set (str_lines (cr_stdout r))" "trim_end rest = t"
    | (by_name) x where "t @ '': '' @ x \<in> set (str_lines (cr_stdout r))" "contains (t @ '': '' @ x) OK_MARKER"
    | (by_label) x where "l @ '': '' @ x \<in> set (str_lines (cr_stdout r))" "contains (l @ '': '' @ x) OK_MARKER"
  proof -
    have "marked r END_MARKER t \<or> (\<exists>line \<in> set (str_lines (cr_stdout r)). completes_as line t \<or> completes_as line l)"
      using assms(3) l(1) by (simp add: completed_def completed_by_label_def list_ex_iff)
    moreover have "\<exists>rest. END_MARKER @ rest \<in> set (str_lines (cr_stdout r)) \<and> trim_end rest = t" if "marked r END_MARKER t"
      using that by (auto simp: marked_def list_ex_iff List.map_filter_def strip_prefix_Some_iff)
    ultimately show thesis using marked by_name by_label completes_asE by metis
  qed
  then show ?thesis
  proof cases
    case marked
    then obtain u where u: "u \<in> ended" "reported u (END_MARKER @ rest)" "test_name u"
      using by_line [OF marked(1)] by (auto simp: noise_def starts_with_iff)
    obtain k k' where k: "completion_label u = Some k" "k = ''Test '' @ k'"
      using test_name_label [OF u(3)] by (auto simp: starts_with_iff)
    with u(2) have "rest = u" by (auto simp: reported_def END_MARKER_def)
    moreover have "trim_end u = u" using u(3) by (rule test_nameD)
    ultimately show ?thesis using marked(2) u(1) by simp
  next
    case by_name
    obtain t' where t': "t = ''test_'' @ t'" using test_nameD(3) [OF assms(1)] by blast
    with by_name(2) have "\<not> noise (t @ '': '' @ x)" by (simp add: noise_def starts_with_iff)
    from by_line [OF by_name(1) this] obtain u where u: "reported u (t @ '': '' @ x)" "test_name u" by blast
    from test_name_label [OF u(2)] u(1) t' show ?thesis by (auto simp: reported_def END_MARKER_def starts_with_iff)
  next
    case by_label
    have "\<not> noise (l @ '': '' @ x)" using l(2) by_label(2) by (auto simp: noise_def starts_with_iff)
    from by_line [OF by_label(1) this] head show ?thesis by blast
  qed
qed

section \<open>Properties\<close>

text \<open>
  C38 (equivalence). A run of the client that ended well, and in which nothing was skipped, is
  accepted for a list of expected tests exactly when each of them completed. A test whose line
  does not carry the mark of success, and a name that matches
  no test, which the client silently ignores while echoing it and reporting success, are never
  taken for a pass, whether or not the client writes markers; and the first such name is the one reported.
\<close>

theorem check_exact:
  assumes "reports ended (str_lines (cr_stdout r))" and "cr_success r" and "contains (cr_stdout r) SUCCESS_LINE"
    and "\<forall>line \<in> set (str_lines (cr_stdout r)). \<not> contains line WARNING_MARKER \<and> \<not> contains line SKIP_PHRASE"
    and "\<forall>t \<in> set expected. test_name t"
  shows "client_check r expected =
    (case find (\<lambda>t. t \<notin> ended) expected of None \<Rightarrow> Inr () | Some t \<Rightarrow> Inl (TestNotRun t (run_transcript r)))"
proof -
  have "completed r t \<longleftrightarrow> t \<in> ended" if "t \<in> set expected" for t
    using assms(1,5) that completed_reported reported_completed unfolding reports_def by blast
  then have "find (\<lambda>t. \<not> completed r t) expected = find (\<lambda>t. t \<notin> ended) expected"
    by (intro find_cong) auto
  moreover have "find (\<lambda>line. contains line WARNING_MARKER \<or> contains line SKIP_PHRASE) (str_lines (cr_stdout r)) = None"
    using assms(4) by (auto simp: find_None_iff)
  ultimately show ?thesis using assms(2,3) by (auto simp: client_check_def split: option.split)
qed

definition sample_run :: client_run where
  "sample_run = \<lparr>cr_success = True, cr_stdout = ''INFO: running test=test_01,test_02,test_typo'' @ [LF] @
     ''INFO: [begin] test_01'' @ [LF] @ ''Test 01: basic [   OK   ]'' @ [LF] @ ''INFO: [end] test_01'' @ [CR, LF] @
     ''Test 02: hard [ FAILED ]'' @ [LF] @ ''All test ok!'' @ [LF], cr_stderr = []\<rparr>"

theorem check_exact_witness:
  "client_check sample_run [''test_01'', ''test_02'', ''test_typo''] = Inl (TestNotRun ''test_02'' (run_transcript sample_run)) \<and>
   client_check sample_run [''test_01''] = Inr ()"
proof -
  have ls: "str_lines (cr_stdout sample_run) = [''INFO: running test=test_01,test_02,test_typo'', ''INFO: [begin] test_01'',
      ''Test 01: basic [   OK   ]'', ''INFO: [end] test_01'', ''Test 02: hard [ FAILED ]'', ''All test ok!'']" by code_simp
  have names: "test_name ''test_01''" "test_name ''test_02''" "test_name ''test_typo''" by (simp_all add: test_name_def graphic_def)
  have "reported ''test_01'' ''INFO: [end] test_01''" by (simp add: reported_def END_MARKER_def)
  moreover have "reported ''test_01'' ''Test 01: basic [   OK   ]''"
    using containsI [of "''basic ''" OK_MARKER "[]"]
    by (auto simp: reported_def completion_label_def OK_MARKER_def intro!: exI [of _ "''basic [   OK   ]''"])
  moreover have "\<not> contains ''Test 02: hard [ FAILED ]'' OK_MARKER" by code_simp
  ultimately have rep: "reports {''test_01''} (str_lines (cr_stdout sample_run))"
    unfolding ls reports_def using names(1) by (simp add: noise_def starts_with_def END_MARKER_def)
  have quiet: "list_all (\<lambda>line. \<not> contains line WARNING_MARKER \<and> \<not> contains line SKIP_PHRASE) (str_lines (cr_stdout sample_run))"
    unfolding ls by code_simp
  have end': "contains (cr_stdout sample_run) SUCCESS_LINE" "cr_success sample_run" by code_simp+
  from quiet have quiet': "\<forall>line \<in> set (str_lines (cr_stdout sample_run)). \<not> contains line WARNING_MARKER \<and> \<not> contains line SKIP_PHRASE"
    by (simp only: list_all_iff)
  note exact = check_exact [OF rep end'(2,1) quiet']
  from exact [of "[''test_01'', ''test_02'', ''test_typo'']"] exact [of "[''test_01'']"] names show ?thesis by simp
qed

end
