(* ===== verification/RegressionProfiles.thy ===== *)
theory RegressionProfiles
  imports DriverReplies Text
begin

text \<open>
  \<^verbatim>\<open>vortice-interop/src/profiles.rs\<close>: the profiles a listener serves to the C regression suite. What
  a handler does in its own task is a \<open>task\<close>: it asks the session for one thing after the other
  and goes on from each answer. What the handlers share is the state \<open>regression\<close>, and the file
  system is an argument. The trace \<^verbatim>\<open>echo\<close> writes when an environment variable asks for it is not
  modelled.
\<close>

section \<open>Tasks\<close>

text \<open>\<open>Together\<close> is \<open>join!\<close>: its calls are all made before any of them is answered.\<close>

datatype task =
    Finished
  | Call "caller \<Rightarrow> command" "answer \<Rightarrow> task"
  | Together "(caller \<Rightarrow> command) list" task
  | Sleep nat task

definition call_ok :: "answer \<Rightarrow> bool" where
  "call_ok a = (case awaited a of Failure _ \<Rightarrow> False | _ \<Rightarrow> True)"

text \<open>\<open>let _ = ...\<close>, and a return when the call fails.\<close>

definition ignoring :: "(caller \<Rightarrow> command) \<Rightarrow> task \<Rightarrow> task" where
  "ignoring cmd t = Call cmd (\<lambda>_. t)"

definition or_return :: "(caller \<Rightarrow> command) \<Rightarrow> task \<Rightarrow> task" where
  "or_return cmd t = Call cmd (\<lambda>a. if call_ok a then t else Finished)"

fun answering :: "u32 \<Rightarrow> u32 \<Rightarrow> bytes list \<Rightarrow> task \<Rightarrow> task" where
  "answering ch msgno [] t = t"
| "answering ch msgno (a # as) t = or_return (responder_answer ch msgno a) (answering ch msgno as t)"

fun answering_all :: "u32 \<Rightarrow> u32 \<Rightarrow> bytes list \<Rightarrow> task \<Rightarrow> task" where
  "answering_all ch msgno [] t = t"
| "answering_all ch msgno (a # as) t = ignoring (responder_answer ch msgno a) (answering_all ch msgno as t)"

definition replying :: "u32 \<Rightarrow> u32 \<Rightarrow> bytes \<Rightarrow> task \<Rightarrow> task" where
  "replying ch msgno p t = ignoring (responder_reply ch msgno p) t"

definition finishing :: "u32 \<Rightarrow> u32 \<Rightarrow> task \<Rightarrow> task" where
  "finishing ch msgno t = ignoring (responder_finish ch msgno) t"

section \<open>Values\<close>

definition ECHO :: bytes where "ECHO = ''http://iana.org/beep/transient/vortex-regression''"
definition ECHO_2 :: bytes where "ECHO_2 = ''http://iana.org/beep/transient/vortex-regression/2''"
definition ECHO_3 :: bytes where "ECHO_3 = ''http://iana.org/beep/transient/vortex-regression/3''"
definition DENY_SUPPORTED :: bytes where "DENY_SUPPORTED = ''http://iana.org/beep/transient/vortex-regression/deny_supported''"
definition BLOCK_TLS :: bytes where "BLOCK_TLS = ''http://iana.org/beep/transient/vortex-regression/block-tls''"
definition ZERO :: bytes where "ZERO = ''http://iana.org/beep/transient/vortex-regression/zero''"
definition CLOSE_IN_TRANSIT :: bytes where "CLOSE_IN_TRANSIT = ''http://iana.org/beep/transient/close-in-transit''"
definition BLOCKS :: bytes where "BLOCKS = ''http://iana.org/beep/transient/vortex-regression/4''"
definition ANS_NUL_REPLY_CLOSE :: bytes where
  "ANS_NUL_REPLY_CLOSE = ''http://iana.org/beep/transient/vortex-regression/ans-nul-reply-close''"
definition FAST_SEND :: bytes where "FAST_SEND = ''http://iana.org/beep/transient/vortex-regression/fast-send''"
definition FILES :: bytes where "FILES = ''http://iana.org/beep/transient/vortex-regression/5''"
definition SIMPLE_ANS_NUL :: bytes where "SIMPLE_ANS_NUL = ''http://iana.org/beep/transient/vortex-regression/simple-ans-nul''"
definition ANS_NUL_WAIT :: bytes where "ANS_NUL_WAIT = ''http://iana.org/beep/transient/vortex-regression/ans-nul-wait''"
definition MIXING_REPLIES :: bytes where "MIXING_REPLIES = ''http://iana.org/beep/transient/vortex-regression/mixing-replies''"
definition CLOSE_AFTER_ANS_NUL :: bytes where
  "CLOSE_AFTER_ANS_NUL = ''http://iana.org/beep/transient/vortex-regression/close-after-ans-nul-replies''"

definition FILE_BLOCK :: nat where "FILE_BLOCK = 4096"
definition SIMPLE_ANS_COUNT :: nat where "SIMPLE_ANS_COUNT = 30"
definition CLOSE_AFTER_ANS_COUNT :: nat where "CLOSE_AFTER_ANS_COUNT = 10000"
definition SERVICE_NOT_AVAILABLE :: u32 where "SERVICE_NOT_AVAILABLE = 421"

definition bulk_payload :: bytes where
  "bulk_payload =
     concat (replicate 75 ''This is a large file that contains arbitrary content. '') @
     ''This is a large file that contains arbitrary .''"

text \<open>\<open>trim().parse()\<close> into an unsigned integer of so many values; a \<open>usize\<close> has 64 bits.\<close>

definition parse_below :: "int \<Rightarrow> bytes \<Rightarrow> nat option" where
  "parse_below bound s =
     (let s = str_trim s;
          ds = (case s of c # cs \<Rightarrow> if c = CHR ''+'' then cs else s | [] \<Rightarrow> s)
      in if ds \<noteq> [] \<and> (\<forall>d \<in> set ds. is_ascii_digit d) \<and> int (dec_val 0 ds) < bound then Some (dec_val 0 ds) else None)"

section \<open>Profiles\<close>

text \<open>
  What every session served shares: which reply \<^verbatim>\<open>/mixing-replies\<close> gives next to whom, and whether
  the next request to tune is to be refused.
\<close>

record regression =
  rg_mixing :: "(nat, bool) table"
  rg_block_tls :: bool

definition regression_new :: regression where
  "regression_new = \<lparr>rg_mixing = [], rg_block_tls = False\<rparr>"

definition echo :: "u32 \<Rightarrow> delivered \<Rightarrow> task" where
  "echo ch msg =
     (if dl_payload msg = ''GET serverName''
      then Call responder_server_name (\<lambda>a.
        replying ch (dl_msgno msg) (case awaited a of Told (Some nm) \<Rightarrow> nm | _ \<Rightarrow> []) Finished)
      else replying ch (dl_msgno msg) (dl_payload msg) Finished)"

fun push_all :: "u32 \<Rightarrow> bytes list \<Rightarrow> task" where
  "push_all ch [] = Finished"
| "push_all ch (m # ms) = or_return (responder_request ch m) (push_all ch ms)"

definition number_field :: "bytes list \<Rightarrow> nat" where
  "number_field parts = (case parts of [] \<Rightarrow> 0 | value # _ \<Rightarrow> (case parse_below (2 ^ 64) value of Some n \<Rightarrow> n | None \<Rightarrow> 0))"

text \<open>The request is \<open><anything>,<block size>,<block count>\<close>.\<close>

definition blocks_asked :: "bytes \<Rightarrow> nat \<times> nat" where
  "blocks_asked payload =
     (let parts = drop 1 (split_str '','' [] (from_utf8_lossy payload)) in (number_field parts, number_field (drop 1 parts)))"

definition send_blocks :: "u32 \<Rightarrow> delivered \<Rightarrow> task" where
  "send_blocks ch msg =
     (let (block_size, block_count) = blocks_asked (dl_payload msg);
          block = take (min block_size 4096) bulk_payload
      in answering ch (dl_msgno msg) (replicate block_count block) (finishing ch (dl_msgno msg) Finished))"

definition file_blocks :: "bytes \<Rightarrow> bytes list" where
  "file_blocks contents =
     map (\<lambda>i. let start = i * FILE_BLOCK; stop = min (start + FILE_BLOCK) (length contents) in take (stop - start) (drop start contents))
       [0 ..< (length contents + FILE_BLOCK - 1) div FILE_BLOCK]"

definition send_file :: "(bytes \<Rightarrow> bytes option) \<Rightarrow> u32 \<Rightarrow> delivered \<Rightarrow> task" where
  "send_file read ch msg =
     (let request = from_utf8_lossy (dl_payload msg) in
      if request = ''change-mss'' then replying ch (dl_msgno msg) (dl_payload msg) Finished
      else case read request of
        None \<Rightarrow> ignoring (responder_error ch (dl_msgno msg) ''Unable to open file requested'') Finished
      | Some contents \<Rightarrow> answering ch (dl_msgno msg) (file_blocks contents) (finishing ch (dl_msgno msg) Finished))"

definition simple_ans_nul :: "u32 \<Rightarrow> delivered \<Rightarrow> task" where
  "simple_ans_nul ch msg =
     (if starts_with (dl_payload msg) ''window_size=''
      then let sz = drop (length ''window_size='') (dl_payload msg);
               sz = (case (if utf8_valid sz then parse_below (2 ^ 32) sz else None) of Some n \<Rightarrow> n | None \<Rightarrow> 4096)
           in ignoring (responder_set_window_size ch (of_nat sz)) (replying ch (dl_msgno msg) ''ok'' Finished)
      else answering_all ch (dl_msgno msg) (replicate SIMPLE_ANS_COUNT (dl_payload msg))
             (finishing ch (dl_msgno msg) Finished))"

fun answering_slowly :: "u32 \<Rightarrow> u32 \<Rightarrow> nat \<Rightarrow> bytes list \<Rightarrow> task \<Rightarrow> task" where
  "answering_slowly ch msgno index [] t = t"
| "answering_slowly ch msgno index (a # as) t =
     ignoring (responder_answer ch msgno a) (Sleep (130 + 10 * index) (answering_slowly ch msgno (index + 1) as t))"

definition ans_nul_wait :: "u32 \<Rightarrow> delivered \<Rightarrow> task" where
  "ans_nul_wait ch msg =
     answering_slowly ch (dl_msgno msg) 0
       [''this is a test..'', ''this is a test..2'', ''this is a test..3'', ''this is a test..3'']
       (finishing ch (dl_msgno msg) Finished)"

definition mixing_replies :: "nat \<Rightarrow> u32 \<Rightarrow> delivered \<Rightarrow> regression \<Rightarrow> regression \<times> task" where
  "mixing_replies session ch msg w =
     (let current = (case map_of (rg_mixing w) session of Some flag \<Rightarrow> flag | None \<Rightarrow> False) in
      (w\<lparr>rg_mixing := table_insert session (\<not> current) (rg_mixing w)\<rparr>,
       if current then replying ch (dl_msgno msg) ''a reply'' Finished
       else answering_all ch (dl_msgno msg) [''a reply 1'', ''a reply 2''] (finishing ch (dl_msgno msg) Finished)))"

definition close_after_ans_nul :: "u32 \<Rightarrow> delivered \<Rightarrow> task" where
  "close_after_ans_nul ch msg =
     answering ch (dl_msgno msg) (replicate CLOSE_AFTER_ANS_COUNT bulk_payload)
       (finishing ch (dl_msgno msg) (ignoring (responder_close ch) Finished))"

definition close_in_transit :: "u32 \<Rightarrow> delivered \<Rightarrow> task" where
  "close_in_transit ch msg = replying ch (dl_msgno msg) (dl_payload msg) (ignoring (responder_close ch) Finished)"

definition echo_3 :: "u32 \<Rightarrow> delivered \<Rightarrow> task" where
  "echo_3 ch msg =
     replying ch (dl_msgno msg) [] (Sleep 10
       (Together (map (responder_request ch) [''MSG###1###'', ''MSG###2###'', ''MSG###3###'']) Finished))"

definition block_tls_accept :: "peer \<Rightarrow> bytes \<Rightarrow> start \<Rightarrow> regression \<Rightarrow> regression \<times> (error_reply + profile)" where
  "block_tls_accept peer uri st w = (w\<lparr>rg_block_tls := True\<rparr>, Inr (profile_new uri))"

definition take_block_tls :: "regression \<Rightarrow> regression \<times> bool" where
  "take_block_tls w = (w\<lparr>rg_block_tls := False\<rparr>, rg_block_tls w)"

section \<open>The router\<close>

text \<open>
  A handler whole: what the driver asks of it, and the tasks it starts for a message and for a new
  channel of a session.
\<close>

record regression_profile =
  rp_handler :: "regression handler"
  rp_handle :: "nat \<Rightarrow> u32 \<Rightarrow> delivered \<Rightarrow> regression \<Rightarrow> regression \<times> task"
  rp_open :: "u32 \<Rightarrow> task"

definition serving :: "(u32 \<Rightarrow> delivered \<Rightarrow> task) \<Rightarrow> regression_profile" where
  "serving handle =
     \<lparr>rp_handler = default_handler, rp_handle = (\<lambda>session ch msg w. (w, handle ch msg)), rp_open = (\<lambda>ch. Finished)\<rparr>"

definition push_on_open :: "bytes list \<Rightarrow> regression_profile" where
  "push_on_open messages = (serving (\<lambda>ch msg. Finished))\<lparr>rp_open := (\<lambda>ch. push_all ch messages)\<rparr>"

definition mixing_profile :: regression_profile where
  "mixing_profile = (serving (\<lambda>ch msg. Finished))\<lparr>rp_handle := mixing_replies\<rparr>"

definition deny_profile :: regression_profile where
  "deny_profile = (serving (\<lambda>ch msg. Finished))
     \<lparr>rp_handler := refusing_handler \<lparr>ar_code = SERVICE_NOT_AVAILABLE, ar_text = Some ''channel refused on purpose''\<rparr>\<rparr>"

definition block_tls_profile :: regression_profile where
  "block_tls_profile = (serving (\<lambda>ch msg. Finished))\<lparr>rp_handler := default_handler\<lparr>ha_accept := block_tls_accept\<rparr>\<rparr>"

definition regression_profiles :: "(bytes \<Rightarrow> bytes option) \<Rightarrow> (bytes, regression_profile) table" where
  "regression_profiles read =
     fold (\<lambda>(uri, p). table_insert uri p)
       [(ECHO, serving echo),
        (ZERO, serving echo),
        (ANS_NUL_REPLY_CLOSE, push_on_open [''message 1'']),
        (FAST_SEND, push_on_open [''message 1'', ''message 2'']),
        (BLOCKS, serving send_blocks),
        (FILES, serving (send_file read)),
        (SIMPLE_ANS_NUL, serving simple_ans_nul),
        (ANS_NUL_WAIT, serving ans_nul_wait),
        (MIXING_REPLIES, mixing_profile),
        (CLOSE_AFTER_ANS_NUL, serving close_after_ans_nul),
        (CLOSE_IN_TRANSIT, serving close_in_transit),
        (ECHO_2, serving echo),
        (ECHO_3, serving echo_3),
        (DENY_SUPPORTED, deny_profile),
        (BLOCK_TLS, block_tls_profile)]
       []"

definition regression_router :: "(bytes \<Rightarrow> bytes option) \<Rightarrow> regression router" where
  "regression_router read = map (\<lambda>(uri, p). (uri, rp_handler p)) (regression_profiles read)"

section \<open>What a task does\<close>

text \<open>
  The calls a task makes when its i-th is answered with \<open>h i\<close>, and what they say on a channel in
  reply to one message.
\<close>

primrec carried :: "(nat \<Rightarrow> answer) \<Rightarrow> task \<Rightarrow> nat \<Rightarrow> (caller \<Rightarrow> command) list" where
  "carried h Finished = (\<lambda>i. [])"
| "carried h (Call cmd rest) = (\<lambda>i. cmd # carried h (rest (h i)) (i + 1))"
| "carried h (Together cmds t) = (\<lambda>i. cmds @ carried h t (i + length cmds))"
| "carried h (Sleep ms t) = carried h t"

fun said_by :: "u32 \<Rightarrow> u32 \<Rightarrow> command \<Rightarrow> (frame_kind \<times> bytes) list" where
  "said_by ch m (command.Send ch' kind m' ansno payload c) = (if ch' = ch \<and> m' = m then [(kind, payload)] else [])"
| "said_by ch m _ = []"

definition said :: "u32 \<Rightarrow> u32 \<Rightarrow> (caller \<Rightarrow> command) list \<Rightarrow> (frame_kind \<times> bytes) list" where
  "said ch m cmds = concat (map (\<lambda>cmd. said_by ch m (cmd 0)) cmds)"

lemma said_simps [simp]:
  "said ch m [] = []"
  "said ch m (cmd # cmds) = said_by ch m (cmd 0) @ said ch m cmds"
  "said ch m (cmds @ cmds') = said ch m cmds @ said ch m cmds'"
  by (simp_all add: said_def)

lemmas responder_defs = responder_reply_def responder_error_def responder_answer_def responder_finish_def
  responder_request_def responder_close_def responder_set_window_size_def responder_server_name_def

lemmas task_defs = ignoring_def or_return_def replying_def finishing_def responder_defs

definition granted :: "(nat \<Rightarrow> answer) \<Rightarrow> bool" where
  "granted h \<longleftrightarrow> (\<forall>i. call_ok (h i))"

lemma granted_ok [simp]: "granted h \<Longrightarrow> call_ok (h i)"
  by (simp add: granted_def)

lemma said_answering [simp]:
  "granted h \<Longrightarrow> said ch m (carried h (answering ch m as t) i) = map (Pair Ans) as @ said ch m (carried h t (i + length as))"
  by (induction as arbitrary: i) (simp_all add: task_defs)

lemma said_answering_all [simp]:
  "said ch m (carried h (answering_all ch m as t) i) = map (Pair Ans) as @ said ch m (carried h t (i + length as))"
  by (induction as arbitrary: i) (simp_all add: task_defs)

lemma said_answering_slowly [simp]:
  "said ch m (carried h (answering_slowly ch m index as t) i) = map (Pair Ans) as @ said ch m (carried h t (i + length as))"
  by (induction as arbitrary: i index) (simp_all add: task_defs)

text \<open>A call that fails ends the transfer: what was said is a beginning of it, and nothing ends it.\<close>

lemma answering_cut:
  assumes "\<forall>j < k. call_ok (h (i + j))" and "\<not> call_ok (h (i + k))" and "k < length as"
  shows "said ch m (carried h (answering ch m as t) i) = map (Pair Ans) (take (k + 1) as)"
  using assms
proof (induction as arbitrary: i k)
  case (Cons a as)
  show ?case
  proof (cases k)
    case 0
    with Cons.prems show ?thesis by (simp add: task_defs)
  next
    case (Suc k')
    have "call_ok (h i)" using Cons.prems(1) Suc by (metis add.right_neutral zero_less_Suc)
    moreover have "said ch m (carried h (answering ch m as t) (i + 1)) = map (Pair Ans) (take (k' + 1) as)"
      using Cons.prems Suc by (intro Cons.IH) (auto dest: spec [of _ "Suc _"])
    ultimately show ?thesis using Suc by (simp add: task_defs)
  qed
qed simp

text \<open>Numbers written in decimal are read as they were written.\<close>

lemma digit_graphic: "is_ascii_digit c \<Longrightarrow> graphic c \<and> c \<noteq> CHR ''+'' \<and> c \<noteq> CHR '','' \<and> octet_in 0 0x7F c"
  by (auto simp: is_ascii_digit_def graphic_def octet_in_def)

lemma parse_below_dec: "int n < bound \<Longrightarrow> parse_below bound (dec n) = Some n"
proof -
  assume "int n < bound"
  moreover have "\<forall>c \<in> set (dec n). graphic c \<and> c \<noteq> CHR ''+''" using dec_digits digit_graphic by blast
  then have "str_trim (dec n) = dec n" "hd (dec n) \<noteq> CHR ''+''"
    using trim_graphic(1) [of "dec n"] hd_in_set [OF dec_not_Nil, of n] graphic_ends [of "dec n"] by simp_all
  moreover from this(2) have "(case dec n of [] \<Rightarrow> dec n | c # cs \<Rightarrow> if c = CHR ''+'' then cs else dec n) = dec n"
    by (cases "dec n") simp_all
  ultimately show ?thesis using dec_digits [of n] by (simp add: parse_below_def Let_def)
qed

lemma blocks_asked_dec:
  assumes "utf8_valid x" and "CHR '','' \<notin> set x" and "int a < 2 ^ 64" and "int b < 2 ^ 64"
  shows "blocks_asked (x @ CHR '','' # dec a @ CHR '','' # dec b) = (a, b)"
proof -
  have plain: "CHR '','' \<notin> set (dec n)" "\<forall>c \<in> set (dec n). octet_in 0 0x7F c" for n using dec_digits digit_graphic by blast+
  then have "utf8_valid (CHR '','' # dec a @ CHR '','' # dec b)" by (intro utf8_valid_ascii) (auto simp: octet_in_def)
  with assms(1) have "utf8_valid (x @ CHR '','' # dec a @ CHR '','' # dec b)" by (rule utf8_valid_append)
  with plain(1) assms(2) have "split_str '','' [] (from_utf8_lossy (x @ CHR '','' # dec a @ CHR '','' # dec b)) = [x, dec a, dec b]"
    by (simp add: lossy_id split_str_none split_str_comma)
  then show ?thesis using assms(3,4) by (simp add: blocks_asked_def number_field_def parse_below_dec)
qed

section \<open>Every message is answered, once\<close>

text \<open>What makes up one reply, and what it is to whoever asked.\<close>

fun reply_made :: "(frame_kind \<times> bytes) list \<Rightarrow> reply_shape option" where
  "reply_made [(Rpy, p)] = Some (ReplyRpy p)"
| "reply_made [(Err, p)] = Some (ReplyErr p)"
| "reply_made ms =
     (if ms \<noteq> [] \<and> last ms = (Nul, []) \<and> (\<forall>x \<in> set (butlast ms). fst x = Ans) then Some (ReplyAnswers (map snd (butlast ms))) else None)"

lemma reply_made_answers [simp]: "reply_made (map (Pair Ans) as @ [(Nul, [])]) = Some (ReplyAnswers as)"
  by (cases as rule: list.exhaust; cases "tl as") (auto simp: comp_def)

lemma reply_made_replicate [simp]: "reply_made (replicate n (Ans, a) @ [(Nul, [])]) = Some (ReplyAnswers (replicate n a))"
  using reply_made_answers [of "replicate n a"] by (simp only: map_replicate)

lemma reply_made_cases:
  assumes "reply_made ms = Some r"
  obtains (rpy) p where "ms = [(Rpy, p)]" "r = ReplyRpy p"
  | (err) p where "ms = [(Err, p)]" "r = ReplyErr p"
  | (answers) as where "ms = map (Pair Ans) as @ [(Nul, [])]" "r = ReplyAnswers as"
proof (cases "\<exists>p. ms = [(Rpy, p)] \<or> ms = [(Err, p)]")
  case True
  with assms rpy err show ?thesis by auto
next
  case False
  then have "reply_made ms = (if ms \<noteq> [] \<and> last ms = (Nul, []) \<and> (\<forall>x \<in> set (butlast ms). fst x = Ans)
      then Some (ReplyAnswers (map snd (butlast ms))) else None)"
    by (cases ms rule: reply_made.cases) auto
  with assms have *: "ms \<noteq> []" "last ms = (Nul, [])" "\<forall>x \<in> set (butlast ms). fst x = Ans" "r = ReplyAnswers (map snd (butlast ms))"
    by (auto split: if_splits)
  from *(3) have "butlast ms = map (Pair Ans) (map snd (butlast ms))" by (auto simp: comp_def intro!: map_idI [symmetric])
  with *(1,2) have "ms = map (Pair Ans) (map snd (butlast ms)) @ [(Nul, [])]" by (metis append_butlast_last_id)
  with *(4) answers show ?thesis by blast
qed

text \<open>
  What a profile promises whoever sends it a message: as long as the session takes what it is
  given, the message gets one whole reply, \<open>answer\<close>.
\<close>

locale answering_profile =
  fixes handle :: "u32 \<Rightarrow> delivered \<Rightarrow> task"
    and made :: "(nat \<Rightarrow> answer) \<Rightarrow> delivered \<Rightarrow> reply_shape"
  assumes answers_once: "granted h \<Longrightarrow> reply_made (said ch (dl_msgno msg) (carried h (handle ch msg) 0)) = Some (made h msg)"
begin

text \<open>
  The driver at the other end, which has a caller waiting for the reply, tells that caller exactly
  this and keeps nothing of the request.
\<close>

lemma caller_told:
  assumes "granted h" and "map_of (dr_requests d) (ch, dl_msgno msg) = Some \<lparr>pq_reply = c, pq_answers = []\<rparr>"
  shows "\<exists>d'. fold (\<lambda>(k, p). deliver alive ch (answer_message k (dl_msgno msg) None (with_mime p)))
        (said ch (dl_msgno msg) (carried h (handle ch msg) 0)) d = d' \<and>
      dr_effects d' = dr_effects d @ [Answered c (Replied (made h msg))] \<and> map_of (dr_requests d') (ch, dl_msgno msg) = None"
proof -
  let ?m = "dl_msgno msg"
  from answers_once [OF assms(1), of ch msg] show ?thesis
  proof (cases rule: reply_made_cases)
    case (answers as)
    have "fold (\<lambda>(k, p). deliver alive ch (answer_message k ?m None (with_mime p))) (map (Pair Ans) as) d =
        fold (\<lambda>(a, p). deliver alive ch (answer_message Ans ?m a p)) (map (\<lambda>p. (None, with_mime p)) as) d"
      by (simp add: fold_map comp_def)
    moreover have "map (body_of \<circ> snd) (map (\<lambda>p. (None, with_mime p)) as) = as" by (simp add: comp_def)
    ultimately obtain d1 where "fold (\<lambda>(k, p). deliver alive ch (answer_message k ?m None (with_mime p))) (map (Pair Ans) as) d = d1"
      "dr_effects d1 = dr_effects d" "map_of (dr_requests d1) (ch, ?m) = Some \<lparr>pq_reply = c, pq_answers = as\<rparr>"
      using answers_pile_up [OF assms(2), of alive "map (\<lambda>p. (None, with_mime p)) as"] by auto
    then show ?thesis
      by (simp add: answers deliver_def answer_message_def answer_request_def tell_def cause_def Let_def)
  qed (use assms(2) in \<open>simp_all add: deliver_def answer_message_def answer_request_def tell_def cause_def Let_def\<close>)
qed

end

text \<open>A file arrives whole, and no answer is empty or larger than a block.\<close>

lemma concat_pieces:
  "concat (map (\<lambda>i. take (min (i * b + b) (length xs) - i * b) (drop (i * b) xs)) [0 ..< k]) = take (k * b) xs"
proof (induction k)
  case (Suc k)
  have "take (min (k * b + b) (length xs) - k * b) (drop (k * b) xs) = take b (drop (k * b) xs)"
    by (cases "k * b + b \<le> length xs") (simp_all add: min_def)
  with Suc show ?case by (simp add: take_add add.commute [of b])
qed simp

lemma file_blocks_whole: "concat (file_blocks contents) = contents"
proof -
  have "length contents \<le> (length contents + FILE_BLOCK - 1) div FILE_BLOCK * FILE_BLOCK" by (simp add: FILE_BLOCK_def)
  then show ?thesis by (simp add: file_blocks_def Let_def concat_pieces)
qed

lemma file_blocks_sized: "b \<in> set (file_blocks contents) \<Longrightarrow> b \<noteq> [] \<and> length b \<le> FILE_BLOCK"
  by (auto simp: file_blocks_def Let_def FILE_BLOCK_def)

lemma file_blocks_full:
  assumes "b \<in> set (butlast (file_blocks contents))"
  shows "length b = FILE_BLOCK"
proof -
  let ?n = "(length contents + FILE_BLOCK - 1) div FILE_BLOCK"
  have "butlast [0 ..< n] = [0 ..< n - 1]" for n :: nat by (cases n) simp_all
  with assms obtain i where i: "i < ?n - 1"
    "b = take (min (i * FILE_BLOCK + FILE_BLOCK) (length contents) - i * FILE_BLOCK) (drop (i * FILE_BLOCK) contents)"
    by (auto simp: file_blocks_def Let_def map_butlast [symmetric])
  then have "i * FILE_BLOCK + FILE_BLOCK \<le> length contents" by (simp add: FILE_BLOCK_def)
  with i(2) show ?thesis by simp
qed

lemma bulk_payload_length: "length bulk_payload = 4096"
  by (simp add: bulk_payload_def length_concat sum_list_replicate)

text \<open>The replies of the profiles that answer what they are asked.\<close>

definition echo_reply :: "(nat \<Rightarrow> answer) \<Rightarrow> delivered \<Rightarrow> reply_shape" where
  "echo_reply h msg = ReplyRpy
     (if dl_payload msg = ''GET serverName'' then (case awaited (h 0) of Told (Some nm) \<Rightarrow> nm | _ \<Rightarrow> []) else dl_payload msg)"

definition blocks_reply :: "delivered \<Rightarrow> reply_shape" where
  "blocks_reply msg = ReplyAnswers
     (replicate (snd (blocks_asked (dl_payload msg))) (take (fst (blocks_asked (dl_payload msg))) bulk_payload))"

definition file_reply :: "(bytes \<Rightarrow> bytes option) \<Rightarrow> delivered \<Rightarrow> reply_shape" where
  "file_reply read msg =
     (let request = from_utf8_lossy (dl_payload msg) in
      if request = ''change-mss'' then ReplyRpy (dl_payload msg)
      else case read request of None \<Rightarrow> ReplyErr ''Unable to open file requested''
        | Some contents \<Rightarrow> ReplyAnswers (file_blocks contents))"

definition simple_reply :: "delivered \<Rightarrow> reply_shape" where
  "simple_reply msg =
     (if starts_with (dl_payload msg) ''window_size='' then ReplyRpy ''ok''
      else ReplyAnswers (replicate SIMPLE_ANS_COUNT (dl_payload msg)))"

definition wait_reply :: reply_shape where
  "wait_reply = ReplyAnswers [''this is a test..'', ''this is a test..2'', ''this is a test..3'', ''this is a test..3'']"

definition mixing_turn :: "nat \<Rightarrow> regression \<Rightarrow> bool" where
  "mixing_turn session w \<longleftrightarrow> map_of (rg_mixing w) session = Some True"

definition mixing_reply :: "nat \<Rightarrow> regression \<Rightarrow> reply_shape" where
  "mixing_reply session w =
     (if mixing_turn session w then ReplyRpy ''a reply'' else ReplyAnswers [''a reply 1'', ''a reply 2''])"

lemma said_replying [simp]:
  "said ch m (carried h (replying ch m p t) i) = (Rpy, p) # said ch m (carried h t (i + 1))"
  "said ch m (carried h (finishing ch m t) i) = (Nul, []) # said ch m (carried h t (i + 1))"
  by (simp_all add: task_defs)

interpretation echoes: answering_profile echo echo_reply
  by unfold_locales (auto simp: echo_def echo_reply_def responder_defs)

interpretation blocks: answering_profile send_blocks "\<lambda>h. blocks_reply"
  by unfold_locales (simp add: send_blocks_def blocks_reply_def Let_def split_beta bulk_payload_length take_all min_def)

interpretation files: answering_profile "send_file read" "\<lambda>h. file_reply read" for read
  by unfold_locales (simp add: send_file_def file_reply_def Let_def task_defs split: option.split)

interpretation simple: answering_profile simple_ans_nul "\<lambda>h. simple_reply"
  by unfold_locales (simp add: simple_ans_nul_def simple_reply_def Let_def ignoring_def responder_defs)

interpretation slow: answering_profile ans_nul_wait "\<lambda>h msg. wait_reply"
  by unfold_locales (simp add: ans_nul_wait_def wait_reply_def del: answering_slowly.simps)

interpretation mixing: answering_profile "\<lambda>ch msg. snd (mixing_replies session ch msg w)" "\<lambda>h msg. mixing_reply session w" for session w
  by unfold_locales
    (auto simp: mixing_replies_def mixing_reply_def mixing_turn_def Let_def simp del: answering_all.simps split: option.split)

interpretation bulk: answering_profile close_after_ans_nul "\<lambda>h msg. ReplyAnswers (replicate CLOSE_AFTER_ANS_COUNT bulk_payload)"
  by unfold_locales (simp add: close_after_ans_nul_def ignoring_def responder_defs)

interpretation crossing: answering_profile close_in_transit "\<lambda>h msg. ReplyRpy (dl_payload msg)"
  by unfold_locales (simp add: close_in_transit_def ignoring_def responder_defs)

interpretation threefold: answering_profile echo_3 "\<lambda>h msg. ReplyRpy []"
  by unfold_locales (simp add: echo_3_def responder_defs)

section \<open>What the suite relies on\<close>

text \<open>A bulk transfer is as many answers as were asked for, each as long as was asked for, up to the whole text.\<close>

lemma blocks_received:
  assumes "granted h" and "map_of (dr_requests d) (ch, dl_msgno msg) = Some \<lparr>pq_reply = c, pq_answers = []\<rparr>"
    and "dl_payload msg = x @ CHR '','' # dec a @ CHR '','' # dec b" and "utf8_valid x" and "CHR '','' \<notin> set x"
    and "int a < 2 ^ 64" and "int b < 2 ^ 64"
  shows "\<exists>bs d'. fold (\<lambda>(k, p). deliver alive ch (answer_message k (dl_msgno msg) None (with_mime p)))
        (said ch (dl_msgno msg) (carried h (send_blocks ch msg) 0)) d = d' \<and>
      dr_effects d' = dr_effects d @ [Answered c (Replied (ReplyAnswers bs))] \<and>
      length bs = b \<and> (\<forall>p \<in> set bs. p = take a bulk_payload \<and> length p = min a 4096)"
  using blocks.caller_told [OF assms(1,2), of alive]
  by (auto simp: blocks_reply_def assms(3) blocks_asked_dec [OF assms(4-7)] bulk_payload_length min.commute
      intro!: exI [of _ "replicate b (take a bulk_payload)"])

text \<open>\<^verbatim>\<open>/mixing-replies\<close> gives every session its two shapes in turn, whatever the others do.\<close>

fun mixing_run :: "(nat \<times> u32 \<times> delivered) list \<Rightarrow> regression \<Rightarrow> regression" where
  "mixing_run [] w = w"
| "mixing_run ((session, ch, msg) # ms) w = mixing_run ms (fst (mixing_replies session ch msg w))"

lemma mixing_turn_step:
  "mixing_turn s (fst (mixing_replies session ch msg w)) \<longleftrightarrow> (if s = session then \<not> mixing_turn s w else mixing_turn s w)"
  by (auto simp: mixing_replies_def mixing_turn_def Let_def split: option.split)

lemma mixing_alternates:
  "mixing_turn s (mixing_run ms w) \<longleftrightarrow> (mixing_turn s w \<noteq> odd (length (filter (\<lambda>m. fst m = s) ms)))"
  by (induction ms w rule: mixing_run.induct) (auto simp: mixing_turn_step)

text \<open>
  Opening a channel on \<^verbatim>\<open>/block-tls\<close> costs the next attempt to tune, on any session, and only
  that one.
\<close>

lemma tls_blocked_once:
  assumes "block_tls_accept peer uri st w = (w1, r)" and "take_block_tls w1 = (w2, first)" and "take_block_tls w2 = (w3, again)"
  shows "r = Inr (profile_new uri) \<and> first \<and> \<not> again"
  using assms by (auto simp: block_tls_accept_def take_block_tls_def)

lemmas regression_uris = ECHO_def ZERO_def ANS_NUL_REPLY_CLOSE_def FAST_SEND_def BLOCKS_def FILES_def SIMPLE_ANS_NUL_def
  ANS_NUL_WAIT_def MIXING_REPLIES_def CLOSE_AFTER_ANS_NUL_def CLOSE_IN_TRANSIT_def ECHO_2_def ECHO_3_def DENY_SUPPORTED_def
  BLOCK_TLS_def

text \<open>What is served; a profile the suite calls \<^verbatim>\<open>/deny\<close> is not.\<close>

lemma regression_router_serves:
  "serves (regression_router read) uri \<longleftrightarrow> uri \<in> {ECHO, ZERO, ANS_NUL_REPLY_CLOSE, FAST_SEND, BLOCKS, FILES, SIMPLE_ANS_NUL,
     ANS_NUL_WAIT, MIXING_REPLIES, CLOSE_AFTER_ANS_NUL, CLOSE_IN_TRANSIT, ECHO_2, ECHO_3, DENY_SUPPORTED, BLOCK_TLS}"
proof -
  have "serves (regression_router read) uri \<longleftrightarrow> map_of (regression_profiles read) uri \<noteq> None"
    unfolding serves_def regression_router_def by (simp add: map_of_map)
  then show ?thesis by (auto simp: regression_profiles_def)
qed

lemma deny_unserved: "\<not> serves (regression_router read) ''http://iana.org/beep/transient/vortex-regression/deny''"
  by (simp add: regression_router_serves regression_uris)

text \<open>The profile the module's documentation has left out is served as well.\<close>

lemma reply_close_served:
  "serves (regression_router read) ANS_NUL_REPLY_CLOSE"
  by (simp add: regression_router_serves)

text \<open>A profile that pushes asks for an answer to each message before it sends the next.\<close>

lemma pushed_in_turn:
  "granted h \<Longrightarrow> map (\<lambda>cmd. cmd c) (carried h (push_all ch messages) i) = map (\<lambda>m. Request ch m c) messages"
  by (induction messages arbitrary: i) (simp_all add: or_return_def responder_request_def)

lemma pushing_stops:
  "\<not> call_ok (h i) \<Longrightarrow> length (carried h (push_all ch messages) i) \<le> 1"
  by (cases messages) (simp_all add: or_return_def)

text \<open>The refusing profile is advertised, and no channel of it is ever agreed to.\<close>

lemma deny_refuses:
  "map_of (regression_profiles read) DENY_SUPPORTED = Some deny_profile"
  "ha_accept (rp_handler deny_profile) peer uri st w =
     (w, Inl (error_reply_with_text (error_reply_new SERVICE_NOT_AVAILABLE) ''channel refused on purpose'' None))"
  by (simp_all add: regression_profiles_def deny_profile_def serving_def refusing_handler_def refusing_accept_def regression_uris)

section \<open>Properties\<close>

text \<open>
  C40 (functional). A file served: the caller of one request to the file profile is told the whole
  reply, once, and the request is forgotten, as long as the session takes what the profile gives
  it. A request to change the segment size comes back as it was; a file that cannot be read is
  refused with an error; any other is answered block by block, and the answers put together are
  the file, none of them empty or larger than a block and only the last one smaller. The octets
  of a reply are those each call was given, carried in order with their entity headers.
\<close>

theorem files_served:
  assumes "granted h" and "map_of (dr_requests d) (ch, dl_msgno msg) = Some \<lparr>pq_reply = c, pq_answers = []\<rparr>"
  shows "\<exists>d' r. fold (\<lambda>(k, p). deliver alive ch (answer_message k (dl_msgno msg) None (with_mime p)))
        (said ch (dl_msgno msg) (carried h (send_file read ch msg) 0)) d = d' \<and>
      dr_effects d' = dr_effects d @ [Answered c (Replied r)] \<and> map_of (dr_requests d') (ch, dl_msgno msg) = None \<and>
      (if from_utf8_lossy (dl_payload msg) = ''change-mss'' then r = ReplyRpy (dl_payload msg)
       else case read (from_utf8_lossy (dl_payload msg)) of
         None \<Rightarrow> r = ReplyErr ''Unable to open file requested''
       | Some contents \<Rightarrow> \<exists>bs. r = ReplyAnswers bs \<and> concat bs = contents \<and>
           (\<forall>b \<in> set bs. b \<noteq> [] \<and> length b \<le> FILE_BLOCK) \<and> (\<forall>b \<in> set (butlast bs). length b = FILE_BLOCK))"
proof -
  have "if from_utf8_lossy (dl_payload msg) = ''change-mss'' then file_reply read msg = ReplyRpy (dl_payload msg)
     else case read (from_utf8_lossy (dl_payload msg)) of
         None \<Rightarrow> file_reply read msg = ReplyErr ''Unable to open file requested''
       | Some contents \<Rightarrow> file_reply read msg = ReplyAnswers (file_blocks contents)"
    by (simp add: file_reply_def Let_def split: option.split)
  with files.caller_told [OF assms, of alive read] show ?thesis
    using file_blocks_whole file_blocks_sized file_blocks_full by (fastforce split: if_splits option.splits)
qed

text \<open>A file of one block and nine hundred and four octets more, asked for by the caller 7 on channel 3.\<close>

theorem files_served_witness:
  "\<exists>(d :: unit driver) d' bs. fold (\<lambda>(k, p). deliver True 3 (answer_message k 0 None (with_mime p)))
        (said 3 0 (carried (\<lambda>i. Ok)
          (send_file (\<lambda>path. if path = ''a.txt'' then Some (replicate 5000 CHR ''x'') else None) 3
            \<lparr>dl_kind = Msg, dl_msgno = 0, dl_ansno = None, dl_payload = ''a.txt''\<rparr>) 0)) d = d' \<and>
      dr_effects d' = dr_effects d @ [Answered 7 (Replied (ReplyAnswers bs))] \<and> concat bs = replicate 5000 CHR ''x'' \<and>
      (\<forall>b \<in> set bs. b \<noteq> [] \<and> length b \<le> FILE_BLOCK)"
proof -
  let ?d = "driver_new (config_new Listener) router_new 1 0 ()\<lparr>dr_requests := [((3, 0), \<lparr>pq_reply = 7, pq_answers = []\<rparr>)]\<rparr> :: unit driver"
  let ?msg = "\<lparr>dl_kind = Msg, dl_msgno = 0, dl_ansno = None, dl_payload = ''a.txt''\<rparr>"
  have "granted (\<lambda>i. Ok)" by (simp add: granted_def call_ok_def awaited_def)
  moreover have "map_of (dr_requests ?d) (3, dl_msgno ?msg) = Some \<lparr>pq_reply = 7, pq_answers = []\<rparr>" by simp
  ultimately have "\<exists>d' r. fold (\<lambda>(k, p). deliver True 3 (answer_message k 0 None (with_mime p)))
        (said 3 0 (carried (\<lambda>i. Ok) (send_file (\<lambda>path. if path = ''a.txt'' then Some (replicate 5000 CHR ''x'') else None) 3 ?msg) 0)) ?d = d' \<and>
      dr_effects d' = dr_effects ?d @ [Answered 7 (Replied r)] \<and>
      (\<exists>bs. r = ReplyAnswers bs \<and> concat bs = replicate 5000 CHR ''x'' \<and> (\<forall>b \<in> set bs. b \<noteq> [] \<and> length b \<le> FILE_BLOCK))"
    using files_served [of "\<lambda>i. Ok" ?d 3 ?msg 7 True "\<lambda>path. if path = ''a.txt'' then Some (replicate 5000 CHR ''x'') else None"]
    by (auto simp: lossy_id octet_in_def)
  then show ?thesis by blast
qed

end
