(* ===== verification/Spec2Isabelle.thy ===== *)
theory Spec2Isabelle
  imports SessionHistory DriverReplies DriverIdentity HttpUpgrade TlsTuning SuiteLocks ClientRuns RegressionProfiles
begin

text \<open>
  Vortice is an implementation of BEEP (RFC 3080 and 3081): peers exchange greetings over a byte
  stream, open numbered channels by messages on channel 0, and on each channel send messages that
  are answered in order, cut into frames that fit the window the receiver advertises. The program
  is layered, and so is the development.

  \<^bold>\<open>The sans-I/O core\<close> (\<^verbatim>\<open>src/vortice-proto/src\<close>) is a state machine: octets in, octets and events
  out.

  \<^item> \<^verbatim>\<open>Prelude\<close> holds the types of the source and its treatment of \<open>Result\<close>; \<^verbatim>\<open>Utf8\<close> and \<^verbatim>\<open>Text\<close>
  the parts of \<open>str\<close> the sources call; \<^verbatim>\<open>Errors\<close> is \<^verbatim>\<open>error.rs\<close>.
  \<^item> \<^verbatim>\<open>Frames\<close> is \<^verbatim>\<open>frame.rs\<close> and \<^verbatim>\<open>Codec\<close> is \<^verbatim>\<open>codec.rs\<close>: rendering a frame and decoding octets as they
  arrive. The contract of an incremental decoder is the locale of \<^verbatim>\<open>Incremental\<close>, interpreted on the
  BEEP decoder and on the WebSocket one; from it comes that the cuts of the transport do not matter.
  \<^item> \<^verbatim>\<open>Windows\<close> is \<^verbatim>\<open>window.rs\<close> (sequence numbers modulo \<open>2^32\<close>, windows) and \<^verbatim>\<open>Channels\<close> is \<^verbatim>\<open>channel.rs\<close>:
  cutting a message (\<open>emit\<close>), reassembling it (\<open>accept\<close>), acknowledging it (\<open>consume\<close>), message numbers.
  \<^item> \<^verbatim>\<open>Mime\<close>, \<^verbatim>\<open>Xml\<close>, \<^verbatim>\<open>Base64\<close>, \<^verbatim>\<open>Management\<close> and \<^verbatim>\<open>Greetings\<close> are the files of those names: the messages on
  channel 0, written and read. Readers recurse on the text with a termination proof; the depth limit
  of the source is kept.
  \<^item> \<^verbatim>\<open>Sessions\<close> is \<^verbatim>\<open>session.rs\<close>: the record \<open>session\<close> has the fields of the struct, each method is a function
  that returns the session with its result, and \<open>handle_frame\<close> is the handler with all it calls. About it:
  \<^verbatim>\<open>SessionFlow\<close> (the queue of a channel is a stream; replies leave in order), \<^verbatim>\<open>SessionInput\<close> (cuts of the
  input do not matter), \<^verbatim>\<open>SessionInvariant\<close> (reachable sessions and their books), \<^verbatim>\<open>SessionHistory\<close> (nothing
  written or reported is taken back), \<^verbatim>\<open>SessionFields\<close> (what no operation touches, as locales interpreted
  for three readings of the state), \<^verbatim>\<open>Handshake\<close> and \<^verbatim>\<open>ChannelExchange\<close> (two sessions talking to each other).

  \<^bold>\<open>WebSocket\<close> (\<^verbatim>\<open>src/vortice-ws/src\<close>): \<^verbatim>\<open>WsFrames\<close> (\<^verbatim>\<open>frame.rs\<close>, \<^verbatim>\<open>codec.rs\<close>), \<^verbatim>\<open>WsStreams\<close> (\<^verbatim>\<open>stream.rs\<close>, the
  connection as a byte stream, over any run of calls), \<^verbatim>\<open>WsHandshake\<close> (\<^verbatim>\<open>digest.rs\<close>, \<^verbatim>\<open>handshake.rs\<close>) and \<^verbatim>\<open>WsConnect\<close> (\<^verbatim>\<open>client.rs\<close>,
  \<^verbatim>\<open>server.rs\<close>). A transport is a script of answers to successive calls; an exhausted script is a
  transport that never answers again, so an awaited call is an option.

  \<^bold>\<open>SASL\<close> (\<^verbatim>\<open>src/vortice-sasl/src\<close>): \<^verbatim>\<open>SaslBlobs\<close> (\<^verbatim>\<open>blob.rs\<close>), \<^verbatim>\<open>SaslMechanisms\<close> (\<^verbatim>\<open>mechanism.rs\<close>,
  \<^verbatim>\<open>mechanisms.rs\<close>, \<^verbatim>\<open>cram_md5.rs\<close>), \<^verbatim>\<open>SaslScram\<close>, \<^verbatim>\<open>SaslDigest\<close> and \<^verbatim>\<open>SaslProfile\<close> (the files of those names).
  A mechanism is the pair of its begin and step functions; what all of them promise, that the rounds of an
  exchange they accept are evidence for the identity they accept, by the standard of the mechanism, is a
  locale interpreted on the six of them. The profile's property, over runs in which a message visits the
  table of exchanges twice and other calls come in between, is proved once in it.

  \<^bold>\<open>The driver\<close> (\<^verbatim>\<open>src/vortice/src\<close>) is the task that owns a session: it takes the commands of handles,
  feeds octets, hands events to whoever waits for them and replaces the transport. \<^verbatim>\<open>Routing\<close> is
  \<^verbatim>\<open>error.rs\<close>, \<^verbatim>\<open>channel.rs\<close>, \<^verbatim>\<open>router.rs\<close>, \<^verbatim>\<open>service.rs\<close> and \<^verbatim>\<open>server.rs\<close>; \<^verbatim>\<open>Driver\<close> is \<^verbatim>\<open>connection.rs\<close>, with \<open>pumps\<close>
  and \<open>ends\<close> as the step relations of the loop of \<open>pump\<close>; \<^verbatim>\<open>Tables\<close> is what it needs of a \<open>HashMap\<close>. About
  it: \<^verbatim>\<open>DriverRuns\<close> (every caller is answered once or waiting in one place, as an equation of multisets over
  all runs), \<^verbatim>\<open>DriverWire\<close> (what a transport gets and when; the inner loop ends), \<^verbatim>\<open>DriverReplies\<close> (a request and
  its reply between two drivers; where a caller is left waiting) and \<^verbatim>\<open>DriverIdentity\<close> (who a session is
  authenticated as, with the SASL profile).

  \<^bold>\<open>Around it\<close>. \<^verbatim>\<open>Rewinds\<close> is \<^verbatim>\<open>src/vortice/src/rewind.rs\<close>, with the laws of a byte source as a locale that a
  rewound source satisfies again. \<^verbatim>\<open>HttpUpgrade\<close> is \<^verbatim>\<open>src/vortice-http/src\<close>. \<^verbatim>\<open>TlsProfile\<close> is
  \<^verbatim>\<open>src/vortice-tls/src\<close> (\<^verbatim>\<open>lib.rs\<close>, \<^verbatim>\<open>implicit.rs\<close>, \<^verbatim>\<open>error.rs\<close>) and \<^verbatim>\<open>TlsTuning\<close> the negotiation between two
  drivers, with what is still written in the clear when the acceptance makes an acknowledgement due. \<^verbatim>\<open>SuiteLocks\<close>, \<^verbatim>\<open>ClientRuns\<close> and \<^verbatim>\<open>RegressionProfiles\<close> are \<^verbatim>\<open>src/vortice-interop/src\<close>: the lock between
  processes (\<^verbatim>\<open>lock.rs\<close>), as interleaved steps, with the conditions under which it excludes and the runs
  that show each of them necessary, the verdict on a run of the regression client (\<^verbatim>\<open>lib.rs\<close>), and
  the profiles served to that client (\<^verbatim>\<open>profiles.rs\<close>), as tasks that ask the session for one thing after the
  other; that each message gets one whole reply is a locale interpreted on nine of them.

  \<^bold>\<open>How the code is translated.\<close> A struct is a record, an enum a datatype; a \<open>u32\<close> or \<open>u64\<close> is a word and
  wraps, saturates or is checked as the source says, a \<open>usize\<close> that measures something in memory is a
  natural number. A method on \<open>&mut self\<close> returns the state with its result, also with an error, so
  what an early return leaves behind can be seen. \<open>Result\<close> is a sum with the error on the left. A map
  is a partial function, or an association list with distinct keys where it is drained or listed. A
  \<open>str\<close> is its UTF-8 octets. What the application, a crate or the system answers is an argument: the
  authenticator, the handlers of a router, digests and key derivation, randomness, the transport.

  \<^bold>\<open>How the parts meet.\<close> The session calls the channels, the codec and the management messages; the
  driver calls the session and is the only one to do so; a profile (SASL, TLS) is a handler of the
  router, which the driver asks when a start arrives, and answers in a task of its own, whose sends come
  back to the driver as commands. A WebSocket stream, a rewound transport or a TLS stream stands where
  the driver's transport does: all of them carry octets in order, which is what \<^verbatim>\<open>WsStreams\<close>, \<^verbatim>\<open>Rewinds\<close>
  and \<^verbatim>\<open>DriverWire\<close> show of each.

  \<^bold>\<open>Bounds and termination.\<close> Loops are recursions with a proof that they end: readers on the length of the
  text, sending on the payload left, the driver's inner loop on the weight of the events outstanding
  (only a request of the peer's leads to another event, and that one to none). Two loops have a bound of
  their own as an argument: the search for a free message number takes at most \<open>2^31\<close> rounds, the number
  of message numbers, and \<open>pace\<close>, the exchange of frames and acknowledgements in the property about
  flow control, takes as many rounds as the payload has octets, which the property shows to be enough
  for any window that is not empty. Whether a call awaited on a transport returns is part of the
  statements about it.

  \<^bold>\<open>Assumptions of the model.\<close> Commands reach the driver in the order a turn takes them out of the queue;
  that the queue is bounded only delays a caller. Tasks are not modelled as threads: what a handler does
  comes back as commands, in any order. Where a property is about two ends, what one has written arrives
  as it was written and all at once, which the properties on input and on streams reduce any other
  delivery to. Names of directives and headers are compared as ASCII.

  \<^bold>\<open>Not modelled.\<close> Binding sockets, TCP calls and accept loops; \<open>Display\<close> and \<open>Debug\<close> of errors and logging;
  plain constructors and accessors, which are the record's own; splitting and reuniting the halves of a
  transport; the \<open>Stream\<close> adapter of a channel handle; the backends of TLS (\<^verbatim>\<open>native.rs\<close>,
  \<^verbatim>\<open>rustls_backend.rs\<close>), which configure third-party code; of the interop harness the handling of processes,
  directories and ports; tests, examples, benches and fuzz targets.
\<close>

end
